(* ===== verification/Prelude.thy ===== *)
theory Prelude
  imports Complex_Main "HOL-Library.AList" "HOL-Library.Multiset"
    "HOL-Library.List_Lexorder" "HOL-Library.Char_ord"
begin

text \<open>
  Shared vocabulary of the development: the model of Rust's \<open>HashMap\<close> and
  \<open>String\<close>, the collections of rewrite rules the component proofs use, and generic
  lemmas on association lists, sums over tables and list filters.

  A \<open>HashMap\<close> is an association list with distinct keys. Iteration visits the entries in
  list order. Rust promises no order, so the theorems are either stated for every
  association list or for states in which every map may have been permuted
  (the \<open>reorder\<close> rules of the step relations).
\<close>

named_theorems hm_simps
named_theorems status_simps

declare map_of_eq_Some_iff [simp del] Some_eq_map_of_iff [simp del]

section \<open>Hash maps\<close>

type_synonym ('k, 'v) hashmap = "('k \<times> 'v) list"

abbreviation hm_get :: "('k, 'v) hashmap \<Rightarrow> 'k \<Rightarrow> 'v option" where
  "hm_get \<equiv> map_of"

abbreviation hm_insert :: "'k \<Rightarrow> 'v \<Rightarrow> ('k, 'v) hashmap \<Rightarrow> ('k, 'v) hashmap" where
  "hm_insert \<equiv> AList.update"

abbreviation hm_remove :: "'k \<Rightarrow> ('k, 'v) hashmap \<Rightarrow> ('k, 'v) hashmap" where
  "hm_remove \<equiv> AList.delete"

text \<open>\<open>get_mut\<close> followed by a write, and \<open>entry(k).or_insert(v)\<close> followed by a write.\<close>

abbreviation hm_modify :: "'k \<Rightarrow> ('v \<Rightarrow> 'v) \<Rightarrow> ('k, 'v) hashmap \<Rightarrow> ('k, 'v) hashmap" where
  "hm_modify \<equiv> AList.map_entry"

definition hm_entry :: "'k \<Rightarrow> 'v \<Rightarrow> ('k, 'v) hashmap \<Rightarrow> ('k, 'v) hashmap" where
  "hm_entry k v m = (if map_of m k = None then AList.update k v m else m)"

abbreviation hm_keys :: "('k, 'v) hashmap \<Rightarrow> 'k list" where
  "hm_keys \<equiv> map fst"

abbreviation hm_values :: "('k, 'v) hashmap \<Rightarrow> 'v list" where
  "hm_values \<equiv> map snd"

abbreviation hm_ok :: "('k, 'v) hashmap \<Rightarrow> bool" where
  "hm_ok m \<equiv> distinct (map fst m)"

lemma hm_get_insert [hm_simps]:
  "map_of (AList.update k v m) j = (if j = k then Some v else map_of m j)"
  by (simp add: update_conv')

lemma hm_get_remove [hm_simps]:
  "map_of (AList.delete k m) j = (if j = k then None else map_of m j)"
  by (simp add: delete_conv')

lemma hm_get_modify [hm_simps]:
  "map_of (AList.map_entry k f m) j = (if j = k then map_option f (map_of m k) else map_of m j)"
  by (induction m) auto

lemma hm_get_entry [hm_simps]:
  "map_of (hm_entry k v m) j =
     (if j = k then (case map_of m k of None \<Rightarrow> Some v | Some u \<Rightarrow> Some u) else map_of m j)"
  by (auto simp: hm_entry_def update_conv' split: option.splits)

lemma hm_keys_modify [hm_simps, simp]: "map fst (AList.map_entry k f m) = map fst m"
  by (induction m) auto

lemma hm_ok_insert [simp]: "hm_ok m \<Longrightarrow> hm_ok (AList.update k v m)"
  by (rule distinct_update)

lemma hm_ok_remove [simp]: "hm_ok m \<Longrightarrow> hm_ok (AList.delete k m)"
  by (rule distinct_delete)

lemma hm_ok_entry [simp]: "hm_ok m \<Longrightarrow> hm_ok (hm_entry k v m)"
  by (simp add: hm_entry_def)

lemma hm_keys_set: "set (map fst m) = dom (map_of m)"
  by (simp add: dom_map_of_conv_image_fst)

lemma hm_in_set: "hm_ok m \<Longrightarrow> (k, v) \<in> set m \<longleftrightarrow> map_of m k = Some v"
  by (rule map_of_eq_Some_iff [symmetric])

lemma hm_update_fresh:
  "map_of m k = None \<Longrightarrow> AList.update k v m = m @ [(k, v)]"
  by (induction m) (auto split: if_splits)

lemma hm_update_present:
  "map_of m k \<noteq> None \<Longrightarrow> AList.update k v m = AList.map_entry k (\<lambda>_. v) m"
  by (induction m) (auto split: if_splits)

lemma hm_get_reorder:
  assumes "mset m' = mset m" and "hm_ok m"
  shows "map_of m' = map_of m"
proof -
  have ks: "mset (map fst m') = mset (map fst m)"
    using assms(1) by (metis mset_map)
  then have "hm_ok m'"
    using assms(2) mset_eq_imp_distinct_iff by blast
  moreover have "set m' = set m"
    using assms(1) by (rule mset_eq_setD)
  ultimately show ?thesis
    using assms(2) map_of_inject_set by blast
qed

lemma hm_ok_reorder: "mset m' = mset m \<Longrightarrow> hm_ok m' = hm_ok m"
  by (metis mset_eq_imp_distinct_iff mset_map)

lemma ran_remove_inj:
  assumes "inj_on m (dom m)" and "m t = Some j"
  shows "ran (m(t := None)) = ran m - {j}"
proof (intro set_eqI iffI)
  fix x assume "x \<in> ran (m(t := None))"
  then obtain a where "a \<noteq> t" "m a = Some x" by (auto simp: ran_def split: if_splits)
  with assms show "x \<in> ran m - {j}" by (auto simp: ran_def inj_on_def dom_def)
next
  fix x assume "x \<in> ran m - {j}"
  then obtain a where "m a = Some x" "x \<noteq> j" by (auto simp: ran_def)
  with assms(2) have "(m(t := None)) a = Some x" by auto
  then show "x \<in> ran (m(t := None))" by (rule ranI)
qed

section \<open>Sums over a table\<close>

definition hm_sum :: "('k \<Rightarrow> 'v \<Rightarrow> 'a::comm_monoid_add) \<Rightarrow> ('k, 'v) hashmap \<Rightarrow> 'a" where
  "hm_sum f m = sum_list (map (\<lambda>(k, v). f k v) m)"

lemma hm_sum_simps [simp]:
  "hm_sum f [] = 0" "hm_sum f ((k, v) # m) = f k v + hm_sum f m"
  "hm_sum f (m @ m') = hm_sum f m + hm_sum f m'"
  by (simp_all add: hm_sum_def)

lemma hm_sum_modify:
  "hm_ok m \<Longrightarrow> map_of m k = Some v \<Longrightarrow>
   hm_sum f (AList.map_entry k g m) + f k v = hm_sum f m + f k (g v)"
  by (induction m) (auto simp: map_of_eq_None_iff ac_simps split: if_splits)

lemma hm_sum_modify_same:
  "(\<And>v. map_of m k = Some v \<Longrightarrow> f k (g v) = f k v) \<Longrightarrow>
   hm_sum f (AList.map_entry k g m) = hm_sum f m"
  by (induction m) (auto split: if_splits)

lemma hm_sum_insert_fresh:
  "map_of m k = None \<Longrightarrow> hm_sum f (AList.update k v m) = hm_sum f m + f k v"
  by (simp add: hm_update_fresh)

lemma hm_sum_entry: "f k v = 0 \<Longrightarrow> hm_sum f (hm_entry k v m) = hm_sum f m"
  by (simp add: hm_entry_def hm_sum_insert_fresh)

lemma hm_sum_remove:
  "hm_ok m \<Longrightarrow> map_of m k = Some v \<Longrightarrow>
   hm_sum f (AList.delete k m) + f k v = hm_sum f m"
  by (induction m) (auto simp: map_of_eq_None_iff ac_simps)

lemma hm_sum_cong:
  assumes "\<And>k v. map_of m k = Some v \<Longrightarrow> f k v = g k v" and "hm_ok m"
  shows "hm_sum f m = hm_sum g m"
proof -
  have "map (\<lambda>(k, v). f k v) m = map (\<lambda>(k, v). g k v) m"
  proof (rule map_cong [OF refl])
    fix p assume "p \<in> set m"
    then have "map_of m (fst p) = Some (snd p)"
      using hm_in_set [OF assms(2), of "fst p" "snd p"] by simp
    then show "(case p of (k, v) \<Rightarrow> f k v) = (case p of (k, v) \<Rightarrow> g k v)"
      using assms(1) by (simp add: case_prod_unfold)
  qed
  then show ?thesis unfolding hm_sum_def by (rule arg_cong)
qed

lemma hm_sum_split:
  "hm_ok m \<Longrightarrow> map_of m k = Some v \<Longrightarrow>
   hm_sum f m = f k v + hm_sum (\<lambda>j u. if j = k then 0 else f j u) m"
proof (induction m)
  case (Cons p m)
  obtain j u where p: "p = (j, u)" by (cases p)
  show ?case
  proof (cases "j = k")
    case True
    then have "map_of m k = None" using Cons.prems(1) by (simp add: p map_of_eq_None_iff)
    then have "hm_sum (\<lambda>j u. if j = k then 0 else f j u) m = hm_sum f m"
      using Cons.prems(1) by (intro hm_sum_cong) (auto simp: p)
    with True Cons.prems show ?thesis by (simp add: p)
  next
    case False
    then have "hm_sum f m = f k v + hm_sum (\<lambda>j u. if j = k then 0 else f j u) m"
      using Cons by (simp add: p)
    then have "hm_sum f (p # m) = f j u + (f k v + hm_sum (\<lambda>j u. if j = k then 0 else f j u) m)"
      by (simp add: p)
    with False show ?thesis by (simp only: p hm_sum_simps if_False add.left_commute)
  qed
qed simp

lemma hm_sum_dom:
  "hm_ok m \<Longrightarrow> hm_sum f m = (\<Sum>k\<in>dom (map_of m). f k (the (map_of m k)))"
proof (induction m)
  case (Cons p m)
  obtain k v where p: "p = (k, v)" by (cases p)
  with Cons.prems have k: "k \<notin> dom (map_of m)" "hm_ok m"
    by (auto simp: dom_map_of_conv_image_fst)
  have fin: "finite (dom (map_of m))" by (rule finite_dom_map_of)
  have dom: "dom (map_of (p # m)) = insert k (dom (map_of m))" by (auto simp: p)
  have rest: "(\<Sum>j\<in>dom (map_of m). f j (the (map_of (p # m) j))) =
      (\<Sum>j\<in>dom (map_of m). f j (the (map_of m j)))"
    using k(1) by (intro sum.cong) (auto simp: p)
  show ?case
    unfolding dom sum.insert [OF fin k(1)] rest Cons.IH [OF k(2), symmetric] by (simp add: p)
qed simp

lemma hm_sum_mono:
  fixes f :: "'k \<Rightarrow> 'v \<Rightarrow> nat"
  assumes "hm_ok m" "hm_ok m'" "dom (map_of m') = dom (map_of m)"
    and "\<And>k v v'. map_of m k = Some v \<Longrightarrow> map_of m' k = Some v' \<Longrightarrow> f k v' \<le> f k v"
  shows "hm_sum f m' \<le> hm_sum f m"
  unfolding hm_sum_dom [OF assms(1)] hm_sum_dom [OF assms(2)] assms(3)
proof (rule sum_mono)
  fix k assume k: "k \<in> dom (map_of m)"
  then have "k \<in> dom (map_of m')" using assms(3) by simp
  with k obtain v v' where "map_of m k = Some v" "map_of m' k = Some v'" by blast
  with assms(4) show "f k (the (map_of m' k)) \<le> f k (the (map_of m k))" by simp
qed

lemma hm_sum_reorder: "mset m' = mset m \<Longrightarrow> hm_sum f m' = hm_sum f m"
  unfolding hm_sum_def by (metis mset_map sum_mset_sum_list)

lemma hm_sum_mono_le:
  fixes f :: "'k \<Rightarrow> 'v \<Rightarrow> nat"
  shows "map_of m k = Some v \<Longrightarrow> f k v \<le> hm_sum f m"
  by (induction m) (auto split: if_splits)

lemma hm_sum_eq_0_iff:
  fixes f :: "'k \<Rightarrow> 'v \<Rightarrow> nat"
  shows "hm_ok m \<Longrightarrow> hm_sum f m = 0 \<longleftrightarrow> (\<forall>k v. map_of m k = Some v \<longrightarrow> f k v = 0)"
  by (auto simp: hm_sum_def hm_in_set[symmetric])

section \<open>Lists\<close>

lemma find_Some_mem: "List.find P xs = Some x \<Longrightarrow> x \<in> set xs \<and> P x"
  by (auto simp: find_Some_iff)

lemma list_all2_left: "list_all2 P xs ys \<Longrightarrow> x \<in> set xs \<Longrightarrow> \<exists>y\<in>set ys. P x y"
  by (induction rule: list_all2_induct) auto

lemma list_all2_right: "list_all2 P xs ys \<Longrightarrow> y \<in> set ys \<Longrightarrow> \<exists>x\<in>set xs. P x y"
  by (induction rule: list_all2_induct) auto

end
