(* ===== verification/Domain.thy ===== *)
theory Domain
  imports Prelude
begin

text \<open>
  The crate \<open>argunix-domain\<close>: row identifiers, job and evaluation statuses with their
  string form in the database, and the validated newtypes (slug, git sha, builder name,
  builder key, forge kind, image format) with their constructors. Strings are byte lists, as
  Rust's \<open>String\<close> is a sequence of UTF-8 bytes: \<open>length\<close> is \<open>str::len\<close>, and
  \<open>chars\<close> decodes the Unicode scalar values where the source iterates over
  characters.
\<close>

section \<open>Identifiers\<close>

text \<open>\<open>RepoId\<close>, \<open>EvalId\<close>, \<open>JobId\<close>, \<open>BuilderId\<close> wrap an \<open>i64\<close> that only
  the database allocates; no arithmetic is done on them.\<close>

datatype repo_id = RepoId (repo_get: int)
datatype eval_id = EvalId (eval_get: int)
datatype job_id = JobId (job_get: int)
datatype builder_id = BuilderId (builder_get: int)

section \<open>Statuses\<close>

datatype job_status =
    JQueued | JRunning | JCached | JSuccess | JFailure | JCancelled | JInterrupted
  | JSkippedNoBuilder

fun job_as_str :: "job_status \<Rightarrow> string" where
  "job_as_str JQueued = ''queued''"
| "job_as_str JRunning = ''running''"
| "job_as_str JCached = ''cached''"
| "job_as_str JSuccess = ''success''"
| "job_as_str JFailure = ''failure''"
| "job_as_str JCancelled = ''cancelled''"
| "job_as_str JInterrupted = ''interrupted''"
| "job_as_str JSkippedNoBuilder = ''skipped_no_builder''"

fun job_is_terminal :: "job_status \<Rightarrow> bool" where
  "job_is_terminal JCached = True"
| "job_is_terminal JSuccess = True"
| "job_is_terminal JFailure = True"
| "job_is_terminal JCancelled = True"
| "job_is_terminal JSkippedNoBuilder = True"
| "job_is_terminal _ = False"

definition job_is_success :: "job_status \<Rightarrow> bool" where
  "job_is_success s = (s = JCached \<or> s = JSuccess)"

definition job_is_failure :: "job_status \<Rightarrow> bool" where
  "job_is_failure s = (s = JFailure)"

datatype parse_status_error = ParseStatusError string

definition job_from_str :: "string \<Rightarrow> parse_status_error + job_status" where
  "job_from_str s =
     (if s = ''queued'' then Inr JQueued
      else if s = ''running'' then Inr JRunning
      else if s = ''cached'' then Inr JCached
      else if s = ''success'' then Inr JSuccess
      else if s = ''failure'' then Inr JFailure
      else if s = ''cancelled'' then Inr JCancelled
      else if s = ''interrupted'' then Inr JInterrupted
      else if s = ''skipped_no_builder'' then Inr JSkippedNoBuilder
      else Inl (ParseStatusError s))"

datatype eval_status =
    EQueued | EEvaluating | EEvaluationFailed | EBuilding | EDone | ECancelled

fun eval_as_str :: "eval_status \<Rightarrow> string" where
  "eval_as_str EQueued = ''queued''"
| "eval_as_str EEvaluating = ''evaluating''"
| "eval_as_str EEvaluationFailed = ''evaluation_failed''"
| "eval_as_str EBuilding = ''building''"
| "eval_as_str EDone = ''done''"
| "eval_as_str ECancelled = ''cancelled''"

fun eval_is_terminal :: "eval_status \<Rightarrow> bool" where
  "eval_is_terminal EEvaluationFailed = True"
| "eval_is_terminal EDone = True"
| "eval_is_terminal ECancelled = True"
| "eval_is_terminal _ = False"

definition eval_from_str :: "string \<Rightarrow> parse_status_error + eval_status" where
  "eval_from_str s =
     (if s = ''queued'' then Inr EQueued
      else if s = ''evaluating'' then Inr EEvaluating
      else if s = ''evaluation_failed'' then Inr EEvaluationFailed
      else if s = ''building'' then Inr EBuilding
      else if s = ''done'' then Inr EDone
      else if s = ''cancelled'' then Inr ECancelled
      else Inl (ParseStatusError s))"

lemma job_status_cases [status_simps]:
  "job_is_terminal s \<longleftrightarrow> s \<in> {JCached, JSuccess, JFailure, JCancelled, JSkippedNoBuilder}"
  by (cases s) auto

lemma eval_status_cases [status_simps]:
  "eval_is_terminal s \<longleftrightarrow> s \<in> {EEvaluationFailed, EDone, ECancelled}"
  by (cases s) auto

lemma job_from_as_str [simp]: "job_from_str (job_as_str s) = Inr s"
  by (cases s) (simp_all add: job_from_str_def)

lemma eval_from_as_str [simp]: "eval_from_str (eval_as_str s) = Inr s"
  by (cases s) (simp_all add: eval_from_str_def)

lemma job_from_str_literals [simp]:
  "job_from_str ''queued'' = Inr JQueued" "job_from_str ''running'' = Inr JRunning"
  "job_from_str ''cached'' = Inr JCached" "job_from_str ''success'' = Inr JSuccess"
  "job_from_str ''failure'' = Inr JFailure" "job_from_str ''cancelled'' = Inr JCancelled"
  "job_from_str ''interrupted'' = Inr JInterrupted"
  "job_from_str ''skipped_no_builder'' = Inr JSkippedNoBuilder"
  by (simp_all add: job_from_str_def)

lemma eval_from_str_literals [simp]:
  "eval_from_str ''queued'' = Inr EQueued" "eval_from_str ''evaluating'' = Inr EEvaluating"
  "eval_from_str ''evaluation_failed'' = Inr EEvaluationFailed"
  "eval_from_str ''building'' = Inr EBuilding" "eval_from_str ''done'' = Inr EDone"
  "eval_from_str ''cancelled'' = Inr ECancelled"
  by (simp_all add: eval_from_str_def)

lemma job_as_from_str: "job_from_str t = Inr s \<Longrightarrow> job_as_str s = t"
  by (auto simp: job_from_str_def split: if_splits)

lemma eval_as_from_str: "eval_from_str t = Inr s \<Longrightarrow> eval_as_str s = t"
  by (auto simp: eval_from_str_def split: if_splits)

lemma job_as_str_inj [simp]: "job_as_str s = job_as_str t \<longleftrightarrow> s = t"
  using job_from_as_str by (metis sum.inject(2))

lemma eval_as_str_inj [simp]: "eval_as_str s = eval_as_str t \<longleftrightarrow> s = t"
  using eval_from_as_str by (metis sum.inject(2))

section \<open>Characters\<close>

text \<open>\<open>str::chars\<close>: the Unicode scalar values of a UTF-8 byte string. Rust strings are always
  well-formed; on other byte lists (overlong or truncated sequences) the function yields the
  replacement character.\<close>

abbreviation byte :: "char \<Rightarrow> nat" where
  "byte c \<equiv> of_char c"

definition scalar :: "nat \<Rightarrow> nat" where
  "scalar v = (if v < 128 then 65533 else v)"

fun chars :: "string \<Rightarrow> nat list" where
  "chars [] = []"
| "chars (a # s) =
     (if byte a < 128 then byte a # chars s
      else if byte a < 224 then
        (case s of b # s' \<Rightarrow> scalar ((byte a - 192) * 64 + (byte b - 128)) # chars s'
         | _ \<Rightarrow> [65533])
      else if byte a < 240 then
        (case s of b # c # s' \<Rightarrow>
           scalar ((byte a - 224) * 4096 + (byte b - 128) * 64 + (byte c - 128)) # chars s'
         | _ \<Rightarrow> [65533])
      else
        (case s of b # c # d # s' \<Rightarrow>
           scalar ((byte a - 240) * 262144 + (byte b - 128) * 4096 + (byte c - 128) * 64
             + (byte d - 128)) # chars s'
         | _ \<Rightarrow> [65533]))"

lemma chars_ascii_iff:
  "(\<forall>v\<in>set (chars s). v < 128) \<longleftrightarrow> (\<forall>c\<in>set s. byte c < (128::nat))"
proof (induction s rule: chars.induct)
  case (2 a s)
  show ?case
  proof (cases "byte a < (128::nat)")
    case True
    then show ?thesis using 2(1) by simp
  next
    case False
    then show ?thesis
      by (auto simp: scalar_def split: list.splits)
  qed
qed simp

lemma chars_ascii: "\<forall>c\<in>set s. byte c < (128::nat) \<Longrightarrow> chars s = map byte s"
  by (induction s) auto

definition is_ascii_digit :: "nat \<Rightarrow> bool" where
  "is_ascii_digit c = (48 \<le> c \<and> c \<le> 57)"

definition is_ascii_alphanumeric :: "nat \<Rightarrow> bool" where
  "is_ascii_alphanumeric c = (is_ascii_digit c \<or> 65 \<le> c \<and> c \<le> 90 \<or> 97 \<le> c \<and> c \<le> 122)"

definition is_ascii_hexdigit :: "nat \<Rightarrow> bool" where
  "is_ascii_hexdigit c = (is_ascii_digit c \<or> 65 \<le> c \<and> c \<le> 70 \<or> 97 \<le> c \<and> c \<le> 102)"

definition is_whitespace :: "nat \<Rightarrow> bool" where
  "is_whitespace c =
     (9 \<le> c \<and> c \<le> 13 \<or> c = 32 \<or> c = 133 \<or> c = 160 \<or> c = 5760 \<or> 8192 \<le> c \<and> c \<le> 8202
      \<or> c = 8232 \<or> c = 8233 \<or> c = 8239 \<or> c = 8287 \<or> c = 12288)"

definition is_control :: "nat \<Rightarrow> bool" where
  "is_control c = (c < 32 \<or> 127 \<le> c \<and> c < 160)"

definition to_ascii_lowercase :: "string \<Rightarrow> string" where
  "to_ascii_lowercase s =
     map (\<lambda>c. if 65 \<le> byte c \<and> byte c \<le> 90 then char_of (byte c + 32) else c) s"

fun trim_end_slash_rev :: "string \<Rightarrow> string" where
  "trim_end_slash_rev [] = []"
| "trim_end_slash_rev (c # s) = (if c = CHR ''/'' then trim_end_slash_rev s else c # s)"

text \<open>\<open>trim_end_matches('/')\<close>, and the decimal form \<open>Display\<close> gives a number.\<close>

definition trim_end_slash :: "string \<Rightarrow> string" where
  "trim_end_slash s = rev (trim_end_slash_rev (rev s))"

fun show_nat :: "nat \<Rightarrow> string" where
  "show_nat n =
     (if n < 10 then [char_of (48 + n)] else show_nat (n div 10) @ [char_of (48 + n mod 10)])"

definition show_int :: "int \<Rightarrow> string" where
  "show_int i = (if i < 0 then CHR ''-'' # show_nat (nat (- i)) else show_nat (nat i))"

declare show_nat.simps [simp del]

text \<open>\<open>str::split(sep)\<close> for one ASCII character.\<close>

fun split_on :: "char \<Rightarrow> string \<Rightarrow> string list" where
  "split_on c [] = [[]]"
| "split_on c (x # xs) =
     (if x = c then [] # split_on c xs
      else (case split_on c xs of y # ys \<Rightarrow> (x # y) # ys | [] \<Rightarrow> [[x]]))"

fun join_with :: "char \<Rightarrow> string list \<Rightarrow> string" where
  "join_with c [] = []"
| "join_with c [s] = s"
| "join_with c (s # ss) = s @ c # join_with c ss"

text \<open>\<open>str::split_once(sep)\<close> and \<open>str::rsplit_once(sep)\<close> for one character.\<close>

fun split_once :: "char \<Rightarrow> string \<Rightarrow> (string \<times> string) option" where
  "split_once c [] = None"
| "split_once c (x # xs) =
     (if x = c then Some ([], xs)
      else map_option (\<lambda>(a, b). (x # a, b)) (split_once c xs))"

definition rsplit_once :: "char \<Rightarrow> string \<Rightarrow> (string \<times> string) option" where
  "rsplit_once c s = map_option (\<lambda>(a, b). (rev b, rev a)) (split_once c (rev s))"

definition starts_with :: "string \<Rightarrow> string \<Rightarrow> bool" where
  "starts_with p s = (take (length p) s = p)"

definition strip_prefix :: "string \<Rightarrow> string \<Rightarrow> string option" where
  "strip_prefix p s = (if starts_with p s then Some (drop (length p) s) else None)"

definition strip_suffix :: "string \<Rightarrow> string \<Rightarrow> string option" where
  "strip_suffix p s = map_option rev (strip_prefix (rev p) (rev s))"

lemma split_on_nonempty [simp]: "split_on c s \<noteq> []"
  by (induction s) (auto split: list.splits)

lemma join_split [simp]: "join_with c (split_on c s) = s"
proof (induction s)
  case (Cons x s)
  then show ?case
    by (cases "split_on c s"; cases "tl (split_on c s)") (auto split: list.splits)
qed simp

lemma split_on_no_sep: "\<forall>p\<in>set (split_on c s). c \<notin> set p"
  by (induction s) (auto split: list.splits)

lemma split_once_Some:
  "split_once c s = Some (a, b) \<longleftrightarrow> s = a @ c # b \<and> c \<notin> set a"
proof (induction s arbitrary: a)
  case (Cons x s)
  show ?case
    by (cases a) (auto simp: Cons.IH)
qed auto

lemma split_once_None: "split_once c s = None \<longleftrightarrow> c \<notin> set s"
  by (induction s) auto

lemma starts_with_iff: "starts_with p s \<longleftrightarrow> (\<exists>t. s = p @ t)"
  by (auto simp: starts_with_def) (metis append_take_drop_id)

lemma starts_with_append [simp]: "starts_with p (p @ s)"
  by (simp add: starts_with_def)

lemma strip_prefix_append [simp]: "strip_prefix p (p @ s) = Some s"
  by (simp add: strip_prefix_def)

end
