(* ===== verification/Names.thy ===== *)
theory Names
  imports Domain
begin

text \<open>
  The validated newtypes of \<open>argunix-domain\<close>: \<open>Slug\<close>, \<open>Sha\<close>, \<open>BuilderName\<close>,
  \<open>BuilderPubkey\<close>, \<open>ForgeKind\<close> with its URL builders, \<open>ImageFormat\<close>, and the
  plain records \<open>BuilderCapabilities\<close> and \<open>DerivationInfo\<close>. Every fallible constructor
  returns the source's error enum on the left.
\<close>

section \<open>Slug\<close>

datatype slug_error = SlugEmpty | MissingSeparator | InvalidSlashes | InvalidSlugChars

datatype slug = Slug (slug_str: string)

fun contains_double_slash :: "string \<Rightarrow> bool" where
  "contains_double_slash (a # b # s) =
     (a = CHR ''/'' \<and> b = CHR ''/'' \<or> contains_double_slash (b # s))"
| "contains_double_slash _ = False"

definition slug_new :: "string \<Rightarrow> slug_error + slug" where
  "slug_new s =
     (if s = [] then Inl SlugEmpty
      else if hd s = CHR ''/'' \<or> last s = CHR ''/'' \<or> contains_double_slash s
        then Inl InvalidSlashes
      else if list_ex (\<lambda>c. is_whitespace c \<or> is_control c) (chars s) then Inl InvalidSlugChars
      else if CHR ''/'' \<notin> set s then Inl MissingSeparator
      else Inr (Slug s))"

definition slug_segments :: "slug \<Rightarrow> string list" where
  "slug_segments s = split_on CHR ''/'' (slug_str s)"

lemma split_on_Cons:
  "split_on c (x # xs) =
     (if x = c then [] # split_on c xs else (x # hd (split_on c xs)) # tl (split_on c xs))"
  using split_on_nonempty [of c xs] by (cases "split_on c xs") auto

lemma split_on_tl_nonempty_iff:
  "s \<noteq> [] \<Longrightarrow>
   (\<forall>p\<in>set (tl (split_on CHR ''/'' s)). p \<noteq> []) \<longleftrightarrow>
   last s \<noteq> CHR ''/'' \<and> \<not> contains_double_slash s"
proof (induction s)
  case (Cons x xs)
  show ?case
  proof (cases xs)
    case Nil
    then show ?thesis by simp
  next
    case (Cons y ys)
    have "split_on CHR ''/'' xs = hd (split_on CHR ''/'' xs) # tl (split_on CHR ''/'' xs)"
      by simp
    then have "set (split_on CHR ''/'' xs) =
        insert (hd (split_on CHR ''/'' xs)) (set (tl (split_on CHR ''/'' xs)))"
      by (metis list.simps(15))
    moreover have "hd (split_on CHR ''/'' xs) = [] \<longleftrightarrow> y = CHR ''/''"
      by (simp add: Cons split_on_Cons del: split_on.simps(2))
    ultimately show ?thesis
      using Cons Cons.IH by (simp add: split_on_Cons del: split_on.simps(2))
  qed
qed simp

lemma slug_segments_nonempty_iff:
  assumes "s \<noteq> []"
  shows "(\<forall>p\<in>set (split_on CHR ''/'' s). p \<noteq> []) \<longleftrightarrow>
    hd s \<noteq> CHR ''/'' \<and> last s \<noteq> CHR ''/'' \<and> \<not> contains_double_slash s"
proof -
  have "set (split_on CHR ''/'' s) =
      insert (hd (split_on CHR ''/'' s)) (set (tl (split_on CHR ''/'' s)))"
    by (metis list.collapse list.simps(15) split_on_nonempty)
  moreover have "hd (split_on CHR ''/'' s) = [] \<longleftrightarrow> hd s = CHR ''/''"
    using assms by (cases s) (simp_all add: split_on_Cons del: split_on.simps(2))
  ultimately show ?thesis
    using split_on_tl_nonempty_iff [OF assms] by auto
qed

lemma length_split_on: "1 < length (split_on c s) \<longleftrightarrow> c \<in> set s"
proof (induction s)
  case (Cons x s)
  then show ?case
    by (cases "split_on c s") (auto split: list.splits)
qed simp

section \<open>Sha\<close>

datatype sha_error = ShaInvalid

datatype sha = Sha (sha_str: string)

definition sha_new :: "string \<Rightarrow> sha_error + sha" where
  "sha_new s =
     (if length s \<noteq> 40 \<or> \<not> list_all is_ascii_hexdigit (chars s) then Inl ShaInvalid
      else Inr (Sha (to_ascii_lowercase s)))"

text \<open>\<open>Sha::short\<close> slices \<open>[..7]\<close>, which panics (\<open>None\<close>) on a shorter string.\<close>

definition sha_short :: "sha \<Rightarrow> string option" where
  "sha_short s = (if 7 \<le> length (sha_str s) then Some (take 7 (sha_str s)) else None)"

lemma lowercase_ascii: "\<forall>c\<in>set s. byte c < (128::nat) \<Longrightarrow>
    \<forall>c\<in>set (to_ascii_lowercase s). byte c < (128::nat)"
  by (auto simp: to_ascii_lowercase_def)

lemma lowercase_idem: "to_ascii_lowercase (to_ascii_lowercase s) = to_ascii_lowercase s"
  by (auto simp: to_ascii_lowercase_def)

lemma length_lowercase [simp]: "length (to_ascii_lowercase s) = length s"
  by (simp add: to_ascii_lowercase_def)

lemma sha_new_chars:
  assumes "list_all is_ascii_hexdigit (chars s)"
  shows "\<forall>c\<in>set s. is_ascii_hexdigit (byte c)"
proof -
  have "\<forall>v\<in>set (chars s). v < 128"
    using assms by (auto simp: list_all_iff is_ascii_hexdigit_def is_ascii_digit_def)
  then have "chars s = map byte s"
    by (simp only: chars_ascii_iff chars_ascii)
  then show ?thesis
    using assms by (auto simp: list_all_iff)
qed

lemma hex_lowercase:
  "is_ascii_hexdigit n \<Longrightarrow> 65 \<le> n \<Longrightarrow> n \<le> 90 \<Longrightarrow> is_ascii_hexdigit (n + 32)"
  by (auto simp: is_ascii_hexdigit_def is_ascii_digit_def)

section \<open>Builder names and keys\<close>

datatype builder_name_error = NameEmpty | NameTooLong | NameInvalidChars

datatype builder_name = BuilderName (bname_str: string)

definition builder_name_char :: "nat \<Rightarrow> bool" where
  "builder_name_char c = (is_ascii_alphanumeric c \<or> c = 45 \<or> c = 95 \<or> c = 46)"

definition builder_name_new :: "string \<Rightarrow> builder_name_error + builder_name" where
  "builder_name_new s =
     (if s = [] then Inl NameEmpty
      else if 64 < length s then Inl NameTooLong
      else if \<not> list_all builder_name_char (chars s) then Inl NameInvalidChars
      else Inr (BuilderName s))"

datatype builder_pubkey_error = WrongLength nat

type_synonym bytes = string

datatype builder_pubkey = BuilderPubkey (pubkey_bytes: bytes)

definition pubkey_from_bytes :: "bytes \<Rightarrow> builder_pubkey_error + builder_pubkey" where
  "pubkey_from_bytes b =
     (if length b \<noteq> 32 then Inl (WrongLength (length b)) else Inr (BuilderPubkey b))"

text \<open>\<open>BuilderCapabilities\<close> (\<open>max_jobs\<close> is a \<open>u32\<close>, compared and never incremented).\<close>

record capabilities =
  cap_systems :: "string list"
  cap_native_system :: string
  cap_features :: "string list"
  cap_max_jobs :: nat
  cap_nix_version :: string

record derivation_info =
  drv_path :: string
  drv_system :: "string option"
  drv_required_features :: "string list"
  drv_input_drvs :: "string list"

section \<open>Forge kinds and image formats\<close>

datatype forge_kind = Github | Gitlab | Forgejo

fun forge_as_str :: "forge_kind \<Rightarrow> string" where
  "forge_as_str Github = ''github''"
| "forge_as_str Gitlab = ''gitlab''"
| "forge_as_str Forgejo = ''forgejo''"

definition pr_url :: "forge_kind \<Rightarrow> string \<Rightarrow> nat \<Rightarrow> string" where
  "pr_url k repo_web_url n =
     (let base = trim_end_slash repo_web_url in
      case k of
        Github \<Rightarrow> base @ ''/pull/'' @ show_nat n
      | Forgejo \<Rightarrow> base @ ''/pulls/'' @ show_nat n
      | Gitlab \<Rightarrow> base @ ''/-/merge_requests/'' @ show_nat n)"

definition branch_url :: "forge_kind \<Rightarrow> string \<Rightarrow> string \<Rightarrow> string" where
  "branch_url k repo_web_url branch =
     (let base = trim_end_slash repo_web_url in
      case k of
        Gitlab \<Rightarrow> base @ ''/-/tree/'' @ branch
      | _ \<Rightarrow> base @ ''/tree/'' @ branch)"

definition commit_url :: "forge_kind \<Rightarrow> string \<Rightarrow> string \<Rightarrow> string" where
  "commit_url k repo_web_url sha =
     (let base = trim_end_slash repo_web_url in
      case k of
        Gitlab \<Rightarrow> base @ ''/-/commit/'' @ sha
      | _ \<Rightarrow> base @ ''/commit/'' @ sha)"

datatype image_format = Docker | Oci

fun image_as_str :: "image_format \<Rightarrow> string" where
  "image_as_str Docker = ''docker''"
| "image_as_str Oci = ''oci''"

fun skopeo_transport :: "image_format \<Rightarrow> string" where
  "skopeo_transport Docker = ''docker-archive''"
| "skopeo_transport Oci = ''oci-archive''"

datatype image_format_error = ImageFormatError string

definition image_from_str :: "string \<Rightarrow> image_format_error + image_format" where
  "image_from_str s =
     (if s = ''docker'' then Inr Docker
      else if s = ''oci'' then Inr Oci
      else Inl (ImageFormatError s))"

section \<open>Properties\<close>

text \<open>a slug is accepted exactly when it splits at slashes into at least two non-empty
  segments and has no whitespace or control character; an accepted slug keeps its text, which is
  its segments joined by slashes again.\<close>

lemma slug_new_iff:
  "(slug_new s = Inr g \<longleftrightarrow>
     g = Slug s \<and> 2 \<le> length (slug_segments (Slug s)) \<and>
     list_all (\<lambda>p. p \<noteq> []) (slug_segments (Slug s)) \<and>
     list_all (\<lambda>c. \<not> is_whitespace c \<and> \<not> is_control c) (chars s)) \<and>
   join_with CHR ''/'' (slug_segments g) = slug_str g"
proof -
  have "2 \<le> length (split_on CHR ''/'' s) \<longleftrightarrow> CHR ''/'' \<in> set s"
    using length_split_on [of "CHR ''/''" s] by linarith
  moreover have "s \<noteq> [] \<Longrightarrow> list_all (\<lambda>p. p \<noteq> []) (split_on CHR ''/'' s) \<longleftrightarrow>
      hd s \<noteq> CHR ''/'' \<and> last s \<noteq> CHR ''/'' \<and> \<not> contains_double_slash s"
    using slug_segments_nonempty_iff by (auto simp: list_all_iff)
  ultimately show ?thesis
    by (cases "s = []") (auto simp: slug_new_def slug_segments_def list_all_iff list_ex_iff)
qed

text \<open>a sha that parses is 40 lower-case hexadecimal characters, parsing its text again
  gives the same sha, and \<open>short\<close> never panics on it but returns its first seven
  characters.\<close>

lemma sha_new_canonical:
  assumes "sha_new s = Inr h"
  shows "length (sha_str h) = 40 \<and> sha_new (sha_str h) = Inr h \<and>
    sha_short h = Some (take 7 (sha_str h)) \<and>
    list_all (\<lambda>c. is_ascii_hexdigit (byte c) \<and> \<not> (65 \<le> byte c \<and> byte c \<le> (90::nat))) (sha_str h)"
proof -
  from assms have len: "length s = 40" and hex: "list_all is_ascii_hexdigit (chars s)"
    and h: "sha_str h = to_ascii_lowercase s"
    by (auto simp: sha_new_def split: if_splits)
  have low: "\<forall>c\<in>set (to_ascii_lowercase s). is_ascii_hexdigit (byte c)"
    using sha_new_chars [OF hex] hex_lowercase by (auto simp: to_ascii_lowercase_def)
  have "chars (to_ascii_lowercase s) = map byte (to_ascii_lowercase s)"
    by (rule chars_ascii) (use low in \<open>auto simp: is_ascii_hexdigit_def is_ascii_digit_def\<close>)
  with low have "list_all is_ascii_hexdigit (chars (to_ascii_lowercase s))"
    by (simp add: list_all_iff)
  then have "sha_new (sha_str h) = Inr h"
    by (cases h) (use h len lowercase_idem in \<open>simp add: sha_new_def\<close>)
  moreover have "\<forall>c\<in>set (sha_str h). \<not> (65 \<le> byte c \<and> byte c \<le> (90::nat))"
    unfolding h to_ascii_lowercase_def by auto
  ultimately show ?thesis
    using h len low by (auto simp: sha_short_def list_all_iff)
qed

lemma sha_new_canonical_witness:
  "sha_new (replicate 40 CHR ''A'') = Inr (Sha (replicate 40 CHR ''a'')) \<and>
   sha_short (Sha (replicate 40 CHR ''a'')) = Some ''aaaaaaa''"
proof -
  have h: "sha_new (replicate 40 CHR ''A'') = Inr (Sha (replicate 40 CHR ''a''))"
    by code_simp
  have "take 7 (replicate 40 CHR ''a'') = ''aaaaaaa''"
    by code_simp
  then show ?thesis
    using h sha_new_canonical [OF h] by simp
qed

end
