(* ===== verification/F64.thy ===== *)
theory F64
  imports Prelude
begin

text \<open>
  IEEE 754 binary64 arithmetic as far as the scheduler's virtual clock uses it: the finite
  non-negative doubles as the rationals they denote, addition and the reciprocal of a
  \<open>u32\<close>, both rounded to nearest with ties to even at 53 bits of significand. The
  clock only ever holds sums of reciprocals of positive \<open>u32\<close> values, so no value is
  subnormal (every reciprocal is above \<open>2^-33\<close>), and overflow to infinity would need a
  value above \<open>2^1023\<close>.
\<close>

type_synonym f64 = rat

fun nbits :: "int \<Rightarrow> nat" where
  "nbits n = (if n \<le> 0 then 0 else Suc (nbits (n div 2)))"

declare nbits.simps [simp del]

definition ilog2 :: "rat \<Rightarrow> int" where
  "ilog2 x =
     (let (p, q) = quotient_of x;
          k = int (nbits p) - int (nbits q)
      in if 2 powi k \<le> x then k else k - 1)"

definition round_half_even :: "rat \<Rightarrow> int" where
  "round_half_even x =
     (let f = \<lfloor>x\<rfloor>; d = x - of_int f in
      if d < 1 / 2 then f else if 1 / 2 < d then f + 1 else if even f then f else f + 1)"

definition round64 :: "rat \<Rightarrow> f64" where
  "round64 x =
     (if x \<le> 0 then 0
      else (let e = ilog2 x - 52 in of_int (round_half_even (x / 2 powi e)) * 2 powi e))"

definition f64_add :: "f64 \<Rightarrow> f64 \<Rightarrow> f64" where
  "f64_add a b = round64 (a + b)"

definition f64_recip :: "nat \<Rightarrow> f64" where
  "f64_recip w = round64 (1 / of_nat w)"

definition is_f64 :: "rat \<Rightarrow> bool" where
  "is_f64 x = (0 \<le> x \<and> round64 x = x)"

section \<open>The exponent\<close>

lemma nbits_bounds: "0 < n \<Longrightarrow> 2 ^ nbits n \<le> 2 * n \<and> n < 2 ^ nbits n"
proof (induction n rule: nbits.induct)
  case (1 n)
  have step: "nbits n = Suc (nbits (n div 2))"
    using 1(2) by (simp add: nbits.simps [of n])
  show ?case
  proof (cases "n = 1")
    case True
    then show ?thesis by (simp add: nbits.simps)
  next
    case False
    then have "2 ^ nbits (n div 2) \<le> 2 * (n div 2)" and "n div 2 < 2 ^ nbits (n div 2)"
      using 1 by auto
    moreover have "2 * (n div 2) \<le> n" and "n \<le> 2 * (n div 2) + 1"
      by linarith+
    ultimately show ?thesis
      unfolding step power_Suc by linarith
  qed
qed

lemma nbits_bounds_rat:
  assumes "0 < n"
  shows "(2::rat) ^ nbits n \<le> 2 * of_int n" and "of_int n < (2::rat) ^ nbits n"
proof -
  have "of_int (2 ^ nbits n) \<le> (of_int (2 * n) :: rat)"
    and "of_int n < (of_int (2 ^ nbits n) :: rat)"
    using nbits_bounds [OF assms] by (simp_all only: of_int_le_iff of_int_less_iff)
  then show "(2::rat) ^ nbits n \<le> 2 * of_int n" and "of_int n < (2::rat) ^ nbits n"
    by simp_all
qed

lemma ilog2_bounds:
  assumes "0 < x"
  shows "2 powi ilog2 x \<le> x" and "x < 2 powi (ilog2 x + 1)"
proof -
  obtain p q where pq: "quotient_of x = (p, q)"
    by (cases "quotient_of x")
  have q: "0 < q" using quotient_of_denom_pos [OF pq] .
  have x: "x = of_int p / of_int q" using quotient_of_div [OF pq] .
  have p: "0 < p" using assms q unfolding x by (simp add: zero_less_divide_iff)
  define a b where "a = nbits p" and "b = nbits q"
  have P: "(2::rat) ^ a \<le> 2 * of_int p" "of_int p < (2::rat) ^ a"
    using nbits_bounds_rat [OF p] by (simp_all add: a_def)
  have Q: "(2::rat) ^ b \<le> 2 * of_int q" "of_int q < (2::rat) ^ b"
    using nbits_bounds_rat [OF q] by (simp_all add: b_def)
  have pw: "2 powi (int a - int b) = (2::rat) ^ a / 2 ^ b"
    by (simp add: power_int_diff)
  have up: "x < 2 * (2 powi (int a - int b))"
  proof -
    have "of_int p * (2::rat) ^ b < 2 ^ a * (2 * of_int q)"
      using P Q p q by (intro mult_less_le_imp_less) auto
    then show ?thesis
      unfolding pw x using q by (simp add: field_simps)
  qed
  have lo: "2 powi (int a - int b) \<le> 2 * x"
  proof -
    have "(2::rat) ^ a * of_int q \<le> (2 * of_int p) * 2 ^ b"
      using P Q p q by (intro mult_mono) auto
    then show ?thesis
      unfolding pw x using q by (simp add: field_simps)
  qed
  have i: "ilog2 x = (if 2 powi (int a - int b) \<le> x then int a - int b else int a - int b - 1)"
    by (simp add: ilog2_def pq a_def b_def Let_def)
  have half: "(2::rat) powi (k - 1) = 2 powi k / 2" "(2::rat) powi (k + 1) = 2 * 2 powi k" for k
    by (simp_all add: power_int_diff power_int_add)
  show "2 powi ilog2 x \<le> x"
    using lo half(1) [of "int a - int b"] by (auto simp: i)
  show "x < 2 powi (ilog2 x + 1)"
    using up half(2) [of "int a - int b"] by (auto simp: i)
qed

lemma powi_mono2: "i \<le> j \<Longrightarrow> (2::rat) powi i \<le> 2 powi j"
  by (rule power_int_increasing) auto

lemma powi_less_imp: "(2::rat) powi i < 2 powi j \<Longrightarrow> i < j"
  using powi_mono2 by (meson leD not_le)

lemma ilog2_unique: "0 < x \<Longrightarrow> 2 powi k \<le> x \<Longrightarrow> x < 2 powi (k + 1) \<Longrightarrow> ilog2 x = k"
  using ilog2_bounds [of x] powi_less_imp [of k "ilog2 x + 1"] powi_less_imp [of "ilog2 x" "k + 1"]
  by linarith

lemma ilog2_mono: "0 < x \<Longrightarrow> x \<le> y \<Longrightarrow> ilog2 x \<le> ilog2 y"
  using ilog2_bounds [of x] ilog2_bounds [of y] powi_less_imp [of "ilog2 x" "ilog2 y + 1"]
  by linarith

section \<open>Rounding\<close>

lemma round_half_even_error: "\<bar>of_int (round_half_even x) - x\<bar> \<le> 1 / 2"
proof -
  have "of_int \<lfloor>x\<rfloor> \<le> x" and "x < of_int \<lfloor>x\<rfloor> + 1"
    by linarith+
  then show ?thesis
    by (simp add: round_half_even_def Let_def abs_le_iff)
qed

lemma round_half_even_of_int [simp]: "round_half_even (of_int n) = n"
  by (simp add: round_half_even_def)

lemma round_half_even_mono: "x \<le> y \<Longrightarrow> round_half_even x \<le> round_half_even y"
proof -
  assume le: "x \<le> y"
  show ?thesis
  proof (cases "\<lfloor>x\<rfloor> = \<lfloor>y\<rfloor>")
    case True
    with le show ?thesis by (auto simp: round_half_even_def Let_def)
  next
    case False
    with le have "\<lfloor>x\<rfloor> + 1 \<le> \<lfloor>y\<rfloor>" using floor_mono [OF le] by linarith
    then show ?thesis by (auto simp: round_half_even_def Let_def)
  qed
qed

lemma round64_pos:
  "0 < x \<Longrightarrow> round64 x =
     of_int (round_half_even (x / 2 powi (ilog2 x - 52))) * 2 powi (ilog2 x - 52)"
  by (simp add: round64_def Let_def)

lemma round64_error:
  assumes "0 < x"
  shows "\<bar>round64 x - x\<bar> \<le> 2 powi (ilog2 x - 53)"
proof -
  let ?u = "(2::rat) powi (ilog2 x - 52)"
  have u: "0 < ?u" by simp
  have "round64 x - x = (of_int (round_half_even (x / ?u)) - x / ?u) * ?u"
    using u assms by (simp add: round64_pos algebra_simps)
  then have "\<bar>round64 x - x\<bar> = \<bar>of_int (round_half_even (x / ?u)) - x / ?u\<bar> * ?u"
    using u by (simp add: abs_mult)
  also have "\<dots> \<le> 1 / 2 * ?u"
    using u round_half_even_error [of "x / ?u"] by (intro mult_right_mono) auto
  also have "\<dots> = 2 powi (ilog2 x - 53)"
    using power_int_add [of "2::rat" "ilog2 x - 53" 1] by simp
  finally show ?thesis .
qed

lemma round64_range:
  assumes "0 < x"
  shows "2 powi ilog2 x \<le> round64 x" and "round64 x \<le> 2 powi (ilog2 x + 1)"
proof -
  let ?k = "ilog2 x" and ?u = "(2::rat) powi (ilog2 x - 52)"
  have u: "0 < ?u" by simp
  have 52: "2 powi ?k = of_int (2 ^ 52) * ?u" and 53: "2 powi (?k + 1) = of_int (2 ^ 53) * ?u"
    using power_int_add [of "2::rat" "?k - 52" 52] power_int_add [of "2::rat" "?k - 52" 53]
    by (simp_all add: add.commute)
  have "of_int (2 ^ 52) \<le> x / ?u" and "x / ?u \<le> of_int (2 ^ 53)"
    using ilog2_bounds [OF assms] u unfolding 52 53 by (simp_all add: field_simps)
  then have "2 ^ 52 \<le> round_half_even (x / ?u)" and "round_half_even (x / ?u) \<le> 2 ^ 53"
    by (metis round_half_even_mono round_half_even_of_int)+
  then have "of_int (2 ^ 52) \<le> (of_int (round_half_even (x / ?u)) :: rat)"
    and "(of_int (round_half_even (x / ?u)) :: rat) \<le> of_int (2 ^ 53)"
    by (simp_all only: of_int_le_iff)
  then show "2 powi ?k \<le> round64 x" and "round64 x \<le> 2 powi (?k + 1)"
    unfolding round64_pos [OF assms] 52 53 using u by (simp_all only: mult_right_mono less_imp_le)
qed

lemma round64_nonneg [simp]: "0 \<le> round64 x"
proof (cases "0 < x")
  case True
  then show ?thesis
    using round64_range(1) by (meson order_trans zero_le_numeral zero_le_power_int)
qed (simp add: round64_def)

lemma round64_mono:
  assumes "x \<le> y"
  shows "round64 x \<le> round64 y"
proof (cases "0 < x")
  case x: True
  with assms have y: "0 < y" by simp
  show ?thesis
  proof (cases "ilog2 x = ilog2 y")
    case True
    have "round_half_even (x / 2 powi (ilog2 y - 52)) \<le> round_half_even (y / 2 powi (ilog2 y - 52))"
      using assms by (intro round_half_even_mono divide_right_mono) auto
    then have "(of_int (round_half_even (x / 2 powi (ilog2 y - 52))) :: rat)
        \<le> of_int (round_half_even (y / 2 powi (ilog2 y - 52)))"
      by (simp only: of_int_le_iff)
    then show ?thesis
      unfolding round64_pos [OF x] round64_pos [OF y] True
      by (rule mult_right_mono) simp
  next
    case False
    then have "ilog2 x + 1 \<le> ilog2 y"
      using ilog2_mono [OF x assms] by simp
    then have "(2::rat) powi (ilog2 x + 1) \<le> 2 powi ilog2 y"
      by (rule powi_mono2)
    then show ?thesis
      using round64_range(2) [OF x] round64_range(1) [OF y] by linarith
  qed
next
  case False
  then have "round64 x = 0" by (simp add: round64_def)
  then show ?thesis by simp
qed

lemma round64_int_multiple:
  assumes "0 < x" and "x = of_int n * 2 powi (ilog2 x - 52)"
  shows "round64 x = x"
proof -
  have "x / 2 powi (ilog2 x - 52) = of_int n"
    using assms(2) by (metis nonzero_mult_div_cancel_right power_int_eq_0_iff zero_neq_numeral)
  then show ?thesis
    using assms by (simp add: round64_pos)
qed

lemma powi_52: "(2::rat) powi k = of_int (2 ^ 52) * 2 powi (k - 52)"
  using power_int_add [of "2::rat" "k - 52" 52] by (simp add: add.commute)

lemma round64_idem: "round64 (round64 x) = round64 x"
proof (cases "0 < x")
  case True
  let ?k = "ilog2 x" and ?u = "(2::rat) powi (ilog2 x - 52)" and ?y = "round64 x"
  have y: "0 < ?y"
    using round64_range(1) [OF True] by (meson less_le_trans zero_less_numeral zero_less_power_int)
  show ?thesis
  proof (cases "?y = 2 powi (?k + 1)")
    case eq: True
    have k: "ilog2 ?y = ?k + 1"
      using y by (rule ilog2_unique) (simp_all add: eq power_int_add)
    have "?y = of_int (2 ^ 52) * 2 powi (ilog2 ?y - 52)"
      using k eq powi_52 [of "?k + 1"] by metis
    then show ?thesis using y round64_int_multiple by blast
  next
    case False
    then have "?y < 2 powi (?k + 1)" using round64_range(2) [OF True] by simp
    then have k: "ilog2 ?y = ?k"
      using y round64_range(1) [OF True] ilog2_unique by blast
    have "?y = of_int (round_half_even (x / ?u)) * 2 powi (ilog2 ?y - 52)"
      unfolding k by (rule round64_pos [OF True])
    then show ?thesis using y round64_int_multiple by blast
  qed
qed (simp add: round64_def)

section \<open>The virtual clock\<close>

lemma is_f64_round64 [simp, intro]: "is_f64 (round64 x)"
  by (simp add: is_f64_def round64_idem)

lemma is_f64_0 [simp]: "is_f64 0"
  by (simp add: is_f64_def round64_def)

lemma is_f64_add [simp, intro]: "is_f64 (f64_add a b)"
  by (simp add: f64_add_def)

lemma f64_add_ge: "is_f64 a \<Longrightarrow> 0 \<le> b \<Longrightarrow> a \<le> f64_add a b"
  using round64_mono [of a "a + b"] by (simp add: is_f64_def f64_add_def)

lemma f64_recip_nonneg [simp]: "0 \<le> f64_recip w"
  by (simp add: f64_recip_def)

text \<open>Below \<open>2^(51-k)\<close> a step of a weight of at most \<open>2^k\<close> moves the clock by at least half the
  exact step; above it a step may be rounded away entirely.\<close>

lemma f64_powi [simp]: "round64 (2 powi k) = 2 powi k"
proof -
  have k: "ilog2 (2 powi k) = k"
    by (rule ilog2_unique) (simp_all add: power_int_add)
  then have "(2::rat) powi k = of_int (2 ^ 52) * 2 powi (ilog2 (2 powi k) - 52)"
    using powi_52 [of k] by simp
  then show ?thesis
    by (rule round64_int_multiple [rotated]) simp
qed

lemma f64_recip_ge:
  assumes "0 < w" and "w \<le> 2 ^ k"
  shows "2 powi (- int k) \<le> f64_recip w"
proof -
  have "(of_nat w :: rat) \<le> 2 ^ k"
    using assms(2) by (metis of_nat_le_iff of_nat_numeral of_nat_power)
  then have "(2::rat) powi (- int k) \<le> 1 / of_nat w"
    using assms(1) by (simp add: power_int_minus field_simps)
  then show ?thesis
    unfolding f64_recip_def using round64_mono [of "2 powi (- int k)" "1 / of_nat w"] by simp
qed

lemma f64_recip_le: "0 < w \<Longrightarrow> f64_recip w \<le> 1"
  using round64_mono [of "1 / of_nat w" 1] f64_powi [of 0] by (simp add: f64_recip_def)

lemma f64_add_progress:
  assumes "0 \<le> a" and "a < 2 powi (51 - int k)" and "k \<le> 50" and "0 < w" and "w \<le> 2 ^ k"
  shows "a + 2 powi (- int k - 1) \<le> f64_add a (f64_recip w)"
proof -
  let ?y = "f64_recip w" and ?z = "a + f64_recip w"
  have y: "2 powi (- int k) \<le> ?y" using f64_recip_ge assms(4,5) .
  have ypos: "0 < ?y" using y zero_less_power_int [of "2::rat" "- int k"] by linarith
  have z: "0 < ?z" using assms(1) ypos by simp
  have one: "1 \<le> (2::rat) powi (51 - int k)" using powi_mono2 [of 0 "51 - int k"] assms(3) by simp
  have "?z < 2 powi (51 - int k) + 2 powi (51 - int k)"
    using assms(2) f64_recip_le [OF assms(4)] one by linarith
  also have "\<dots> = 2 powi (52 - int k)"
    using power_int_add [of "2::rat" "51 - int k" 1] by simp
  finally have "2 powi ilog2 ?z < (2::rat) powi (52 - int k)"
    using ilog2_bounds(1) [OF z] by linarith
  then have "ilog2 ?z \<le> 51 - int k" using powi_less_imp by fastforce
  then have "(2::rat) powi (ilog2 ?z - 53) \<le> 2 powi (- int k - 1)"
    by (intro powi_mono2) (use assms(3) in linarith)
  then have "?z - 2 powi (- int k - 1) \<le> round64 ?z"
    using round64_error [OF z] by linarith
  moreover have "(2::rat) powi (- int k) = 2 powi (- int k - 1) + 2 powi (- int k - 1)"
    using power_int_add [of "2::rat" "- int k - 1" 1] by simp
  ultimately show ?thesis
    using y by (simp add: f64_add_def)
qed

end
