(* ===== verification/Wfq.thy ===== *)
theory Wfq
  imports Domain F64
begin

text \<open>
  The weighted-fair-queueing core of \<open>argunix-sched/src/wfq.rs\<close>, generic in the tag type.
  A repo's virtual time is a double (theory \<open>F64\<close>); \<open>next_seq\<close> counts enqueues and would
  need \<open>2^64\<close> of them to wrap, so it is a natural number.

  Shown here: the well-formedness invariant and that every operation keeps it, the concurrency
  cap, that a dispatch serves the repo with the least (virtual time, oldest entry) whatever order
  the hash map is iterated in, that no tag is lost or duplicated, and a bound on how often a
  backlogged repo can be passed over.
\<close>

section \<open>Model\<close>

definition default_weight :: nat where
  "default_weight = 1"

record 't repo_state =
  weight :: nat
  virtual_time :: f64
  pending :: "(nat \<times> 't) list"

definition repo_state_new :: "nat \<Rightarrow> 't repo_state" where
  "repo_state_new w = \<lparr>weight = max w 1, virtual_time = 0, pending = []\<rparr>"

definition has_pending :: "'t repo_state \<Rightarrow> bool" where
  "has_pending s = (pending s \<noteq> [])"

definition earliest_seq :: "'t repo_state \<Rightarrow> nat option" where
  "earliest_seq s = (case pending s of [] \<Rightarrow> None | (q, _) # _ \<Rightarrow> Some q)"

record 't popped =
  pop_tag :: 't
  pop_repo :: repo_id

record 't wfq =
  repos :: "(repo_id, 't repo_state) hashmap"
  in_flight :: "('t, repo_id) hashmap"
  concurrency_cap :: "nat option"
  next_seq :: nat

definition wfq_new :: "nat option \<Rightarrow> 't wfq" where
  "wfq_new cap = \<lparr>repos = [], in_flight = [], concurrency_cap = cap, next_seq = 0\<rparr>"

definition wfq_set_weight :: "repo_id \<Rightarrow> nat \<Rightarrow> 't wfq \<Rightarrow> 't wfq" where
  "wfq_set_weight r w q =
     q\<lparr>repos := hm_modify r (\<lambda>s. s\<lparr>weight := max w 1\<rparr>) (hm_entry r (repo_state_new w) (repos q))\<rparr>"

text \<open>\<open>reduce(f64::min)\<close> over the repos with pending work.\<close>

definition system_virtual_time :: "'t wfq \<Rightarrow> f64 option" where
  "system_virtual_time q =
     (case map virtual_time (filter has_pending (hm_values (repos q))) of
        [] \<Rightarrow> None
      | v # vs \<Rightarrow> Some (foldl min v vs))"

text \<open>What \<open>enqueue\<close> does to the repo's entry.\<close>

definition push_pending :: "f64 option \<Rightarrow> nat \<Rightarrow> 't \<Rightarrow> 't repo_state \<Rightarrow> 't repo_state" where
  "push_pending snap_to seq tag s =
     (let s1 = (if \<not> has_pending s then
                  (case snap_to of
                     Some min_vt \<Rightarrow>
                       (if virtual_time s < min_vt then s\<lparr>virtual_time := min_vt\<rparr> else s)
                   | None \<Rightarrow> s)
                else s)
      in s1\<lparr>pending := pending s1 @ [(seq, tag)]\<rparr>)"

definition wfq_enqueue :: "repo_id \<Rightarrow> 't \<Rightarrow> 't wfq \<Rightarrow> 't wfq" where
  "wfq_enqueue r tag q =
     (let snap_to = system_virtual_time q;
          seq = next_seq q
      in q\<lparr>next_seq := next_seq q + 1,
           repos := hm_modify r (push_pending snap_to seq tag)
             (hm_entry r (repo_state_new default_weight) (repos q))\<rparr>)"

text \<open>The selection loop of \<open>dispatch\<close> and its body; a repo without pending work is skipped.\<close>

definition consider_repo :: "repo_id \<Rightarrow> 't repo_state \<Rightarrow> (repo_id \<times> f64 \<times> nat) option \<Rightarrow>
    (repo_id \<times> f64 \<times> nat) option" where
  "consider_repo r s best =
     (case earliest_seq s of
        None \<Rightarrow> best
      | Some earliest \<Rightarrow>
          (case best of
             None \<Rightarrow> Some (r, virtual_time s, earliest)
           | Some (r0, v0, e0) \<Rightarrow>
               if virtual_time s < v0 \<or> (virtual_time s = v0 \<and> earliest < e0)
               then Some (r, virtual_time s, earliest) else Some (r0, v0, e0)))"

fun best_repo :: "(repo_id \<times> 't repo_state) list \<Rightarrow> (repo_id \<times> f64 \<times> nat) option \<Rightarrow>
    (repo_id \<times> f64 \<times> nat) option" where
  "best_repo [] best = best"
| "best_repo ((r, s) # m) best = best_repo m (consider_repo r s best)"

definition cap_full :: "'t wfq \<Rightarrow> bool" where
  "cap_full q = (case concurrency_cap q of None \<Rightarrow> False | Some c \<Rightarrow> c \<le> length (in_flight q))"

definition advance :: "'t repo_state \<Rightarrow> f64" where
  "advance s = f64_add (virtual_time s) (f64_recip (weight s))"

text \<open>\<open>None\<close> is a panic of one of the two \<open>expect\<close>s.\<close>

definition wfq_dispatch :: "'t wfq \<Rightarrow> ('t wfq \<times> 't popped option) option" where
  "wfq_dispatch q =
     (if cap_full q then Some (q, None)
      else case best_repo (repos q) None of
        None \<Rightarrow> Some (q, None)
      | Some (r, _, _) \<Rightarrow>
          (case hm_get (repos q) r of
             None \<Rightarrow> None
           | Some s \<Rightarrow>
               (case pending s of
                  [] \<Rightarrow> None
                | (_, tag) # rest \<Rightarrow>
                    Some (q\<lparr>repos := hm_modify r
                         (\<lambda>s. s\<lparr>pending := rest, virtual_time := advance s\<rparr>) (repos q),
                       in_flight := hm_insert tag r (in_flight q)\<rparr>,
                     Some \<lparr>pop_tag = tag, pop_repo = r\<rparr>))))"

definition wfq_complete :: "'t \<Rightarrow> 't wfq \<Rightarrow> 't wfq \<times> repo_id option" where
  "wfq_complete tag q =
     (q\<lparr>in_flight := hm_remove tag (in_flight q)\<rparr>, hm_get (in_flight q) tag)"

definition wfq_cancel_pending :: "('t \<Rightarrow> bool) \<Rightarrow> 't wfq \<Rightarrow> 't wfq \<times> 't list" where
  "wfq_cancel_pending predicate q =
     (q\<lparr>repos := map (\<lambda>(r, s). (r, s\<lparr>pending := filter (\<lambda>(_, t). \<not> predicate t) (pending s)\<rparr>))
          (repos q)\<rparr>,
      concat (map (\<lambda>(r, s). filter predicate (map snd (pending s))) (repos q)))"

definition wfq_pending_count :: "'t wfq \<Rightarrow> nat" where
  "wfq_pending_count q = sum_list (map (\<lambda>s. length (pending s)) (hm_values (repos q)))"

definition wfq_in_flight_count :: "'t wfq \<Rightarrow> nat" where
  "wfq_in_flight_count q = length (in_flight q)"

definition wfq_pending_for :: "repo_id \<Rightarrow> 't wfq \<Rightarrow> nat" where
  "wfq_pending_for r q =
     (case hm_get (repos q) r of None \<Rightarrow> 0 | Some s \<Rightarrow> length (pending s))"

definition wfq_virtual_time_for :: "repo_id \<Rightarrow> 't wfq \<Rightarrow> f64 option" where
  "wfq_virtual_time_for r q = map_option virtual_time (hm_get (repos q) r)"

section \<open>Selection\<close>

definition key_le :: "f64 \<times> nat \<Rightarrow> f64 \<times> nat \<Rightarrow> bool" where
  "key_le a b = (fst a < fst b \<or> fst a = fst b \<and> snd a \<le> snd b)"

lemma key_le_trans: "key_le a b \<Longrightarrow> key_le b c \<Longrightarrow> key_le a c"
  by (auto simp: key_le_def)

lemma key_le_antisym: "key_le a b \<Longrightarrow> key_le b a \<Longrightarrow> a = b"
  by (cases a; cases b) (auto simp: key_le_def)

lemma key_le_refl [simp]: "key_le a a"
  by (simp add: key_le_def)

lemma key_le_total: "\<not> key_le a b \<Longrightarrow> key_le b a"
  by (auto simp: key_le_def)

text \<open>\<open>candidate\<close> is the triple the loop builds for an entry with pending work.\<close>

definition candidate :: "(repo_id \<times> 't repo_state) list \<Rightarrow> repo_id \<times> f64 \<times> nat \<Rightarrow> bool" where
  "candidate m c = (\<exists>s. (fst c, s) \<in> set m \<and> earliest_seq s = Some (snd (snd c))
     \<and> virtual_time s = fst (snd c))"

lemma candidate_Cons:
  "candidate ((r, s) # m) c \<longleftrightarrow>
     candidate m c \<or> (\<exists>e. earliest_seq s = Some e \<and> c = (r, virtual_time s, e))"
  by (cases c) (auto simp: candidate_def)

lemma consider_repo_cases:
  "(earliest_seq s = None \<and> consider_repo r s best = best) \<or>
   (\<exists>e b. earliest_seq s = Some e \<and> consider_repo r s best = Some b \<and>
      (b = (r, virtual_time s, e) \<or> best = Some b) \<and> key_le (snd b) (virtual_time s, e) \<and>
      (\<forall>c. best = Some c \<longrightarrow> key_le (snd b) (snd c)))"
  by (auto simp: consider_repo_def key_le_def split: option.splits)

definition best_of :: "(repo_id \<times> 't repo_state) list \<Rightarrow> (repo_id \<times> f64 \<times> nat) option \<Rightarrow>
    (repo_id \<times> f64 \<times> nat) option \<Rightarrow> bool" where
  "best_of m best res =
     (case res of
        None \<Rightarrow> best = None \<and> (\<forall>c. \<not> candidate m c)
      | Some b \<Rightarrow> (Some b = best \<or> candidate m b) \<and>
          (\<forall>c. candidate m c \<longrightarrow> key_le (snd b) (snd c)) \<and>
          (\<forall>c. best = Some c \<longrightarrow> key_le (snd b) (snd c)))"

lemma best_repo_best: "best_of m best (best_repo m best)"
proof (induction m best rule: best_repo.induct)
  case (1 best)
  then show ?case by (auto simp: best_of_def candidate_def split: option.splits)
next
  case (2 r s m best)
  show ?case
  proof (cases "earliest_seq s")
    case None
    then have "consider_repo r s best = best"
      by (simp add: consider_repo_def)
    with None 2 show ?thesis
      by (auto simp: best_of_def candidate_Cons split: option.splits)
  next
    case (Some e)
    then obtain b where b: "consider_repo r s best = Some b"
        "b = (r, virtual_time s, e) \<or> best = Some b" "key_le (snd b) (virtual_time s, e)"
        "\<forall>c. best = Some c \<longrightarrow> key_le (snd b) (snd c)"
      using consider_repo_cases [of s r best] by auto
    with Some 2 show ?thesis
      by (auto simp: best_of_def candidate_Cons split: option.splits) (metis key_le_trans)+
  qed
qed

lemma best_repo_None: "best_repo m None = None \<longleftrightarrow> (\<forall>c. \<not> candidate m c)"
  using best_repo_best [of m None] by (auto simp: best_of_def split: option.splits)

lemma best_repo_Some:
  "best_repo m None = Some b \<Longrightarrow>
   candidate m b \<and> (\<forall>c. candidate m c \<longrightarrow> key_le (snd b) (snd c))"
  using best_repo_best [of m None] by (auto simp: best_of_def split: option.splits)

section \<open>Well-formedness\<close>

definition repo_ok :: "nat \<Rightarrow> 't repo_state \<Rightarrow> bool" where
  "repo_ok n s = (1 \<le> weight s \<and> is_f64 (virtual_time s) \<and>
     sorted_wrt (<) (map fst (pending s)) \<and> (\<forall>e\<in>set (pending s). fst e < n))"

definition seqs :: "(repo_id, 't repo_state) hashmap \<Rightarrow> repo_id \<Rightarrow> nat set" where
  "seqs m r = (case hm_get m r of None \<Rightarrow> {} | Some s \<Rightarrow> fst ` set (pending s))"

definition seqs_apart :: "(repo_id, 't repo_state) hashmap \<Rightarrow> bool" where
  "seqs_apart m = (\<forall>r r'. r \<noteq> r' \<longrightarrow> seqs m r \<inter> seqs m r' = {})"

definition cap_ok :: "'t wfq \<Rightarrow> bool" where
  "cap_ok q = (\<forall>c. concurrency_cap q = Some c \<longrightarrow> length (in_flight q) \<le> c)"

definition wfq_ok :: "'t wfq \<Rightarrow> bool" where
  "wfq_ok q = (hm_ok (repos q) \<and> hm_ok (in_flight q) \<and> cap_ok q \<and> seqs_apart (repos q) \<and>
     (\<forall>r s. hm_get (repos q) r = Some s \<longrightarrow> repo_ok (next_seq q) s))"

lemma repo_ok_mono: "repo_ok n s \<Longrightarrow> n \<le> n' \<Longrightarrow> repo_ok n' s"
  by (auto simp: repo_ok_def)

lemma repo_state_new_ok [simp]: "repo_ok n (repo_state_new w)" "pending (repo_state_new w) = []"
  by (simp_all add: repo_ok_def repo_state_new_def)

lemma foldl_min_is_f64: "is_f64 v \<Longrightarrow> \<forall>x\<in>set vs. is_f64 x \<Longrightarrow> is_f64 (foldl min v vs)"
  by (induction vs arbitrary: v) (auto simp: min_def)

lemma system_virtual_time_is_f64:
  assumes "wfq_ok q" and "system_virtual_time q = Some v"
  shows "is_f64 v"
proof -
  let ?vs = "map virtual_time (filter has_pending (hm_values (repos q)))"
  have all: "\<forall>x\<in>set ?vs. is_f64 x"
    using assms(1) by (auto simp: wfq_ok_def repo_ok_def dest: map_of_is_SomeI)
  obtain u us where vs: "?vs = u # us" and v: "v = foldl min u us"
    using assms(2) by (auto simp only: system_virtual_time_def option.inject option.distinct
      split: list.splits)
  from all have "is_f64 u" and "\<forall>x\<in>set us. is_f64 x"
    unfolding vs by simp_all
  then show ?thesis
    unfolding v by (rule foldl_min_is_f64)
qed

text \<open>Every operation changes at most one repo's entry; this is the frame rule for the invariant.\<close>

lemma disjoint_insert_subset: "A \<inter> B = {} \<Longrightarrow> n \<notin> B \<Longrightarrow> P \<subseteq> insert n A \<Longrightarrow> P \<inter> B = {}"
  by blast

lemma wfq_ok_update:
  assumes ok: "wfq_ok q"
    and hm: "hm_ok (repos q')" "hm_ok (in_flight q')" "cap_ok q'"
    and get: "hm_get (repos q') = (hm_get (repos q))(r \<mapsto> s)"
    and n: "next_seq q \<le> next_seq q'"
    and s: "repo_ok (next_seq q') s" "fst ` set (pending s) \<subseteq> insert (next_seq q) (seqs (repos q) r)"
  shows "wfq_ok q'"
proof -
  have seqs: "seqs (repos q') r' = (if r' = r then fst ` set (pending s) else seqs (repos q) r')" for r'
    by (simp add: seqs_def get)
  have new: "next_seq q \<notin> seqs (repos q) r'" for r'
  proof (cases "hm_get (repos q) r'")
    case (Some s')
    with ok have "repo_ok (next_seq q) s'" by (simp add: wfq_ok_def)
    with Some show ?thesis by (auto simp: seqs_def repo_ok_def)
  qed (simp add: seqs_def)
  have apart: "seqs (repos q) r1 \<inter> seqs (repos q) r2 = {}" if "r1 \<noteq> r2" for r1 r2
    using ok that by (simp add: wfq_ok_def seqs_apart_def)
  have r: "fst ` set (pending s) \<inter> seqs (repos q) r2 = {}" if "r \<noteq> r2" for r2
    by (rule disjoint_insert_subset [OF apart [OF that] new s(2)])
  have "seqs_apart (repos q')"
    unfolding seqs_apart_def seqs
  proof (intro allI impI)
    fix r1 r2 :: repo_id assume "r1 \<noteq> r2"
    then show "(if r1 = r then fst ` set (pending s) else seqs (repos q) r1) \<inter>
        (if r2 = r then fst ` set (pending s) else seqs (repos q) r2) = {}"
      using apart [of r1 r2] r [of r1] r [of r2] by (auto simp: Int_commute)
  qed
  moreover have "repo_ok (next_seq q') s'" if "hm_get (repos q') r' = Some s'" for r' s'
    using that ok s(1) repo_ok_mono [OF _ n] by (auto simp: get wfq_ok_def split: if_splits)
  ultimately show ?thesis
    using hm by (simp add: wfq_ok_def)
qed

lemma wfq_new_ok [simp]: "wfq_ok (wfq_new cap)"
  by (simp add: wfq_ok_def wfq_new_def cap_ok_def seqs_apart_def seqs_def)

definition repo_or_new :: "repo_id \<Rightarrow> nat \<Rightarrow> 't wfq \<Rightarrow> 't repo_state" where
  "repo_or_new r w q = (case hm_get (repos q) r of None \<Rightarrow> repo_state_new w | Some s \<Rightarrow> s)"

lemma get_modify_entry:
  "hm_get (hm_modify r f (hm_entry r (repo_state_new w) (repos q))) =
     (hm_get (repos q))(r \<mapsto> f (repo_or_new r w q))"
  by (auto simp: fun_eq_iff hm_simps repo_or_new_def split: option.splits)

lemma repo_or_new_ok: "wfq_ok q \<Longrightarrow> repo_ok (next_seq q) (repo_or_new r w q)"
  by (auto simp: repo_or_new_def wfq_ok_def split: option.splits)

lemma repo_or_new_seqs: "fst ` set (pending (repo_or_new r w q)) = seqs (repos q) r"
  by (auto simp: repo_or_new_def seqs_def split: option.splits)

lemma wfq_set_weight_ok [simp]:
  assumes "wfq_ok q"
  shows "wfq_ok (wfq_set_weight r w q)"
proof (rule wfq_ok_update [OF assms])
  let ?s = "(repo_or_new r w q)\<lparr>weight := max w 1\<rparr>"
  show "hm_get (repos (wfq_set_weight r w q)) = (hm_get (repos q))(r \<mapsto> ?s)"
    by (simp add: wfq_set_weight_def get_modify_entry)
  show "repo_ok (next_seq (wfq_set_weight r w q)) ?s"
    using repo_or_new_ok [OF assms, of r w] by (simp add: wfq_set_weight_def repo_ok_def)
  show "fst ` set (pending ?s) \<subseteq> insert (next_seq q) (seqs (repos q) r)"
    using repo_or_new_seqs [of r w q] by auto
qed (use assms in \<open>auto simp: wfq_set_weight_def wfq_ok_def cap_ok_def\<close>)

text \<open>The state a repo has right after \<open>enqueue\<close>.\<close>

definition snapped :: "f64 option \<Rightarrow> 't repo_state \<Rightarrow> f64" where
  "snapped snap s = (if has_pending s then virtual_time s
     else case snap of None \<Rightarrow> virtual_time s | Some v \<Rightarrow> max (virtual_time s) v)"

lemma wfq_enqueue_get:
  "hm_get (repos (wfq_enqueue r tag q)) = (hm_get (repos q))(r \<mapsto>
     (repo_or_new r default_weight q)\<lparr>
        virtual_time := snapped (system_virtual_time q) (repo_or_new r default_weight q),
        pending := pending (repo_or_new r default_weight q) @ [(next_seq q, tag)]\<rparr>)"
  by (auto simp: wfq_enqueue_def push_pending_def Let_def get_modify_entry snapped_def max_def
      split: option.splits)

lemma snapped_is_f64: "wfq_ok q \<Longrightarrow> is_f64 (virtual_time s) \<Longrightarrow>
    is_f64 (snapped (system_virtual_time q) s)"
  using system_virtual_time_is_f64 [of q] by (auto simp: snapped_def max_def split: option.splits)

lemma wfq_enqueue_ok [simp]:
  assumes "wfq_ok q"
  shows "wfq_ok (wfq_enqueue r tag q)"
proof (rule wfq_ok_update [OF assms _ _ _ wfq_enqueue_get])
  let ?s = "repo_or_new r default_weight q"
  have s: "repo_ok (next_seq q) ?s" using repo_or_new_ok [OF assms] .
  show "next_seq q \<le> next_seq (wfq_enqueue r tag q)"
    by (simp add: wfq_enqueue_def Let_def)
  show "repo_ok (next_seq (wfq_enqueue r tag q)) (?s\<lparr>
      virtual_time := snapped (system_virtual_time q) ?s, pending := pending ?s @ [(next_seq q, tag)]\<rparr>)"
    using s snapped_is_f64 [OF assms, of ?s]
    by (auto simp: wfq_enqueue_def Let_def repo_ok_def sorted_wrt_append)
  show "fst ` set (pending (?s\<lparr>virtual_time := snapped (system_virtual_time q) ?s,
      pending := pending ?s @ [(next_seq q, tag)]\<rparr>)) \<subseteq> insert (next_seq q) (seqs (repos q) r)"
    using repo_or_new_seqs [of r default_weight q] by auto
qed (use assms in \<open>auto simp: wfq_enqueue_def Let_def wfq_ok_def cap_ok_def\<close>)

lemma earliest_seq_Some:
  "earliest_seq s = Some e \<longleftrightarrow> (\<exists>tag rest. pending s = (e, tag) # rest)"
  by (auto simp: earliest_seq_def split: list.splits)

lemma candidate_get:
  "hm_ok m \<Longrightarrow> candidate m (r, v, e) \<longleftrightarrow>
     (\<exists>s rest tag. hm_get m r = Some s \<and> pending s = (e, tag) # rest \<and> virtual_time s = v)"
  unfolding candidate_def fst_conv snd_conv earliest_seq_Some hm_in_set by blast

text \<open>What a dispatch returns, on every branch; in particular that it does not panic.\<close>

abbreviation served :: "'t wfq \<Rightarrow> repo_id \<Rightarrow> 't \<Rightarrow> (nat \<times> 't) list \<Rightarrow> 't wfq" where
  "served q r tag rest \<equiv> q\<lparr>repos := hm_modify r
      (\<lambda>s. s\<lparr>pending := rest, virtual_time := advance s\<rparr>) (repos q),
    in_flight := hm_insert tag r (in_flight q)\<rparr>"

lemma wfq_dispatch_cases:
  assumes ok: "hm_ok (repos q)"
  obtains (full) "cap_full q" "wfq_dispatch q = Some (q, None)"
  | (idle) "\<not> cap_full q" "\<And>r s. hm_get (repos q) r = Some s \<Longrightarrow> pending s = []"
      "wfq_dispatch q = Some (q, None)"
  | (serve) r s e tag rest where "\<not> cap_full q" "hm_get (repos q) r = Some s"
      "pending s = (e, tag) # rest"
      "\<And>r' s' e' t' rest'. hm_get (repos q) r' = Some s' \<Longrightarrow> pending s' = (e', t') # rest' \<Longrightarrow>
         key_le (virtual_time s, e) (virtual_time s', e')"
      "wfq_dispatch q = Some (served q r tag rest, Some \<lparr>pop_tag = tag, pop_repo = r\<rparr>)"
proof (cases "cap_full q")
  case True
  then show ?thesis by (rule full) (simp add: wfq_dispatch_def True)
next
  case False
  show ?thesis
  proof (cases "best_repo (repos q) None")
    case None
    have "pending s = []" if "hm_get (repos q) r = Some s" for r s
    proof (rule ccontr)
      assume "pending s \<noteq> []"
      then obtain e tag rest where "pending s = (e, tag) # rest"
        by (metis neq_Nil_conv surj_pair)
      with that have "candidate (repos q) (r, virtual_time s, e)"
        by (simp add: candidate_get [OF ok])
      with None show False by (simp add: best_repo_None)
    qed
    then show ?thesis
      using False None by (intro idle) (auto simp: wfq_dispatch_def)
  next
    case (Some b)
    obtain r v e where b: "b = (r, v, e)" by (cases b)
    from best_repo_Some [OF Some] have c: "candidate (repos q) (r, v, e)"
      and min: "\<And>c. candidate (repos q) c \<Longrightarrow> key_le (v, e) (snd c)"
      by (auto simp: b)
    from c obtain s tag rest where s: "hm_get (repos q) r = Some s"
        "pending s = (e, tag) # rest" "virtual_time s = v"
      using candidate_get [OF ok] by blast
    have "key_le (virtual_time s, e) (virtual_time s', e')"
      if "hm_get (repos q) r' = Some s'" "pending s' = (e', t') # rest'" for r' s' e' t' rest'
      using min [of "(r', virtual_time s', e')"] that s candidate_get [OF ok] by simp
    then show ?thesis
      using False Some b s by (intro serve) (auto simp: wfq_dispatch_def)
  qed
qed

lemma cap_ok_dispatch:
  "cap_ok q \<Longrightarrow> \<not> cap_full q \<Longrightarrow> length m \<le> Suc (length (in_flight q)) \<Longrightarrow>
   cap_ok (q\<lparr>repos := x, in_flight := m\<rparr>)"
  by (auto simp: cap_ok_def cap_full_def)

lemma length_hm_insert: "length (AList.update k v m) \<le> Suc (length m)"
  by (induction m) auto

lemma served_ok:
  assumes ok: "wfq_ok q" and s: "\<not> cap_full q" "hm_get (repos q) r = Some s"
    "pending s = (e, tag) # rest"
  shows "wfq_ok (served q r tag rest)"
proof (rule wfq_ok_update [OF ok, where r = r
      and s = "s\<lparr>pending := rest, virtual_time := advance s\<rparr>"])
  show "cap_ok (served q r tag rest)"
    using ok s(1) length_hm_insert by (auto simp: wfq_ok_def intro!: cap_ok_dispatch)
  show "hm_get (repos (served q r tag rest)) =
      (hm_get (repos q))(r \<mapsto> s\<lparr>pending := rest, virtual_time := advance s\<rparr>)"
    using s(2) by (auto simp: fun_eq_iff hm_simps)
  show "repo_ok (next_seq (served q r tag rest)) (s\<lparr>pending := rest, virtual_time := advance s\<rparr>)"
    using ok s(2,3) by (fastforce simp: wfq_ok_def repo_ok_def advance_def)
  show "fst ` set (pending (s\<lparr>pending := rest, virtual_time := advance s\<rparr>))
      \<subseteq> insert (next_seq q) (seqs (repos q) r)"
    using s(2,3) by (auto simp: seqs_def)
qed (use ok in \<open>auto simp: wfq_ok_def\<close>)

lemma wfq_dispatch_total:
  assumes "wfq_ok q"
  obtains q' res where "wfq_dispatch q = Some (q', res)" "wfq_ok q'"
proof -
  have "hm_ok (repos q)" using assms by (simp add: wfq_ok_def)
  then show thesis
    by (rule wfq_dispatch_cases) (blast intro: that assms served_ok)+
qed

lemma wfq_dispatch_ok: "wfq_ok q \<Longrightarrow> wfq_dispatch q = Some (q', res) \<Longrightarrow> wfq_ok q'"
  by (metis wfq_dispatch_total option.inject prod.inject)

lemma length_hm_remove: "length (AList.delete k m) \<le> length m"
  by (rule length_delete_le)

lemma wfq_complete_ok [simp]: "wfq_ok q \<Longrightarrow> wfq_ok (fst (wfq_complete tag q))"
  using length_hm_remove [of tag "in_flight q"]
  by (auto simp: wfq_complete_def wfq_ok_def cap_ok_def intro: order_trans)

lemma cancel_pending_get:
  "hm_get (repos (fst (wfq_cancel_pending p q))) r =
     map_option (\<lambda>s. s\<lparr>pending := filter (\<lambda>(_, t). \<not> p t) (pending s)\<rparr>) (hm_get (repos q) r)"
  unfolding wfq_cancel_pending_def by (simp add: map_of_map)

lemma sorted_wrt_map_filter:
  "sorted_wrt R (map f xs) \<Longrightarrow> sorted_wrt R (map f (filter P xs))"
  by (induction xs) auto

lemma wfq_cancel_pending_ok [simp]:
  assumes "wfq_ok q"
  shows "wfq_ok (fst (wfq_cancel_pending p q))" (is "wfq_ok ?q")
proof -
  have sub: "seqs (repos ?q) r \<subseteq> seqs (repos q) r" for r
    unfolding seqs_def cancel_pending_get by (auto split: option.splits)
  have apart: "seqs_apart (repos ?q)"
    unfolding seqs_apart_def
  proof (intro allI impI)
    fix r1 r2 :: repo_id assume "r1 \<noteq> r2"
    then have "seqs (repos q) r1 \<inter> seqs (repos q) r2 = {}"
      using assms by (simp add: wfq_ok_def seqs_apart_def)
    with sub [of r1] sub [of r2] show "seqs (repos ?q) r1 \<inter> seqs (repos ?q) r2 = {}" by blast
  qed
  have keep: "repo_ok n s \<Longrightarrow> repo_ok n (s\<lparr>pending := filter (\<lambda>(_, t). \<not> p t) (pending s)\<rparr>)"
    for n and s :: "'a repo_state"
    by (auto simp: repo_ok_def sorted_wrt_map_filter)
  have "repo_ok (next_seq ?q) s" if "hm_get (repos ?q) r = Some s" for r s
    using that assms keep unfolding cancel_pending_get wfq_ok_def
    by (auto simp: wfq_cancel_pending_def)
  moreover have "hm_ok (repos ?q)"
    using assms by (simp add: wfq_ok_def wfq_cancel_pending_def comp_def case_prod_unfold)
  moreover have "hm_ok (in_flight ?q)" "cap_ok ?q"
    using assms by (simp_all add: wfq_ok_def wfq_cancel_pending_def cap_ok_def)
  ultimately show ?thesis
    using apart by (simp add: wfq_ok_def)
qed

section \<open>Conservation of tags\<close>

definition pending_tags :: "'t wfq \<Rightarrow> 't multiset" where
  "pending_tags q = hm_sum (\<lambda>_ s. mset (map snd (pending s))) (repos q)"

lemma pending_tags_count: "wfq_pending_count q = size (pending_tags q)"
proof -
  have "sum_list (map (\<lambda>s. length (pending s)) (hm_values m)) =
      size (hm_sum (\<lambda>_ s. mset (map snd (pending s))) m)" for m :: "(repo_id, 'a repo_state) hashmap"
    by (induction m) (auto simp: hm_sum_def)
  then show ?thesis by (simp add: wfq_pending_count_def pending_tags_def)
qed

lemma pending_tags_set_weight [simp]: "pending_tags (wfq_set_weight r w q) = pending_tags q"
  by (simp add: pending_tags_def wfq_set_weight_def hm_sum_modify_same hm_sum_entry)

lemma pending_tags_complete [simp]: "pending_tags (fst (wfq_complete tag q)) = pending_tags q"
  by (simp add: pending_tags_def wfq_complete_def)

lemma pending_tags_enqueue:
  assumes "wfq_ok q"
  shows "pending_tags (wfq_enqueue r tag q) = add_mset tag (pending_tags q)"
proof -
  let ?m = "hm_entry r (repo_state_new default_weight) (repos q)"
  let ?f = "\<lambda>_ s. mset (map snd (pending s))"
  obtain s where s: "hm_get ?m r = Some s"
    by (cases "hm_get (repos q) r") (auto simp: hm_simps)
  have sum: "hm_sum ?f ?m = pending_tags q"
    by (simp add: hm_sum_entry pending_tags_def)
  have ok: "hm_ok ?m" using assms by (simp add: wfq_ok_def)
  have "pending (push_pending snap seq tag s) = pending s @ [(seq, tag)]" for snap seq
    by (simp add: push_pending_def Let_def split: option.splits)
  then show ?thesis
    using hm_sum_modify [OF ok s, of ?f "push_pending (system_virtual_time q) (next_seq q) tag"] sum
    by (simp add: pending_tags_def wfq_enqueue_def Let_def)
qed

lemma pending_tags_served:
  assumes "hm_ok (repos q)" "hm_get (repos q) r = Some s" "pending s = (e, tag) # rest"
  shows "pending_tags q = add_mset tag (pending_tags (served q r tag rest))"
  using hm_sum_modify [OF assms(1,2), of "\<lambda>_ s. mset (map snd (pending s))"
      "\<lambda>s. s\<lparr>pending := rest, virtual_time := advance s\<rparr>"] assms(3)
  by (simp add: pending_tags_def)

lemma pending_tags_cancel:
  "pending_tags (fst (wfq_cancel_pending p q)) = filter_mset (\<lambda>t. \<not> p t) (pending_tags q)"
  "mset (snd (wfq_cancel_pending p q)) = filter_mset p (pending_tags q)"
proof -
  have "mset (map snd (filter (\<lambda>(_, t). \<not> p t) xs)) = filter_mset (\<lambda>t. \<not> p t) (mset (map snd xs))"
    for xs :: "(nat \<times> 'a) list"
    by (induction xs) auto
  then have "hm_sum (\<lambda>_ s. mset (map snd (pending s)))
      (map (\<lambda>(r, s). (r, s\<lparr>pending := filter (\<lambda>(_, t). \<not> p t) (pending s)\<rparr>)) m) =
      filter_mset (\<lambda>t. \<not> p t) (hm_sum (\<lambda>_ s. mset (map snd (pending s))) m)"
    for m :: "(repo_id, 'a repo_state) hashmap"
    by (induction m) auto
  then show "pending_tags (fst (wfq_cancel_pending p q)) = filter_mset (\<lambda>t. \<not> p t) (pending_tags q)"
    by (simp add: wfq_cancel_pending_def pending_tags_def)
  have "mset (concat (map (\<lambda>(r, s). filter p (map snd (pending s))) m)) =
      filter_mset p (hm_sum (\<lambda>_ s. mset (map snd (pending s))) m)"
    for m :: "(repo_id, 'a repo_state) hashmap"
    by (induction m) auto
  then show "mset (snd (wfq_cancel_pending p q)) = filter_mset p (pending_tags q)"
    by (simp add: wfq_cancel_pending_def pending_tags_def)
qed

lemma wfq_dispatch_tags:
  assumes "wfq_ok q" and "wfq_dispatch q = Some (q', res)"
  shows "pending_tags q =
      (case res of None \<Rightarrow> {#} | Some p \<Rightarrow> {#pop_tag p#}) + pending_tags q'"
proof -
  have ok: "hm_ok (repos q)" using assms(1) by (simp add: wfq_ok_def)
  then show ?thesis
    by (rule wfq_dispatch_cases) (use assms(2) pending_tags_served [OF ok] in auto)
qed

lemma wfq_dispatch_in_flight:
  assumes "wfq_ok q" and "wfq_dispatch q = Some (q', res)"
  shows "hm_get (in_flight q') = (case res of None \<Rightarrow> hm_get (in_flight q)
    | Some p \<Rightarrow> (hm_get (in_flight q))(pop_tag p \<mapsto> pop_repo p))"
proof -
  have ok: "hm_ok (repos q)" using assms(1) by (simp add: wfq_ok_def)
  then show ?thesis
    by (rule wfq_dispatch_cases) (use assms(2) in \<open>auto simp: hm_simps fun_eq_iff\<close>)
qed

section \<open>Runs\<close>

text \<open>
  A run is a sequence of calls. \<open>Reorder\<close> stands for the freedom a hash map has to iterate in
  another order; a list that is not a permutation of the map leaves the state as it is. The
  result lists the repos served, in order; \<open>None\<close> is a panic.
\<close>

datatype 't wfq_op =
    SetWeight repo_id nat
  | Enqueue repo_id 't
  | Dispatch
  | Complete 't
  | CancelPending "'t \<Rightarrow> bool"
  | Reorder "(repo_id, 't repo_state) hashmap"

fun wfq_apply :: "'t wfq_op \<Rightarrow> 't wfq \<Rightarrow> ('t wfq \<times> repo_id list) option" where
  "wfq_apply (SetWeight r w) q = Some (wfq_set_weight r w q, [])"
| "wfq_apply (Enqueue r t) q = Some (wfq_enqueue r t q, [])"
| "wfq_apply Dispatch q = map_option (\<lambda>(q', res). (q', case res of None \<Rightarrow> [] | Some p \<Rightarrow> [pop_repo p]))
     (wfq_dispatch q)"
| "wfq_apply (Complete t) q = Some (fst (wfq_complete t q), [])"
| "wfq_apply (CancelPending p) q = Some (fst (wfq_cancel_pending p q), [])"
| "wfq_apply (Reorder m) q = Some (if mset m = mset (repos q) then q\<lparr>repos := m\<rparr> else q, [])"

fun wfq_run :: "'t wfq_op list \<Rightarrow> 't wfq \<Rightarrow> ('t wfq \<times> repo_id list) option" where
  "wfq_run [] q = Some (q, [])"
| "wfq_run (c # cs) q =
     (case wfq_apply c q of
        None \<Rightarrow> None
      | Some (q1, s1) \<Rightarrow> map_option (\<lambda>(q2, s2). (q2, s1 @ s2)) (wfq_run cs q1))"

lemma reorder_ok:
  assumes "wfq_ok q" and "mset m = mset (repos q)"
  shows "wfq_ok (q\<lparr>repos := m\<rparr>)"
proof -
  have "hm_get m = hm_get (repos q)" "hm_ok m"
    using assms hm_get_reorder hm_ok_reorder by (metis wfq_ok_def)+
  then show ?thesis
    using assms(1) by (simp add: wfq_ok_def seqs_apart_def seqs_def cap_ok_def)
qed

lemma wfq_apply_ok:
  assumes "wfq_ok q"
  obtains q' s where "wfq_apply c q = Some (q', s)" "wfq_ok q'"
proof (cases c)
  case Dispatch
  obtain q' res where "wfq_dispatch q = Some (q', res)" "wfq_ok q'"
    using wfq_dispatch_total [OF assms] .
  with Dispatch that show ?thesis by simp
next
  case (Reorder m)
  have "wfq_ok (if mset m = mset (repos q) then q\<lparr>repos := m\<rparr> else q)"
    using assms reorder_ok by (cases "mset m = mset (repos q)") auto
  with Reorder that show ?thesis by simp
qed (use assms that in auto)

lemma reorder_get:
  assumes "wfq_ok q" and "wfq_apply (Reorder m) q = Some (q', s)"
  shows "hm_get (repos q') = hm_get (repos q)"
proof (cases "mset m = mset (repos q)")
  case True
  then have "hm_get m = hm_get (repos q)"
    using assms(1) hm_get_reorder unfolding wfq_ok_def by blast
  moreover have "repos q' = m" using assms(2) True by auto
  ultimately show ?thesis by simp
qed (use assms(2) in simp)

lemma wfq_run_ok:
  assumes "wfq_ok q"
  shows "\<exists>q' s. wfq_run cs q = Some (q', s) \<and> wfq_ok q'"
  using assms
proof (induction cs arbitrary: q)
  case (Cons c cs)
  obtain q1 s1 where q1: "wfq_apply c q = Some (q1, s1)" "wfq_ok q1"
    using wfq_apply_ok [OF Cons.prems] .
  with Cons.IH [OF q1(2)] show ?case by auto
qed simp

section \<open>Virtual time and bounded bypass\<close>

definition vt :: "repo_id \<Rightarrow> 't wfq \<Rightarrow> f64" where
  "vt r q = (case wfq_virtual_time_for r q of None \<Rightarrow> 0 | Some v \<Rightarrow> v)"

definition weights_le :: "nat \<Rightarrow> 't wfq \<Rightarrow> bool" where
  "weights_le k q = (\<forall>r s. hm_get (repos q) r = Some s \<longrightarrow> weight s \<le> 2 ^ k)"

definition backlogged :: "repo_id \<Rightarrow> f64 \<Rightarrow> nat \<Rightarrow> 't \<Rightarrow> 't wfq \<Rightarrow> bool" where
  "backlogged r v e tag q = (\<exists>s rest. hm_get (repos q) r = Some s \<and> virtual_time s = v \<and>
     pending s = (e, tag) # rest)"

definition keeps :: "nat \<Rightarrow> 't \<Rightarrow> 't wfq_op \<Rightarrow> bool" where
  "keeps k tag c = (case c of SetWeight r w \<Rightarrow> w \<le> 2 ^ k | CancelPending p \<Rightarrow> \<not> p tag | _ \<Rightarrow> True)"

lemma vt_get: "vt r q = (case hm_get (repos q) r of None \<Rightarrow> 0 | Some s \<Rightarrow> virtual_time s)"
  by (simp add: vt_def wfq_virtual_time_for_def split: option.splits)

lemma is_f64_nonneg: "is_f64 x \<Longrightarrow> 0 \<le> x"
  by (metis is_f64_def round64_nonneg)

lemma wfq_ok_repo: "wfq_ok q \<Longrightarrow> hm_get (repos q) r = Some s \<Longrightarrow>
    1 \<le> weight s \<and> is_f64 (virtual_time s) \<and> 0 \<le> virtual_time s"
  by (auto simp: wfq_ok_def repo_ok_def is_f64_nonneg)

lemma vt_nonneg: "wfq_ok q \<Longrightarrow> 0 \<le> vt r q"
  by (auto simp: vt_get wfq_ok_repo split: option.splits)

lemma hm_get_served:
  "hm_get (repos q) r = Some s \<Longrightarrow> hm_get (repos (served q r tag rest)) =
     (hm_get (repos q))(r \<mapsto> s\<lparr>pending := rest, virtual_time := advance s\<rparr>)"
  by (auto simp: fun_eq_iff hm_simps)

lemma vt_served: "hm_get (repos q) r1 = Some s \<Longrightarrow>
    vt r (served q r1 tag rest) = (if r = r1 then advance s else vt r q)"
  by (auto simp: vt_get hm_simps)

lemma wfq_set_weight_get:
  "hm_get (repos (wfq_set_weight r w q)) =
     (hm_get (repos q))(r \<mapsto> (repo_or_new r w q)\<lparr>weight := max w 1\<rparr>)"
  by (simp add: wfq_set_weight_def get_modify_entry)

lemma advance_ge: "is_f64 (virtual_time s) \<Longrightarrow> virtual_time s \<le> advance s"
  by (simp add: advance_def f64_add_ge)

lemma repo_or_new_vt: "virtual_time (repo_or_new r w q) = vt r q"
  by (simp add: repo_or_new_def vt_get repo_state_new_def split: option.splits)

lemma snapped_ge: "virtual_time s \<le> snapped snap s"
  by (auto simp: snapped_def split: option.splits)

lemma vt_apply_mono:
  assumes "wfq_ok q" and "wfq_apply c q = Some (q', s)"
  shows "vt r q \<le> vt r q'"
proof (cases c)
  case (SetWeight r1 w)
  with assms(2) show ?thesis
    using repo_or_new_vt [of r1 w q] by (auto simp: vt_get wfq_set_weight_get)
next
  case (Enqueue r1 t)
  with assms(2) show ?thesis
    using repo_or_new_vt [of r1 default_weight q]
      snapped_ge [of "repo_or_new r1 default_weight q" "system_virtual_time q"]
    by (auto simp: vt_get wfq_enqueue_get)
next
  case Dispatch
  have ok: "hm_ok (repos q)" using assms(1) by (simp add: wfq_ok_def)
  from ok show ?thesis
  proof (cases rule: wfq_dispatch_cases)
    case (serve r1 s1 e tag rest)
    then have "virtual_time s1 \<le> advance s1"
      using assms(1) advance_ge wfq_ok_repo by blast
    moreover have "vt r1 q = virtual_time s1" using serve(2) by (simp add: vt_get)
    moreover have "q' = served q r1 tag rest" using Dispatch assms(2) serve(5) by simp
    ultimately show ?thesis by (simp only: vt_served [OF serve(2)] split: if_split) simp
  qed (use Dispatch assms(2) in auto)
next
  case (Complete t)
  with assms(2) show ?thesis by (auto simp: vt_get wfq_complete_def)
next
  case (CancelPending p)
  with assms(2) show ?thesis by (auto simp: vt_get cancel_pending_get split: option.splits)
next
  case (Reorder m)
  with assms show ?thesis
    using reorder_get [of q m q' s] by (simp only: vt_get)
qed

lemma weights_apply:
  assumes "wfq_ok q" "weights_le k q" "keeps k tag c" "wfq_apply c q = Some (q', s)"
  shows "weights_le k q'"
proof (cases c)
  case (SetWeight r1 w)
  with assms show ?thesis
    by (auto simp: weights_le_def wfq_set_weight_get keeps_def split: if_splits)
next
  case (Enqueue r1 t)
  have "weight (repo_or_new r1 default_weight q) \<le> 2 ^ k"
    using assms(2) by (auto simp: weights_le_def repo_or_new_def repo_state_new_def
      default_weight_def split: option.splits)
  with Enqueue assms show ?thesis
    by (auto simp: weights_le_def wfq_enqueue_get split: if_splits)
next
  case Dispatch
  have ok: "hm_ok (repos q)" using assms(1) by (simp add: wfq_ok_def)
  from ok show ?thesis
  proof (cases rule: wfq_dispatch_cases)
    case (serve r1 s1 e tag rest)
    with Dispatch assms(2,4) show ?thesis by (auto simp: weights_le_def hm_simps split: if_splits)
  qed (use Dispatch assms in auto)
next
  case (Complete t)
  with assms show ?thesis by (auto simp: weights_le_def wfq_complete_def)
next
  case (CancelPending p)
  with assms show ?thesis by (auto simp: weights_le_def cancel_pending_get)
next
  case (Reorder m)
  with assms show ?thesis
    using reorder_get [of q m q' s] by (simp only: weights_le_def)
qed

lemma backlogged_apply:
  assumes "wfq_ok q" "backlogged r v e tag q" "keeps k tag c" "wfq_apply c q = Some (q', s)"
    "r \<notin> set s"
  shows "backlogged r v e tag q'"
proof (cases c)
  case (SetWeight r1 w)
  with assms show ?thesis
    by (auto simp: backlogged_def wfq_set_weight_get repo_or_new_def)
next
  case (Enqueue r1 t)
  with assms show ?thesis
    by (auto simp: backlogged_def wfq_enqueue_get repo_or_new_def snapped_def has_pending_def)
next
  case Dispatch
  have ok: "hm_ok (repos q)" using assms(1) by (simp add: wfq_ok_def)
  from ok show ?thesis
  proof (cases rule: wfq_dispatch_cases)
    case (serve r1 s1 e tag rest)
    with Dispatch assms(2,4,5) show ?thesis by (auto simp: backlogged_def hm_simps)
  qed (use Dispatch assms in auto)
next
  case (Complete t)
  with assms show ?thesis by (auto simp: backlogged_def wfq_complete_def)
next
  case (CancelPending p)
  with assms show ?thesis by (auto simp: backlogged_def cancel_pending_get keeps_def)
next
  case (Reorder m)
  with assms show ?thesis
    using reorder_get [of q m q' s] by (simp only: backlogged_def)
qed

text \<open>
  While \<open>r\<close> waits at virtual time \<open>v\<close>, serving another repo needs that repo to be at most at
  \<open>v\<close>, and moves it forward by at least \<open>2^(-k-1)\<close>.
\<close>

lemma serve_progress:
  assumes "wfq_ok q" "backlogged r v e tag q" "weights_le k q" "k \<le> 50" "v < 2 powi (51 - int k)"
    "wfq_apply c q = Some (q', s)"
  shows "s = [] \<or> (\<exists>r1. s = [r1] \<and> vt r1 q \<le> v \<and> vt r1 q + 2 powi (- int k - 1) \<le> vt r1 q')"
proof (cases c)
  case Dispatch
  have ok: "hm_ok (repos q)" using assms(1) by (simp add: wfq_ok_def)
  from ok show ?thesis
  proof (cases rule: wfq_dispatch_cases)
    case (serve r1 s1 e1 tag1 rest)
    have q': "q' = served q r1 tag1 rest" "s = [r1]" using Dispatch assms(6) serve(5) by simp_all
    have v1: "vt r1 q = virtual_time s1" using serve(2) by (simp add: vt_get)
    from assms(2) obtain s2 rest2 where "hm_get (repos q) r = Some s2" "virtual_time s2 = v"
        "pending s2 = (e, tag) # rest2" by (auto simp: backlogged_def)
    with serve(4) have le: "virtual_time s1 \<le> v" by (fastforce simp: key_le_def)
    have "virtual_time s1 + 2 powi (- int k - 1) \<le> advance s1"
      unfolding advance_def
      by (rule f64_add_progress)
        (use wfq_ok_repo [OF assms(1) serve(2)] le assms(3,4,5) serve(2) in \<open>auto simp: weights_le_def\<close>)
    with le show ?thesis
      unfolding q' by (simp add: vt_served [OF serve(2)] v1)
  qed (use Dispatch assms(6) in auto)
qed (use assms(6) in auto)

lemma bypass_induct:
  assumes "wfq_ok q" "backlogged r v e tag q" "weights_le k q" "k \<le> 50" "v < 2 powi (51 - int k)"
    "\<forall>c\<in>set cs. keeps k tag c" "wfq_run cs q = Some (q', s)" "r \<notin> set s" "0 < count_list s r'"
  shows "rat_of_nat (count_list s r') \<le> (v - vt r' q) * 2 ^ (k + 1) + 1"
  using assms(1-3,6-9)
proof (induction cs arbitrary: q s)
  case (Cons c cs)
  from Cons.prems(5) obtain q1 s1 s2 where q1: "wfq_apply c q = Some (q1, s1)"
      "wfq_run cs q1 = Some (q', s2)" "s = s1 @ s2"
    by (auto split: option.splits)
  have inv: "wfq_ok q1" "weights_le k q1" "backlogged r v e tag q1"
    using q1 Cons.prems wfq_apply_ok [OF Cons.prems(1)] weights_apply [of q k tag c q1 s1]
      backlogged_apply [of q r v e tag k c q1 s1]
    by (metis option.inject prod.inject, simp_all)
  have IH: "0 < count_list s2 r' \<Longrightarrow> rat_of_nat (count_list s2 r') \<le> (v - vt r' q1) * 2 ^ (k + 1) + 1"
    using Cons.IH [OF inv(1,3,2)] q1 Cons.prems by simp
  have scale: "2 powi (- int k - 1) * 2 ^ (k + 1) = (1::rat)"
    by (simp add: power_int_def power_one_over nat_add_distrib flip: power_Suc)
  have mono: "(v - b) * 2 ^ (k + 1) \<le> (v - a) * 2 ^ (k + 1)" if "a \<le> b" for a b :: rat
    using that by (simp add: mult_right_mono)
  show ?case
  proof (cases "r' \<in> set s1")
    case True
    with serve_progress [OF Cons.prems(1,2,3) assms(4,5) q1(1)]
    have s1: "s1 = [r']" and le: "vt r' q \<le> v"
      and step: "vt r' q + 2 powi (- int k - 1) \<le> vt r' q1" by auto
    have "(v - vt r' q1) * 2 ^ (k + 1) + 1 \<le> (v - vt r' q) * 2 ^ (k + 1)"
      using mono [OF step] scale by (simp add: algebra_simps)
    moreover have "0 \<le> (v - vt r' q) * 2 ^ (k + 1)" using le by simp
    ultimately show ?thesis
      using IH by (cases "count_list s2 r' = 0") (auto simp: q1(3) s1)
  next
    case False
    then have "count_list s r' = count_list s2 r'" by (simp add: q1(3) count_list_0_iff)
    with IH Cons.prems(7) mono [OF vt_apply_mono [OF Cons.prems(1) q1(1), of r']] show ?thesis
      by linarith
  qed
qed simp

section \<open>Properties\<close>

lemma wfq_dispatch_None:
  assumes "wfq_ok q" and "wfq_dispatch q = Some (q', None)"
  shows "q' = q \<and> (cap_full q \<or> wfq_pending_count q = 0)"
proof -
  have ok: "hm_ok (repos q)" using assms(1) by (simp add: wfq_ok_def)
  then show ?thesis
  proof (cases rule: wfq_dispatch_cases)
    case idle
    then have "\<forall>s\<in>set (hm_values (repos q)). length (pending s) = 0"
      using hm_in_set [OF ok] by fastforce
    with idle assms(2) show ?thesis by (simp add: wfq_pending_count_def)
  qed (use assms(2) in auto)
qed

lemma apply_concurrency_cap:
  assumes "wfq_ok q" and "wfq_apply c q = Some (q', s)"
  shows "concurrency_cap q' = concurrency_cap q"
proof (cases c)
  case Dispatch
  have "hm_ok (repos q)" using assms(1) by (simp add: wfq_ok_def)
  then show ?thesis
    by (rule wfq_dispatch_cases) (use Dispatch assms(2) in auto)
qed (use assms(2) in \<open>auto simp: wfq_set_weight_def wfq_enqueue_def Let_def wfq_complete_def
  wfq_cancel_pending_def split: if_splits\<close>)

lemma run_concurrency_cap:
  "wfq_ok q \<Longrightarrow> wfq_run cs q = Some (q', s) \<Longrightarrow> concurrency_cap q' = concurrency_cap q"
proof (induction cs arbitrary: q s)
  case (Cons c cs)
  obtain q1 s1 where q1: "wfq_apply c q = Some (q1, s1)" "wfq_ok q1"
    using wfq_apply_ok [OF Cons.prems(1)] .
  with Cons.prems(2) obtain s2 where "wfq_run cs q1 = Some (q', s2)" by auto
  with Cons.IH [OF q1(2)] apply_concurrency_cap [OF Cons.prems(1) q1(1)] show ?case by simp
qed simp

text \<open>C25. Whatever sequence of calls a fresh queue receives, and in whatever order its maps are
  iterated, no call panics and the number of tags in flight never exceeds the concurrency cap.\<close>

theorem wfq_never_panics_and_respects_cap:
  "\<exists>q s. wfq_run cs (wfq_new cap) = Some (q, s) \<and>
     (case cap of None \<Rightarrow> True | Some c \<Rightarrow> wfq_in_flight_count q \<le> c)"
proof -
  obtain q s where q: "wfq_run cs (wfq_new cap) = Some (q, s)" "wfq_ok q"
    using wfq_run_ok [OF wfq_new_ok] by blast
  have "concurrency_cap q = cap"
    using run_concurrency_cap [OF wfq_new_ok q(1)] by (simp add: wfq_new_def)
  with q show ?thesis
    by (auto simp: wfq_ok_def cap_ok_def wfq_in_flight_count_def split: option.splits)
qed

text \<open>C22. A dispatch is work conserving and fair: it returns nothing only when the cap is full or
  nothing is pending, and otherwise serves the oldest entry of a repo that has the least
  (virtual time, oldest sequence number) of all repos with pending work.\<close>

theorem wfq_dispatch_selects_minimum:
  assumes "wfq_ok q"
  shows "\<exists>q' res. wfq_dispatch q = Some (q', res) \<and>
    (case res of
       None \<Rightarrow> q' = q \<and> (cap_full q \<or> wfq_pending_count q = 0)
     | Some p \<Rightarrow> \<not> cap_full q \<and>
         (\<exists>s e rest. hm_get (repos q) (pop_repo p) = Some s \<and> pending s = (e, pop_tag p) # rest \<and>
            (\<forall>r' s' e' t' rest'. hm_get (repos q) r' = Some s' \<and> pending s' = (e', t') # rest' \<longrightarrow>
               virtual_time s < virtual_time s' \<or> virtual_time s = virtual_time s' \<and> e \<le> e')))"
proof -
  have ok: "hm_ok (repos q)" using assms by (simp add: wfq_ok_def)
  from ok show ?thesis
  proof (cases rule: wfq_dispatch_cases)
    case full
    then show ?thesis by simp
  next
    case idle
    with wfq_dispatch_None [OF assms] show ?thesis by simp
  next
    case (serve r s e tag rest)
    then show ?thesis by (simp add: key_le_def) blast
  qed
qed

definition two_repos :: "nat wfq" where
  "two_repos = wfq_enqueue (RepoId 2) 8 (wfq_enqueue (RepoId 1) 7 (wfq_new (Some 1)))"

theorem wfq_dispatch_selects_minimum_witness:
  "\<exists>q' res. wfq_dispatch two_repos = Some (q', res) \<and>
    (case res of
       None \<Rightarrow> q' = two_repos \<and> (cap_full two_repos \<or> wfq_pending_count two_repos = 0)
     | Some p \<Rightarrow> \<not> cap_full two_repos \<and>
         (\<exists>s e rest. hm_get (repos two_repos) (pop_repo p) = Some s \<and>
            pending s = (e, pop_tag p) # rest \<and>
            (\<forall>r' s' e' t' rest'. hm_get (repos two_repos) r' = Some s' \<and>
                pending s' = (e', t') # rest' \<longrightarrow>
               virtual_time s < virtual_time s' \<or> virtual_time s = virtual_time s' \<and> e \<le> e')))"
  by (rule wfq_dispatch_selects_minimum) (simp add: two_repos_def)

text \<open>C26. The choice does not depend on the iteration order of the hash map: on any permutation
  of the repo table \<open>dispatch\<close> returns the same tag and repo.\<close>

theorem wfq_dispatch_order_independent:
  assumes ok: "wfq_ok q" and perm: "mset m = mset (repos q)"
  shows "map_option snd (wfq_dispatch (q\<lparr>repos := m\<rparr>)) = map_option snd (wfq_dispatch q)"
proof -
  let ?q = "q\<lparr>repos := m\<rparr>"
  have hm: "hm_ok (repos q)" "hm_ok (repos ?q)"
    using ok reorder_ok [OF ok perm] by (simp_all add: wfq_ok_def)
  have get: "hm_get m = hm_get (repos q)" using hm_get_reorder [OF perm hm(1)] .
  have cap: "cap_full ?q = cap_full q" by (simp add: cap_full_def split: option.splits)
  from hm(1) show ?thesis
  proof (cases rule: wfq_dispatch_cases)
    case full
    then show ?thesis using cap by (simp add: wfq_dispatch_def)
  next
    case idle
    from hm(2) show ?thesis
      by (cases rule: wfq_dispatch_cases) (use idle get cap in auto)
  next
    case s: (serve r s e tag rest)
    from hm(2) show ?thesis
    proof (cases rule: wfq_dispatch_cases)
      case s': (serve r' s' e' tag' rest')
      have get': "hm_get (repos q) r' = Some s'" using s'(2) by (simp add: get)
      have "key_le (virtual_time s, e) (virtual_time s', e')" using s(4) [OF get' s'(3)] .
      moreover have "key_le (virtual_time s', e') (virtual_time s, e)"
        using s'(4) [of r s e tag rest] s(2,3) by (simp add: get)
      ultimately have "e = e'" using key_le_antisym by blast
      then have "e \<in> seqs (repos q) r" "e \<in> seqs (repos q) r'"
        using s(2,3) get' s'(3) by (simp_all add: seqs_def)
      then have "r = r'"
        using ok unfolding wfq_ok_def seqs_apart_def by blast
      with s s' get' show ?thesis by simp
    qed (use s get cap in auto)
  qed
qed

theorem wfq_dispatch_order_independent_witness:
  "map_option snd (wfq_dispatch (two_repos\<lparr>repos := rev (repos two_repos)\<rparr>)) =
     map_option snd (wfq_dispatch two_repos)"
  by (rule wfq_dispatch_order_independent) (simp_all add: two_repos_def)

text \<open>No tag is lost or duplicated: \<open>enqueue\<close> adds exactly its tag, \<open>dispatch\<close> takes out
  exactly the tag it returns and records it in flight, and \<open>cancel_pending\<close> returns exactly the
  pending tags that match and leaves the others.\<close>

lemma wfq_conserves_tags:
  assumes "wfq_ok q"
  shows "pending_tags (wfq_enqueue r t q) = add_mset t (pending_tags q) \<and>
    (\<forall>q' res. wfq_dispatch q = Some (q', res) \<longrightarrow>
       pending_tags q = (case res of None \<Rightarrow> {#} | Some p \<Rightarrow> {#pop_tag p#}) + pending_tags q' \<and>
       hm_get (in_flight q') = (case res of None \<Rightarrow> hm_get (in_flight q)
         | Some p \<Rightarrow> (hm_get (in_flight q))(pop_tag p \<mapsto> pop_repo p))) \<and>
    mset (snd (wfq_cancel_pending f q)) = filter_mset f (pending_tags q) \<and>
    pending_tags (fst (wfq_cancel_pending f q)) = filter_mset (\<lambda>t. \<not> f t) (pending_tags q)"
  using pending_tags_enqueue [OF assms] wfq_dispatch_tags [OF assms]
    wfq_dispatch_in_flight [OF assms] pending_tags_cancel by blast

lemma wfq_conserves_tags_instance:
  "pending_tags (wfq_enqueue (RepoId 1) 9 two_repos) = add_mset 9 (pending_tags two_repos) \<and>
   mset (snd (wfq_cancel_pending (\<lambda>t. t = 7) two_repos)) = {#7#}"
proof -
  have "pending_tags two_repos = {#7, 8#}"
    by (simp add: two_repos_def pending_tags_enqueue) (simp add: pending_tags_def wfq_new_def)
  then show ?thesis
    using wfq_conserves_tags [of two_repos "RepoId 1" 9 "\<lambda>t. t = 7"] by (simp add: two_repos_def)
qed

text \<open>C5. No starvation: while a repo waits with its head entry uncancelled at virtual time \<open>v\<close>,
  each other repo is served at most \<open>v * 2^(k+1) + 1\<close> times, whatever is enqueued, completed,
  cancelled or reweighted meanwhile, as long as no weight exceeds \<open>2^k\<close> and \<open>v\<close> is below
  \<open>2^(51-k)\<close>, the range in which adding \<open>1.0 / weight\<close> still moves a double.\<close>

theorem wfq_bounded_bypass:
  assumes "wfq_ok q" "weights_le k q" "backlogged r v e tag q" "k \<le> 50" "v < 2 powi (51 - int k)"
    and "\<forall>c\<in>set cs. keeps k tag c" and "wfq_run cs q = Some (q', s)" and "r \<notin> set s"
  shows "rat_of_nat (count_list s r') \<le> v * 2 ^ (k + 1) + 1"
proof (cases "count_list s r' = 0")
  case True
  have "0 \<le> v" using vt_nonneg [OF assms(1), of r] assms(3) by (auto simp: vt_get backlogged_def)
  then show ?thesis using True by simp
next
  case False
  then have "rat_of_nat (count_list s r') \<le> (v - vt r' q) * 2 ^ (k + 1) + 1"
    using bypass_induct [OF assms(1,3,2,4,5,6,7,8), of r'] by simp
  also have "\<dots> \<le> v * 2 ^ (k + 1) + 1"
    using vt_nonneg [OF assms(1), of r'] by (simp add: mult_right_mono)
  finally show ?thesis .
qed

theorem wfq_bounded_bypass_witness:
  "rat_of_nat (count_list [RepoId 1] (RepoId 1)) \<le> 0 * 2 ^ (0 + 1) + 1"
proof (rule wfq_bounded_bypass [of two_repos 0 "RepoId 2" 0 1 8 "[Dispatch]"])
  show "wfq_ok two_repos" by (simp add: two_repos_def)
  have two: "two_repos = \<lparr>repos = [(RepoId 1, \<lparr>weight = 1, virtual_time = 0, pending = [(0, 7)]\<rparr>),
      (RepoId 2, \<lparr>weight = 1, virtual_time = 0, pending = [(1, 8)]\<rparr>)], in_flight = [],
      concurrency_cap = Some 1, next_seq = 2\<rparr>"
    by (simp add: two_repos_def wfq_new_def wfq_enqueue_def push_pending_def hm_entry_def
      repo_state_new_def default_weight_def has_pending_def system_virtual_time_def)
  show "weights_le 0 two_repos" "backlogged (RepoId 2) 0 1 8 two_repos"
    by (simp_all add: two weights_le_def backlogged_def)
  show "wfq_run [Dispatch] two_repos = Some (fst (the (wfq_dispatch two_repos)), [RepoId 1])"
    by (simp add: two wfq_dispatch_def cap_full_def consider_repo_def earliest_seq_def)
qed (simp_all add: keeps_def)

end
