(* ===== verification/Sched.thy ===== *)
theory Sched
  imports Names Wfq
begin

text \<open>
  The interface of the scheduler (\<open>argunix-sched/src/lib.rs\<close>) and the generic dispatch loop
  \<open>drive\<close> of \<open>argunix-daemon/src/dispatch_driver.rs\<close>.

  A \<open>dyn ScheduleStrategy\<close> is a record of its methods over a state type, \<open>None\<close> being a panic.
  \<open>debug_assert!\<close> is compiled out of a release build and is not modelled. What the loop relies on
  is the locale \<open>lawful_strategy\<close>; the theories \<open>Flat\<close> and \<open>Dag\<close> interpret it for the two
  strategies of the crate.
\<close>

section \<open>Interface types\<close>

type_synonym token = nat

record schedule_item =
  item_repo_id :: repo_id
  item_eval_id :: eval_id
  item_job_id :: job_id
  head_drv :: derivation_info
  item_closure :: "derivation_info list"

record dispatched =
  d_token :: token
  d_repo_id :: repo_id
  d_eval_id :: eval_id
  d_drv_path :: string
  d_system :: "string option"
  d_required_features :: "string list"
  head_job :: "job_id option"

record cascaded_skip =
  skip_job_id :: job_id
  skip_eval_id :: eval_id
  skip_repo_id :: repo_id
  reason_drv :: string

record alias_completion =
  alias_job_id :: job_id
  alias_eval_id :: eval_id
  alias_repo_id :: repo_id

record completion_effects =
  eff_repo_id :: "repo_id option"
  cascaded_skips :: "cascaded_skip list"
  alias_completions :: "alias_completion list"

definition default_effects :: completion_effects where
  "default_effects = \<lparr>eff_repo_id = None, cascaded_skips = [], alias_completions = []\<rparr>"

text \<open>The \<open>reason_drv\<close> of the skips a cancel returns.\<close>

definition eval_cancelled_reason :: "eval_id \<Rightarrow> string" where
  "eval_cancelled_reason e = ''eval '' @ show_int (eval_get e) @ '' cancelled''"

datatype scheduler_kind = KindFlat | KindDag

record 's schedule_strategy =
  st_set_weight :: "repo_id \<Rightarrow> nat \<Rightarrow> 's \<Rightarrow> 's"
  st_enqueue :: "schedule_item \<Rightarrow> 's \<Rightarrow> 's option"
  st_dispatch :: "'s \<Rightarrow> ('s \<times> dispatched option) option"
  st_complete :: "token \<Rightarrow> job_status \<Rightarrow> 's \<Rightarrow> ('s \<times> completion_effects) option"
  st_cancel_eval :: "eval_id \<Rightarrow> 's \<Rightarrow> ('s \<times> cascaded_skip list) option"
  st_pending_count :: "'s \<Rightarrow> nat"
  st_in_flight_count :: "'s \<Rightarrow> nat"
  st_pending_for :: "repo_id \<Rightarrow> 's \<Rightarrow> nat"

section \<open>The dispatch loop\<close>

text \<open>
  \<open>join_set\<close> holds the tokens of the tasks in the \<open>JoinSet\<close>; \<open>spawned\<close> and \<open>on_skip_calls\<close>
  record the calls of \<open>spawn\<close> and \<open>on_skip\<close>.
\<close>

record 's driver =
  strategy :: 's
  join_set :: "token list"
  spawned :: "dispatched list"
  on_skip_calls :: "cascaded_skip list"

definition driver_start :: "'s \<Rightarrow> 's driver" where
  "driver_start s = \<lparr>strategy = s, join_set = [], spawned = [], on_skip_calls = []\<rparr>"

definition spawn_one :: "'s \<Rightarrow> dispatched \<Rightarrow> 's driver \<Rightarrow> 's driver" where
  "spawn_one s x d =
     d\<lparr>strategy := s, join_set := join_set d @ [d_token x], spawned := spawned d @ [x]\<rparr>"

text \<open>The inner \<open>while let Some(d) = strategy.dispatch()\<close>: \<open>None\<close> if it panics or never ends.\<close>

partial_function (option) spawn_loop :: "'s schedule_strategy \<Rightarrow> 's driver \<Rightarrow> 's driver option" where
  "spawn_loop V d =
     (case st_dispatch V (strategy d) of
        None \<Rightarrow> None
      | Some (s, res) \<Rightarrow>
          (case res of
             None \<Rightarrow> Some (d\<lparr>strategy := s\<rparr>)
           | Some x \<Rightarrow> spawn_loop V (spawn_one s x d)))"

declare spawn_loop.simps [code]

text \<open>
  What the outside does in one turn of the loop: whether the cancel token has fired by the time
  the turn reads it, and how the await ends. \<open>Joined i st\<close> and \<open>TaskPanicked i\<close> pick a task of the
  set (index modulo its size); on an empty set \<open>join_next\<close> is \<open>None\<close> at once.
\<close>

datatype await_outcome = Joined nat job_status | TaskPanicked nat | CancelWakes

datatype turn = Turn (cancel_fired: bool) (await: await_outcome)

datatype 's drive_result = Waiting bool "'s driver" | Exited "'s driver" | Stuck

definition join_next :: "nat \<Rightarrow> 'a list \<Rightarrow> ('a \<times> 'a list) option" where
  "join_next i ts =
     (if ts = [] then None
      else let k = i mod length ts in Some (ts ! k, take k ts @ drop (Suc k) ts))"

definition drive_await :: "'s schedule_strategy \<Rightarrow> await_outcome \<Rightarrow> bool \<Rightarrow> 's driver \<Rightarrow>
    's drive_result" where
  "drive_await V w cancelled d =
     (case w of
        CancelWakes \<Rightarrow> Waiting True d
      | TaskPanicked i \<Rightarrow>
          (case join_next i (join_set d) of
             None \<Rightarrow> Waiting cancelled d
           | Some (_, ts) \<Rightarrow> Waiting cancelled (d\<lparr>join_set := ts\<rparr>))
      | Joined i st \<Rightarrow>
          (case join_next i (join_set d) of
             None \<Rightarrow> Waiting cancelled d
           | Some (t, ts) \<Rightarrow>
               (case st_complete V t st (strategy d) of
                  None \<Rightarrow> Stuck
                | Some (s, eff) \<Rightarrow>
                    Waiting cancelled (d\<lparr>strategy := s, join_set := ts,
                      on_skip_calls := on_skip_calls d @ cascaded_skips eff\<rparr>))))"

definition drive_turn :: "'s schedule_strategy \<Rightarrow> turn \<Rightarrow> bool \<Rightarrow> 's driver \<Rightarrow> 's drive_result" where
  "drive_turn V w cancelled0 d0 =
     (let cancelled = (cancelled0 \<or> cancel_fired w) in
      case (if \<not> cancelled then spawn_loop V d0 else Some d0) of
        None \<Rightarrow> Stuck
      | Some d \<Rightarrow>
          if join_set d = [] \<and> (st_pending_count V (strategy d) = 0 \<or> cancelled) then Exited d
          else drive_await V (await w) cancelled d)"

text \<open>\<open>drive\<close> over the turns the outside provides; \<open>Waiting\<close> when they are used up.\<close>

fun drive :: "'s schedule_strategy \<Rightarrow> turn list \<Rightarrow> bool \<Rightarrow> 's driver \<Rightarrow> 's drive_result" where
  "drive V [] cancelled d = Waiting cancelled d"
| "drive V (w # ws) cancelled d =
     (case drive_turn V w cancelled d of
        Waiting c d' \<Rightarrow> drive V ws c d'
      | res \<Rightarrow> res)"

section \<open>Histories\<close>

text \<open>
  The states a strategy can reach from \<open>s0\<close> through calls of its interface, with the history of
  the calls and their results. \<open>R\<close> is the freedom of the hash maps to change their iteration order
  between calls. A call that panics has no successor.
\<close>

datatype sched_event =
    EvEnqueued schedule_item
  | EvDispatched dispatched
  | EvCompleted token job_status
  | EvCancelled eval_id
  | EvSkip cascaded_skip
  | EvAlias alias_completion

inductive history :: "'s schedule_strategy \<Rightarrow> ('s \<Rightarrow> 's \<Rightarrow> bool) \<Rightarrow> 's \<Rightarrow> sched_event list \<Rightarrow> 's \<Rightarrow> bool"
  for V R s0 where
  start: "history V R s0 [] s0"
| set_weight: "history V R s0 tr s \<Longrightarrow> history V R s0 tr (st_set_weight V r w s)"
| enqueue: "history V R s0 tr s \<Longrightarrow> st_enqueue V it s = Some s' \<Longrightarrow>
    history V R s0 (tr @ [EvEnqueued it]) s'"
| dispatch_none: "history V R s0 tr s \<Longrightarrow> st_dispatch V s = Some (s', None) \<Longrightarrow> history V R s0 tr s'"
| dispatch: "history V R s0 tr s \<Longrightarrow> st_dispatch V s = Some (s', Some x) \<Longrightarrow>
    history V R s0 (tr @ [EvDispatched x]) s'"
| complete: "history V R s0 tr s \<Longrightarrow> st_complete V t st s = Some (s', eff) \<Longrightarrow>
    history V R s0 (tr @ EvCompleted t st # map EvSkip (cascaded_skips eff)
      @ map EvAlias (alias_completions eff)) s'"
| cancel: "history V R s0 tr s \<Longrightarrow> st_cancel_eval V e s = Some (s', skips) \<Longrightarrow>
    history V R s0 (tr @ EvCancelled e # map EvSkip skips) s'"
| reorder: "history V R s0 tr s \<Longrightarrow> R s s' \<Longrightarrow> history V R s0 tr s'"

fun enqueued_of :: "sched_event \<Rightarrow> job_id list" where
  "enqueued_of (EvEnqueued it) = [item_job_id it]"
| "enqueued_of _ = []"

fun dispatched_of :: "sched_event \<Rightarrow> dispatched list" where
  "dispatched_of (EvDispatched x) = [x]"
| "dispatched_of _ = []"

fun skipped_of :: "sched_event \<Rightarrow> job_id list" where
  "skipped_of (EvSkip k) = [skip_job_id k]"
| "skipped_of _ = []"

definition enqueued_jobs :: "sched_event list \<Rightarrow> job_id list" where
  "enqueued_jobs tr = concat (map enqueued_of tr)"

definition dispatches :: "sched_event list \<Rightarrow> dispatched list" where
  "dispatches tr = concat (map dispatched_of tr)"

definition dispatched_jobs :: "sched_event list \<Rightarrow> job_id list" where
  "dispatched_jobs tr = List.map_filter head_job (dispatches tr)"

definition skipped_jobs :: "sched_event list \<Rightarrow> job_id list" where
  "skipped_jobs tr = concat (map skipped_of tr)"

lemma concat_map_Nil: "(\<And>x. f x = []) \<Longrightarrow> concat (map f xs) = []"
  by (induction xs) auto

lemma skipped_of_EvSkip: "concat (map (skipped_of \<circ> EvSkip) ks) = map skip_job_id ks"
  by (induction ks) auto

lemma history_lists [simp]:
  "enqueued_jobs [] = []" "dispatches [] = []" "dispatched_jobs [] = []" "skipped_jobs [] = []"
  "enqueued_jobs (a @ b) = enqueued_jobs a @ enqueued_jobs b"
  "dispatches (a @ b) = dispatches a @ dispatches b"
  "dispatched_jobs (a @ b) = dispatched_jobs a @ dispatched_jobs b"
  "skipped_jobs (a @ b) = skipped_jobs a @ skipped_jobs b"
  by (simp_all add: enqueued_jobs_def dispatches_def dispatched_jobs_def skipped_jobs_def
      List.map_filter_def)

lemma history_events [simp]:
  "enqueued_jobs (ev # tr) = enqueued_of ev @ enqueued_jobs tr"
  "dispatches (ev # tr) = dispatched_of ev @ dispatches tr"
  "dispatched_jobs (ev # tr) = List.map_filter head_job (dispatched_of ev) @ dispatched_jobs tr"
  "skipped_jobs (ev # tr) = skipped_of ev @ skipped_jobs tr"
  "enqueued_jobs (map EvSkip ks) = []" "dispatches (map EvSkip ks) = []"
  "dispatched_jobs (map EvSkip ks) = []" "skipped_jobs (map EvSkip ks) = map skip_job_id ks"
  "enqueued_jobs (map EvAlias as) = []" "dispatches (map EvAlias as) = []"
  "dispatched_jobs (map EvAlias as) = []" "skipped_jobs (map EvAlias as) = []"
  by (simp_all add: enqueued_jobs_def dispatches_def dispatched_jobs_def skipped_jobs_def
      List.map_filter_def skipped_of_EvSkip comp_def concat_map_Nil)

lemma map_filter_single [simp]:
  "List.map_filter f [] = []" "List.map_filter f [x] = (case f x of None \<Rightarrow> [] | Some y \<Rightarrow> [y])"
  by (auto simp: List.map_filter_def split: option.splits)

section \<open>What the loop relies on\<close>

text \<open>
  \<open>live\<close> is the set of tokens handed out and not yet completed, \<open>work\<close> bounds the dispatches to
  come. The laws: on a good state no method panics and all keep it good; a dispatch uses up work
  and hands out a token that is not live; only a state with nothing pending, or with a live
  token, refuses to dispatch; a completion retires its token and creates no work.
\<close>

locale lawful_strategy =
  fixes V :: "'s schedule_strategy"
    and good :: "'s \<Rightarrow> bool"
    and live :: "'s \<Rightarrow> token set"
    and work :: "'s \<Rightarrow> nat"
  assumes dispatch_total: "good s \<Longrightarrow> \<exists>s' res. st_dispatch V s = Some (s', res) \<and> good s'"
    and dispatch_some: "good s \<Longrightarrow> st_dispatch V s = Some (s', Some x) \<Longrightarrow>
      d_token x \<notin> live s \<and> live s' = insert (d_token x) (live s) \<and> work s' < work s"
    and dispatch_none: "good s \<Longrightarrow> st_dispatch V s = Some (s', None) \<Longrightarrow>
      live s' = live s \<and> work s' \<le> work s \<and> (st_pending_count V s' = 0 \<or> live s' \<noteq> {})"
    and complete_live: "good s \<Longrightarrow> t \<in> live s \<Longrightarrow>
      \<exists>s' eff. st_complete V t st s = Some (s', eff) \<and> good s' \<and> live s' = live s - {t} \<and>
        work s' \<le> work s"
begin

definition in_step :: "'s driver \<Rightarrow> bool" where
  "in_step d = (good (strategy d) \<and> live (strategy d) = set (join_set d) \<and> distinct (join_set d))"

definition load :: "'s driver \<Rightarrow> nat" where
  "load d = work (strategy d) + length (join_set d)"

lemma spawn_loop_total:
  assumes "in_step d"
  shows "\<exists>d'. spawn_loop V d = Some d' \<and> in_step d' \<and> load d' \<le> load d \<and>
    on_skip_calls d' = on_skip_calls d \<and>
    (join_set d' = [] \<longrightarrow> st_pending_count V (strategy d') = 0)"
  using assms
proof (induction "work (strategy d)" arbitrary: d rule: less_induct)
  case less
  from less.prems have good: "good (strategy d)" by (simp add: in_step_def)
  then obtain s' res where d: "st_dispatch V (strategy d) = Some (s', res)" "good s'"
    using dispatch_total by blast
  show ?case
  proof (cases res)
    case None
    have none: "live s' = live (strategy d)" "work s' \<le> work (strategy d)"
        "st_pending_count V s' = 0 \<or> live s' \<noteq> {}"
      using dispatch_none [OF good] d None by auto
    have "spawn_loop V d = Some (d\<lparr>strategy := s'\<rparr>)"
      using d None by (subst spawn_loop.simps) simp
    moreover have "in_step (d\<lparr>strategy := s'\<rparr>)"
      using d none(1) less.prems by (simp add: in_step_def)
    moreover have "set (join_set d) = live (strategy d)"
      using less.prems by (simp add: in_step_def)
    ultimately show ?thesis
      using none by (auto simp: load_def)
  next
    case (Some x)
    have some: "d_token x \<notin> live (strategy d)" "live s' = insert (d_token x) (live (strategy d))"
        "work s' < work (strategy d)"
      using dispatch_some [OF good] d Some by auto
    have step: "spawn_loop V d = spawn_loop V (spawn_one s' x d)"
      using d Some by (subst spawn_loop.simps) simp
    have "in_step (spawn_one s' x d)"
      using d(2) some less.prems by (auto simp: in_step_def spawn_one_def)
    from less.hyps [OF _ this] some(3) obtain d' where d':
        "spawn_loop V (spawn_one s' x d) = Some d'" "in_step d'" "load d' \<le> load (spawn_one s' x d)"
        "on_skip_calls d' = on_skip_calls (spawn_one s' x d)"
        "join_set d' = [] \<longrightarrow> st_pending_count V (strategy d') = 0"
      by (auto simp: spawn_one_def)
    moreover have "load (spawn_one s' x d) \<le> load d"
      using some(3) by (simp add: load_def spawn_one_def)
    ultimately show ?thesis
      by (auto simp: step spawn_one_def)
  qed
qed

lemma join_next_Some:
  assumes "join_next i ts = Some (t, ts')" and "distinct ts"
  shows "t \<in> set ts \<and> set ts' = set ts - {t} \<and> distinct ts' \<and> Suc (length ts') = length ts"
proof -
  let ?k = "i mod length ts"
  have t: "t = ts ! ?k" and ts': "ts' = take ?k ts @ drop (Suc ?k) ts" and k: "?k < length ts"
    using assms(1) by (auto simp: join_next_def Let_def split: if_splits)
  obtain xs ys where "ts = xs @ t # ys" "ts' = xs @ ys"
    using id_take_nth_drop [OF k] t ts' by metis
  then show ?thesis using assms(2) by auto
qed

lemma drive_await_joined:
  assumes "in_step d" and "join_set d \<noteq> []"
  shows "\<exists>d'. drive_await V (Joined i st) c d = Waiting c d' \<and> in_step d' \<and> load d' < load d"
proof -
  obtain t ts where j: "join_next i (join_set d) = Some (t, ts)"
    using assms(2) by (auto simp: join_next_def Let_def)
  have ts: "t \<in> live (strategy d)" "set ts = live (strategy d) - {t}" "distinct ts"
      "Suc (length ts) = length (join_set d)"
    using join_next_Some [OF j] assms(1) by (auto simp: in_step_def)
  have good: "good (strategy d)" using assms(1) by (simp add: in_step_def)
  from complete_live [OF this ts(1), of st] obtain s' eff where
    c: "st_complete V t st (strategy d) = Some (s', eff)" "good s'"
      "live s' = live (strategy d) - {t}" "work s' \<le> work (strategy d)"
    by blast
  then show ?thesis
    using j ts by (auto simp: drive_await_def in_step_def load_def)
qed

lemma drive_turn_joined:
  assumes "in_step d"
  shows "(\<exists>d'. drive_turn V (Turn cf (Joined i st)) c d = Exited d' \<and> in_step d' \<and> join_set d' = [] \<and>
      (c \<or> cf \<or> st_pending_count V (strategy d') = 0)) \<or>
    (\<exists>d'. drive_turn V (Turn cf (Joined i st)) c d = Waiting (c \<or> cf) d' \<and> in_step d' \<and>
      load d' < load d)"
proof -
  obtain d1 where d1: "(if \<not> (c \<or> cf) then spawn_loop V d else Some d) = Some d1"
      "in_step d1" "load d1 \<le> load d"
      "join_set d1 = [] \<longrightarrow> c \<or> cf \<or> st_pending_count V (strategy d1) = 0"
    using spawn_loop_total [OF assms] assms by (cases "c \<or> cf") auto
  show ?thesis
  proof (cases "join_set d1 = []")
    case True
    with d1 show ?thesis by (auto simp: drive_turn_def Let_def)
  next
    case False
    from drive_await_joined [OF d1(2) False, of i st "c \<or> cf"] obtain d' where
      "drive_await V (Joined i st) (c \<or> cf) d1 = Waiting (c \<or> cf) d'" "in_step d'" "load d' < load d1"
      by blast
    with d1 False show ?thesis by (auto simp: drive_turn_def Let_def)
  qed
qed

text \<open>As long as tasks end with a status, the loop ends within \<open>load\<close> completions.\<close>

lemma drive_terminates:
  assumes "in_step d" and "load d < length ws" and "\<forall>w\<in>set ws. \<exists>cf i st. w = Turn cf (Joined i st)"
  shows "\<exists>d'. drive V ws c d = Exited d' \<and> in_step d' \<and> join_set d' = [] \<and>
    (c \<or> (\<exists>w\<in>set ws. cancel_fired w) \<or> st_pending_count V (strategy d') = 0)"
  using assms
proof (induction ws arbitrary: c d)
  case (Cons w ws)
  then obtain cf i st where w: "w = Turn cf (Joined i st)" by auto
  consider (wait) d' where "drive_turn V w c d = Waiting (c \<or> cf) d'" "in_step d'" "load d' < load d"
    | (exit) d' where "drive_turn V w c d = Exited d'" "in_step d'" "join_set d' = []"
        "c \<or> cf \<or> st_pending_count V (strategy d') = 0"
    using drive_turn_joined [OF Cons.prems(1), of cf i st c] unfolding w by blast
  then show ?case
  proof cases
    case wait
    with Cons.prems have "load d' < length ws" "\<forall>w\<in>set ws. \<exists>cf i st. w = Turn cf (Joined i st)"
      by auto
    from Cons.IH [OF wait(2) this, of "c \<or> cf"] show ?thesis
      using wait(1) by (auto simp: w)
  next
    case exit
    then show ?thesis by (auto simp: w)
  qed
qed simp

lemma driver_start_in_step: "good s \<Longrightarrow> live s = {} \<Longrightarrow> in_step (driver_start s)"
  by (simp add: in_step_def driver_start_def)

lemma drive_from_start:
  assumes "good s" "live s = {}" "work s < length ws"
    and "\<forall>w\<in>set ws. \<exists>cf i st. w = Turn cf (Joined i st)"
  shows "\<exists>d. drive V ws False (driver_start s) = Exited d \<and> good (strategy d) \<and>
    live (strategy d) = {} \<and> join_set d = [] \<and>
    ((\<exists>w\<in>set ws. cancel_fired w) \<or> st_pending_count V (strategy d) = 0)"
proof -
  have "load (driver_start s) < length ws"
    using assms(3) by (simp add: load_def driver_start_def)
  from drive_terminates [OF driver_start_in_step [OF assms(1,2)] this assms(4), of False]
  show ?thesis by (auto simp: in_step_def)
qed

end

end
