(* ===== verification/Flat.thy ===== *)
theory Flat
  imports Sched
begin

text \<open>
  \<open>FlatStrategy\<close> of \<open>argunix-sched/src/flat.rs\<close>: weighted fair queueing over whole jobs.

  Shown here: its invariant under the calls of a client that enqueues every job id once, that
  such a client never hits the \<open>expect\<close> in \<open>dispatch\<close>, that every job is pending, was dispatched
  once or was skipped once, that tokens are never reused, and that it is a lawful strategy for
  the dispatch loop.
\<close>

section \<open>Model\<close>

record flat_pending =
  fp_repo_id :: repo_id
  fp_eval_id :: eval_id
  fp_head_drv :: derivation_info

record flat_strategy =
  f_wfq :: "job_id wfq"
  f_pending :: "(job_id, flat_pending) hashmap"
  f_next_token :: nat
  in_flight_token_to_job :: "(token, job_id) hashmap"

definition flat_new :: "nat option \<Rightarrow> flat_strategy" where
  "flat_new cap =
     \<lparr>f_wfq = wfq_new cap, f_pending = [], f_next_token = 0, in_flight_token_to_job = []\<rparr>"

definition flat_virtual_time_for :: "repo_id \<Rightarrow> flat_strategy \<Rightarrow> f64 option" where
  "flat_virtual_time_for r s = wfq_virtual_time_for r (f_wfq s)"

text \<open>\<open>next_token\<close> is a \<open>u64\<close> that is incremented with \<open>+= 1\<close>; it is unbounded here. The two agree up to
  $2^{64}$ dispatches: the counter is the number of dispatches so far, as C24 shows under that bound.\<close>

definition flat_mint_token :: "flat_strategy \<Rightarrow> flat_strategy \<times> token" where
  "flat_mint_token s = (s\<lparr>f_next_token := f_next_token s + 1\<rparr>, f_next_token s)"

definition flat_set_weight :: "repo_id \<Rightarrow> nat \<Rightarrow> flat_strategy \<Rightarrow> flat_strategy" where
  "flat_set_weight r w s = s\<lparr>f_wfq := wfq_set_weight r w (f_wfq s)\<rparr>"

definition flat_enqueue :: "schedule_item \<Rightarrow> flat_strategy \<Rightarrow> flat_strategy" where
  "flat_enqueue it s =
     s\<lparr>f_pending := hm_insert (item_job_id it)
          \<lparr>fp_repo_id = item_repo_id it, fp_eval_id = item_eval_id it, fp_head_drv = head_drv it\<rparr>
          (f_pending s),
       f_wfq := wfq_enqueue (item_repo_id it) (item_job_id it) (f_wfq s)\<rparr>"

definition flat_dispatch :: "flat_strategy \<Rightarrow> (flat_strategy \<times> dispatched option) option" where
  "flat_dispatch s =
     (case wfq_dispatch (f_wfq s) of
        None \<Rightarrow> None
      | Some (q, None) \<Rightarrow> Some (s\<lparr>f_wfq := q\<rparr>, None)
      | Some (q, Some popped) \<Rightarrow>
          (case hm_get (f_pending s) (pop_tag popped) of
             None \<Rightarrow> None
           | Some pend \<Rightarrow>
               (let (s1, t) = flat_mint_token (s\<lparr>f_wfq := q\<rparr>) in
                Some (s1\<lparr>in_flight_token_to_job :=
                         hm_insert t (pop_tag popped) (in_flight_token_to_job s1)\<rparr>,
                  Some \<lparr>d_token = t, d_repo_id = pop_repo popped, d_eval_id = fp_eval_id pend,
                    d_drv_path = drv_path (fp_head_drv pend), d_system = drv_system (fp_head_drv pend),
                    d_required_features = drv_required_features (fp_head_drv pend),
                    head_job = Some (pop_tag popped)\<rparr>))))"

definition flat_complete :: "token \<Rightarrow> job_status \<Rightarrow> flat_strategy \<Rightarrow>
    flat_strategy \<times> completion_effects" where
  "flat_complete t st s =
     (case hm_get (in_flight_token_to_job s) t of
        None \<Rightarrow> (s, default_effects)
      | Some j \<Rightarrow>
          (let (q, r) = wfq_complete j (f_wfq s) in
           (s\<lparr>in_flight_token_to_job := hm_remove t (in_flight_token_to_job s),
              f_pending := hm_remove j (f_pending s), f_wfq := q\<rparr>,
            \<lparr>eff_repo_id = r, cascaded_skips = [], alias_completions = []\<rparr>)))"

text \<open>The \<open>filter_map\<close> of \<open>cancel_eval\<close>: each removed job loses its metadata and gives a skip.\<close>

fun flat_skips :: "string \<Rightarrow> job_id list \<Rightarrow> (job_id, flat_pending) hashmap \<Rightarrow>
    (job_id, flat_pending) hashmap \<times> cascaded_skip list" where
  "flat_skips reason [] m = (m, [])"
| "flat_skips reason (j # js) m =
     (case hm_get m j of
        None \<Rightarrow> flat_skips reason js m
      | Some p \<Rightarrow>
          (let (m', ks) = flat_skips reason js (hm_remove j m) in
           (m', \<lparr>skip_job_id = j, skip_eval_id = fp_eval_id p, skip_repo_id = fp_repo_id p,
                 reason_drv = reason\<rparr> # ks)))"

definition flat_in_eval :: "eval_id \<Rightarrow> flat_strategy \<Rightarrow> job_id \<Rightarrow> bool" where
  "flat_in_eval e s j =
     (case hm_get (f_pending s) j of None \<Rightarrow> False | Some p \<Rightarrow> fp_eval_id p = e)"

definition flat_cancel_eval :: "eval_id \<Rightarrow> flat_strategy \<Rightarrow> flat_strategy \<times> cascaded_skip list" where
  "flat_cancel_eval e s =
     (let (q, removed) = wfq_cancel_pending (flat_in_eval e s) (f_wfq s);
          (m, ks) = flat_skips (eval_cancelled_reason e) removed (f_pending s)
      in (s\<lparr>f_wfq := q, f_pending := m\<rparr>, ks))"

definition flat_vtable :: "flat_strategy schedule_strategy" where
  "flat_vtable = \<lparr>st_set_weight = flat_set_weight, st_enqueue = (\<lambda>it s. Some (flat_enqueue it s)),
     st_dispatch = flat_dispatch, st_complete = (\<lambda>t st s. Some (flat_complete t st s)),
     st_cancel_eval = (\<lambda>e s. Some (flat_cancel_eval e s)),
     st_pending_count = (\<lambda>s. wfq_pending_count (f_wfq s)),
     st_in_flight_count = (\<lambda>s. wfq_in_flight_count (f_wfq s)),
     st_pending_for = (\<lambda>r s. wfq_pending_for r (f_wfq s))\<rparr>"

section \<open>Invariant\<close>

definition flat_reorder :: "flat_strategy \<Rightarrow> flat_strategy \<Rightarrow> bool" where
  "flat_reorder s s' = (\<exists>m p i t. mset m = mset (repos (f_wfq s)) \<and> mset i = mset (in_flight (f_wfq s)) \<and>
     mset p = mset (f_pending s) \<and> mset t = mset (in_flight_token_to_job s) \<and>
     s' = s\<lparr>f_wfq := (f_wfq s)\<lparr>repos := m, in_flight := i\<rparr>, f_pending := p,
            in_flight_token_to_job := t\<rparr>)"

text \<open>The metadata table holds the pending and the running jobs; no job is both or twice.\<close>

definition flat_ok :: "flat_strategy \<Rightarrow> bool" where
  "flat_ok s = (wfq_ok (f_wfq s) \<and> hm_ok (f_pending s) \<and> hm_ok (in_flight_token_to_job s) \<and>
     (\<forall>j. count (pending_tags (f_wfq s)) j =
        (if hm_get (f_pending s) j \<noteq> None \<and> hm_get (in_flight (f_wfq s)) j = None then 1 else 0)) \<and>
     dom (hm_get (in_flight (f_wfq s))) \<subseteq> dom (hm_get (f_pending s)) \<and>
     inj_on (hm_get (in_flight_token_to_job s)) (dom (hm_get (in_flight_token_to_job s))) \<and>
     ran (hm_get (in_flight_token_to_job s)) = dom (hm_get (in_flight (f_wfq s))) \<and>
     (\<forall>t\<in>dom (hm_get (in_flight_token_to_job s)). t < f_next_token s))"

lemma flat_new_ok [simp]: "flat_ok (flat_new cap)"
  by (simp add: flat_ok_def flat_new_def pending_tags_def wfq_new_def)
     (simp add: wfq_new_ok [unfolded wfq_new_def])

lemma in_flight_wfq_simps [simp]:
  "in_flight (wfq_enqueue r t q) = in_flight q"
  "in_flight (wfq_set_weight r w q) = in_flight q"
  "in_flight (fst (wfq_cancel_pending f q)) = in_flight q"
  "in_flight (fst (wfq_complete t q)) = hm_remove t (in_flight q)"
  by (simp_all add: wfq_enqueue_def Let_def wfq_set_weight_def wfq_cancel_pending_def wfq_complete_def)

lemma flat_set_weight_ok [simp]: "flat_ok s \<Longrightarrow> flat_ok (flat_set_weight r w s)"
  by (simp add: flat_ok_def flat_set_weight_def)

lemma flat_enqueue_ok:
  assumes "flat_ok s" and "hm_get (f_pending s) (item_job_id it) = None"
  shows "flat_ok (flat_enqueue it s)"
proof -
  have "hm_get (in_flight (f_wfq s)) (item_job_id it) = None"
    using assms by (auto simp: flat_ok_def dom_def)
  moreover have "count (pending_tags (f_wfq s)) (item_job_id it) = 0"
    using assms by (simp add: flat_ok_def)
  ultimately show ?thesis
    using assms
    by (auto simp: flat_ok_def flat_enqueue_def pending_tags_enqueue hm_simps dom_def)
qed

text \<open>What \<open>dispatch\<close> returns on a good state: it does not panic.\<close>

lemma flat_dispatch_cases:
  assumes ok: "flat_ok s"
  obtains (none) q where "wfq_dispatch (f_wfq s) = Some (q, None)"
      "flat_dispatch s = Some (s\<lparr>f_wfq := q\<rparr>, None)"
  | (some) q p pend x where "wfq_dispatch (f_wfq s) = Some (q, Some p)"
      "hm_get (f_pending s) (pop_tag p) = Some pend" "hm_get (in_flight (f_wfq s)) (pop_tag p) = None"
      "d_token x = f_next_token s" "d_repo_id x = pop_repo p" "head_job x = Some (pop_tag p)"
      "d_eval_id x = fp_eval_id pend" "d_drv_path x = drv_path (fp_head_drv pend)"
      "flat_dispatch s = Some (s\<lparr>f_wfq := q, f_next_token := f_next_token s + 1,
         in_flight_token_to_job :=
           hm_insert (f_next_token s) (pop_tag p) (in_flight_token_to_job s)\<rparr>, Some x)"
proof -
  have wok: "wfq_ok (f_wfq s)" using ok by (simp add: flat_ok_def)
  obtain q res where q: "wfq_dispatch (f_wfq s) = Some (q, res)"
    using wfq_dispatch_total [OF wok] by metis
  show thesis
  proof (cases res)
    case None
    with q show thesis by (intro none) (simp_all add: flat_dispatch_def)
  next
    case (Some p)
    have "0 < count (pending_tags (f_wfq s)) (pop_tag p)"
      using wfq_dispatch_tags [OF wok q] Some by simp
    then have "hm_get (f_pending s) (pop_tag p) \<noteq> None"
        "hm_get (in_flight (f_wfq s)) (pop_tag p) = None"
      using ok unfolding flat_ok_def by (metis less_irrefl)+
    then obtain pend where "hm_get (f_pending s) (pop_tag p) = Some pend"
        "hm_get (in_flight (f_wfq s)) (pop_tag p) = None" by auto
    with q Some show thesis
      by (intro some [of q p pend]) (auto simp: flat_dispatch_def flat_mint_token_def)
  qed
qed

lemma flat_dispatch_ok:
  assumes ok: "flat_ok s" and d: "flat_dispatch s = Some (s', res)"
  shows "flat_ok s'"
  using ok
proof (cases rule: flat_dispatch_cases)
  case (none q)
  then have "wfq_ok q" "pending_tags q = pending_tags (f_wfq s)"
      "hm_get (in_flight q) = hm_get (in_flight (f_wfq s))"
    using ok wfq_dispatch_ok wfq_dispatch_tags wfq_dispatch_in_flight
    by (fastforce simp: flat_ok_def)+
  with none d ok show ?thesis by (simp add: flat_ok_def)
next
  case (some q p pend x)
  have wok: "wfq_ok (f_wfq s)" using ok by (simp add: flat_ok_def)
  have q: "wfq_ok q" "pending_tags (f_wfq s) = add_mset (pop_tag p) (pending_tags q)"
      "hm_get (in_flight q) = (hm_get (in_flight (f_wfq s)))(pop_tag p \<mapsto> pop_repo p)"
    using wfq_dispatch_ok [OF wok some(1)] wfq_dispatch_tags [OF wok some(1)]
      wfq_dispatch_in_flight [OF wok some(1)] by simp_all
  let ?m = "in_flight_token_to_job s"
  have new: "hm_get ?m (f_next_token s) = None"
    using ok by (auto simp: flat_ok_def)
  have get: "hm_get (hm_insert (f_next_token s) (pop_tag p) ?m) =
      (hm_get ?m)(f_next_token s \<mapsto> pop_tag p)"
    by (simp add: update_conv')
  have "pop_tag p \<notin> ran (hm_get ?m)" using ok some(3) by (auto simp: flat_ok_def dom_def)
  then have inj: "inj_on ((hm_get ?m)(f_next_token s \<mapsto> pop_tag p)) (insert (f_next_token s) (dom (hm_get ?m)))"
    using ok new by (auto simp: flat_ok_def inj_on_def dom_def ran_def)
  have cnt: "count (pending_tags q) j =
      (if hm_get (f_pending s) j \<noteq> None \<and> hm_get (in_flight q) j = None then 1 else 0)" for j
  proof -
    have "count (add_mset (pop_tag p) (pending_tags q)) j =
      (if hm_get (f_pending s) j \<noteq> None \<and> hm_get (in_flight (f_wfq s)) j = None then 1 else 0)"
      using ok q(2) by (simp add: flat_ok_def)
    then show ?thesis using some(2,3) by (auto simp: q(3) split: if_splits)
  qed
  have "s' = s\<lparr>f_wfq := q, f_next_token := f_next_token s + 1,
         in_flight_token_to_job := hm_insert (f_next_token s) (pop_tag p) ?m\<rparr>"
    using some(9) d by simp
  then show ?thesis
    using ok q(1) inj new some(2) cnt unfolding flat_ok_def
    by (auto simp: get q(3) less_SucI ran_map_upd)
qed

lemma flat_complete_ok:
  assumes ok: "flat_ok s"
  shows "flat_ok (fst (flat_complete t st s))"
proof (cases "hm_get (in_flight_token_to_job s) t")
  case None
  then show ?thesis using ok by (simp add: flat_complete_def)
next
  case (Some j)
  let ?m = "in_flight_token_to_job s"
  have get: "hm_get (hm_remove t ?m) = (hm_get ?m)(t := None)"
    "hm_get (hm_remove j (f_pending s)) = (hm_get (f_pending s))(j := None)"
    "hm_get (hm_remove j (in_flight (f_wfq s))) = (hm_get (in_flight (f_wfq s)))(j := None)"
    by (simp_all add: delete_conv')
  have inj: "inj_on (hm_get ?m) (dom (hm_get ?m))" and ran: "ran (hm_get ?m) = dom (hm_get (in_flight (f_wfq s)))"
    using ok by (simp_all add: flat_ok_def)
  have j: "hm_get (in_flight (f_wfq s)) j \<noteq> None" using ran Some by (auto simp: ran_def dom_def)
  have ran': "ran ((hm_get ?m)(t := None)) = ran (hm_get ?m) - {j}"
    using ran_remove_inj [OF inj Some] .
  have inj': "inj_on ((hm_get ?m)(t := None)) (dom (hm_get ?m) - {t})"
    using inj by (auto simp: inj_on_def)
  have cnt: "count (pending_tags (f_wfq s)) i = (if ((hm_get (f_pending s))(j := None)) i \<noteq> None \<and>
      ((hm_get (in_flight (f_wfq s)))(j := None)) i = None then 1 else 0)" for i
    using ok j by (auto simp: flat_ok_def)
  have "fst (flat_complete t st s) = s\<lparr>in_flight_token_to_job := hm_remove t ?m,
      f_pending := hm_remove j (f_pending s), f_wfq := fst (wfq_complete j (f_wfq s))\<rparr>"
    using Some by (simp add: flat_complete_def wfq_complete_def)
  then show ?thesis
    using ok inj' ran' cnt unfolding flat_ok_def by (auto simp: get)
qed

lemma flat_skips_get:
  "hm_get (fst (flat_skips reason js m)) = (hm_get m) |` (- set js)"
proof (induction js arbitrary: m)
  case (Cons j js)
  show ?case
  proof (cases "hm_get m j")
    case None
    then show ?thesis
      using Cons [of m] by (auto simp: fun_eq_iff restrict_map_def)
  next
    case (Some p)
    then show ?thesis
      using Cons [of "hm_remove j m"]
      by (auto simp: fun_eq_iff restrict_map_def hm_simps split: prod.splits)
  qed
qed (simp add: restrict_map_def)

lemma flat_skips_ok [simp]: "hm_ok m \<Longrightarrow> hm_ok (fst (flat_skips reason js m))"
  by (induction js arbitrary: m) (auto split: option.splits simp: case_prod_unfold Let_def)

lemma flat_skips_jobs:
  "distinct js \<Longrightarrow> set js \<subseteq> dom (hm_get m) \<Longrightarrow>
   map skip_job_id (snd (flat_skips reason js m)) = js"
proof (induction js arbitrary: m)
  case (Cons j js)
  then obtain p where "hm_get m j = Some p" by auto
  moreover have "set js \<subseteq> dom (hm_get (hm_remove j m))"
    using Cons.prems by (auto simp: hm_simps)
  ultimately show ?case
    using Cons by (simp add: case_prod_unfold Let_def)
qed simp

text \<open>The tags a cancel removes are distinct pending jobs.\<close>

lemma flat_cancel_removed:
  assumes ok: "flat_ok s" and removed_def: "removed = snd (wfq_cancel_pending f (f_wfq s))"
  shows "distinct removed" "set removed = {j. j \<in># pending_tags (f_wfq s) \<and> f j}"
    "set removed \<subseteq> dom (hm_get (f_pending s))" "set removed \<inter> dom (hm_get (in_flight (f_wfq s))) = {}"
proof -
  have m: "mset removed = filter_mset f (pending_tags (f_wfq s))"
    by (simp add: removed_def pending_tags_cancel)
  have c: "count (pending_tags (f_wfq s)) j \<le> 1" for j using ok by (simp add: flat_ok_def)
  have "count (mset removed) j \<le> 1" for j using c [of j] by (simp add: m)
  then show "distinct removed" by (simp add: distinct_count_atmost_1 le_Suc_eq
      count_mset_0_iff)
  show set: "set removed = {j. j \<in># pending_tags (f_wfq s) \<and> f j}"
    using arg_cong [OF m, of set_mset] by auto
  have "hm_get (f_pending s) j \<noteq> None \<and> hm_get (in_flight (f_wfq s)) j = None"
    if "j \<in># pending_tags (f_wfq s)" for j
    using ok that unfolding flat_ok_def by (metis count_eq_zero_iff)
  then show "set removed \<subseteq> dom (hm_get (f_pending s))"
      "set removed \<inter> dom (hm_get (in_flight (f_wfq s))) = {}"
    by (auto simp: set dom_def)
qed

lemma flat_cancel_eval_split:
  "flat_cancel_eval e s =
     (s\<lparr>f_wfq := fst (wfq_cancel_pending (flat_in_eval e s) (f_wfq s)),
        f_pending := fst (flat_skips (eval_cancelled_reason e)
          (snd (wfq_cancel_pending (flat_in_eval e s) (f_wfq s))) (f_pending s))\<rparr>,
      snd (flat_skips (eval_cancelled_reason e)
          (snd (wfq_cancel_pending (flat_in_eval e s) (f_wfq s))) (f_pending s)))"
  by (simp add: flat_cancel_eval_def Let_def case_prod_unfold)

lemma flat_cancel_eval_ok:
  assumes ok: "flat_ok s"
  shows "flat_ok (fst (flat_cancel_eval e s))"
proof -
  let ?f = "flat_in_eval e s"
  let ?rm = "snd (wfq_cancel_pending ?f (f_wfq s))"
  let ?p = "fst (flat_skips (eval_cancelled_reason e) ?rm (f_pending s))"
  have get: "hm_get ?p = (hm_get (f_pending s)) |` (- set ?rm)" by (rule flat_skips_get)
  note rm = flat_cancel_removed [OF ok refl, of ?f]
  have cnt: "count (pending_tags (f_wfq s)) j =
      (if hm_get (f_pending s) j \<noteq> None \<and> hm_get (in_flight (f_wfq s)) j = None then 1 else 0)" for j
    using ok by (simp add: flat_ok_def)
  have "count (pending_tags (fst (wfq_cancel_pending ?f (f_wfq s)))) j =
      (if hm_get ?p j \<noteq> None \<and> hm_get (in_flight (f_wfq s)) j = None then 1 else 0)" for j
    using cnt [of j] rm(2)
    by (auto simp: pending_tags_cancel get restrict_map_def not_in_iff split: if_splits)
  moreover have "dom (hm_get (in_flight (f_wfq s))) \<subseteq> dom (hm_get ?p)"
    using ok rm(4) by (auto simp: flat_ok_def get restrict_map_def dom_def)
  ultimately show ?thesis
    using ok by (simp add: flat_cancel_eval_split flat_ok_def)
qed

lemma flat_reorder_ok:
  assumes ok: "flat_ok s" and R: "flat_reorder s s'"
  shows "flat_ok s' \<and> pending_tags (f_wfq s') = pending_tags (f_wfq s) \<and>
    hm_get (f_pending s') = hm_get (f_pending s) \<and> f_next_token s' = f_next_token s"
proof -
  obtain m p i t where R': "mset m = mset (repos (f_wfq s))" "mset i = mset (in_flight (f_wfq s))"
     "mset p = mset (f_pending s)" "mset t = mset (in_flight_token_to_job s)"
     "s' = s\<lparr>f_wfq := (f_wfq s)\<lparr>repos := m, in_flight := i\<rparr>, f_pending := p, in_flight_token_to_job := t\<rparr>"
    using R unfolding flat_reorder_def by blast
  have hm: "hm_ok (in_flight (f_wfq s))" "hm_ok (f_pending s)" "hm_ok (in_flight_token_to_job s)"
    using ok by (simp_all add: flat_ok_def wfq_ok_def)
  have get: "hm_get i = hm_get (in_flight (f_wfq s))" "hm_get p = hm_get (f_pending s)"
      "hm_get t = hm_get (in_flight_token_to_job s)" "hm_ok i" "hm_ok p" "hm_ok t"
    using hm_get_reorder [OF R'(2) hm(1)] hm_get_reorder [OF R'(3) hm(2)]
      hm_get_reorder [OF R'(4) hm(3)] hm R'(2-4) hm_ok_reorder by metis+
  have "length i = length (in_flight (f_wfq s))" using R'(2) by (metis size_mset)
  then have wok: "wfq_ok ((f_wfq s)\<lparr>repos := m, in_flight := i\<rparr>)"
    using reorder_ok [OF _ R'(1)] ok get(4) by (simp add: flat_ok_def wfq_ok_def cap_ok_def)
  have tags: "pending_tags ((f_wfq s)\<lparr>repos := m, in_flight := i\<rparr>) = pending_tags (f_wfq s)"
    using hm_sum_reorder [OF R'(1)] by (simp add: pending_tags_def)
  show ?thesis
    unfolding R'(5) using ok wok tags get by (simp add: flat_ok_def)
qed

section \<open>Histories\<close>

definition flat_accounted :: "sched_event list \<Rightarrow> flat_strategy \<Rightarrow> bool" where
  "flat_accounted tr s =
     (mset (enqueued_jobs tr) =
        pending_tags (f_wfq s) + mset (dispatched_jobs tr) + mset (skipped_jobs tr) \<and>
      dom (hm_get (f_pending s)) \<subseteq> set (enqueued_jobs tr) \<and>
      distinct (map d_token (dispatches tr)) \<and>
      (\<forall>x\<in>set (dispatches tr). d_token x < f_next_token s) \<and> f_next_token s = length (dispatches tr))"

lemmas flat_vtable_simps = flat_vtable_def schedule_strategy.simps

lemma flat_history:
  assumes "history flat_vtable flat_reorder (flat_new cap) tr s" and "distinct (enqueued_jobs tr)"
  shows "flat_ok s \<and> flat_accounted tr s"
  using assms
proof (induction rule: history.induct)
  case start
  then show ?case by (simp add: flat_accounted_def) (simp add: flat_new_def pending_tags_def wfq_new_def)
next
  case (set_weight tr s r w)
  then show ?case
    by (simp add: flat_vtable_simps flat_accounted_def) (auto simp: flat_set_weight_def)
next
  case (enqueue tr s it s')
  then have ok: "flat_ok s" and acc: "flat_accounted tr s"
    and new: "item_job_id it \<notin> set (enqueued_jobs tr)" by simp_all
  have s': "s' = flat_enqueue it s" using enqueue.hyps by (simp add: flat_vtable_simps)
  have "hm_get (f_pending s) (item_job_id it) = None"
    using acc new by (auto simp: flat_accounted_def dom_def)
  moreover have "wfq_ok (f_wfq s)" using ok by (simp add: flat_ok_def)
  ultimately show ?case
    unfolding s' using ok acc flat_enqueue_ok
    by (auto simp: flat_accounted_def flat_enqueue_def pending_tags_enqueue update_conv')
next
  case (dispatch_none tr s s')
  then have ok: "flat_ok s" and d: "flat_dispatch s = Some (s', None)"
    by (simp_all add: flat_vtable_simps)
  from ok show ?case
  proof (cases rule: flat_dispatch_cases)
    case (none q)
    have "pending_tags q = pending_tags (f_wfq s)"
      using wfq_dispatch_tags [OF _ none(1)] ok by (simp add: flat_ok_def)
    with none d dispatch_none flat_dispatch_ok [OF ok d] show ?thesis
      by (auto simp: flat_accounted_def)
  qed (use d in simp)
next
  case (dispatch tr s s' x)
  then have ok: "flat_ok s" and d: "flat_dispatch s = Some (s', Some x)"
    by (simp_all add: flat_vtable_simps)
  from ok show ?case
  proof (cases rule: flat_dispatch_cases)
    case (some q p pend y)
    have "pending_tags (f_wfq s) = add_mset (pop_tag p) (pending_tags q)"
      using wfq_dispatch_tags [OF _ some(1)] ok by (simp add: flat_ok_def)
    with some d dispatch flat_dispatch_ok [OF ok d] show ?thesis
      by (auto simp: flat_accounted_def)
  qed (use d in simp)
next
  case (complete tr s t st s' eff)
  then have ok: "flat_ok s" and s': "s' = fst (flat_complete t st s)" "eff = snd (flat_complete t st s)"
    by (simp_all add: flat_vtable_simps)
  have "cascaded_skips eff = []" "alias_completions eff = []"
      "pending_tags (f_wfq s') = pending_tags (f_wfq s)" "f_next_token s' = f_next_token s"
      "dom (hm_get (f_pending s')) \<subseteq> dom (hm_get (f_pending s))"
    unfolding s' flat_complete_def
    by (auto simp: default_effects_def wfq_complete_def pending_tags_def hm_simps
        split: option.splits if_splits)
  with complete flat_complete_ok [OF ok, of t st] s' show ?case
    by (auto simp: flat_accounted_def)
next
  case (cancel tr s e s' skips)
  then have ok: "flat_ok s" and acc: "flat_accounted tr s"
    and s': "s' = fst (flat_cancel_eval e s)" "skips = snd (flat_cancel_eval e s)"
    by (simp_all add: flat_vtable_simps)
  let ?f = "flat_in_eval e s"
  let ?rm = "snd (wfq_cancel_pending ?f (f_wfq s))"
  have "map skip_job_id skips = ?rm"
    unfolding s' flat_cancel_eval_split snd_conv
    using flat_skips_jobs flat_cancel_removed [OF ok refl] by blast
  moreover have "pending_tags (f_wfq s) = pending_tags (f_wfq s') + mset ?rm"
    by (simp add: s' flat_cancel_eval_split pending_tags_cancel)
  moreover have "dom (hm_get (f_pending s')) \<subseteq> dom (hm_get (f_pending s))"
      "f_next_token s' = f_next_token s"
    by (auto simp: s' flat_cancel_eval_split flat_skips_get)
  ultimately show ?case
    using acc flat_cancel_eval_ok [OF ok, of e] by (auto simp: flat_accounted_def s')
next
  case (reorder tr s s')
  then have "flat_ok s" "flat_accounted tr s" by simp_all
  with flat_reorder_ok [OF _ reorder.hyps(2)] show ?case
    by (auto simp: flat_accounted_def)
qed

section \<open>A lawful strategy\<close>

definition flat_good :: "flat_strategy \<Rightarrow> bool" where
  "flat_good s = (flat_ok s \<and> concurrency_cap (f_wfq s) \<noteq> Some 0)"

definition flat_live :: "flat_strategy \<Rightarrow> token set" where
  "flat_live s = dom (hm_get (in_flight_token_to_job s))"

definition flat_work :: "flat_strategy \<Rightarrow> nat" where
  "flat_work s = wfq_pending_count (f_wfq s)"

lemma flat_live_in_flight:
  assumes "flat_ok s" and "in_flight (f_wfq s) \<noteq> []"
  shows "flat_live s \<noteq> {}"
proof
  assume "flat_live s = {}"
  then have "hm_get (in_flight_token_to_job s) = Map.empty" by (simp add: flat_live_def)
  then have "dom (hm_get (in_flight (f_wfq s))) = {}"
    using assms(1) by (simp add: flat_ok_def)
  with assms(2) show False by simp
qed

lemma dispatch_concurrency_cap:
  assumes "wfq_ok q" "wfq_dispatch q = Some (q', res)"
  shows "concurrency_cap q' = concurrency_cap q"
  using apply_concurrency_cap [OF assms(1), of Dispatch q'] assms(2) by simp

lemma wfq_dispatch_none_cap:
  assumes "wfq_ok q" "wfq_dispatch q = Some (q', None)" "concurrency_cap q \<noteq> Some 0"
  shows "q' = q \<and> (wfq_pending_count q = 0 \<or> in_flight q \<noteq> [])"
  using wfq_dispatch_None [OF assms(1,2)] assms(3)
  by (auto simp: cap_full_def split: option.splits)

interpretation flat: lawful_strategy flat_vtable flat_good flat_live flat_work
proof
  fix s assume good: "flat_good s"
  then have ok: "flat_ok s" and wok: "wfq_ok (f_wfq s)" and cap: "concurrency_cap (f_wfq s) \<noteq> Some 0"
    by (simp_all add: flat_good_def flat_ok_def)
  have keep: "flat_good s'" if "flat_dispatch s = Some (s', res)" for s' res
    using ok
  proof (cases rule: flat_dispatch_cases)
    case (none q)
    with that flat_dispatch_ok [OF ok that] dispatch_concurrency_cap [OF wok none(1)] cap show ?thesis
      by (auto simp: flat_good_def)
  next
    case (some q p pend x)
    with that flat_dispatch_ok [OF ok that] dispatch_concurrency_cap [OF wok some(1)] cap show ?thesis
      by (auto simp: flat_good_def)
  qed
  have "\<exists>s' res. flat_dispatch s = Some (s', res)"
    using ok by (cases rule: flat_dispatch_cases) auto
  with keep show "\<exists>s' res. st_dispatch flat_vtable s = Some (s', res) \<and> flat_good s'"
    by (auto simp: flat_vtable_simps)
  show "d_token x \<notin> flat_live s \<and> flat_live s' = insert (d_token x) (flat_live s) \<and>
      flat_work s' < flat_work s" if d: "st_dispatch flat_vtable s = Some (s', Some x)" for s' x
    using ok
  proof (cases rule: flat_dispatch_cases)
    case (some q p pend y)
    have "f_next_token s \<notin> flat_live s" using ok by (auto simp: flat_ok_def flat_live_def)
    with some d wfq_dispatch_tags [OF wok some(1)] show ?thesis
      by (auto simp: flat_vtable_simps flat_live_def flat_work_def pending_tags_count update_conv')
  qed (use d in \<open>simp add: flat_vtable_simps\<close>)
  show "flat_live s' = flat_live s \<and> flat_work s' \<le> flat_work s \<and>
      (st_pending_count flat_vtable s' = 0 \<or> flat_live s' \<noteq> {})"
    if d: "st_dispatch flat_vtable s = Some (s', None)" for s'
    using ok
  proof (cases rule: flat_dispatch_cases)
    case (none q)
    with wfq_dispatch_none_cap [OF wok none(1) cap] flat_live_in_flight [OF ok] d show ?thesis
      by (auto simp: flat_vtable_simps flat_live_def flat_work_def)
  qed (use d in \<open>simp add: flat_vtable_simps\<close>)
  show "\<exists>s' eff. st_complete flat_vtable t st s = Some (s', eff) \<and> flat_good s' \<and>
      flat_live s' = flat_live s - {t} \<and> flat_work s' \<le> flat_work s" if "t \<in> flat_live s" for t st
    using that flat_complete_ok [OF ok, of t st] cap
    by (auto simp: flat_vtable_simps flat_good_def flat_live_def flat_work_def flat_complete_def
        wfq_complete_def wfq_pending_count_def delete_conv' split: option.splits)
qed

section \<open>Properties\<close>

text \<open>C24. A client that enqueues every job id at most once never makes the flat strategy panic,
  whatever else it calls and however the maps are iterated, in any history of fewer than $2^{64}$ dispatches; every
  enqueued job is pending, was dispatched exactly once, or was skipped exactly once by a cancel. The token
  counter is then the number of dispatches, so it has not left its 64 bits, and no token is issued twice.\<close>

theorem flat_accounts_for_every_job:
  assumes "history flat_vtable flat_reorder (flat_new cap) tr s" and "distinct (enqueued_jobs tr)"
    and "length (dispatches tr) < 2 ^ 64"
  shows "flat_dispatch s \<noteq> None \<and>
    mset (enqueued_jobs tr) =
      pending_tags (f_wfq s) + mset (dispatched_jobs tr) + mset (skipped_jobs tr) \<and>
    f_next_token s = length (dispatches tr) \<and> f_next_token s < 2 ^ 64 \<and>
    (\<forall>x\<in>set (dispatches tr). d_token x < 2 ^ 64) \<and> distinct (map d_token (dispatches tr))"
proof -
  have ok: "flat_ok s" and acc: "flat_accounted tr s"
    using flat_history [OF assms(1,2)] by simp_all
  from ok have "flat_dispatch s \<noteq> None"
    by (cases rule: flat_dispatch_cases) auto
  with acc assms(3) show ?thesis by (auto simp: flat_accounted_def)
qed

definition sample_drv :: "string \<Rightarrow> string list \<Rightarrow> derivation_info" where
  "sample_drv p inputs =
     \<lparr>drv_path = p, drv_system = None, drv_required_features = [], drv_input_drvs = inputs\<rparr>"

definition sample_item :: "int \<Rightarrow> string \<Rightarrow> string list \<Rightarrow> schedule_item" where
  "sample_item j p inputs = \<lparr>item_repo_id = RepoId 1, item_eval_id = EvalId 1, item_job_id = JobId j,
     head_drv = sample_drv p inputs, item_closure = []\<rparr>"

text \<open>Two jobs, of which one is dispatched.\<close>

definition flat_two :: flat_strategy where
  "flat_two = flat_enqueue (sample_item 6 ''b'' []) (flat_enqueue (sample_item 5 ''a'' []) (flat_new None))"

definition flat_trace :: "sched_event list" where
  "flat_trace = (([] @ [EvEnqueued (sample_item 5 ''a'' [])]) @ [EvEnqueued (sample_item 6 ''b'' [])])
     @ [EvDispatched (the (snd (the (flat_dispatch flat_two))))]"

theorem flat_accounts_for_every_job_witness:
  "dispatched_jobs flat_trace = [JobId 5] \<and> f_next_token (fst (the (flat_dispatch flat_two))) = length (dispatches flat_trace)
   \<and> pending_tags (f_wfq (fst (the (flat_dispatch flat_two)))) = {#JobId 6#}"
proof -
  have "history flat_vtable flat_reorder (flat_new None) (([] @ [EvEnqueued (sample_item 5 ''a'' [])]) @ [EvEnqueued (sample_item 6 ''b'' [])]) flat_two"
    unfolding flat_two_def by (rule history.enqueue [OF history.enqueue [OF history.start]]) (simp_all add: flat_vtable_simps)
  moreover have "flat_dispatch flat_two = Some (fst (the (flat_dispatch flat_two)), Some (the (snd (the (flat_dispatch flat_two)))))"
    by code_simp
  ultimately have run: "history flat_vtable flat_reorder (flat_new None) flat_trace (fst (the (flat_dispatch flat_two)))"
    unfolding flat_trace_def using history.dispatch by (fastforce simp: flat_vtable_simps)
  have jobs: "enqueued_jobs flat_trace = [JobId 5, JobId 6]" "length (dispatches flat_trace) = 1"
    "dispatched_jobs flat_trace = [JobId 5]" "skipped_jobs flat_trace = []" by code_simp+
  from flat_accounts_for_every_job [OF run] jobs show ?thesis by (auto simp: add_mset_commute)
qed

text \<open>C28. The dispatch loop drains a flat strategy: started with nothing in flight and a cap that
  is not zero, and with every task ending with some status, it ends within one completion per
  pending job; unless cancelled nothing is then pending, and nothing is in flight.\<close>

theorem drive_drains_flat:
  assumes "flat_ok s" "concurrency_cap (f_wfq s) \<noteq> Some 0" "in_flight_token_to_job s = []"
    and "wfq_pending_count (f_wfq s) < length ws"
    and "\<forall>w\<in>set ws. \<exists>cf i st. w = Turn cf (Joined i st)"
  shows "\<exists>d. drive flat_vtable ws False (driver_start s) = Exited d \<and>
    in_flight_token_to_job (strategy d) = [] \<and> join_set d = [] \<and>
    ((\<exists>w\<in>set ws. cancel_fired w) \<or> wfq_pending_count (f_wfq (strategy d)) = 0)"
  using flat.drive_from_start [of s ws] assms
  by (simp add: flat_good_def flat_live_def flat_work_def flat_vtable_simps) blast

theorem drive_drains_flat_witness:
  "\<exists>d. drive flat_vtable [Turn False (Joined 0 JSuccess), Turn False (Joined 0 JSuccess)] False
      (driver_start (flat_enqueue (sample_item 5 ''a'' []) (flat_new None))) = Exited d \<and>
    in_flight_token_to_job (strategy d) = [] \<and> join_set d = [] \<and>
    ((\<exists>w\<in>set [Turn False (Joined 0 JSuccess), Turn False (Joined 0 JSuccess)]. cancel_fired w) \<or>
      wfq_pending_count (f_wfq (strategy d)) = 0)"
proof (rule drive_drains_flat)
  show "flat_ok (flat_enqueue (sample_item 5 ''a'' []) (flat_new None))"
    by (rule flat_enqueue_ok) (simp_all add: flat_new_def [symmetric], simp add: flat_new_def)
  show "wfq_pending_count (f_wfq (flat_enqueue (sample_item 5 ''a'' []) (flat_new None)))
      < length [Turn False (Joined 0 JSuccess), Turn False (Joined 0 JSuccess)]"
    by (simp add: pending_tags_count flat_enqueue_def flat_new_def pending_tags_enqueue)
       (simp add: pending_tags_def wfq_new_def)
qed (auto simp: flat_enqueue_def flat_new_def wfq_enqueue_def Let_def wfq_new_def)

end
