(* ===== verification/Dag.thy ===== *)
theory Dag
  imports Flat
begin

text \<open>
  \<open>DagStrategy\<close> of \<open>argunix-sched/src/dag.rs\<close>: an in-memory graph of build steps, deduplicated by
  derivation path, whose steps enter the fair queue once all their in-graph inputs succeeded.
  This theory holds the model; \<open>Dag_Inv\<close> and \<open>Dag_Props\<close> hold what is shown of it.
  \<open>None\<close> is a panic of one of the \<open>unwrap\<close>s.
\<close>

section \<open>Steps\<close>

datatype step_state =
    StPending | StReady | StRunning | StSuccess | StCached | StFailure | StCancelled | StSkipped

fun st_is_terminal :: "step_state \<Rightarrow> bool" where
  "st_is_terminal StSuccess = True"
| "st_is_terminal StCached = True"
| "st_is_terminal StFailure = True"
| "st_is_terminal StCancelled = True"
| "st_is_terminal StSkipped = True"
| "st_is_terminal _ = False"

definition st_is_successful :: "step_state \<Rightarrow> bool" where
  "st_is_successful st = (st = StSuccess \<or> st = StCached)"

fun st_from_status :: "job_status \<Rightarrow> step_state" where
  "st_from_status JSuccess = StSuccess"
| "st_from_status JCached = StCached"
| "st_from_status JFailure = StFailure"
| "st_from_status JCancelled = StCancelled"
| "st_from_status JSkippedNoBuilder = StSkipped"
| "st_from_status _ = StFailure"

record step =
  s_drv_path :: string
  s_system :: "string option"
  s_required_features :: "string list"
  s_repo_id :: repo_id
  s_eval_id :: eval_id
  s_state :: step_state
  deps_unfinished :: nat
  rdeps :: "string list"
  head_jobs :: "job_id list"
  in_flight_token :: "token option"

type_synonym graph = "(string, step) hashmap"

record dag =
  g_wfq :: "token wfq"
  by_drv :: graph
  token_to_drv :: "(token, string) hashmap"
  g_next_token :: nat
  job_meta :: "(job_id, repo_id \<times> eval_id) hashmap"

definition dag_new :: "nat option \<Rightarrow> dag" where
  "dag_new cap =
     \<lparr>g_wfq = wfq_new cap, by_drv = [], token_to_drv = [], g_next_token = 0, job_meta = []\<rparr>"

text \<open>\<open>next_token\<close> is a \<open>u64\<close> that is incremented with \<open>+= 1\<close>; it is unbounded here. A token is minted when a
  step becomes ready, so the two agree as long as fewer than $2^{64}$ derivations have become ready in the life of
  the daemon; what is proved of the strategy is proved up to that point.\<close>

definition dag_mint_token :: "dag \<Rightarrow> dag \<times> token" where
  "dag_mint_token s = (s\<lparr>g_next_token := g_next_token s + 1\<rparr>, g_next_token s)"

definition new_step :: "derivation_info \<Rightarrow> repo_id \<Rightarrow> eval_id \<Rightarrow> step" where
  "new_step drv r e =
     \<lparr>s_drv_path = drv_path drv, s_system = drv_system drv,
      s_required_features = drv_required_features drv, s_repo_id = r, s_eval_id = e,
      s_state = StPending, deps_unfinished = 0, rdeps = [], head_jobs = [], in_flight_token = None\<rparr>"

definition upsert_step :: "derivation_info \<Rightarrow> repo_id \<Rightarrow> eval_id \<Rightarrow> graph \<Rightarrow> graph \<times> bool" where
  "upsert_step drv r e m =
     (if hm_get m (drv_path drv) \<noteq> None then (m, False)
      else (hm_insert (drv_path drv) (new_step drv r e) m, True))"

section \<open>Edges\<close>

text \<open>The body of the inner loop of \<open>build_edges_for\<close>, the inner and the outer loop.\<close>

definition add_edge :: "string \<Rightarrow> string \<Rightarrow> graph \<Rightarrow> graph option" where
  "add_edge d input m =
     (case hm_get m input of
        None \<Rightarrow> Some m
      | Some dep \<Rightarrow>
          if st_is_successful (s_state dep) then Some m
          else if hm_get m d = None then None
          else Some (hm_modify input (\<lambda>x. x\<lparr>rdeps := rdeps x @ [d]\<rparr>)
                (hm_modify d (\<lambda>x. x\<lparr>deps_unfinished := deps_unfinished x + 1\<rparr>) m)))"

fun add_edges :: "string \<Rightarrow> string list \<Rightarrow> graph \<Rightarrow> graph option" where
  "add_edges d [] m = Some m"
| "add_edges d (i # is) m =
     (case add_edge d i m of None \<Rightarrow> None | Some m' \<Rightarrow> add_edges d is m')"

fun build_edges_for :: "string list \<Rightarrow> (string, string list) hashmap \<Rightarrow> graph \<Rightarrow> graph option" where
  "build_edges_for [] inputs_by_drv m = Some m"
| "build_edges_for (d # ds) inputs_by_drv m =
     (case hm_get inputs_by_drv d of
        None \<Rightarrow> build_edges_for ds inputs_by_drv m
      | Some inputs \<Rightarrow>
          (case add_edges d inputs m of
             None \<Rightarrow> None
           | Some m' \<Rightarrow> build_edges_for ds inputs_by_drv m'))"

section \<open>Promotion\<close>

definition promotable :: "step \<Rightarrow> bool" where
  "promotable x = (s_state x = StPending \<and> deps_unfinished x = 0)"

definition to_promote :: "graph \<Rightarrow> (string \<times> repo_id) list" where
  "to_promote m = map (\<lambda>(d, x). (d, s_repo_id x)) (filter (\<lambda>(d, x). promotable x) m)"

definition promote_one :: "string \<Rightarrow> repo_id \<Rightarrow> dag \<Rightarrow> dag option" where
  "promote_one d r s =
     (let (s1, tok) = dag_mint_token s in
      if hm_get (by_drv s1) d = None then None
      else Some (s1\<lparr>by_drv := hm_modify d
                   (\<lambda>x. x\<lparr>s_state := StReady, in_flight_token := Some tok\<rparr>) (by_drv s1),
                 token_to_drv := hm_insert tok d (token_to_drv s1),
                 g_wfq := wfq_enqueue r tok (g_wfq s1)\<rparr>))"

fun promote_all :: "(string \<times> repo_id) list \<Rightarrow> dag \<Rightarrow> dag option" where
  "promote_all [] s = Some s"
| "promote_all ((d, r) # ps) s =
     (case promote_one d r s of None \<Rightarrow> None | Some s' \<Rightarrow> promote_all ps s')"

definition promote_ready_steps :: "dag \<Rightarrow> dag option" where
  "promote_ready_steps s = promote_all (to_promote (by_drv s)) s"

section \<open>Cascade\<close>

definition take_token :: "token option \<Rightarrow> (token, string) hashmap \<Rightarrow> (token, string) hashmap" where
  "take_token tok m = (case tok of None \<Rightarrow> m | Some t \<Rightarrow> hm_remove t m)"

definition mark_skipped :: "string \<Rightarrow> step \<Rightarrow> dag \<Rightarrow> dag" where
  "mark_skipped d x s =
     s\<lparr>by_drv := hm_modify d (\<lambda>x. x\<lparr>s_state := StSkipped, in_flight_token := None\<rparr>) (by_drv s),
       token_to_drv := take_token (in_flight_token x) (token_to_drv s)\<rparr>"

definition skips_for :: "string \<Rightarrow> job_id list \<Rightarrow> dag \<Rightarrow> cascaded_skip list" where
  "skips_for reason js s =
     List.map_filter (\<lambda>j. map_option (\<lambda>(r, e). \<lparr>skip_job_id = j, skip_eval_id = e,
       skip_repo_id = r, reason_drv = reason\<rparr>) (hm_get (job_meta s) j)) js"

definition unfinished :: "graph \<Rightarrow> nat" where
  "unfinished m = length (filter (\<lambda>x. \<not> st_is_terminal (s_state x)) (hm_values m))"

lemma unfinished_modify:
  "hm_get m d = Some x \<Longrightarrow> \<not> st_is_terminal (s_state x) \<Longrightarrow> st_is_terminal (s_state (f x)) \<Longrightarrow>
   unfinished (hm_modify d f m) < unfinished m"
  by (induction m) (auto simp: unfinished_def split: if_splits)

text \<open>The \<open>while let\<close> loop: each turn shortens the queue or ends a step.\<close>

function cascade_loop :: "string \<Rightarrow> string list \<Rightarrow> dag \<Rightarrow> cascaded_skip list \<Rightarrow>
    dag \<times> cascaded_skip list" where
  "cascade_loop from_drv [] s out = (s, out)"
| "cascade_loop from_drv (d # queue) s out =
     (case hm_get (by_drv s) d of
        None \<Rightarrow> cascade_loop from_drv queue s out
      | Some x \<Rightarrow>
          if st_is_terminal (s_state x) then cascade_loop from_drv queue s out
          else cascade_loop from_drv (queue @ rdeps x) (mark_skipped d x s)
                 (out @ skips_for from_drv (head_jobs x) s))"
  by pat_completeness auto
termination
  by (relation "measures [\<lambda>(_, _, s, _). unfinished (by_drv s), \<lambda>(_, queue, _, _). length queue]")
     (auto simp: mark_skipped_def intro: unfinished_modify)

definition cascade_skip :: "string \<Rightarrow> dag \<Rightarrow> dag \<times> cascaded_skip list" where
  "cascade_skip from_drv s =
     cascade_loop from_drv
       (case hm_get (by_drv s) from_drv of None \<Rightarrow> [] | Some x \<Rightarrow> rdeps x) s []"

section \<open>The strategy's methods\<close>

definition dag_set_weight :: "repo_id \<Rightarrow> nat \<Rightarrow> dag \<Rightarrow> dag" where
  "dag_set_weight r w s = s\<lparr>g_wfq := wfq_set_weight r w (g_wfq s)\<rparr>"

definition inputs_of :: "schedule_item \<Rightarrow> (string, string list) hashmap" where
  "inputs_of it =
     fold (\<lambda>drv m. hm_insert (drv_path drv) (drv_input_drvs drv) m) (item_closure it)
       (hm_insert (drv_path (head_drv it)) (drv_input_drvs (head_drv it)) [])"

text \<open>The loop that inserts the closure, collecting the paths that were new.\<close>

fun upsert_all :: "derivation_info list \<Rightarrow> repo_id \<Rightarrow> eval_id \<Rightarrow> graph \<Rightarrow> graph \<times> string list" where
  "upsert_all [] r e m = (m, [])"
| "upsert_all (drv # drvs) r e m =
     (let (m1, new) = upsert_step drv r e m;
          (m2, ds) = upsert_all drvs r e m1
      in (m2, if new then drv_path drv # ds else ds))"

definition dag_enqueue :: "schedule_item \<Rightarrow> dag \<Rightarrow> dag option" where
  "dag_enqueue it s =
     (let s1 = s\<lparr>job_meta := hm_insert (item_job_id it) (item_repo_id it, item_eval_id it) (job_meta s)\<rparr>;
          (m2, ds) = upsert_all (item_closure it) (item_repo_id it) (item_eval_id it) (by_drv s1);
          (m3, head_was_new) = upsert_step (head_drv it) (item_repo_id it) (item_eval_id it) m2;
          newly_inserted = (if head_was_new then ds @ [drv_path (head_drv it)] else ds);
          hd_path = drv_path (head_drv it)
      in if hm_get m3 hd_path = None then None
         else case build_edges_for newly_inserted (inputs_of it)
                (hm_modify hd_path (\<lambda>x. x\<lparr>head_jobs := head_jobs x @ [item_job_id it]\<rparr>) m3) of
           None \<Rightarrow> None
         | Some m4 \<Rightarrow> promote_ready_steps (s1\<lparr>by_drv := m4\<rparr>))"

text \<open>\<open>dispatch\<close> loops over stale tags; \<open>None\<close> also stands for not returning.\<close>

partial_function (option) dag_dispatch :: "dag \<Rightarrow> (dag \<times> dispatched option) option" where
  "dag_dispatch s =
     (case wfq_dispatch (g_wfq s) of
        None \<Rightarrow> None
      | Some (q, res) \<Rightarrow>
          (case res of
             None \<Rightarrow> Some (s\<lparr>g_wfq := q\<rparr>, None)
           | Some popped \<Rightarrow>
               (case hm_get (token_to_drv s) (pop_tag popped) of
                  None \<Rightarrow> dag_dispatch (s\<lparr>g_wfq := fst (wfq_complete (pop_tag popped) q)\<rparr>)
                | Some d \<Rightarrow>
                    (case hm_get (by_drv s) d of
                       None \<Rightarrow> None
                     | Some x \<Rightarrow>
                         Some (s\<lparr>g_wfq := q,
                                 by_drv := hm_modify d (\<lambda>x. x\<lparr>s_state := StRunning\<rparr>) (by_drv s)\<rparr>,
                           Some \<lparr>d_token = pop_tag popped, d_repo_id = pop_repo popped,
                             d_eval_id = s_eval_id x, d_drv_path = s_drv_path x,
                             d_system = s_system x, d_required_features = s_required_features x,
                             head_job = (case head_jobs x of [] \<Rightarrow> None | j # _ \<Rightarrow> Some j)\<rparr>)))))"

declare dag_dispatch.simps [code]

definition decrement :: "string \<Rightarrow> graph \<Rightarrow> graph" where
  "decrement d m = hm_modify d (\<lambda>x. x\<lparr>deps_unfinished := deps_unfinished x - 1\<rparr>) m"

definition alias_completions_for :: "job_id list \<Rightarrow> dag \<Rightarrow> alias_completion list" where
  "alias_completions_for js s =
     List.map_filter (\<lambda>j. map_option (\<lambda>(r, e). \<lparr>alias_job_id = j, alias_eval_id = e,
       alias_repo_id = r\<rparr>) (hm_get (job_meta s) j)) (drop 1 js)"

definition finish_step :: "string \<Rightarrow> step_state \<Rightarrow> token \<Rightarrow> dag \<Rightarrow> dag" where
  "finish_step d st t s =
     s\<lparr>by_drv := hm_modify d (\<lambda>x. x\<lparr>s_state := st, in_flight_token := None\<rparr>) (by_drv s),
       token_to_drv := hm_remove t (token_to_drv s),
       g_wfq := fst (wfq_complete t (g_wfq s))\<rparr>"

definition dag_complete :: "token \<Rightarrow> job_status \<Rightarrow> dag \<Rightarrow> (dag \<times> completion_effects) option" where
  "dag_complete t status s =
     (case hm_get (token_to_drv s) t of
        None \<Rightarrow> Some (s, default_effects)
      | Some d \<Rightarrow>
          (case hm_get (by_drv s) d of
             None \<Rightarrow> None
           | Some x \<Rightarrow>
               (let new_state = st_from_status status;
                    s1 = finish_step d new_state t s;
                    repo = snd (wfq_complete t (g_wfq s))
                in if st_is_successful new_state then
                     (case promote_ready_steps (s1\<lparr>by_drv := fold decrement (rdeps x) (by_drv s1)\<rparr>) of
                        None \<Rightarrow> None
                      | Some s2 \<Rightarrow>
                          Some (s2, \<lparr>eff_repo_id = repo, cascaded_skips = [],
                            alias_completions = alias_completions_for (head_jobs x) s2\<rparr>))
                   else
                     (let (s2, skips) = cascade_skip d s1 in
                      Some (s2, \<lparr>eff_repo_id = repo, cascaded_skips = skips,
                        alias_completions = alias_completions_for (head_jobs x) s2\<rparr>)))))"

definition cancelled_skip :: "eval_id \<Rightarrow> repo_id \<Rightarrow> job_id \<Rightarrow> dag \<Rightarrow> cascaded_skip" where
  "cancelled_skip e r j s =
     (let (r', e') = (case hm_get (job_meta s) j of None \<Rightarrow> (r, e) | Some p \<Rightarrow> p) in
      \<lparr>skip_job_id = j, skip_eval_id = e', skip_repo_id = r', reason_drv = eval_cancelled_reason e\<rparr>)"

definition cancel_step :: "string \<Rightarrow> step \<Rightarrow> dag \<Rightarrow> dag" where
  "cancel_step d x s =
     s\<lparr>by_drv := hm_modify d (\<lambda>x. x\<lparr>s_state := StCancelled, in_flight_token := None,
         head_jobs := []\<rparr>) (by_drv s),
       token_to_drv := take_token (in_flight_token x) (token_to_drv s)\<rparr>"

text \<open>The body of the loop of \<open>cancel_eval\<close>, for one job of the evaluation.\<close>

definition cancel_job :: "eval_id \<Rightarrow> job_id \<Rightarrow> dag \<Rightarrow> dag \<times> cascaded_skip list" where
  "cancel_job e j s =
     (case List.find (\<lambda>(d, x). j \<in> set (head_jobs x)) (by_drv s) of
        None \<Rightarrow>
          (case hm_get (job_meta s) j of
             None \<Rightarrow> (s, [])
           | Some (r', e') \<Rightarrow>
               (s\<lparr>job_meta := hm_remove j (job_meta s)\<rparr>,
                [\<lparr>skip_job_id = j, skip_eval_id = e', skip_repo_id = r',
                  reason_drv = eval_cancelled_reason e'\<rparr>]))
      | Some (d, x) \<Rightarrow>
          if s_state x = StPending \<or> s_state x = StReady then
            (let s1 = cancel_step d x s;
                 direct = map (\<lambda>c. cancelled_skip e (s_repo_id x) c s1) (head_jobs x);
                 (s2, cascade) = cascade_skip d s1;
                 renamed = map (\<lambda>k. k\<lparr>reason_drv := eval_cancelled_reason e\<rparr>) cascade
             in (s2\<lparr>job_meta := hm_remove j (job_meta s2)\<rparr>, direct @ renamed))
          else (s\<lparr>job_meta := hm_remove j (job_meta s)\<rparr>, []))"

fun cancel_jobs :: "eval_id \<Rightarrow> job_id list \<Rightarrow> dag \<Rightarrow> dag \<times> cascaded_skip list" where
  "cancel_jobs e [] s = (s, [])"
| "cancel_jobs e (j # js) s =
     (let (s1, ks1) = cancel_job e j s; (s2, ks2) = cancel_jobs e js s1 in (s2, ks1 @ ks2))"

definition dag_cancel_eval :: "eval_id \<Rightarrow> dag \<Rightarrow> dag \<times> cascaded_skip list" where
  "dag_cancel_eval e s =
     cancel_jobs e (map fst (filter (\<lambda>(_, _, e'). e' = e) (job_meta s))) s"

definition dag_vtable :: "dag schedule_strategy" where
  "dag_vtable = \<lparr>st_set_weight = dag_set_weight, st_enqueue = dag_enqueue,
     st_dispatch = dag_dispatch, st_complete = dag_complete,
     st_cancel_eval = (\<lambda>e s. Some (dag_cancel_eval e s)),
     st_pending_count = (\<lambda>s. wfq_pending_count (g_wfq s)),
     st_in_flight_count = (\<lambda>s. wfq_in_flight_count (g_wfq s)),
     st_pending_for = (\<lambda>r s. wfq_pending_for r (g_wfq s))\<rparr>"

text \<open>\<open>build\<close>: the strategy the configuration asks for.\<close>

definition sched_build :: "scheduler_kind \<Rightarrow> nat option \<Rightarrow> flat_strategy + dag" where
  "sched_build kind cap = (case kind of KindFlat \<Rightarrow> Inl (flat_new cap) | KindDag \<Rightarrow> Inr (dag_new cap))"

end
