(* ===== verification/Dag_Inv.thy ===== *)
theory Dag_Inv
  imports Dag
begin

text \<open>
  The invariant of \<open>DagStrategy\<close> and its preservation by every method.

  \<open>graph_ok\<close>: a step is filed under its own path, its dependents are steps, its counter
  \<open>deps_unfinished\<close> is the number of edges from steps that have not succeeded, and a step that
  is ready, running or successful has a counter of zero. \<open>tok_ok\<close>: the two token maps agree, a
  ready step's token is in the fair queue and a running step's token is in flight. \<open>promoted\<close>:
  no step is left pending with a counter of zero.
\<close>

section \<open>Definitions\<close>

definition waits :: "graph \<Rightarrow> string \<Rightarrow> nat" where
  "waits m d = hm_sum (\<lambda>_ x. if st_is_successful (s_state x) then 0 else count_list (rdeps x) d) m"

definition runnable :: "step_state \<Rightarrow> bool" where
  "runnable st = (st = StReady \<or> st = StRunning \<or> st_is_successful st)"

definition step_ok :: "graph \<Rightarrow> string \<Rightarrow> step \<Rightarrow> bool" where
  "step_ok m d x = (s_drv_path x = d \<and> set (rdeps x) \<subseteq> dom (hm_get m) \<and>
     deps_unfinished x = waits m d \<and> (runnable (s_state x) \<longrightarrow> deps_unfinished x = 0))"

definition graph_ok :: "graph \<Rightarrow> bool" where
  "graph_ok m = (hm_ok m \<and> (\<forall>d x. hm_get m d = Some x \<longrightarrow> step_ok m d x))"

definition tok_step :: "dag \<Rightarrow> string \<Rightarrow> step \<Rightarrow> bool" where
  "tok_step s d x =
     (case in_flight_token x of
        None \<Rightarrow> s_state x \<noteq> StReady \<and> s_state x \<noteq> StRunning
      | Some t \<Rightarrow> hm_get (token_to_drv s) t = Some d \<and>
          (s_state x = StReady \<and> t \<in># pending_tags (g_wfq s) \<or>
           s_state x = StRunning \<and> hm_get (in_flight (g_wfq s)) t \<noteq> None))"

definition tok_ok :: "dag \<Rightarrow> bool" where
  "tok_ok s = (wfq_ok (g_wfq s) \<and> hm_ok (token_to_drv s) \<and> hm_ok (job_meta s) \<and>
     (\<forall>d x. hm_get (by_drv s) d = Some x \<longrightarrow> tok_step s d x) \<and>
     (\<forall>t d. hm_get (token_to_drv s) t = Some d \<longrightarrow> t < g_next_token s \<and>
        (\<exists>x. hm_get (by_drv s) d = Some x \<and> in_flight_token x = Some t)) \<and>
     (\<forall>t. t \<in># pending_tags (g_wfq s) \<longrightarrow> t < g_next_token s \<and>
        count (pending_tags (g_wfq s)) t = 1 \<and> hm_get (in_flight (g_wfq s)) t = None) \<and>
     (\<forall>t. hm_get (in_flight (g_wfq s)) t \<noteq> None \<longrightarrow> hm_get (token_to_drv s) t \<noteq> None))"

definition dag_ok :: "dag \<Rightarrow> bool" where
  "dag_ok s = (graph_ok (by_drv s) \<and> tok_ok s)"

definition promoted :: "dag \<Rightarrow> bool" where
  "promoted s = (\<forall>d x. hm_get (by_drv s) d = Some x \<longrightarrow> \<not> promotable x)"

lemma dag_new_ok [simp]: "dag_ok (dag_new cap)" "promoted (dag_new cap)"
  by (simp_all add: dag_ok_def graph_ok_def tok_ok_def dag_new_def promoted_def)
     (simp add: pending_tags_def wfq_new_def)

section \<open>The graph\<close>

lemma waits_modify:
  assumes "\<And>x. hm_get m d = Some x \<Longrightarrow> rdeps (f x) = rdeps x \<and>
    st_is_successful (s_state (f x)) = st_is_successful (s_state x)"
  shows "waits (hm_modify d f m) = waits m"
  using assms by (auto simp: waits_def fun_eq_iff intro!: hm_sum_modify_same)

lemma dom_modify [simp]: "dom (hm_get (hm_modify d f m)) = dom (hm_get m)"
  by (auto simp: hm_simps dom_def split: if_splits)

text \<open>A step may change its state, its token and its jobs, as long as it does not start or stop
  being successful and is only made runnable with a counter of zero.\<close>

lemma graph_ok_modify:
  assumes ok: "graph_ok m"
    and f: "\<And>x. hm_get m d = Some x \<Longrightarrow> s_drv_path (f x) = s_drv_path x \<and> rdeps (f x) = rdeps x \<and>
      deps_unfinished (f x) = deps_unfinished x \<and>
      st_is_successful (s_state (f x)) = st_is_successful (s_state x) \<and>
      (runnable (s_state (f x)) \<longrightarrow> deps_unfinished x = 0)"
  shows "graph_ok (hm_modify d f m)"
proof -
  have w: "waits (hm_modify d f m) = waits m" by (rule waits_modify) (use f in blast)
  have "step_ok (hm_modify d f m) d' x'" if "hm_get (hm_modify d f m) d' = Some x'" for d' x'
  proof (cases "d' = d")
    case True
    with that obtain x where x: "hm_get m d = Some x" "x' = f x" by (auto simp: hm_simps)
    then have "step_ok m d x" using ok by (simp add: graph_ok_def)
    with x f [OF x(1)] True show ?thesis by (auto simp: step_ok_def w)
  next
    case False
    with that have "hm_get m d' = Some x'" by (simp add: hm_simps)
    then have "step_ok m d' x'" using ok by (simp add: graph_ok_def)
    then show ?thesis by (auto simp: step_ok_def w)
  qed
  then show ?thesis using ok by (simp add: graph_ok_def)
qed

definition blocked :: "graph \<Rightarrow> string \<Rightarrow> bool" where
  "blocked m d = (\<exists>k y. hm_get m k = Some y \<and> \<not> st_is_successful (s_state y) \<and> d \<in> set (rdeps y))"

lemma blocked_waits:
  assumes "hm_ok m"
  shows "blocked m d \<longleftrightarrow> 0 < waits m d"
proof -
  have "waits m d = 0 \<longleftrightarrow> (\<forall>k v. hm_get m k = Some v \<longrightarrow>
      (if st_is_successful (s_state v) then 0 else count_list (rdeps v) d) = 0)"
    unfolding waits_def using assms by (rule hm_sum_eq_0_iff)
  also have "\<dots> \<longleftrightarrow> \<not> blocked m d"
    unfolding blocked_def by (metis count_list_0_iff)
  finally show ?thesis by auto
qed

lemma blocked_not_runnable:
  assumes "graph_ok m" "hm_get m d = Some x" "blocked m d"
  shows "\<not> runnable (s_state x)"
proof -
  have "step_ok m d x" "0 < waits m d"
    using assms blocked_waits [of m d] by (simp_all add: graph_ok_def)
  then show ?thesis by (auto simp: step_ok_def)
qed

lemma waits_outside:
  assumes "graph_ok m" and "hm_get m d = None"
  shows "waits m d = 0"
proof -
  have "\<not> blocked m d"
    using assms by (force simp: blocked_def graph_ok_def step_ok_def dom_def)
  then show ?thesis using assms(1) by (simp add: graph_ok_def blocked_waits)
qed

lemma waits_insert_fresh:
  "hm_get m d = None \<Longrightarrow> rdeps x = [] \<Longrightarrow> waits (hm_insert d x m) = waits m"
  by (simp add: waits_def fun_eq_iff hm_sum_insert_fresh)

lemma upsert_step_ok:
  assumes "graph_ok m"
  shows "graph_ok (fst (upsert_step drv r e m))"
proof (cases "hm_get m (drv_path drv)")
  case None
  let ?x = "new_step drv r e"
  have w: "waits (hm_insert (drv_path drv) ?x m) = waits m"
    using None by (rule waits_insert_fresh) (simp add: new_step_def)
  have "step_ok (hm_insert (drv_path drv) ?x m) d x"
    if "hm_get (hm_insert (drv_path drv) ?x m) d = Some x" for d x
  proof (cases "d = drv_path drv")
    case True
    with that have "x = ?x" by (simp add: hm_simps)
    then show ?thesis
      using True waits_outside [OF assms None]
      by (simp add: step_ok_def w) (simp add: new_step_def runnable_def st_is_successful_def)
  next
    case False
    with that have "step_ok m d x" using assms by (simp add: hm_simps graph_ok_def)
    then show ?thesis by (auto simp: step_ok_def w update_conv')
  qed
  then show ?thesis
    using None assms by (simp add: upsert_step_def graph_ok_def)
next
  case (Some x)
  then show ?thesis using assms by (simp add: upsert_step_def)
qed

text \<open>What wiring edges leaves alone.\<close>

definition core :: "step \<Rightarrow> step" where
  "core x = x\<lparr>deps_unfinished := 0, rdeps := []\<rparr>"

definition same_core :: "graph \<Rightarrow> graph \<Rightarrow> bool" where
  "same_core m m' = (\<forall>k. map_option core (hm_get m' k) = map_option core (hm_get m k))"

lemma core_fields:
  assumes "core x = core y"
  shows "s_state x = s_state y" "in_flight_token x = in_flight_token y" "head_jobs x = head_jobs y"
    "s_drv_path x = s_drv_path y" "s_repo_id x = s_repo_id y" "s_eval_id x = s_eval_id y"
  using arg_cong [OF assms, of s_state] arg_cong [OF assms, of in_flight_token]
    arg_cong [OF assms, of head_jobs] arg_cong [OF assms, of s_drv_path]
    arg_cong [OF assms, of s_repo_id] arg_cong [OF assms, of s_eval_id]
  by (simp_all add: core_def)

lemma core_deps [simp]: "core (x\<lparr>deps_unfinished := n\<rparr>) = core x"
  by (simp add: core_def)

lemma same_core_refl [simp]: "same_core m m"
  by (simp add: same_core_def)

lemma same_core_trans: "same_core m m' \<Longrightarrow> same_core m' m'' \<Longrightarrow> same_core m m''"
  by (simp add: same_core_def)

lemma same_core_get:
  assumes "same_core m m'" "hm_get m k = Some x"
  obtains y where "hm_get m' k = Some y" "core y = core x"
proof -
  have "map_option core (hm_get m' k) = Some (core x)" using assms by (simp add: same_core_def)
  with that show thesis by (cases "hm_get m' k") auto
qed

lemma same_core_get':
  assumes "same_core m m'" "hm_get m' k = Some y"
  obtains x where "hm_get m k = Some x" "core y = core x"
proof -
  have "map_option core (hm_get m' k) = map_option core (hm_get m k)"
    using assms(1) by (simp add: same_core_def)
  with assms(2) that show thesis by (cases "hm_get m k") auto
qed

lemma same_core_dom: "same_core m m' \<Longrightarrow> dom (hm_get m') = dom (hm_get m)"
  by (auto elim: same_core_get same_core_get')

text \<open>Adding an edge to a step that is not runnable keeps the counters exact.\<close>

lemma add_edge_ok:
  assumes ok: "graph_ok m" and d: "hm_get m d = Some x" "\<not> runnable (s_state x)"
  obtains m' where "add_edge d i m = Some m'" "graph_ok m'" "same_core m m'"
proof (cases "\<exists>dep. hm_get m i = Some dep \<and> \<not> st_is_successful (s_state dep)")
  case False
  then have "add_edge d i m = Some m"
    by (auto simp: add_edge_def split: option.splits)
  with ok that show thesis by simp
next
  case True
  then obtain dep where dep: "hm_get m i = Some dep" "\<not> st_is_successful (s_state dep)" by blast
  let ?g = "\<lambda>x. x\<lparr>deps_unfinished := Suc (deps_unfinished x)\<rparr>"
  let ?f = "\<lambda>x. x\<lparr>rdeps := rdeps x @ [d]\<rparr>"
  let ?m1 = "hm_modify d ?g m"
  let ?m2 = "hm_modify i ?f ?m1"
  have e: "add_edge d i m = Some ?m2"
    using dep d(1) by (simp add: add_edge_def)
  have w1: "waits ?m1 = waits m" by (rule waits_modify) simp
  have hm: "hm_ok ?m1" using ok by (simp add: graph_ok_def)
  obtain dep1 where dep1: "hm_get ?m1 i = Some dep1" "rdeps dep1 = rdeps dep" "s_state dep1 = s_state dep"
    using dep d(1) by (cases "i = d") (auto simp: hm_simps)
  have sum: "waits ?m2 k + count_list (rdeps dep) k = waits m k + count_list (rdeps dep @ [d]) k" for k
    using hm_sum_modify [OF hm dep1(1), of "\<lambda>_ x. if st_is_successful (s_state x) then 0
        else count_list (rdeps x) k" ?f] dep dep1 w1
    by (simp add: waits_def [symmetric] fun_eq_iff)
  have w: "waits ?m2 k = waits m k + (if k = d then 1 else 0)" for k
    using sum [of k] by (cases "k = d") simp_all
  have "step_ok ?m2 k y" if "hm_get ?m2 k = Some y" for k y
  proof -
    have "k \<in> dom (hm_get ?m2)" using that by (rule domI)
    then have "k \<in> dom (hm_get m)" by (simp only: dom_modify)
    then obtain z where z: "hm_get m k = Some z" by (auto simp: dom_def)
    then have "step_ok m k z" using ok by (simp add: graph_ok_def)
    moreover have "s_drv_path y = s_drv_path z" "s_state y = s_state z"
        "deps_unfinished y = deps_unfinished z + (if k = d then 1 else 0)"
        "set (rdeps y) \<subseteq> set (rdeps z) \<union> {d}"
      using that z by (auto simp: hm_simps split: if_splits)
    ultimately show ?thesis
      using d z by (auto simp: step_ok_def w)
  qed
  then have "graph_ok ?m2" using ok by (simp add: graph_ok_def)
  moreover have "same_core m ?m2"
    unfolding same_core_def
  proof
    fix k show "map_option core (hm_get ?m2 k) = map_option core (hm_get m k)"
      by (cases "hm_get m k") (auto simp: hm_simps core_def)
  qed
  ultimately show thesis using e that by blast
qed

lemma add_edges_ok:
  assumes "graph_ok m" "hm_get m d = Some x" "\<not> runnable (s_state x)"
  shows "\<exists>m'. add_edges d is m = Some m' \<and> graph_ok m' \<and> same_core m m'"
  using assms
proof (induction "is" arbitrary: m x)
  case (Cons i "is")
  obtain m1 where m1: "add_edge d i m = Some m1" "graph_ok m1" "same_core m m1"
    using add_edge_ok [OF Cons.prems] .
  obtain y where y: "hm_get m1 d = Some y" "core y = core x"
    using same_core_get [OF m1(3) Cons.prems(2)] .
  have "\<not> runnable (s_state y)" using Cons.prems(3) core_fields(1) [OF y(2)] by simp
  from Cons.IH [OF m1(2) y(1) this] m1 show ?case
    using same_core_trans by auto
qed simp

lemma build_edges_ok:
  assumes "graph_ok m" "\<forall>d\<in>set ds. \<exists>x. hm_get m d = Some x \<and> \<not> runnable (s_state x)"
  shows "\<exists>m'. build_edges_for ds ins m = Some m' \<and> graph_ok m' \<and> same_core m m'"
  using assms
proof (induction ds arbitrary: m)
  case (Cons d ds)
  show ?case
  proof (cases "hm_get ins d")
    case None
    with Cons show ?thesis by auto
  next
    case (Some inputs)
    from Cons.prems obtain x where "hm_get m d = Some x" "\<not> runnable (s_state x)" by auto
    from add_edges_ok [OF Cons.prems(1) this] obtain m1 where
      m1: "add_edges d inputs m = Some m1" "graph_ok m1" "same_core m m1" by blast
    have "\<exists>x. hm_get m1 d = Some x \<and> \<not> runnable (s_state x)" if "d \<in> set ds" for d
    proof -
      from Cons.prems(2) that obtain x where x: "hm_get m d = Some x" "\<not> runnable (s_state x)" by auto
      from same_core_get [OF m1(3) x(1)] x(2) show ?thesis by (metis core_fields(1))
    qed
    with Cons.IH [OF m1(2)] obtain m2 where
      "build_edges_for ds ins m1 = Some m2" "graph_ok m2" "same_core m1 m2" by blast
    with Some m1 show ?thesis using same_core_trans by auto
  qed
qed simp

text \<open>The insertions of \<open>enqueue\<close>: old steps stay, new ones are fresh pending steps.\<close>

definition fresh_step :: "step \<Rightarrow> bool" where
  "fresh_step x = (s_state x = StPending \<and> in_flight_token x = None \<and> head_jobs x = [] \<and>
     deps_unfinished x = 0 \<and> rdeps x = [])"

lemma new_step_fresh [simp]: "fresh_step (new_step drv r e)"
  by (simp add: fresh_step_def new_step_def)

lemma upsert_step_get:
  "hm_get (fst (upsert_step drv r e m)) k =
     (if k = drv_path drv \<and> hm_get m k = None then Some (new_step drv r e) else hm_get m k)"
  by (auto simp: upsert_step_def hm_simps)

lemma upsert_all_ok:
  assumes "graph_ok m" "upsert_all drvs r e m = (m', ds)"
  shows "graph_ok m' \<and> (\<forall>k x. hm_get m k = Some x \<longrightarrow> hm_get m' k = Some x) \<and>
    (\<forall>k x. hm_get m' k = Some x \<longrightarrow> hm_get m k = Some x \<or> k \<in> set ds \<and> fresh_step x) \<and>
    (\<forall>k\<in>set ds. hm_get m k = None \<and> hm_get m' k \<noteq> None) \<and>
    (\<forall>drv\<in>set drvs. hm_get m' (drv_path drv) \<noteq> None) \<and> distinct ds \<and>
    set ds \<subseteq> drv_path ` set drvs"
  using assms
proof (induction drvs arbitrary: m m' ds)
  case (Cons drv drvs)
  obtain m1 new where m1: "upsert_step drv r e m = (m1, new)" by fastforce
  obtain m2 ds2 where m2: "upsert_all drvs r e m1 = (m2, ds2)" by fastforce
  have ok: "graph_ok m1" using upsert_step_ok [OF Cons.prems(1), of drv r e] m1 by simp
  have get: "hm_get m1 k = (if k = drv_path drv \<and> hm_get m k = None then Some (new_step drv r e)
      else hm_get m k)" for k
    using upsert_step_get [of drv r e m k] m1 by simp
  have new: "new \<longleftrightarrow> hm_get m (drv_path drv) = None"
    using m1 by (auto simp: upsert_step_def split: if_splits)
  have eq: "m' = m2" "ds = (if new then drv_path drv # ds2 else ds2)"
    using Cons.prems(2) m1 m2 by simp_all
  have IH: "graph_ok m2" "\<And>k x. hm_get m1 k = Some x \<Longrightarrow> hm_get m2 k = Some x"
      "\<And>k x. hm_get m2 k = Some x \<Longrightarrow> hm_get m1 k = Some x \<or> k \<in> set ds2 \<and> fresh_step x"
      "\<And>k. k \<in> set ds2 \<Longrightarrow> hm_get m1 k = None \<and> hm_get m2 k \<noteq> None"
      "\<And>drv. drv \<in> set drvs \<Longrightarrow> hm_get m2 (drv_path drv) \<noteq> None" "distinct ds2"
      "set ds2 \<subseteq> drv_path ` set drvs"
    using Cons.IH [OF ok m2] by blast+
  have pres: "hm_get m k = Some x \<Longrightarrow> hm_get m2 k = Some x" for k x
    using IH(2) by (simp add: get)
  have "hm_get m1 (drv_path drv) \<noteq> None" by (simp add: get)
  then have here: "hm_get m2 (drv_path drv) \<noteq> None" "drv_path drv \<notin> set ds2"
    using IH(2) [of "drv_path drv"] IH(4) [of "drv_path drv"] by auto
  have old: "hm_get m k = Some x \<or> k \<in> set ds \<and> fresh_step x" if "hm_get m2 k = Some x" for k x
    using IH(3) [OF that] new by (auto simp: eq get split: if_splits)
  have fresh: "hm_get m k = None \<and> hm_get m2 k \<noteq> None" if "k \<in> set ds" for k
  proof (cases "k \<in> set ds2")
    case True
    then show ?thesis using IH(4) [OF True] by (auto simp: get split: if_splits)
  next
    case False
    with that here new show ?thesis by (auto simp: eq split: if_splits)
  qed
  have "distinct ds" "set ds \<subseteq> drv_path ` set (drv # drvs)"
    using IH(6,7) here(2) by (auto simp: eq)
  with IH(1,5) pres here old fresh show ?case by (simp add: eq(1))
qed auto

section \<open>Decrementing counters\<close>

lemma fold_decrement_get:
  "hm_get (fold decrement ds m) k =
     map_option (\<lambda>x. x\<lparr>deps_unfinished := deps_unfinished x - count_list ds k\<rparr>) (hm_get m k)"
  by (induction ds arbitrary: m)
     (auto simp: decrement_def hm_simps option.map_comp comp_def option.map_ident_strong)

lemma fold_decrement_keys [simp]: "hm_keys (fold decrement ds m) = hm_keys m"
  by (induction ds arbitrary: m) (auto simp: decrement_def)

lemma fold_decrement_waits [simp]: "waits (fold decrement ds m) = waits m"
proof (induction ds arbitrary: m)
  case (Cons d ds)
  then show ?case
    using waits_modify [of m d "\<lambda>x. x\<lparr>deps_unfinished := deps_unfinished x - 1\<rparr>"]
    by (simp add: decrement_def)
qed simp

text \<open>A success: the step leaves the sums its dependents wait on, and their counters follow.\<close>

lemma success_graph_ok:
  assumes ok: "graph_ok m" and x: "hm_get m d = Some x" "\<not> st_is_successful (s_state x)"
    "runnable (s_state x)" and st: "st_is_successful st"
  shows "graph_ok (fold decrement (rdeps x)
    (hm_modify d (\<lambda>x. x\<lparr>s_state := st, in_flight_token := None\<rparr>) m))" (is "graph_ok ?m")
proof -
  let ?m1 = "hm_modify d (\<lambda>x. x\<lparr>s_state := st, in_flight_token := None\<rparr>) m"
  have hm: "hm_ok m" using ok by (simp add: graph_ok_def)
  have w: "waits ?m k + count_list (rdeps x) k = waits m k" for k
    using hm_sum_modify [OF hm x(1), of "\<lambda>_ x. if st_is_successful (s_state x) then 0
        else count_list (rdeps x) k" "\<lambda>x. x\<lparr>s_state := st, in_flight_token := None\<rparr>"] x(2) st
    by (simp add: waits_def [symmetric])
  have "step_ok ?m k y" if y: "hm_get ?m k = Some y" for k y
  proof -
    from y obtain z where z: "hm_get m k = Some z" "s_drv_path y = s_drv_path z" "rdeps y = rdeps z"
        "deps_unfinished y = deps_unfinished z - count_list (rdeps x) k"
        "s_state y = (if k = d then st else s_state z)"
      by (auto simp: fold_decrement_get hm_simps split: if_splits)
    have "step_ok m k z" using ok z(1) by (simp add: graph_ok_def)
    moreover have "dom (hm_get ?m) = dom (hm_get m)"
      by (auto simp: fold_decrement_get hm_simps dom_def split: if_splits)
    moreover have "k = d \<Longrightarrow> z = x" using z(1) x(1) by simp
    ultimately show ?thesis
      using z w [of k] x(3) by (auto simp: step_ok_def split: if_splits)
  qed
  then show ?thesis using hm by (simp add: graph_ok_def)
qed

section \<open>Tokens\<close>

lemma tok_okI:
  assumes "wfq_ok (g_wfq s)" "hm_ok (token_to_drv s)" "hm_ok (job_meta s)"
    and "\<And>d x. hm_get (by_drv s) d = Some x \<Longrightarrow> tok_step s d x"
    and "\<And>t d. hm_get (token_to_drv s) t = Some d \<Longrightarrow> t < g_next_token s \<and>
        (\<exists>x. hm_get (by_drv s) d = Some x \<and> in_flight_token x = Some t)"
    and "\<And>t. t \<in># pending_tags (g_wfq s) \<Longrightarrow> t < g_next_token s \<and>
        count (pending_tags (g_wfq s)) t = 1 \<and> hm_get (in_flight (g_wfq s)) t = None"
    and "\<And>t. hm_get (in_flight (g_wfq s)) t \<noteq> None \<Longrightarrow> hm_get (token_to_drv s) t \<noteq> None"
  shows "tok_ok s"
  using assms by (simp add: tok_ok_def)

lemma tok_okD:
  assumes "tok_ok s"
  shows "wfq_ok (g_wfq s)" "hm_ok (token_to_drv s)" "hm_ok (job_meta s)"
    and "\<And>d x. hm_get (by_drv s) d = Some x \<Longrightarrow> tok_step s d x"
    and "\<And>t d. hm_get (token_to_drv s) t = Some d \<Longrightarrow> t < g_next_token s \<and>
        (\<exists>x. hm_get (by_drv s) d = Some x \<and> in_flight_token x = Some t)"
    and "\<And>t. t \<in># pending_tags (g_wfq s) \<Longrightarrow> t < g_next_token s \<and>
        count (pending_tags (g_wfq s)) t = 1 \<and> hm_get (in_flight (g_wfq s)) t = None"
    and "\<And>t. hm_get (in_flight (g_wfq s)) t \<noteq> None \<Longrightarrow> hm_get (token_to_drv s) t \<noteq> None"
  using assms by (simp_all add: tok_ok_def)

lemma tok_step_core:
  "core y = core x \<Longrightarrow> tok_step s d y = tok_step s d x"
  using core_fields [of y x] by (simp add: tok_step_def split: option.splits)

lemma tok_step_frame [simp]:
  "tok_step (s\<lparr>by_drv := m\<rparr>) d x = tok_step s d x"
  "tok_step (s\<lparr>job_meta := jm\<rparr>) d x = tok_step s d x"
  by (simp_all add: tok_step_def split: option.splits)

lemma tok_ok_core:
  assumes ok: "tok_ok s" and c: "same_core (by_drv s) m"
  shows "tok_ok (s\<lparr>by_drv := m\<rparr>)"
proof (rule tok_okI)
  fix d y assume "hm_get (by_drv (s\<lparr>by_drv := m\<rparr>)) d = Some y"
  then have "hm_get m d = Some y" by simp
  from same_core_get' [OF c this] obtain x where x: "hm_get (by_drv s) d = Some x" "core y = core x" .
  from tok_okD(4) [OF ok x(1)] have "tok_step s d y" by (simp add: tok_step_core [OF x(2)])
  then show "tok_step (s\<lparr>by_drv := m\<rparr>) d y" by simp
next
  fix t d assume "hm_get (token_to_drv (s\<lparr>by_drv := m\<rparr>)) t = Some d"
  then obtain x where x: "t < g_next_token s" "hm_get (by_drv s) d = Some x" "in_flight_token x = Some t"
    using tok_okD(5) [OF ok] by auto
  from same_core_get [OF c x(2)] x(1,3)
  show "t < g_next_token (s\<lparr>by_drv := m\<rparr>) \<and>
      (\<exists>x. hm_get (by_drv (s\<lparr>by_drv := m\<rparr>)) d = Some x \<and> in_flight_token x = Some t)"
    by (metis core_fields(2) dag.ext_inject dag.surjective dag.update_convs(2))
qed (use tok_okD [OF ok] in auto)

text \<open>Adding fresh steps without a token.\<close>

lemma tok_ok_extend:
  assumes ok: "tok_ok s" and old: "\<And>k x. hm_get (by_drv s) k = Some x \<Longrightarrow> hm_get m k = Some x"
    and new: "\<And>k x. hm_get m k = Some x \<Longrightarrow> hm_get (by_drv s) k = Some x \<or> fresh_step x"
  shows "tok_ok (s\<lparr>by_drv := m\<rparr>)"
proof (rule tok_okI)
  fix d y assume "hm_get (by_drv (s\<lparr>by_drv := m\<rparr>)) d = Some y"
  then have "hm_get (by_drv s) d = Some y \<or> fresh_step y" using new by simp
  then show "tok_step (s\<lparr>by_drv := m\<rparr>) d y"
    using tok_okD(4) [OF ok, of d y] by simp (auto simp: tok_step_def fresh_step_def)
next
  fix t d assume "hm_get (token_to_drv (s\<lparr>by_drv := m\<rparr>)) t = Some d"
  then show "t < g_next_token (s\<lparr>by_drv := m\<rparr>) \<and>
      (\<exists>x. hm_get (by_drv (s\<lparr>by_drv := m\<rparr>)) d = Some x \<and> in_flight_token x = Some t)"
    using tok_okD(5) [OF ok, of t d] old by auto
qed (use tok_okD [OF ok] in auto)

text \<open>Changing one step that has no token, and gains none.\<close>

lemma tok_ok_modify:
  assumes ok: "tok_ok s"
    and f: "\<And>x. hm_get (by_drv s) d = Some x \<Longrightarrow> in_flight_token x = None \<and> in_flight_token (f x) = None \<and>
      s_state (f x) \<noteq> StReady \<and> s_state (f x) \<noteq> StRunning"
  shows "tok_ok (s\<lparr>by_drv := hm_modify d f (by_drv s)\<rparr>)"
proof (rule tok_okI)
  fix k y assume "hm_get (by_drv (s\<lparr>by_drv := hm_modify d f (by_drv s)\<rparr>)) k = Some y"
  then consider "k = d" "\<exists>x. hm_get (by_drv s) d = Some x \<and> y = f x" | "hm_get (by_drv s) k = Some y"
    by (auto simp: hm_simps split: if_splits)
  then have "tok_step s k y"
  proof cases
    case 1
    with f show ?thesis by (auto simp: tok_step_def)
  next
    case 2
    with tok_okD(4) [OF ok] show ?thesis .
  qed
  then show "tok_step (s\<lparr>by_drv := hm_modify d f (by_drv s)\<rparr>) k y" by simp
next
  fix t k assume "hm_get (token_to_drv (s\<lparr>by_drv := hm_modify d f (by_drv s)\<rparr>)) t = Some k"
  then obtain x where "t < g_next_token s" "hm_get (by_drv s) k = Some x" "in_flight_token x = Some t"
    using tok_okD(5) [OF ok] by auto
  moreover from this f have "k \<noteq> d" by auto
  ultimately show "t < g_next_token (s\<lparr>by_drv := hm_modify d f (by_drv s)\<rparr>) \<and>
      (\<exists>x. hm_get (by_drv (s\<lparr>by_drv := hm_modify d f (by_drv s)\<rparr>)) k = Some x \<and> in_flight_token x = Some t)"
    by (simp add: hm_simps)
qed (use tok_okD [OF ok] in auto)

text \<open>Taking the token of a step away: it ends, or is cancelled while it waits in the queue.\<close>

lemma token_unique:
  assumes "tok_ok s" "hm_get (by_drv s) d = Some x" "in_flight_token x = Some t"
    "hm_get (by_drv s) d' = Some x'" "in_flight_token x' = Some t"
  shows "d' = d"
  using tok_okD(4) [OF assms(1,2)] tok_okD(4) [OF assms(1,4)] assms(3,5) by (simp add: tok_step_def)

lemma tok_ok_drop:
  assumes ok: "tok_ok s" and x: "hm_get (by_drv s) d = Some x" "in_flight_token x = Some t"
    and f: "in_flight_token (f x) = None" "s_state (f x) \<noteq> StReady" "s_state (f x) \<noteq> StRunning"
    and q: "wfq_ok q" "pending_tags q = pending_tags (g_wfq s)"
      "\<And>u. hm_get (in_flight q) u = (if u = t then None else hm_get (in_flight (g_wfq s)) u)"
  shows "tok_ok (s\<lparr>by_drv := hm_modify d f (by_drv s), token_to_drv := hm_remove t (token_to_drv s),
    g_wfq := q\<rparr>)" (is "tok_ok ?s")
proof (rule tok_okI)
  fix k y assume "hm_get (by_drv ?s) k = Some y"
  then consider "k = d" "y = f x" | "k \<noteq> d" "hm_get (by_drv s) k = Some y"
    using x(1) by (auto simp: hm_simps split: if_splits)
  then show "tok_step ?s k y"
  proof cases
    case 1
    with f show ?thesis by (simp add: tok_step_def)
  next
    case 2
    then have "in_flight_token y \<noteq> Some t" using token_unique [OF ok x 2(2)] by auto
    with tok_okD(4) [OF ok 2(2)] show ?thesis
      by (auto simp: tok_step_def hm_simps q split: option.splits)
  qed
next
  fix u k assume "hm_get (token_to_drv ?s) u = Some k"
  then have u: "u \<noteq> t" "hm_get (token_to_drv s) u = Some k" by (auto simp: hm_simps split: if_splits)
  then obtain y where "u < g_next_token s" "hm_get (by_drv s) k = Some y" "in_flight_token y = Some u"
    using tok_okD(5) [OF ok] by blast
  moreover from this u x have "k \<noteq> d" by auto
  ultimately show "u < g_next_token ?s \<and> (\<exists>x. hm_get (by_drv ?s) k = Some x \<and> in_flight_token x = Some u)"
    by (simp add: hm_simps)
next
  fix u assume "u \<in># pending_tags (g_wfq ?s)"
  then show "u < g_next_token ?s \<and> count (pending_tags (g_wfq ?s)) u = 1 \<and> hm_get (in_flight (g_wfq ?s)) u = None"
    using tok_okD(6) [OF ok] by (simp add: q)
next
  fix u assume "hm_get (in_flight (g_wfq ?s)) u \<noteq> None"
  then show "hm_get (token_to_drv ?s) u \<noteq> None"
    using tok_okD(7) [OF ok, of u] by (auto simp: q hm_simps split: if_splits)
qed (use tok_okD [OF ok] q in auto)

end
