(* ===== verification/Dag_Ops.thy ===== *)
theory Dag_Ops
  imports Dag_Inv
begin

text \<open>
  Every method of \<open>DagStrategy\<close> keeps the invariant of \<open>Dag_Inv\<close>, with what it does to the steps,
  the queue and the tokens: promotion, the cascade, and the methods of the trait.
\<close>

section \<open>Promotion\<close>

lemma promote_one_ok:
  assumes ok: "dag_ok s" and x: "hm_get (by_drv s) d = Some x" "promotable x"
  obtains s' where "promote_one d r s = Some s'" "dag_ok s'"
    "hm_get (by_drv s') = (hm_get (by_drv s))
       (d \<mapsto> x\<lparr>s_state := StReady, in_flight_token := Some (g_next_token s)\<rparr>)"
    "job_meta s' = job_meta s" "in_flight (g_wfq s') = in_flight (g_wfq s)"
    "concurrency_cap (g_wfq s') = concurrency_cap (g_wfq s)" "g_next_token s \<le> g_next_token s'"
proof -
  let ?t = "g_next_token s"
  let ?f = "\<lambda>x. x\<lparr>s_state := StReady, in_flight_token := Some ?t\<rparr>"
  let ?s = "s\<lparr>g_next_token := ?t + 1, by_drv := hm_modify d ?f (by_drv s),
      token_to_drv := hm_insert ?t d (token_to_drv s), g_wfq := wfq_enqueue r ?t (g_wfq s)\<rparr>"
  have tok: "tok_ok s" and gr: "graph_ok (by_drv s)" using ok by (simp_all add: dag_ok_def)
  note D = tok_okD [OF tok]
  have tags: "pending_tags (g_wfq ?s) = add_mset ?t (pending_tags (g_wfq s))"
    using D(1) by (simp add: pending_tags_enqueue)
  have fresh: "hm_get (token_to_drv s) ?t = None" "?t \<notin># pending_tags (g_wfq s)"
    using D(5) [of ?t] D(6) [of ?t] by fastforce+
  then have fresh': "hm_get (in_flight (g_wfq s)) ?t = None" using D(7) [of ?t] by blast
  have none: "in_flight_token x = None"
    using D(4) [OF x(1)] x(2) by (auto simp: tok_step_def promotable_def split: option.splits)
  have p: "promote_one d r s = Some ?s"
    using x(1) by (simp add: promote_one_def dag_mint_token_def)
  have get: "hm_get (by_drv ?s) = (hm_get (by_drv s))(d \<mapsto> ?f x)"
    using x(1) by (auto simp: fun_eq_iff hm_simps)
  have "graph_ok (by_drv ?s)"
    using graph_ok_modify [OF gr, of d ?f] x
    by (simp add: promotable_def st_is_successful_def)
  moreover have "tok_ok ?s"
  proof (rule tok_okI)
    fix k y assume "hm_get (by_drv ?s) k = Some y"
    then consider "k = d" "y = ?f x" | "k \<noteq> d" "hm_get (by_drv s) k = Some y"
      unfolding get by (auto split: if_splits)
    then show "tok_step ?s k y"
    proof cases
      case 1
      then show ?thesis by (simp add: tok_step_def hm_simps pending_tags_enqueue D(1))
    next
      case 2
      with D(4) [OF 2(2)] fresh show ?thesis
        by (auto simp: tok_step_def hm_simps pending_tags_enqueue D(1) split: option.splits)
    qed
  next
    fix u k assume "hm_get (token_to_drv ?s) u = Some k"
    then consider "u = ?t" "k = d" | "u \<noteq> ?t" "hm_get (token_to_drv s) u = Some k"
      by (auto simp: hm_simps split: if_splits)
    then show "u < g_next_token ?s \<and> (\<exists>x. hm_get (by_drv ?s) k = Some x \<and> in_flight_token x = Some u)"
    proof cases
      case 1
      then show ?thesis unfolding get by simp
    next
      case 2
      with D(5) [OF 2(2)] none x(1) show ?thesis unfolding get by auto
    qed
  next
    fix u assume "u \<in># pending_tags (g_wfq ?s)"
    then show "u < g_next_token ?s \<and> count (pending_tags (g_wfq ?s)) u = 1 \<and>
        hm_get (in_flight (g_wfq ?s)) u = None"
      using D(6) [of u] fresh fresh' unfolding tags by (auto simp: not_in_iff)
  next
    fix u assume "hm_get (in_flight (g_wfq ?s)) u \<noteq> None"
    then show "hm_get (token_to_drv ?s) u \<noteq> None" using D(7) [of u] by (simp add: hm_simps)
  qed (use D in auto)
  ultimately have "dag_ok ?s" by (simp add: dag_ok_def)
  moreover have "job_meta ?s = job_meta s" "in_flight (g_wfq ?s) = in_flight (g_wfq s)"
    "concurrency_cap (g_wfq ?s) = concurrency_cap (g_wfq s)" "g_next_token s \<le> g_next_token ?s"
    by (simp_all add: wfq_enqueue_def Let_def)
  ultimately show thesis using that p get by blast
qed

text \<open>Promotion of a set of steps: they become ready, the others stay as they are.\<close>

definition promotes :: "string set \<Rightarrow> dag \<Rightarrow> dag \<Rightarrow> bool" where
  "promotes P s s' = (dag_ok s' \<and> dom (hm_get (by_drv s')) = dom (hm_get (by_drv s)) \<and>
     (\<forall>k x. hm_get (by_drv s) k = Some x \<longrightarrow> (if k \<in> P
        then \<exists>t. hm_get (by_drv s') k = Some (x\<lparr>s_state := StReady, in_flight_token := t\<rparr>)
        else hm_get (by_drv s') k = Some x)) \<and>
     job_meta s' = job_meta s \<and> in_flight (g_wfq s') = in_flight (g_wfq s) \<and>
     concurrency_cap (g_wfq s') = concurrency_cap (g_wfq s) \<and> g_next_token s \<le> g_next_token s')"

lemma promote_all_ok:
  assumes "dag_ok s" "distinct (map fst ps)"
    "\<forall>d\<in>fst ` set ps. \<exists>x. hm_get (by_drv s) d = Some x \<and> promotable x"
  shows "\<exists>s'. promote_all ps s = Some s' \<and> promotes (fst ` set ps) s s'"
  using assms
proof (induction ps arbitrary: s)
  case Nil
  then show ?case by (simp add: promotes_def)
next
  case (Cons p ps)
  obtain d r where p: "p = (d, r)" by (cases p)
  from Cons.prems(3) obtain x where x: "hm_get (by_drv s) d = Some x" "promotable x"
    by (auto simp: p)
  obtain s1 where s1: "promote_one d r s = Some s1" "dag_ok s1"
    "hm_get (by_drv s1) = (hm_get (by_drv s))
       (d \<mapsto> x\<lparr>s_state := StReady, in_flight_token := Some (g_next_token s)\<rparr>)"
    "job_meta s1 = job_meta s" "in_flight (g_wfq s1) = in_flight (g_wfq s)"
    "concurrency_cap (g_wfq s1) = concurrency_cap (g_wfq s)" "g_next_token s \<le> g_next_token s1"
    using promote_one_ok [OF Cons.prems(1) x] .
  have d: "d \<notin> fst ` set ps" "distinct (map fst ps)" using Cons.prems(2) by (auto simp: p image_iff)
  have "\<forall>k\<in>fst ` set ps. \<exists>x. hm_get (by_drv s1) k = Some x \<and> promotable x"
    using Cons.prems(3) d(1) unfolding s1(3) p by (metis (no_types, lifting) fun_upd_apply image_insert insertCI list.simps(15))
  from Cons.IH [OF s1(2) d(2) this] obtain s2 where s2: "promote_all ps s1 = Some s2"
      "promotes (fst ` set ps) s1 s2" by blast
  have dom: "dom (hm_get (by_drv s1)) = dom (hm_get (by_drv s))"
    using x(1) by (auto simp: s1(3))
  have "promotes (fst ` set (p # ps)) s s2"
    unfolding promotes_def
  proof (intro conjI allI impI)
    fix k y assume y: "hm_get (by_drv s) k = Some y"
    show "if k \<in> fst ` set (p # ps)
        then \<exists>t. hm_get (by_drv s2) k = Some (y\<lparr>s_state := StReady, in_flight_token := t\<rparr>)
        else hm_get (by_drv s2) k = Some y"
    proof (cases "k = d")
      case True
      then have "hm_get (by_drv s1) k =
          Some (y\<lparr>s_state := StReady, in_flight_token := Some (g_next_token s)\<rparr>)"
        using x(1) y by (simp add: s1(3))
      then have "hm_get (by_drv s2) k =
          Some (y\<lparr>s_state := StReady, in_flight_token := Some (g_next_token s)\<rparr>)"
        using s2(2) True d(1) unfolding promotes_def by metis
      with True show ?thesis by (auto simp: p)
    next
      case False
      then have "hm_get (by_drv s1) k = Some y" using y by (simp add: s1(3))
      with s2(2) False show ?thesis unfolding promotes_def by (auto simp: p)
    qed
  qed (use s2 s1 dom in \<open>auto simp: promotes_def\<close>)
  with s1(1) s2(1) show ?case by (simp add: p)
qed

lemma to_promote_keys:
  assumes "hm_ok m"
  shows "distinct (map fst (to_promote m))"
    "fst ` set (to_promote m) = {d. \<exists>x. hm_get m d = Some x \<and> promotable x}"
proof -
  have "map fst (to_promote m) = map fst (filter (\<lambda>(d, x). promotable x) m)"
    by (simp add: to_promote_def case_prod_unfold)
  then show "distinct (map fst (to_promote m))"
    using assms by (simp add: distinct_map_filter)
  show "fst ` set (to_promote m) = {d. \<exists>x. hm_get m d = Some x \<and> promotable x}"
    by (force simp: to_promote_def hm_in_set [OF assms])
qed

lemma promote_ready_steps_ok:
  assumes "dag_ok s"
  obtains s' where "promote_ready_steps s = Some s'" "promoted s'"
    "promotes {d. \<exists>x. hm_get (by_drv s) d = Some x \<and> promotable x} s s'"
proof -
  have hm: "hm_ok (by_drv s)" using assms by (simp add: dag_ok_def graph_ok_def)
  from promote_all_ok [OF assms to_promote_keys(1) [OF hm]] to_promote_keys(2) [OF hm]
  obtain s' where s': "promote_ready_steps s = Some s'"
      "promotes {d. \<exists>x. hm_get (by_drv s) d = Some x \<and> promotable x} s s'"
    unfolding promote_ready_steps_def by auto
  have "\<not> promotable y" if y: "hm_get (by_drv s') k = Some y" for k y
  proof -
    have "k \<in> dom (hm_get (by_drv s))" using s'(2) y by (auto simp: promotes_def)
    then obtain x where x: "hm_get (by_drv s) k = Some x" by auto
    show ?thesis
    proof (cases "promotable x")
      case True
      then have "\<exists>t. y = x\<lparr>s_state := StReady, in_flight_token := t\<rparr>"
        using s'(2) x y unfolding promotes_def by fastforce
      then show ?thesis by (auto simp: promotable_def)
    next
      case False
      then have "y = x" using s'(2) x y unfolding promotes_def by fastforce
      with False show ?thesis by simp
    qed
  qed
  then have "promoted s'" by (simp add: promoted_def)
  with s' that show thesis by blast
qed

section \<open>Cascade\<close>

text \<open>
  The steps a cascade ends: those reachable from the queue over \<open>rdeps\<close> edges through steps that
  are not terminal.
\<close>

inductive reaches :: "graph \<Rightarrow> string set \<Rightarrow> string \<Rightarrow> bool" for m Q where
  from_queue: "d \<in> Q \<Longrightarrow> hm_get m d = Some x \<Longrightarrow> \<not> st_is_terminal (s_state x) \<Longrightarrow> reaches m Q d"
| from_rdep: "reaches m Q k \<Longrightarrow> hm_get m k = Some y \<Longrightarrow> d \<in> set (rdeps y) \<Longrightarrow>
    hm_get m d = Some x \<Longrightarrow> \<not> st_is_terminal (s_state x) \<Longrightarrow> reaches m Q d"

lemma reaches_mono: "reaches m Q d \<Longrightarrow> Q \<subseteq> Q' \<Longrightarrow> reaches m Q' d"
  by (induction rule: reaches.induct) (blast intro: reaches.intros)+

lemma reaches_step: "reaches m Q d \<Longrightarrow> \<exists>x. hm_get m d = Some x \<and> \<not> st_is_terminal (s_state x)"
  by (cases rule: reaches.cases) auto

lemma reaches_skip_irrelevant:
  assumes "\<And>x. hm_get m d = Some x \<Longrightarrow> st_is_terminal (s_state x)"
  shows "reaches m (insert d Q) k \<longleftrightarrow> reaches m Q k"
proof
  assume "reaches m (insert d Q) k"
  then show "reaches m Q k"
  proof induction
    case (from_queue k x)
    then have "k \<noteq> d" using assms by auto
    with from_queue show ?case by (auto intro: reaches.from_queue)
  qed (blast intro: reaches.from_rdep)
qed (blast intro: reaches_mono)

lemma mark_skipped_get:
  assumes "hm_get (by_drv s) d = Some x"
  shows "hm_get (by_drv (mark_skipped d x s)) = (hm_get (by_drv s))
    (d \<mapsto> x\<lparr>s_state := StSkipped, in_flight_token := None\<rparr>)"
  using assms by (auto simp: mark_skipped_def fun_eq_iff hm_simps)

text \<open>Ending a reachable step moves it from the reachable set to the done ones.\<close>

lemma reaches_mark:
  assumes x: "hm_get m d = Some x" "\<not> st_is_terminal (s_state x)"
    and m': "hm_get m' = (hm_get m)(d \<mapsto> x\<lparr>s_state := StSkipped, in_flight_token := None\<rparr>)"
  shows "reaches m (insert d Q) k \<longleftrightarrow> k = d \<or> reaches m' (Q \<union> set (rdeps x)) k"
proof
  assume "reaches m (insert d Q) k"
  then show "k = d \<or> reaches m' (Q \<union> set (rdeps x)) k"
  proof induction
    case (from_queue k y)
    then show ?case by (auto simp: m' intro: reaches.from_queue)
  next
    case (from_rdep k y j z)
    show ?case
    proof (cases "j = d")
      case False
      then have z: "hm_get m' j = Some z" using from_rdep by (simp add: m')
      show ?thesis
      proof (cases "k = d")
        case True
        then have "j \<in> set (rdeps x)" using from_rdep x by simp
        with z from_rdep show ?thesis by (auto intro: reaches.from_queue)
      next
        case False
        then have "hm_get m' k = Some y" using from_rdep by (simp add: m')
        with False z from_rdep show ?thesis by (blast intro: reaches.from_rdep)
      qed
    qed simp
  qed
next
  have base: "reaches m (insert d Q) d" using x by (blast intro: reaches.from_queue)
  have "reaches m (insert d Q) k" if "reaches m' (Q \<union> set (rdeps x)) k"
    using that
  proof induction
    case (from_queue k y)
    then have y: "hm_get m k = Some y" by (auto simp: m' split: if_splits)
    from from_queue(1) show ?case
    proof
      assume "k \<in> Q" with y from_queue show ?thesis by (blast intro: reaches.from_queue)
    next
      assume "k \<in> set (rdeps x)"
      with base x y from_queue show ?thesis by (blast intro: reaches.from_rdep)
    qed
  next
    case (from_rdep k y j z)
    have "hm_get m k = Some y" using from_rdep reaches_step [OF from_rdep(1)]
      by (auto simp: m' split: if_splits)
    moreover have "hm_get m j = Some z" using from_rdep by (auto simp: m' split: if_splits)
    ultimately show ?case using from_rdep by (blast intro: reaches.from_rdep)
  qed
  with base show "k = d \<or> reaches m' (Q \<union> set (rdeps x)) k \<Longrightarrow> reaches m (insert d Q) k" by blast
qed

lemma mark_skipped_ok:
  assumes ok: "dag_ok s" and x: "hm_get (by_drv s) d = Some x" "\<not> st_is_terminal (s_state x)"
    and b: "blocked (by_drv s) d"
  shows "dag_ok (mark_skipped d x s) \<and> in_flight_token x = None"
proof -
  have gr: "graph_ok (by_drv s)" and tok: "tok_ok s" using ok by (simp_all add: dag_ok_def)
  have nr: "\<not> runnable (s_state x)" using blocked_not_runnable [OF gr x(1) b] .
  then have none: "in_flight_token x = None"
    using tok_okD(4) [OF tok x(1)] by (auto simp: tok_step_def runnable_def split: option.splits)
  have eq: "mark_skipped d x s =
      s\<lparr>by_drv := hm_modify d (\<lambda>x. x\<lparr>s_state := StSkipped, in_flight_token := None\<rparr>) (by_drv s)\<rparr>"
    by (simp add: mark_skipped_def none take_token_def)
  have "graph_ok (hm_modify d (\<lambda>x. x\<lparr>s_state := StSkipped, in_flight_token := None\<rparr>) (by_drv s))"
    using nr x by (intro graph_ok_modify [OF gr]) (auto simp: runnable_def st_is_successful_def)
  moreover have "tok_ok (s\<lparr>by_drv := hm_modify d
      (\<lambda>x. x\<lparr>s_state := StSkipped, in_flight_token := None\<rparr>) (by_drv s)\<rparr>)"
    using none x by (intro tok_ok_modify [OF tok]) auto
  ultimately show ?thesis using none by (simp add: dag_ok_def eq)
qed

text \<open>What a cascade does: it ends exactly the reachable steps, and changes nothing else.\<close>

definition cascaded :: "(string \<Rightarrow> bool) \<Rightarrow> dag \<Rightarrow> dag \<Rightarrow> bool" where
  "cascaded P s s' = (dag_ok s' \<and> g_wfq s' = g_wfq s \<and> token_to_drv s' = token_to_drv s \<and>
     g_next_token s' = g_next_token s \<and> job_meta s' = job_meta s \<and>
     (\<forall>k. hm_get (by_drv s') k = map_option (\<lambda>x. if P k
        then x\<lparr>s_state := StSkipped, in_flight_token := None\<rparr> else x) (hm_get (by_drv s) k)))"

lemma blocked_mark:
  assumes "hm_get (by_drv s) d = Some x" "\<not> st_is_successful (s_state x)" "blocked (by_drv s) k"
  shows "blocked (by_drv (mark_skipped d x s)) k"
proof -
  from assms(3) obtain j y where y: "hm_get (by_drv s) j = Some y" "\<not> st_is_successful (s_state y)"
      "k \<in> set (rdeps y)" by (auto simp: blocked_def)
  show ?thesis
  proof (cases "j = d")
    case True
    then have "hm_get (by_drv (mark_skipped d x s)) d =
        Some (x\<lparr>s_state := StSkipped, in_flight_token := None\<rparr>)" "k \<in> set (rdeps x)"
      using assms(1) y by (simp_all add: mark_skipped_get)
    then show ?thesis unfolding blocked_def by (force simp: st_is_successful_def)
  next
    case False
    then have "hm_get (by_drv (mark_skipped d x s)) j = Some y"
      using assms(1) y(1) by (simp add: mark_skipped_get)
    with y show ?thesis unfolding blocked_def by blast
  qed
qed

lemma cascade_loop_ok:
  assumes "dag_ok s" "\<forall>d\<in>set queue. blocked (by_drv s) d"
  shows "cascaded (reaches (by_drv s) (set queue)) s (fst (cascade_loop from_drv queue s out))"
  using assms
proof (induction from_drv queue s out rule: cascade_loop.induct)
  case (1 from_drv s out)
  have "\<not> reaches (by_drv s) {} k" for k
  proof
    assume "reaches (by_drv s) {} k" then show False by induction simp_all
  qed
  then show ?case using 1 by (simp add: cascaded_def option.map_ident)
next
  case (2 from_drv d queue s out)
  show ?case
  proof (cases "\<exists>x. hm_get (by_drv s) d = Some x \<and> \<not> st_is_terminal (s_state x)")
    case False
    then have irr: "reaches (by_drv s) (insert d (set queue)) = reaches (by_drv s) (set queue)"
      by (intro ext reaches_skip_irrelevant) auto
    show ?thesis
    proof (cases "hm_get (by_drv s) d")
      case None
      with 2 irr show ?thesis by simp
    next
      case (Some x)
      with False 2 irr show ?thesis by auto
    qed
  next
    case True
    then obtain x where x: "hm_get (by_drv s) d = Some x" "\<not> st_is_terminal (s_state x)" by blast
    let ?s = "mark_skipped d x s"
    have ns: "\<not> st_is_successful (s_state x)" using x(2) by (auto simp: st_is_successful_def)
    have ok: "dag_ok ?s" "in_flight_token x = None"
      using mark_skipped_ok [OF 2(4) x] 2(5) by auto
    note get = mark_skipped_get [OF x(1)]
    have "blocked (by_drv ?s) k" if "k \<in> set (queue @ rdeps x)" for k
    proof (cases "k \<in> set queue")
      case True
      with 2(5) blocked_mark [OF x(1) ns] show ?thesis by simp
    next
      case False
      with that have "blocked (by_drv s) k" unfolding blocked_def using x ns by auto
      with blocked_mark [OF x(1) ns] show ?thesis .
    qed
    with 2(3) [OF x(1) x(2) ok(1)] have IH: "cascaded (reaches (by_drv ?s) (set (queue @ rdeps x))) ?s
        (fst (cascade_loop from_drv (queue @ rdeps x) ?s (out @ skips_for from_drv (head_jobs x) s)))"
      (is "cascaded _ _ ?r") by blast
    have res: "fst (cascade_loop from_drv (d # queue) s out) = ?r" using x by simp
    have rk: "reaches (by_drv s) (set (d # queue)) k \<longleftrightarrow>
        k = d \<or> reaches (by_drv ?s) (set (queue @ rdeps x)) k" for k
      using reaches_mark [OF x get, of "set queue" k] by simp
    have steps: "hm_get (by_drv ?r) k = map_option (\<lambda>x. if reaches (by_drv s) (set (d # queue)) k
        then x\<lparr>s_state := StSkipped, in_flight_token := None\<rparr> else x) (hm_get (by_drv s) k)" for k
    proof -
      have "hm_get (by_drv ?r) k = map_option (\<lambda>y. if reaches (by_drv ?s) (set (queue @ rdeps x)) k
          then y\<lparr>s_state := StSkipped, in_flight_token := None\<rparr> else y) (hm_get (by_drv ?s) k)"
        using IH by (simp add: cascaded_def)
      then show ?thesis
        unfolding rk get using x(1) by (auto simp: option.map_comp comp_def)
    qed
    have "token_to_drv ?s = token_to_drv s" "g_wfq ?s = g_wfq s" "g_next_token ?s = g_next_token s"
        "job_meta ?s = job_meta s"
      by (simp_all add: mark_skipped_def take_token_def ok(2))
    with IH steps show ?thesis unfolding res by (simp add: cascaded_def)
  qed
qed

text \<open>The skips a cascade reports: one per job of each step it ends.\<close>

definition jobs_in :: "(string \<Rightarrow> bool) \<Rightarrow> graph \<Rightarrow> job_id \<Rightarrow> nat" where
  "jobs_in P m j = hm_sum (\<lambda>k x. if P k then count_list (head_jobs x) j else 0) m"

lemma skips_for_count:
  "count_list (map skip_job_id (skips_for reason js s)) j =
     (if hm_get (job_meta s) j = None then 0 else count_list js j)"
  by (induction js) (auto simp: skips_for_def List.map_filter_def split: option.splits)

lemma jobs_in_mark:
  assumes "hm_ok (by_drv s)" "hm_get (by_drv s) d = Some x" "\<And>k. P k \<longleftrightarrow> k = d \<or> P' k" "\<not> P' d"
  shows "jobs_in P (by_drv s) j = count_list (head_jobs x) j + jobs_in P' (by_drv (mark_skipped d x s)) j"
proof -
  have "jobs_in P' (by_drv (mark_skipped d x s)) j = jobs_in P' (by_drv s) j"
    unfolding jobs_in_def mark_skipped_def by (simp add: hm_sum_modify_same)
  moreover have "jobs_in P (by_drv s) j = count_list (head_jobs x) j +
      hm_sum (\<lambda>k u. if k = d then 0 else if P k then count_list (head_jobs u) j else 0) (by_drv s)"
    unfolding jobs_in_def
    using hm_sum_split [OF assms(1,2), of "\<lambda>k u. if P k then count_list (head_jobs u) j else 0"] assms(3)
    by simp
  moreover have "hm_sum (\<lambda>k u. if k = d then 0 else if P k then count_list (head_jobs u) j else 0)
      (by_drv s) = jobs_in P' (by_drv s) j"
    unfolding jobs_in_def using assms by (intro hm_sum_cong) auto
  ultimately show ?thesis by simp
qed

lemma cascade_loop_skips:
  "hm_ok (by_drv s) \<Longrightarrow> count_list (map skip_job_id (snd (cascade_loop from_drv queue s out))) j =
     count_list (map skip_job_id out) j + (if hm_get (job_meta s) j = None then 0
       else jobs_in (reaches (by_drv s) (set queue)) (by_drv s) j)"
proof (induction from_drv queue s out rule: cascade_loop.induct)
  case (1 from_drv s out)
  have "\<not> reaches (by_drv s) {} k" for k
  proof
    assume "reaches (by_drv s) {} k" then show False by induction simp_all
  qed
  then have "jobs_in (reaches (by_drv s) {}) (by_drv s) j = 0"
    using 1 unfolding jobs_in_def by (simp add: hm_sum_eq_0_iff)
  then show ?case by simp
next
  case (2 from_drv d queue s out)
  show ?case
  proof (cases "\<exists>x. hm_get (by_drv s) d = Some x \<and> \<not> st_is_terminal (s_state x)")
    case False
    then have irr: "reaches (by_drv s) (insert d (set queue)) = reaches (by_drv s) (set queue)"
      by (intro ext reaches_skip_irrelevant) auto
    show ?thesis
    proof (cases "hm_get (by_drv s) d")
      case None
      with 2 irr show ?thesis by simp
    next
      case (Some x)
      with False 2 irr show ?thesis by auto
    qed
  next
    case True
    then obtain x where x: "hm_get (by_drv s) d = Some x" "\<not> st_is_terminal (s_state x)" by blast
    let ?s = "mark_skipped d x s"
    note get = mark_skipped_get [OF x(1)]
    have hm: "hm_ok (by_drv ?s)" using 2(4) by (simp add: mark_skipped_def)
    have jm: "job_meta ?s = job_meta s" by (simp add: mark_skipped_def)
    have nr: "\<not> reaches (by_drv ?s) (set (queue @ rdeps x)) d"
      using reaches_step [of "by_drv ?s" "set (queue @ rdeps x)" d] by (auto simp: get)
    have "jobs_in (reaches (by_drv s) (set (d # queue))) (by_drv s) j =
        count_list (head_jobs x) j + jobs_in (reaches (by_drv ?s) (set (queue @ rdeps x))) (by_drv ?s) j"
      using reaches_mark [OF x get, of "set queue"] nr by (intro jobs_in_mark [OF 2(4) x(1)]) auto
    with 2(3) [OF x hm] x show ?thesis
      by (simp add: skips_for_count jm)
  qed
qed

lemma cascade_skip_ok:
  assumes ok: "dag_ok s" and x: "hm_get (by_drv s) d = Some x" "\<not> st_is_successful (s_state x)"
  shows "cascaded (reaches (by_drv s) (set (rdeps x))) s (fst (cascade_skip d s))"
    "count_list (map skip_job_id (snd (cascade_skip d s))) j = (if hm_get (job_meta s) j = None then 0
       else jobs_in (reaches (by_drv s) (set (rdeps x))) (by_drv s) j)"
proof -
  have "\<forall>k\<in>set (rdeps x). blocked (by_drv s) k" using x unfolding blocked_def by blast
  then show "cascaded (reaches (by_drv s) (set (rdeps x))) s (fst (cascade_skip d s))"
    using cascade_loop_ok [OF ok, of "rdeps x" d "[]"] x(1) by (simp add: cascade_skip_def)
  have "hm_ok (by_drv s)" using ok by (simp add: dag_ok_def graph_ok_def)
  then show "count_list (map skip_job_id (snd (cascade_skip d s))) j = (if hm_get (job_meta s) j = None then 0
       else jobs_in (reaches (by_drv s) (set (rdeps x))) (by_drv s) j)"
    using cascade_loop_skips [of s d "rdeps x" "[]" j] x(1) by (simp add: cascade_skip_def)
qed

end
