(* ===== verification/Dag_Methods.thy ===== *)
theory Dag_Methods
  imports Dag_Ops
begin

text \<open>
  The methods of \<open>DagStrategy\<close>: none of them panics on a good state and each keeps it good, and a
  step only moves forward (\<open>evolves\<close>): it never leaves the graph, its set of dependents only
  grows, its state only advances and a terminal state never changes.
\<close>

section \<open>Progress of a step\<close>

fun rank :: "step_state \<Rightarrow> nat" where
  "rank StPending = 0"
| "rank StReady = 1"
| "rank StRunning = 2"
| "rank _ = 3"

definition step_le :: "step \<Rightarrow> step \<Rightarrow> bool" where
  "step_le x y = (set (rdeps x) \<subseteq> set (rdeps y) \<and> s_drv_path y = s_drv_path x \<and>
     rank (s_state x) \<le> rank (s_state y) \<and> (st_is_terminal (s_state x) \<longrightarrow> s_state y = s_state x))"

definition evolves :: "dag \<Rightarrow> dag \<Rightarrow> bool" where
  "evolves s s' = (\<forall>k x. hm_get (by_drv s) k = Some x \<longrightarrow>
     (\<exists>y. hm_get (by_drv s') k = Some y \<and> step_le x y))"

lemma rank_terminal: "st_is_terminal st \<longleftrightarrow> rank st = 3"
  by (cases st) auto

lemma rank_le_3: "rank st \<le> 3"
  by (cases st) auto

lemma successful_terminal: "st_is_successful st \<Longrightarrow> st_is_terminal st"
  by (auto simp: st_is_successful_def)

lemma step_le_refl [simp]: "step_le x x"
  by (simp add: step_le_def)

lemma step_le_trans: "step_le x y \<Longrightarrow> step_le y z \<Longrightarrow> step_le x z"
  by (auto simp: step_le_def)

lemma evolves_refl [simp]: "evolves s s"
  by (simp add: evolves_def)

lemma evolves_trans:
  assumes "evolves s s'" "evolves s' s''"
  shows "evolves s s''"
  unfolding evolves_def
proof (intro allI impI)
  fix k x assume "hm_get (by_drv s) k = Some x"
  with assms(1) obtain y where "hm_get (by_drv s') k = Some y" "step_le x y"
    unfolding evolves_def by blast
  moreover from this assms(2) obtain z where "hm_get (by_drv s'') k = Some z" "step_le y z"
    unfolding evolves_def by blast
  ultimately show "\<exists>z. hm_get (by_drv s'') k = Some z \<and> step_le x z"
    using step_le_trans by blast
qed

lemma evolves_same: "by_drv s' = by_drv s \<Longrightarrow> evolves s s'"
  by (simp add: evolves_def)

lemma evolves_modify:
  assumes "by_drv s' = hm_modify d f (by_drv s)"
    and "\<And>x. hm_get (by_drv s) d = Some x \<Longrightarrow> step_le x (f x)"
  shows "evolves s s'"
  unfolding evolves_def assms(1)
  using assms(2) by (auto simp: hm_simps)

lemma evolves_promotes:
  assumes P: "promotes P s s'" and pend: "\<And>k x. k \<in> P \<Longrightarrow> hm_get (by_drv s) k = Some x \<Longrightarrow> promotable x"
  shows "evolves s s'"
  unfolding evolves_def
proof (intro allI impI)
  fix k x assume x: "hm_get (by_drv s) k = Some x"
  show "\<exists>y. hm_get (by_drv s') k = Some y \<and> step_le x y"
  proof (cases "k \<in> P")
    case True
    with P x obtain t where "hm_get (by_drv s') k = Some (x\<lparr>s_state := StReady, in_flight_token := t\<rparr>)"
      unfolding promotes_def by fastforce
    moreover have "s_state x = StPending" using pend [OF True x] by (simp add: promotable_def)
    ultimately show ?thesis by (simp add: step_le_def)
  next
    case False
    with P x show ?thesis unfolding promotes_def by fastforce
  qed
qed

lemma evolves_cascaded:
  assumes "cascaded P s s'" and "\<And>k x. P k \<Longrightarrow> hm_get (by_drv s) k = Some x \<Longrightarrow> \<not> st_is_terminal (s_state x)"
  shows "evolves s s'"
  unfolding evolves_def
proof (intro allI impI)
  fix k x assume x: "hm_get (by_drv s) k = Some x"
  then have "hm_get (by_drv s') k =
      Some (if P k then x\<lparr>s_state := StSkipped, in_flight_token := None\<rparr> else x)"
    using assms(1) by (simp add: cascaded_def)
  moreover have "P k \<Longrightarrow> step_le x (x\<lparr>s_state := StSkipped, in_flight_token := None\<rparr>)"
    using assms(2) [OF _ x] by (simp add: step_le_def rank_le_3)
  ultimately show "\<exists>y. hm_get (by_drv s') k = Some y \<and> step_le x y" by auto
qed

lemma promoted_cascaded:
  assumes "cascaded P s s'" "promoted s"
  shows "promoted s'"
  unfolding promoted_def
proof (intro allI impI)
  fix k y assume "hm_get (by_drv s') k = Some y"
  with assms(1) obtain x where "hm_get (by_drv s) k = Some x"
      "y = (if P k then x\<lparr>s_state := StSkipped, in_flight_token := None\<rparr> else x)"
    by (auto simp: cascaded_def)
  with assms(2) show "\<not> promotable y" by (auto simp: promoted_def promotable_def)
qed

section \<open>Dispatch\<close>

text \<open>A stale tag: popped and given back at once.\<close>

lemma dag_ok_stale:
  assumes ok: "dag_ok s" and d: "wfq_dispatch (g_wfq s) = Some (q, Some p)"
    and st: "hm_get (token_to_drv s) (pop_tag p) = None"
  shows "dag_ok (s\<lparr>g_wfq := fst (wfq_complete (pop_tag p) q)\<rparr>)"
proof -
  let ?q = "fst (wfq_complete (pop_tag p) q)"
  have tok: "tok_ok s" using ok by (simp add: dag_ok_def)
  note D = tok_okD [OF tok]
  have tags: "pending_tags (g_wfq s) = add_mset (pop_tag p) (pending_tags ?q)"
    using wfq_dispatch_tags [OF D(1) d] by simp
  have "hm_get (in_flight (g_wfq s)) (pop_tag p) = None" using D(7) [of "pop_tag p"] st by blast
  then have fl: "hm_get (hm_remove (pop_tag p) (in_flight q)) = hm_get (in_flight (g_wfq s))"
    using wfq_dispatch_in_flight [OF D(1) d] by (auto simp: fun_eq_iff hm_simps)
  have "tok_ok (s\<lparr>g_wfq := ?q\<rparr>)"
  proof (rule tok_okI)
    fix k x assume "hm_get (by_drv (s\<lparr>g_wfq := ?q\<rparr>)) k = Some x"
    then have "tok_step s k x" using D(4) by simp
    with st tags show "tok_step (s\<lparr>g_wfq := ?q\<rparr>) k x"
      by (auto simp: tok_step_def fl split: option.splits)
  next
    fix t assume "t \<in># pending_tags (g_wfq (s\<lparr>g_wfq := ?q\<rparr>))"
    then have t: "t \<in># pending_tags ?q" by simp
    then have "t < g_next_token s" "count (pending_tags (g_wfq s)) t = 1"
        "hm_get (in_flight (g_wfq s)) t = None"
      using D(6) [of t] tags by auto
    moreover have "0 < count (pending_tags ?q) t" using t by simp
    ultimately show "t < g_next_token (s\<lparr>g_wfq := ?q\<rparr>) \<and>
        count (pending_tags (g_wfq (s\<lparr>g_wfq := ?q\<rparr>))) t = 1 \<and>
        hm_get (in_flight (g_wfq (s\<lparr>g_wfq := ?q\<rparr>))) t = None"
      unfolding tags by (auto simp: fl count_eq_zero_iff split: if_splits)
  qed (use D wfq_dispatch_ok [OF D(1) d] fl in auto)
  then show ?thesis using ok by (simp add: dag_ok_def)
qed

text \<open>A live tag belongs to a ready step, which starts running.\<close>

lemma dag_ok_start:
  assumes ok: "dag_ok s" and w: "wfq_dispatch (g_wfq s) = Some (q, Some p)"
    and d: "hm_get (token_to_drv s) (pop_tag p) = Some d"
  obtains x where "hm_get (by_drv s) d = Some x" "s_state x = StReady"
    "in_flight_token x = Some (pop_tag p)"
    "dag_ok (s\<lparr>g_wfq := q, by_drv := hm_modify d (\<lambda>x. x\<lparr>s_state := StRunning\<rparr>) (by_drv s)\<rparr>)"
proof -
  let ?f = "\<lambda>x. x\<lparr>s_state := StRunning\<rparr>"
  let ?s = "s\<lparr>g_wfq := q, by_drv := hm_modify d ?f (by_drv s)\<rparr>"
  have tok: "tok_ok s" and gr: "graph_ok (by_drv s)" using ok by (simp_all add: dag_ok_def)
  note D = tok_okD [OF tok]
  have tags: "pending_tags (g_wfq s) = add_mset (pop_tag p) (pending_tags q)"
    using wfq_dispatch_tags [OF D(1) w] by simp
  have fl: "hm_get (in_flight q) = (hm_get (in_flight (g_wfq s)))(pop_tag p \<mapsto> pop_repo p)"
    using wfq_dispatch_in_flight [OF D(1) w] by simp
  obtain x where x: "hm_get (by_drv s) d = Some x" "in_flight_token x = Some (pop_tag p)"
    using D(5) [OF d] by blast
  have pend: "hm_get (in_flight (g_wfq s)) (pop_tag p) = None" "count (pending_tags (g_wfq s)) (pop_tag p) = 1"
    using D(6) [of "pop_tag p"] tags by auto
  then have ready: "s_state x = StReady"
    using D(4) [OF x(1)] x(2) by (auto simp: tok_step_def)
  have "step_ok (by_drv s) d x" using gr x(1) by (simp add: graph_ok_def)
  then have "deps_unfinished x = 0" using ready by (simp add: step_ok_def runnable_def)
  then have "graph_ok (by_drv ?s)"
    using graph_ok_modify [OF gr, of d ?f] x ready by (simp add: st_is_successful_def)
  moreover have "tok_ok ?s"
  proof (rule tok_okI)
    fix k y assume "hm_get (by_drv ?s) k = Some y"
    then consider "k = d" "y = ?f x" | "k \<noteq> d" "hm_get (by_drv s) k = Some y"
      using x(1) by (auto simp: hm_simps split: if_splits)
    then show "tok_step ?s k y"
    proof cases
      case 1
      then show ?thesis using x d by (simp add: tok_step_def fl)
    next
      case 2
      then have "in_flight_token y \<noteq> Some (pop_tag p)"
        using token_unique [OF tok x 2(2)] by auto
      with D(4) [OF 2(2)] show ?thesis
        by (auto simp: tok_step_def fl tags split: option.splits)
    qed
  next
    fix t k assume "hm_get (token_to_drv ?s) t = Some k"
    then show "t < g_next_token ?s \<and> (\<exists>y. hm_get (by_drv ?s) k = Some y \<and> in_flight_token y = Some t)"
      using D(5) [of t k] by (auto simp: hm_simps)
  next
    fix t assume "t \<in># pending_tags (g_wfq ?s)"
    then have t: "0 < count (pending_tags q) t" "t \<in># pending_tags (g_wfq s)" by (simp_all add: tags)
    then have "t \<noteq> pop_tag p" using pend(2) unfolding tags by (auto simp: count_eq_zero_iff)
    with t D(6) [OF t(2)] show "t < g_next_token ?s \<and> count (pending_tags (g_wfq ?s)) t = 1 \<and>
        hm_get (in_flight (g_wfq ?s)) t = None"
      by (auto simp: fl tags)
  next
    fix t assume "hm_get (in_flight (g_wfq ?s)) t \<noteq> None"
    then show "hm_get (token_to_drv ?s) t \<noteq> None"
      using D(7) [of t] d by (auto simp: fl split: if_splits)
  qed (use D wfq_dispatch_ok [OF D(1) w] in auto)
  ultimately have "dag_ok ?s" by (simp add: dag_ok_def)
  with x ready that show thesis by blast
qed

text \<open>What \<open>dispatch\<close> did, stale tags aside.\<close>

definition dispatched_as :: "dag \<Rightarrow> dag \<Rightarrow> dispatched option \<Rightarrow> bool" where
  "dispatched_as s s' res =
     (case res of
        None \<Rightarrow> by_drv s' = by_drv s \<and> hm_get (in_flight (g_wfq s')) = hm_get (in_flight (g_wfq s)) \<and>
          (wfq_pending_count (g_wfq s') = 0 \<or> cap_full (g_wfq s'))
      | Some o1 \<Rightarrow> (\<exists>x. hm_get (by_drv s) (d_drv_path o1) = Some x \<and> s_state x = StReady \<and>
          in_flight_token x = Some (d_token o1) \<and>
          head_job o1 = (case head_jobs x of [] \<Rightarrow> None | j # _ \<Rightarrow> Some j) \<and>
          by_drv s' = hm_modify (d_drv_path o1) (\<lambda>x. x\<lparr>s_state := StRunning\<rparr>) (by_drv s) \<and>
          hm_get (in_flight (g_wfq s)) (d_token o1) = None \<and>
          dom (hm_get (in_flight (g_wfq s'))) = insert (d_token o1) (dom (hm_get (in_flight (g_wfq s))))))"

lemma dag_dispatch_ok:
  assumes "dag_ok s"
  shows "\<exists>s' res. dag_dispatch s = Some (s', res) \<and> dag_ok s' \<and> dispatched_as s s' res \<and>
    token_to_drv s' = token_to_drv s \<and> job_meta s' = job_meta s \<and>
    g_next_token s' = g_next_token s \<and> concurrency_cap (g_wfq s') = concurrency_cap (g_wfq s)"
  using assms
proof (induction "wfq_pending_count (g_wfq s)" arbitrary: s rule: less_induct)
  case less
  have tok: "tok_ok s" and gr: "graph_ok (by_drv s)" using less.prems by (simp_all add: dag_ok_def)
  note D = tok_okD [OF tok]
  obtain q res where w: "wfq_dispatch (g_wfq s) = Some (q, res)" "wfq_ok q"
    using wfq_dispatch_total [OF D(1)] .
  note cap = dispatch_concurrency_cap [OF D(1) w(1)]
  show ?case
  proof (cases res)
    case None
    have "q = g_wfq s \<and> (cap_full q \<or> wfq_pending_count q = 0)"
      using wfq_dispatch_None [OF D(1), of q] w(1) None by auto
    then have "dispatched_as s (s\<lparr>g_wfq := q\<rparr>) None" "s\<lparr>g_wfq := q\<rparr> = s"
      by (auto simp: dispatched_as_def)
    moreover have "dag_dispatch s = Some (s\<lparr>g_wfq := q\<rparr>, None)"
      using w(1) None by (subst dag_dispatch.simps) simp
    ultimately show ?thesis using less.prems by auto
  next
    case (Some p)
    have tags: "pending_tags (g_wfq s) = add_mset (pop_tag p) (pending_tags q)"
      using wfq_dispatch_tags [OF D(1) w(1)] Some by simp
    show ?thesis
    proof (cases "hm_get (token_to_drv s) (pop_tag p)")
      case None
      let ?s = "s\<lparr>g_wfq := fst (wfq_complete (pop_tag p) q)\<rparr>"
      have ok: "dag_ok ?s" using dag_ok_stale [OF less.prems _ None] w(1) Some by simp
      have lt: "wfq_pending_count (g_wfq ?s) < wfq_pending_count (g_wfq s)"
        by (simp add: pending_tags_count tags)
      have "hm_get (in_flight (g_wfq s)) (pop_tag p) = None" using D(7) [of "pop_tag p"] None by blast
      then have fl: "hm_get (in_flight (g_wfq ?s)) = hm_get (in_flight (g_wfq s))"
        using wfq_dispatch_in_flight [OF D(1) w(1)] Some by (auto simp: fun_eq_iff hm_simps)
      have "dag_dispatch s = dag_dispatch ?s"
        using w(1) Some None by (subst dag_dispatch.simps) simp
      moreover have "dispatched_as ?s s' r \<longleftrightarrow> dispatched_as s s' r" for s' r
        using fl by (simp add: dispatched_as_def split: option.splits)
      moreover have "concurrency_cap (g_wfq ?s) = concurrency_cap (g_wfq s)"
        using cap by (simp add: wfq_complete_def)
      ultimately show ?thesis using less.hyps [OF lt ok] by simp
    next
      case d: (Some d)
      have w': "wfq_dispatch (g_wfq s) = Some (q, Some p)" using w(1) Some by simp
      obtain x where x: "hm_get (by_drv s) d = Some x" "s_state x = StReady"
        "in_flight_token x = Some (pop_tag p)"
        "dag_ok (s\<lparr>g_wfq := q, by_drv := hm_modify d (\<lambda>x. x\<lparr>s_state := StRunning\<rparr>) (by_drv s)\<rparr>)"
        using dag_ok_start [OF less.prems w' d] .
      have path: "s_drv_path x = d" using gr x(1) by (simp add: graph_ok_def step_ok_def)
      have "hm_get (in_flight (g_wfq s)) (pop_tag p) = None" using D(6) [of "pop_tag p"] tags by simp
      moreover have "dom (hm_get (in_flight q)) = insert (pop_tag p) (dom (hm_get (in_flight (g_wfq s))))"
        using wfq_dispatch_in_flight [OF D(1) w'] by simp
      moreover have "dag_dispatch s = Some (s\<lparr>g_wfq := q,
          by_drv := hm_modify d (\<lambda>x. x\<lparr>s_state := StRunning\<rparr>) (by_drv s)\<rparr>,
          Some \<lparr>d_token = pop_tag p, d_repo_id = pop_repo p, d_eval_id = s_eval_id x,
            d_drv_path = s_drv_path x, d_system = s_system x, d_required_features = s_required_features x,
            head_job = (case head_jobs x of [] \<Rightarrow> None | j # _ \<Rightarrow> Some j)\<rparr>)"
        using w' d x(1) by (subst dag_dispatch.simps) simp
      ultimately show ?thesis
        using x cap by (simp add: dispatched_as_def path)
    qed
  qed
qed

section \<open>Complete\<close>

text \<open>An unknown token changes nothing; a known one ends its step.\<close>

lemma token_state:
  assumes "tok_ok s" "hm_get (by_drv s) d = Some x" "in_flight_token x = Some t"
  shows "s_state x = StReady \<or> s_state x = StRunning"
  using tok_okD(4) [OF assms(1,2)] assms(3) by (auto simp: tok_step_def)

lemma finish_step_tok_ok:
  assumes tok: "tok_ok s" and x: "hm_get (by_drv s) d = Some x" "in_flight_token x = Some t"
    and st: "st_is_terminal st"
  shows "tok_ok (finish_step d st t s)"
  unfolding finish_step_def
  by (rule tok_ok_drop [OF tok x]) (use st tok_okD(1) [OF tok] in \<open>auto simp: hm_simps\<close>)

lemma finish_step_failure:
  assumes ok: "dag_ok s" and x: "hm_get (by_drv s) d = Some x" "in_flight_token x = Some t"
    and st: "\<not> st_is_successful st" "st_is_terminal st"
  shows "dag_ok (finish_step d st t s)"
proof -
  have tok: "tok_ok s" and gr: "graph_ok (by_drv s)" using ok by (simp_all add: dag_ok_def)
  have "graph_ok (by_drv (finish_step d st t s))"
    using st x token_state [OF tok x]
    by (auto simp: finish_step_def runnable_def st_is_successful_def intro!: graph_ok_modify [OF gr])
  with finish_step_tok_ok [OF tok x st(2)] show ?thesis by (simp add: dag_ok_def)
qed

lemma finish_step_success:
  assumes ok: "dag_ok s" and x: "hm_get (by_drv s) d = Some x" "in_flight_token x = Some t"
    and st: "st_is_successful st"
  shows "dag_ok ((finish_step d st t s)\<lparr>by_drv := fold decrement (rdeps x) (by_drv (finish_step d st t s))\<rparr>)"
proof -
  have tok: "tok_ok s" and gr: "graph_ok (by_drv s)" using ok by (simp_all add: dag_ok_def)
  have "\<not> st_is_successful (s_state x)" "runnable (s_state x)"
    using token_state [OF tok x] by (auto simp: st_is_successful_def runnable_def)
  from success_graph_ok [OF gr x(1) this st]
  have "graph_ok (fold decrement (rdeps x) (by_drv (finish_step d st t s)))"
    by (simp add: finish_step_def)
  moreover have "same_core (by_drv (finish_step d st t s))
      (fold decrement (rdeps x) (by_drv (finish_step d st t s)))"
    by (simp add: same_core_def fold_decrement_get option.map_comp comp_def)
  ultimately show ?thesis
    using tok_ok_core [OF finish_step_tok_ok [OF tok x successful_terminal [OF st]]]
    by (simp add: dag_ok_def)
qed

text \<open>What \<open>complete\<close> did to the steps.\<close>

definition completed_as :: "string \<Rightarrow> step \<Rightarrow> step_state \<Rightarrow> token \<Rightarrow> dag \<Rightarrow> dag \<Rightarrow> bool" where
  "completed_as d x st t s s' =
     (if st_is_successful st
      then promotes {k. \<exists>y. hm_get (fold decrement (rdeps x) (by_drv (finish_step d st t s))) k = Some y \<and>
             promotable y}
           ((finish_step d st t s)\<lparr>by_drv := fold decrement (rdeps x) (by_drv (finish_step d st t s))\<rparr>) s'
      else cascaded (reaches (by_drv (finish_step d st t s)) (set (rdeps x))) (finish_step d st t s) s')"

lemma from_status_terminal [simp]: "st_is_terminal (st_from_status status)"
  by (cases status) auto

lemma finish_step_get:
  "hm_get (by_drv s) d = Some x \<Longrightarrow> hm_get (by_drv (finish_step d st t s)) =
     (hm_get (by_drv s))(d \<mapsto> x\<lparr>s_state := st, in_flight_token := None\<rparr>)"
  by (auto simp: finish_step_def fun_eq_iff hm_simps)

lemma reaches_nonterminal:
  "reaches m Q k \<Longrightarrow> hm_get m k = Some x \<Longrightarrow> \<not> st_is_terminal (s_state x)"
  using reaches_step by fastforce

lemma dag_complete_known:
  assumes ok: "dag_ok s" "promoted s" and d: "hm_get (token_to_drv s) t = Some d"
  obtains x s' eff where "hm_get (by_drv s) d = Some x" "in_flight_token x = Some t"
    "dag_complete t status s = Some (s', eff)" "dag_ok s'" "promoted s'" "evolves s s'"
    "completed_as d x (st_from_status status) t s s'"
    "cascaded_skips eff = (if st_is_successful (st_from_status status) then []
       else snd (cascade_skip d (finish_step d (st_from_status status) t s)))"
    "alias_completions eff = alias_completions_for (head_jobs x) s"
    "job_meta s' = job_meta s" "g_next_token s \<le> g_next_token s'"
    "concurrency_cap (g_wfq s') = concurrency_cap (g_wfq s)"
    "in_flight (g_wfq s') = hm_remove t (in_flight (g_wfq s))"
proof -
  let ?st = "st_from_status status"
  let ?s1 = "finish_step d ?st t s"
  have tok: "tok_ok s" and gr: "graph_ok (by_drv s)" using ok by (simp_all add: dag_ok_def)
  obtain x where x: "hm_get (by_drv s) d = Some x" "in_flight_token x = Some t"
    using tok_okD(5) [OF tok d] by blast
  have nt: "\<not> st_is_terminal (s_state x)"
    using tok_okD(4) [OF tok x(1)] x(2) by (auto simp: tok_step_def)
  have ev1: "evolves s ?s1"
    by (rule evolves_modify [where d = d and f = "\<lambda>x. x\<lparr>s_state := ?st, in_flight_token := None\<rparr>"])
       (use x nt in \<open>auto simp: finish_step_def step_le_def rank_terminal [symmetric] rank_le_3\<close>,
        metis from_status_terminal rank_le_3 rank_terminal)
  have s1: "job_meta ?s1 = job_meta s" "g_next_token ?s1 = g_next_token s"
      "concurrency_cap (g_wfq ?s1) = concurrency_cap (g_wfq s)"
      "in_flight (g_wfq ?s1) = hm_remove t (in_flight (g_wfq s))"
    by (simp_all add: finish_step_def wfq_complete_def)
  show thesis
  proof (cases "st_is_successful ?st")
    case True
    let ?m = "fold decrement (rdeps x) (by_drv ?s1)"
    have ok2: "dag_ok (?s1\<lparr>by_drv := ?m\<rparr>)" using finish_step_success [OF ok(1) x True] .
    obtain s2 where s2: "promote_ready_steps (?s1\<lparr>by_drv := ?m\<rparr>) = Some s2" "promoted s2"
      "promotes {k. \<exists>y. hm_get ?m k = Some y \<and> promotable y} (?s1\<lparr>by_drv := ?m\<rparr>) s2"
      using promote_ready_steps_ok [OF ok2] by auto
    have "evolves ?s1 (?s1\<lparr>by_drv := ?m\<rparr>)"
      unfolding evolves_def by (auto simp: fold_decrement_get step_le_def)
    moreover have "evolves (?s1\<lparr>by_drv := ?m\<rparr>) s2"
      by (rule evolves_promotes [OF s2(3)]) auto
    ultimately have ev: "evolves s s2" using ev1 evolves_trans by blast
    have jm: "alias_completions_for (head_jobs x) s2 = alias_completions_for (head_jobs x) s"
      using s2(3) s1 by (simp add: alias_completions_for_def promotes_def)
    have "completed_as d x ?st t s s2" using True s2(3) by (simp add: completed_as_def)
    moreover have "dag_complete t status s = Some (s2, \<lparr>eff_repo_id = snd (wfq_complete t (g_wfq s)),
        cascaded_skips = [], alias_completions = alias_completions_for (head_jobs x) s2\<rparr>)"
      using d x(1) True s2(1) by (simp add: dag_complete_def Let_def)
    ultimately show thesis
      using that [OF x] s2 ev s1 True jm by (auto simp: promotes_def)
  next
    case False
    have ok1: "dag_ok ?s1" using finish_step_failure [OF ok(1) x False] by simp
    have pr1: "promoted ?s1"
      using ok(2) unfolding promoted_def finish_step_get [OF x(1)]
      by (auto simp: promotable_def) (metis from_status_terminal st_is_terminal.simps(6))
    let ?x = "x\<lparr>s_state := ?st, in_flight_token := None\<rparr>"
    have gx: "hm_get (by_drv ?s1) d = Some ?x" by (simp add: finish_step_get [OF x(1)])
    let ?s2 = "fst (cascade_skip d ?s1)"
    have c: "cascaded (reaches (by_drv ?s1) (set (rdeps x))) ?s1 ?s2"
      using cascade_skip_ok(1) [OF ok1 gx] False by simp
    have ev: "evolves s ?s2"
      using evolves_trans [OF ev1] evolves_cascaded [OF c] reaches_nonterminal by blast
    have jm: "alias_completions_for (head_jobs x) ?s2 = alias_completions_for (head_jobs x) s"
      using c s1 by (simp add: alias_completions_for_def cascaded_def)
    have "completed_as d x ?st t s ?s2" using False c by (simp add: completed_as_def)
    moreover have "dag_complete t status s = Some (?s2, \<lparr>eff_repo_id = snd (wfq_complete t (g_wfq s)),
        cascaded_skips = snd (cascade_skip d ?s1), alias_completions = alias_completions_for (head_jobs x) ?s2\<rparr>)"
      using d x(1) False by (simp add: dag_complete_def Let_def case_prod_unfold)
    ultimately show thesis
      using that [OF x] ev s1 False jm c promoted_cascaded [OF c pr1] by (auto simp: cascaded_def)
  qed
qed

lemma dag_complete_unknown:
  "hm_get (token_to_drv s) t = None \<Longrightarrow> dag_complete t status s = Some (s, default_effects)"
  by (simp add: dag_complete_def)

section \<open>Cancel\<close>

lemma cancel_step_ok:
  assumes ok: "dag_ok s" "promoted s" and x: "hm_get (by_drv s) d = Some x"
    "s_state x = StPending \<or> s_state x = StReady"
  shows "dag_ok (cancel_step d x s) \<and> promoted (cancel_step d x s) \<and> evolves s (cancel_step d x s)"
proof -
  let ?f = "\<lambda>x. x\<lparr>s_state := StCancelled, in_flight_token := None, head_jobs := []\<rparr>"
  have tok: "tok_ok s" and gr: "graph_ok (by_drv s)" using ok by (simp_all add: dag_ok_def)
  note D = tok_okD [OF tok]
  have "graph_ok (hm_modify d ?f (by_drv s))"
    using x by (intro graph_ok_modify [OF gr]) (auto simp: st_is_successful_def runnable_def)
  moreover have "tok_ok (cancel_step d x s)"
  proof (cases "in_flight_token x")
    case None
    then show ?thesis
      using tok_ok_modify [OF tok, of d ?f] x by (simp add: cancel_step_def take_token_def)
  next
    case (Some t)
    then have "t \<in># pending_tags (g_wfq s)"
      using D(4) [OF x(1)] x(2) by (auto simp: tok_step_def)
    then have "hm_get (in_flight (g_wfq s)) t = None" using D(6) by blast
    then have "tok_ok (s\<lparr>by_drv := hm_modify d ?f (by_drv s),
        token_to_drv := hm_remove t (token_to_drv s), g_wfq := g_wfq s\<rparr>)"
      by (intro tok_ok_drop [OF tok x(1) Some]) (use D in auto)
    then show ?thesis by (simp add: cancel_step_def take_token_def Some)
  qed
  moreover have "promoted (cancel_step d x s)"
    using ok(2) by (auto simp: promoted_def cancel_step_def promotable_def hm_simps split: if_splits)
  moreover have "evolves s (cancel_step d x s)"
    by (rule evolves_modify [where d = d and f = ?f]) (use x in \<open>auto simp: cancel_step_def step_le_def\<close>)
  ultimately show ?thesis by (simp add: dag_ok_def cancel_step_def)
qed

lemma cancel_step_get:
  "hm_get (by_drv s) d = Some x \<Longrightarrow> hm_get (by_drv (cancel_step d x s)) =
     (hm_get (by_drv s))(d \<mapsto> x\<lparr>s_state := StCancelled, in_flight_token := None, head_jobs := []\<rparr>)"
  by (auto simp: cancel_step_def fun_eq_iff hm_simps)

lemma dag_ok_job_meta: "dag_ok s \<Longrightarrow> dag_ok (s\<lparr>job_meta := hm_remove j (job_meta s)\<rparr>)"
  by (simp add: dag_ok_def tok_ok_def)

text \<open>What stays as it is in a cancel: everything but steps, their tokens and the job table.\<close>

definition cancelled_as :: "dag \<Rightarrow> dag \<Rightarrow> bool" where
  "cancelled_as s s' = (dag_ok s' \<and> promoted s' \<and> evolves s s' \<and> g_wfq s' = g_wfq s \<and>
     g_next_token s' = g_next_token s \<and>
     (\<forall>k x. hm_get (by_drv s) k = Some x \<and> s_state x = StRunning \<longrightarrow> hm_get (by_drv s') k = Some x))"

lemma cancelled_as_trans: "cancelled_as s s' \<Longrightarrow> cancelled_as s' s'' \<Longrightarrow> cancelled_as s s''"
  using evolves_trans unfolding cancelled_as_def by fastforce

lemma cancelled_as_refl: "dag_ok s \<Longrightarrow> promoted s \<Longrightarrow> cancelled_as s s"
  by (simp add: cancelled_as_def)

lemma cancelled_as_job_meta:
  "cancelled_as s s' \<Longrightarrow> cancelled_as s (s'\<lparr>job_meta := hm_remove j (job_meta s')\<rparr>)"
  by (auto simp: cancelled_as_def dag_ok_job_meta promoted_def evolves_def)

lemma reaches_blocked:
  "reaches m Q k \<Longrightarrow> \<forall>d\<in>Q. blocked m d \<Longrightarrow> blocked m k"
proof (induction rule: reaches.induct)
  case (from_rdep k y d x)
  then have "\<not> st_is_successful (s_state y)"
    using reaches_nonterminal successful_terminal by blast
  with from_rdep show ?case unfolding blocked_def by blast
qed simp

lemma cancelled_as_cascade:
  assumes ok: "dag_ok s" "promoted s" and x: "hm_get (by_drv s) d = Some x" "\<not> st_is_successful (s_state x)"
  shows "cancelled_as s (fst (cascade_skip d s))"
proof -
  have c: "cascaded (reaches (by_drv s) (set (rdeps x))) s (fst (cascade_skip d s))"
    using cascade_skip_ok(1) [OF ok(1) x] .
  have gr: "graph_ok (by_drv s)" using ok(1) by (simp add: dag_ok_def)
  have "\<forall>k\<in>set (rdeps x). blocked (by_drv s) k" using x unfolding blocked_def by blast
  then have "\<not> reaches (by_drv s) (set (rdeps x)) k"
    if "hm_get (by_drv s) k = Some y" "s_state y = StRunning" for k y
    using that blocked_not_runnable [OF gr that(1)] reaches_blocked by (auto simp: runnable_def)
  with c have run: "hm_get (by_drv (fst (cascade_skip d s))) k = Some y"
    if "hm_get (by_drv s) k = Some y" "s_state y = StRunning" for k y
    using that by (simp add: cascaded_def)
  have "evolves s (fst (cascade_skip d s))"
    by (rule evolves_cascaded [OF c]) (rule reaches_nonterminal)
  with c run promoted_cascaded [OF c ok(2)] show ?thesis
    by (simp add: cancelled_as_def cascaded_def)
qed

lemma cancel_job_ok:
  assumes ok: "dag_ok s" "promoted s"
  shows "cancelled_as s (fst (cancel_job e j s))"
proof (cases "List.find (\<lambda>(d, x). j \<in> set (head_jobs x)) (by_drv s)")
  case None
  note same = cancelled_as_refl [OF ok] cancelled_as_job_meta [OF cancelled_as_refl [OF ok], of j]
  show ?thesis
    by (cases "hm_get (job_meta s) j") (simp_all add: cancel_job_def None same split: prod.splits)
next
  case (Some p)
  obtain d x where p: "p = (d, x)" by (cases p)
  have "(d, x) \<in> set (by_drv s)" using find_Some_mem [OF Some] p by simp
  moreover have "hm_ok (by_drv s)" using ok(1) by (simp add: dag_ok_def graph_ok_def)
  ultimately have x: "hm_get (by_drv s) d = Some x" using hm_in_set by fast
  show ?thesis
  proof (cases "s_state x = StPending \<or> s_state x = StReady")
    case True
    let ?s1 = "cancel_step d x s"
    have s1: "dag_ok ?s1" "promoted ?s1" "evolves s ?s1" using cancel_step_ok [OF ok x True] by auto
    have "cancelled_as s ?s1"
      using s1 True x by (auto simp: cancelled_as_def cancel_step_get) (auto simp: cancel_step_def)
    moreover have "cancelled_as ?s1 (fst (cascade_skip d ?s1))"
      by (rule cancelled_as_cascade [OF s1(1,2)]) (use x in \<open>auto simp: cancel_step_get st_is_successful_def\<close>)
    ultimately have "cancelled_as s ((fst (cascade_skip d ?s1))\<lparr>job_meta :=
        hm_remove j (job_meta (fst (cascade_skip d ?s1)))\<rparr>)"
      using cancelled_as_trans cancelled_as_job_meta by blast
    then show ?thesis using Some True by (simp add: cancel_job_def p Let_def case_prod_unfold)
  next
    case False
    then show ?thesis
      using Some cancelled_as_job_meta [OF cancelled_as_refl [OF ok]] by (simp add: cancel_job_def p)
  qed
qed

lemma cancel_jobs_ok:
  "dag_ok s \<Longrightarrow> promoted s \<Longrightarrow> cancelled_as s (fst (cancel_jobs e js s))"
proof (induction js arbitrary: s)
  case Nil
  then show ?case by (simp add: cancelled_as_refl)
next
  case (Cons j js)
  have c: "cancelled_as s (fst (cancel_job e j s))" using cancel_job_ok [OF Cons.prems] .
  then have "dag_ok (fst (cancel_job e j s))" "promoted (fst (cancel_job e j s))"
    by (simp_all add: cancelled_as_def)
  from cancelled_as_trans [OF c Cons.IH [OF this]] show ?case
    by (simp add: Let_def case_prod_unfold)
qed

lemma dag_cancel_eval_ok: "dag_ok s \<Longrightarrow> promoted s \<Longrightarrow> cancelled_as s (fst (dag_cancel_eval e s))"
  by (simp add: dag_cancel_eval_def cancel_jobs_ok)

section \<open>Enqueue\<close>

text \<open>
  \<open>gated s d i\<close>: step \<open>d\<close> cannot run before input \<open>i\<close> has succeeded, because it did already or
  because \<open>d\<close> is registered as its dependent.
\<close>

definition gated :: "graph \<Rightarrow> string \<Rightarrow> string \<Rightarrow> bool" where
  "gated m d i = (\<exists>y. hm_get m i = Some y \<and> (st_is_successful (s_state y) \<or> d \<in> set (rdeps y)))"

definition edges_grow :: "graph \<Rightarrow> graph \<Rightarrow> bool" where
  "edges_grow m m' = (\<forall>k x. hm_get m k = Some x \<longrightarrow> (\<exists>y. hm_get m' k = Some y \<and>
     set (rdeps x) \<subseteq> set (rdeps y) \<and> s_state y = s_state x))"

lemma edges_grow_refl [simp]: "edges_grow m m"
  by (simp add: edges_grow_def)

lemma edges_grow_trans: "edges_grow m m' \<Longrightarrow> edges_grow m' m'' \<Longrightarrow> edges_grow m m''"
  unfolding edges_grow_def by fastforce

lemma gated_grow: "gated m d i \<Longrightarrow> edges_grow m m' \<Longrightarrow> gated m' d i"
  unfolding gated_def edges_grow_def by fastforce

lemma add_edge_grow: "add_edge d i m = Some m' \<Longrightarrow> edges_grow m m'"
  by (auto simp: add_edge_def edges_grow_def hm_simps split: option.splits if_splits)

lemma add_edge_gated:
  assumes "add_edge d i m = Some m'" "hm_get m i = Some x"
  shows "gated m' d i"
  using assms by (auto simp: add_edge_def gated_def hm_simps split: if_splits)

lemma add_edges_grow: "add_edges d is m = Some m' \<Longrightarrow> edges_grow m m'"
  by (induction "is" arbitrary: m)
     (auto split: option.splits intro: edges_grow_trans add_edge_grow)

lemma add_edges_gated:
  "add_edges d is m = Some m' \<Longrightarrow> i \<in> set is \<Longrightarrow> hm_get m i = Some x \<Longrightarrow> gated m' d i"
proof (induction "is" arbitrary: m x)
  case (Cons a "is")
  from Cons.prems(1) obtain m1 where m1: "add_edge d a m = Some m1" "add_edges d is m1 = Some m'"
    by (auto split: option.splits)
  show ?case
  proof (cases "i = a")
    case True
    with add_edge_gated [OF m1(1)] Cons.prems(3) add_edges_grow [OF m1(2)] gated_grow show ?thesis by blast
  next
    case False
    moreover obtain x1 where "hm_get m1 i = Some x1"
      using add_edge_grow [OF m1(1)] Cons.prems(3) unfolding edges_grow_def by blast
    ultimately show ?thesis using Cons.IH [OF m1(2)] Cons.prems(2) by auto
  qed
qed simp

lemma build_edges_grow: "build_edges_for ds ins m = Some m' \<Longrightarrow> edges_grow m m'"
  by (induction ds arbitrary: m)
     (auto split: option.splits intro: edges_grow_trans add_edges_grow)

lemma build_edges_gated:
  "build_edges_for ds ins m = Some m' \<Longrightarrow> d \<in> set ds \<Longrightarrow> hm_get ins d = Some inputs \<Longrightarrow>
   i \<in> set inputs \<Longrightarrow> hm_get m i = Some x \<Longrightarrow> gated m' d i"
proof (induction ds arbitrary: m x)
  case (Cons a ds)
  show ?case
  proof (cases "a = d")
    case True
    with Cons.prems obtain m1 where "add_edges d inputs m = Some m1" "build_edges_for ds ins m1 = Some m'"
      by (auto split: option.splits)
    with Cons.prems show ?thesis
      using add_edges_gated build_edges_grow gated_grow by blast
  next
    case False
    from Cons.prems(1) obtain m1 where m1: "build_edges_for ds ins m1 = Some m'" "edges_grow m m1"
      by (auto split: option.splits intro: add_edges_grow)
    then obtain x1 where "hm_get m1 i = Some x1"
      using Cons.prems(5) unfolding edges_grow_def by blast
    with Cons.IH [OF m1(1)] False Cons.prems show ?thesis by auto
  qed
qed simp

text \<open>Only new steps gain inputs: the counters of the others stay.\<close>

definition counters_kept :: "string set \<Rightarrow> graph \<Rightarrow> graph \<Rightarrow> bool" where
  "counters_kept D m m' = (\<forall>k x. hm_get m k = Some x \<and> k \<notin> D \<longrightarrow>
     (\<exists>y. hm_get m' k = Some y \<and> deps_unfinished y = deps_unfinished x))"

lemma add_edge_counters: "add_edge d i m = Some m' \<Longrightarrow> counters_kept {d} m m'"
  by (auto simp: add_edge_def counters_kept_def hm_simps split: option.splits if_splits)

lemma counters_kept_trans:
  "counters_kept D m m' \<Longrightarrow> counters_kept E m' m'' \<Longrightarrow> counters_kept (D \<union> E) m m''"
  unfolding counters_kept_def by fastforce

lemma add_edges_counters: "add_edges d is m = Some m' \<Longrightarrow> counters_kept {d} m m'"
proof (induction "is" arbitrary: m)
  case (Cons a "is")
  then obtain m1 where "add_edge d a m = Some m1" "add_edges d is m1 = Some m'"
    by (auto split: option.splits)
  with Cons.IH add_edge_counters counters_kept_trans [of "{d}" m m1 "{d}" m'] show ?case by simp
qed (simp add: counters_kept_def)

lemma build_edges_counters: "build_edges_for ds ins m = Some m' \<Longrightarrow> counters_kept (set ds) m m'"
proof (induction ds arbitrary: m)
  case (Cons a ds)
  show ?case
  proof (cases "hm_get ins a")
    case None
    with Cons show ?thesis by (auto simp: counters_kept_def)
  next
    case (Some inputs)
    with Cons.prems obtain m1 where "add_edges a inputs m = Some m1" "build_edges_for ds ins m1 = Some m'"
      by (auto split: option.splits)
    with Cons.IH add_edges_counters counters_kept_trans [of "{a}" m m1 "set ds" m'] show ?thesis by simp
  qed
qed (simp add: counters_kept_def)

text \<open>The graph after inserting the steps of an item and linking the job to its head.\<close>

definition item_paths :: "schedule_item \<Rightarrow> string set" where
  "item_paths it = insert (drv_path (head_drv it)) (drv_path ` set (item_closure it))"

definition link_job :: "schedule_item \<Rightarrow> graph \<Rightarrow> graph" where
  "link_job it m = hm_modify (drv_path (head_drv it)) (\<lambda>x. x\<lparr>head_jobs := head_jobs x @ [item_job_id it]\<rparr>) m"

lemma insert_item:
  assumes gr: "graph_ok m" and u: "upsert_all (item_closure it) r e m = (m2, ds)"
    and h: "upsert_step (head_drv it) r e m2 = (m3, hnew)"
    and new: "newly = (if hnew then ds @ [drv_path (head_drv it)] else ds)"
  shows "graph_ok m3" "\<And>k x. hm_get m k = Some x \<Longrightarrow> hm_get m3 k = Some x"
    "\<And>k x. hm_get m3 k = Some x \<Longrightarrow> hm_get m k = Some x \<or> k \<in> set newly \<and> fresh_step x"
    "\<And>k. k \<in> set newly \<longleftrightarrow> k \<in> item_paths it \<and> hm_get m k = None"
    "\<And>k. k \<in> item_paths it \<Longrightarrow> hm_get m3 k \<noteq> None"
proof -
  let ?hd = "drv_path (head_drv it)"
  have U: "graph_ok m2" "\<And>k x. hm_get m k = Some x \<Longrightarrow> hm_get m2 k = Some x"
      "\<And>k x. hm_get m2 k = Some x \<Longrightarrow> hm_get m k = Some x \<or> k \<in> set ds \<and> fresh_step x"
      "\<And>k. k \<in> set ds \<Longrightarrow> hm_get m k = None \<and> hm_get m2 k \<noteq> None"
      "\<And>drv. drv \<in> set (item_closure it) \<Longrightarrow> hm_get m2 (drv_path drv) \<noteq> None"
      "set ds \<subseteq> drv_path ` set (item_closure it)"
    using upsert_all_ok [OF gr u] by blast+
  have get: "hm_get m3 k = (if k = ?hd \<and> hm_get m2 k = None then Some (new_step (head_drv it) r e)
      else hm_get m2 k)" for k
    using upsert_step_get [of "head_drv it" r e m2 k] h by simp
  have hnew: "hnew \<longleftrightarrow> hm_get m2 ?hd = None"
    using h by (auto simp: upsert_step_def split: if_splits)
  show "graph_ok m3" using upsert_step_ok [OF U(1), of "head_drv it" r e] h by simp
  show "hm_get m k = Some x \<Longrightarrow> hm_get m3 k = Some x" for k x
    using U(2) by (simp add: get)
  show "hm_get m k = Some x \<or> k \<in> set newly \<and> fresh_step x" if "hm_get m3 k = Some x" for k x
    using that U(3) hnew by (auto simp: get new split: if_splits)
  have none: "hm_get m2 k = None \<Longrightarrow> hm_get m k = None" for k
    using U(2) [of k] by (cases "hm_get m k") auto
  have came: "k \<in> set ds" if "hm_get m k = None" "hm_get m2 k \<noteq> None" for k
    using that U(3) [of k] by (cases "hm_get m2 k") auto
  show "k \<in> set newly \<longleftrightarrow> k \<in> item_paths it \<and> hm_get m k = None" for k
  proof
    assume "k \<in> set newly"
    then consider "k \<in> set ds" | "k = ?hd" "hm_get m2 ?hd = None"
      by (auto simp: new hnew split: if_splits)
    then show "k \<in> item_paths it \<and> hm_get m k = None"
      by cases (use U(4,6) none in \<open>auto simp: item_paths_def\<close>)
  next
    assume "k \<in> item_paths it \<and> hm_get m k = None"
    then consider "k \<in> drv_path ` set (item_closure it)" "hm_get m k = None" | "k = ?hd" "hm_get m k = None"
      by (auto simp: item_paths_def)
    then show "k \<in> set newly"
    proof cases
      case 1
      with U(5) have "hm_get m2 k \<noteq> None" by blast
      with came 1 show ?thesis by (simp add: new)
    next
      case 2
      with came [of k] show ?thesis by (auto simp: new hnew)
    qed
  qed
  show "hm_get m3 k \<noteq> None" if "k \<in> item_paths it" for k
  proof (cases "k = ?hd")
    case False
    with that U(5) show ?thesis by (auto simp: get item_paths_def)
  qed (auto simp: get)
qed

lemma graph_ok_runnable:
  "graph_ok m \<Longrightarrow> hm_get m d = Some x \<Longrightarrow> runnable (s_state x) \<Longrightarrow> deps_unfinished x = 0"
  unfolding graph_ok_def step_ok_def by blast

lemma link_job_ok: "graph_ok m \<Longrightarrow> graph_ok (link_job it m)"
  unfolding link_job_def by (rule graph_ok_modify) (auto simp: graph_ok_runnable)

lemma link_job_get:
  "hm_get (link_job it m) k = map_option (\<lambda>x. if k = drv_path (head_drv it)
     then x\<lparr>head_jobs := head_jobs x @ [item_job_id it]\<rparr> else x) (hm_get m k)"
  by (auto simp: link_job_def hm_simps option.map_ident)

text \<open>The effect of \<open>enqueue\<close> on old steps, on new steps, and the edges it registers.\<close>

definition enqueued_as :: "schedule_item \<Rightarrow> dag \<Rightarrow> dag \<Rightarrow> bool" where
  "enqueued_as it s s' =
     (in_flight (g_wfq s') = in_flight (g_wfq s) \<and>
      concurrency_cap (g_wfq s') = concurrency_cap (g_wfq s) \<and>
      g_next_token s \<le> g_next_token s' \<and>
      job_meta s' = hm_insert (item_job_id it) (item_repo_id it, item_eval_id it) (job_meta s) \<and>
      dom (hm_get (by_drv s')) = dom (hm_get (by_drv s)) \<union> item_paths it \<and>
      (\<forall>k x y. hm_get (by_drv s) k = Some x \<longrightarrow> hm_get (by_drv s') k = Some y \<longrightarrow>
         s_state y = s_state x \<and> in_flight_token y = in_flight_token x \<and>
         head_jobs y = head_jobs x @ (if k = drv_path (head_drv it) then [item_job_id it] else [])) \<and>
      (\<forall>k y. hm_get (by_drv s) k = None \<longrightarrow> hm_get (by_drv s') k = Some y \<longrightarrow>
         (s_state y = StPending \<or> s_state y = StReady) \<and>
         head_jobs y = (if k = drv_path (head_drv it) then [item_job_id it] else [])) \<and>
      (\<forall>d i inputs. hm_get (by_drv s) d = None \<longrightarrow> d \<in> item_paths it \<longrightarrow>
         hm_get (inputs_of it) d = Some inputs \<longrightarrow> i \<in> set inputs \<longrightarrow>
         i \<in> dom (hm_get (by_drv s')) \<longrightarrow> gated (by_drv s') d i))"

lemma link_job_tok_ok:
  assumes tok: "tok_ok s"
  shows "tok_ok (s\<lparr>by_drv := link_job it (by_drv s)\<rparr>)" (is "tok_ok (s\<lparr>by_drv := ?m\<rparr>)")
proof -
  have "tok_step s d x" if "hm_get ?m d = Some x" for d x
  proof -
    from that obtain y where y: "hm_get (by_drv s) d = Some y" "in_flight_token x = in_flight_token y"
        "s_state x = s_state y" by (auto simp: link_job_get)
    with tok_okD(4) [OF tok y(1)] show ?thesis by (simp add: tok_step_def split: option.splits)
  qed
  moreover have "\<exists>x. hm_get ?m d = Some x \<and> in_flight_token x = Some t"
    if "hm_get (token_to_drv s) t = Some d" for t d
  proof -
    from tok_okD(5) [OF tok that] obtain x where "hm_get (by_drv s) d = Some x" "in_flight_token x = Some t"
      by blast
    then show ?thesis by (cases "d = drv_path (head_drv it)") (simp_all add: link_job_get)
  qed
  ultimately show ?thesis using tok by (simp add: tok_ok_def)
qed

text \<open>The graph of an item's steps, jobs and edges, before promotion.\<close>

definition wired :: "schedule_item \<Rightarrow> graph \<Rightarrow> graph \<Rightarrow> bool" where
  "wired it m m4 =
     (dom (hm_get m4) = dom (hm_get m) \<union> item_paths it \<and>
      (\<forall>k x y. hm_get m k = Some x \<longrightarrow> hm_get m4 k = Some y \<longrightarrow> s_state y = s_state x \<and>
         in_flight_token y = in_flight_token x \<and> deps_unfinished y = deps_unfinished x \<and>
         set (rdeps x) \<subseteq> set (rdeps y) \<and> s_drv_path y = s_drv_path x \<and>
         head_jobs y = head_jobs x @ (if k = drv_path (head_drv it) then [item_job_id it] else [])) \<and>
      (\<forall>k y. hm_get m k = None \<longrightarrow> hm_get m4 k = Some y \<longrightarrow> s_state y = StPending \<and>
         head_jobs y = (if k = drv_path (head_drv it) then [item_job_id it] else [])) \<and>
      (\<forall>d i inputs. hm_get m d = None \<longrightarrow> d \<in> item_paths it \<longrightarrow>
         hm_get (inputs_of it) d = Some inputs \<longrightarrow> i \<in> set inputs \<longrightarrow>
         i \<in> dom (hm_get m4) \<longrightarrow> gated m4 d i))"

lemma item_wired:
  assumes gr: "graph_ok m" and u: "upsert_all (item_closure it) r e m = (m2, ds)"
    and h: "upsert_step (head_drv it) r e m2 = (m3, hnew)"
    and new: "newly = (if hnew then ds @ [drv_path (head_drv it)] else ds)"
    and b: "build_edges_for newly (inputs_of it) (link_job it m3) = Some m4"
    and c: "same_core (link_job it m3) m4"
  shows "wired it m m4"
proof -
  note I = insert_item [OF gr u h new]
  note grow = build_edges_grow [OF b] and kept = build_edges_counters [OF b]
  let ?m = "link_job it m3"
  have dom3: "dom (hm_get m3) = dom (hm_get m) \<union> item_paths it"
  proof (intro set_eqI iffI)
    fix k assume "k \<in> dom (hm_get m3)"
    then obtain x where "hm_get m3 k = Some x" by auto
    with I(3) I(4) show "k \<in> dom (hm_get m) \<union> item_paths it" by blast
  next
    fix k assume "k \<in> dom (hm_get m) \<union> item_paths it"
    with I(2) I(5) show "k \<in> dom (hm_get m3)" by auto
  qed
  have "dom (hm_get ?m) = dom (hm_get m3)" by (auto simp: link_job_def)
  with dom3 same_core_dom [OF c] have dom: "dom (hm_get m4) = dom (hm_get m) \<union> item_paths it" by simp
  have old: "s_state y = s_state x \<and> in_flight_token y = in_flight_token x \<and>
      deps_unfinished y = deps_unfinished x \<and> set (rdeps x) \<subseteq> set (rdeps y) \<and> s_drv_path y = s_drv_path x \<and>
      head_jobs y = head_jobs x @ (if k = drv_path (head_drv it) then [item_job_id it] else [])"
    if x: "hm_get m k = Some x" and y: "hm_get m4 k = Some y" for k x y
  proof -
    let ?x = "if k = drv_path (head_drv it) then x\<lparr>head_jobs := head_jobs x @ [item_job_id it]\<rparr> else x"
    have mx: "hm_get ?m k = Some ?x" using I(2) [OF x] by (simp add: link_job_get)
    have "k \<notin> set newly" using I(4) [of k] x by simp
    then have "deps_unfinished y = deps_unfinished x" "set (rdeps x) \<subseteq> set (rdeps y)"
      using kept grow mx y unfolding counters_kept_def edges_grow_def by (fastforce split: if_splits)+
    moreover have "core y = core ?x" using c mx y unfolding same_core_def by (metis option.map(2) option.inject)
    ultimately show ?thesis using core_fields [of y ?x] by (auto split: if_splits)
  qed
  have newp: "s_state y = StPending \<and>
      head_jobs y = (if k = drv_path (head_drv it) then [item_job_id it] else [])"
    if x: "hm_get m k = None" and y: "hm_get m4 k = Some y" for k y
  proof -
    obtain z where z: "hm_get ?m k = Some z" "core y = core z" using same_core_get' [OF c y] .
    then obtain z0 where z0: "hm_get m3 k = Some z0" "s_state z = s_state z0"
        "head_jobs z = head_jobs z0 @ (if k = drv_path (head_drv it) then [item_job_id it] else [])"
      by (auto simp: link_job_get)
    then have "fresh_step z0" using I(3) [OF z0(1)] x by auto
    with z0 core_fields [OF z(2)] show ?thesis by (auto simp: fresh_step_def)
  qed
  have "gated m4 d i" if "hm_get m d = None" "d \<in> item_paths it" "hm_get (inputs_of it) d = Some inputs"
      "i \<in> set inputs" "i \<in> dom (hm_get m4)" for d i inputs
  proof -
    have "i \<in> dom (hm_get ?m)" using that(5) same_core_dom [OF c] by simp
    then obtain x where "hm_get ?m i = Some x" by blast
    with build_edges_gated [OF b _ that(3,4)] I(4) that(1,2) show ?thesis by blast
  qed
  with dom old newp show ?thesis unfolding wired_def by blast
qed

lemma item_edges:
  assumes ok: "dag_ok s" and u: "upsert_all (item_closure it) r e (by_drv s) = (m2, ds)"
    and h: "upsert_step (head_drv it) r e m2 = (m3, hnew)"
    and new: "newly = (if hnew then ds @ [drv_path (head_drv it)] else ds)"
  obtains m4 where "build_edges_for newly (inputs_of it) (link_job it m3) = Some m4" "graph_ok m4"
    "same_core (link_job it m3) m4" "tok_ok (s\<lparr>by_drv := m4\<rparr>)"
proof -
  have tok: "tok_ok s" and gr: "graph_ok (by_drv s)" using ok by (simp_all add: dag_ok_def)
  note I = insert_item [OF gr u h new]
  let ?m = "link_job it m3"
  have "\<exists>x. hm_get ?m d = Some x \<and> \<not> runnable (s_state x)" if "d \<in> set newly" for d
  proof -
    from that I(4) have d: "d \<in> item_paths it" "hm_get (by_drv s) d = None" by auto
    with I(5) obtain x where x: "hm_get m3 d = Some x" by auto
    with I(3) [OF x] d(2) have "fresh_step x" by auto
    with x show ?thesis
      by (auto simp: link_job_get fresh_step_def runnable_def st_is_successful_def)
  qed
  then obtain m4 where m4: "build_edges_for newly (inputs_of it) ?m = Some m4" "graph_ok m4" "same_core ?m m4"
    using build_edges_ok [OF link_job_ok [OF I(1)]] by blast
  have "tok_ok (s\<lparr>by_drv := m3\<rparr>)"
    using tok_ok_extend [OF tok, of m3] I(2,3) by blast
  from link_job_tok_ok [OF this, of it] have "tok_ok (s\<lparr>by_drv := ?m\<rparr>)" by simp
  from tok_ok_core [OF this, of m4] m4(3) have "tok_ok (s\<lparr>by_drv := m4\<rparr>)" by simp
  with m4 that show thesis by blast
qed

lemma wired_gated:
  "wired it m m4 \<Longrightarrow> hm_get m d = None \<Longrightarrow> d \<in> item_paths it \<Longrightarrow>
   hm_get (inputs_of it) d = Some inputs \<Longrightarrow> i \<in> set inputs \<Longrightarrow> i \<in> dom (hm_get m4) \<Longrightarrow> gated m4 d i"
  by (simp add: wired_def)

lemma evolves_wired:
  assumes "wired it (by_drv s) m4"
  shows "evolves s (s\<lparr>job_meta := jm, by_drv := m4\<rparr>)"
  unfolding evolves_def
proof (intro allI impI)
  fix k x assume x: "hm_get (by_drv s) k = Some x"
  then have "k \<in> dom (hm_get m4)" using assms unfolding wired_def by blast
  then obtain y where y: "hm_get m4 k = Some y" by blast
  have "s_state y = s_state x" "set (rdeps x) \<subseteq> set (rdeps y)" "s_drv_path y = s_drv_path x"
    using assms x y unfolding wired_def by blast+
  with y show "\<exists>y. hm_get (by_drv (s\<lparr>job_meta := jm, by_drv := m4\<rparr>)) k = Some y \<and> step_le x y"
    by (simp add: step_le_def)
qed

lemma enqueued_as_promotes:
  assumes w: "wired it (by_drv s) m4" and pr: "promoted s"
    and p: "promotes {k. \<exists>y. hm_get m4 k = Some y \<and> promotable y}
      (s\<lparr>job_meta := hm_insert (item_job_id it) (item_repo_id it, item_eval_id it) (job_meta s),
         by_drv := m4\<rparr>) s'"
  shows "enqueued_as it s s'"
proof -
  let ?P = "{k. \<exists>y. hm_get m4 k = Some y \<and> promotable y}"
  have dom: "dom (hm_get (by_drv s')) = dom (hm_get m4)" using p by (simp add: promotes_def)
  have step: "(if promotable z then \<exists>t. y = z\<lparr>s_state := StReady, in_flight_token := t\<rparr> else y = z)"
    if "hm_get m4 k = Some z" "hm_get (by_drv s') k = Some y" for k z y
    using p that unfolding promotes_def by (cases "promotable z") fastforce+
  have m4: "\<exists>z. hm_get m4 k = Some z" if "hm_get (by_drv s') k = Some y" for k y
    using that dom by blast
  have old: "s_state y = s_state x \<and> in_flight_token y = in_flight_token x \<and>
      head_jobs y = head_jobs x @ (if k = drv_path (head_drv it) then [item_job_id it] else [])"
    if x: "hm_get (by_drv s) k = Some x" and y: "hm_get (by_drv s') k = Some y" for k x y
  proof -
    obtain z where z: "hm_get m4 k = Some z" using m4 [OF y] by blast
    have "s_state z = s_state x" "in_flight_token z = in_flight_token x" "deps_unfinished z = deps_unfinished x"
        "head_jobs z = head_jobs x @ (if k = drv_path (head_drv it) then [item_job_id it] else [])"
      using w x z unfolding wired_def by blast+
    moreover from this pr x have "\<not> promotable z" by (auto simp: promoted_def promotable_def)
    ultimately show ?thesis using step [OF z y] by simp
  qed
  have new: "(s_state y = StPending \<or> s_state y = StReady) \<and>
      head_jobs y = (if k = drv_path (head_drv it) then [item_job_id it] else [])"
    if x: "hm_get (by_drv s) k = None" and y: "hm_get (by_drv s') k = Some y" for k y
  proof -
    obtain z where z: "hm_get m4 k = Some z" using m4 [OF y] by blast
    have "s_state z = StPending \<and> head_jobs z = (if k = drv_path (head_drv it) then [item_job_id it] else [])"
      using w x z unfolding wired_def by blast
    with step [OF z y] show ?thesis by (auto split: if_splits)
  qed
  have gate: "gated (by_drv s') d i" if "gated m4 d i" for d i
  proof -
    from that obtain z where z: "hm_get m4 i = Some z" "st_is_successful (s_state z) \<or> d \<in> set (rdeps z)"
      by (auto simp: gated_def)
    then obtain y where y: "hm_get (by_drv s') i = Some y" using dom by blast
    have "\<not> (promotable z \<and> st_is_successful (s_state z))"
      by (auto simp: promotable_def st_is_successful_def)
    with step [OF z(1) y] z(2) y show ?thesis unfolding gated_def by (auto split: if_splits)
  qed
  show ?thesis
    unfolding enqueued_as_def
  proof (intro conjI allI impI)
    fix d i inputs assume a: "hm_get (by_drv s) d = None" "d \<in> item_paths it"
      "hm_get (inputs_of it) d = Some inputs" "i \<in> set inputs" "i \<in> dom (hm_get (by_drv s'))"
    have "gated m4 d i" by (rule wired_gated [OF w a(1-4)]) (rule a(5) [unfolded dom])
    then show "gated (by_drv s') d i" by (rule gate)
  next
    show "dom (hm_get (by_drv s')) = dom (hm_get (by_drv s)) \<union> item_paths it"
      unfolding dom using w by (simp add: wired_def)
  qed (use old new p in \<open>simp_all add: promotes_def\<close>)
qed

lemma dag_enqueue_ok:
  assumes ok: "dag_ok s" "promoted s"
  obtains s' where "dag_enqueue it s = Some s'" "dag_ok s'" "promoted s'" "evolves s s'"
    "enqueued_as it s s'"
proof -
  let ?r = "item_repo_id it" and ?e = "item_eval_id it" and ?hd = "drv_path (head_drv it)"
  let ?jm = "hm_insert (item_job_id it) (?r, ?e) (job_meta s)"
  obtain m2 ds where u: "upsert_all (item_closure it) ?r ?e (by_drv s) = (m2, ds)" by fastforce
  obtain m3 hnew where h: "upsert_step (head_drv it) ?r ?e m2 = (m3, hnew)" by fastforce
  define newly where "newly = (if hnew then ds @ [?hd] else ds)"
  have gr: "graph_ok (by_drv s)" using ok by (simp add: dag_ok_def)
  obtain m4 where m4: "build_edges_for newly (inputs_of it) (link_job it m3) = Some m4" "graph_ok m4"
    "same_core (link_job it m3) m4" "tok_ok (s\<lparr>by_drv := m4\<rparr>)"
    using item_edges [OF ok(1) u h newly_def] .
  have w: "wired it (by_drv s) m4" using item_wired [OF gr u h newly_def m4(1,3)] .
  have ok4: "dag_ok (s\<lparr>job_meta := ?jm, by_drv := m4\<rparr>)"
    using m4(2,4) by (simp add: dag_ok_def tok_ok_def)
  obtain s' where s': "promote_ready_steps (s\<lparr>job_meta := ?jm, by_drv := m4\<rparr>) = Some s'" "promoted s'"
    "promotes {k. \<exists>y. hm_get m4 k = Some y \<and> promotable y} (s\<lparr>job_meta := ?jm, by_drv := m4\<rparr>) s'"
    using promote_ready_steps_ok [OF ok4] by auto
  have "hm_get m3 ?hd \<noteq> None"
    using insert_item(5) [OF gr u h newly_def] by (simp add: item_paths_def)
  then have "dag_enqueue it s = Some s'"
    using u h m4(1) s'(1) by (simp add: dag_enqueue_def Let_def newly_def link_job_def)
  moreover have "evolves (s\<lparr>job_meta := ?jm, by_drv := m4\<rparr>) s'"
    by (rule evolves_promotes [OF s'(3)]) auto
  then have "evolves s s'" using evolves_wired [OF w] evolves_trans by blast
  moreover have "dag_ok s'" using s'(3) by (simp add: promotes_def)
  ultimately show thesis
    using that s'(2) enqueued_as_promotes [OF w ok(2) s'(3)] by blast
qed

end
