(* ===== verification/Dag_Props.thy ===== *)
theory Dag_Props
  imports Dag_Methods
begin

text \<open>
  What \<open>DagStrategy\<close> guarantees over whole histories of calls: it never panics, a step runs only
  after its registered inputs succeeded, a derivation is dispatched at most once, terminal states
  are final, a failure skips exactly the dependents it dooms, and the dispatch loop drains it.
  Two theorems at the end state behaviour that the crate's comments describe differently.
\<close>

section \<open>Histories\<close>

definition dag_reorder :: "dag \<Rightarrow> dag \<Rightarrow> bool" where
  "dag_reorder s s' = (\<exists>m i b t j. mset m = mset (repos (g_wfq s)) \<and> mset i = mset (in_flight (g_wfq s)) \<and>
     mset b = mset (by_drv s) \<and> mset t = mset (token_to_drv s) \<and> mset j = mset (job_meta s) \<and>
     s' = s\<lparr>g_wfq := (g_wfq s)\<lparr>repos := m, in_flight := i\<rparr>, by_drv := b, token_to_drv := t, job_meta := j\<rparr>)"

lemma waits_reorder: "mset m' = mset m \<Longrightarrow> waits m' = waits m"
  unfolding waits_def using hm_sum_reorder by blast

lemma graph_ok_reorder:
  assumes "graph_ok m" "mset m' = mset m"
  shows "graph_ok m'"
proof -
  have "hm_ok m" using assms(1) by (simp add: graph_ok_def)
  then have "hm_get m' = hm_get m" "hm_ok m'"
    using hm_get_reorder [OF assms(2)] hm_ok_reorder [OF assms(2)] by simp_all
  moreover from this have "step_ok m' = step_ok m"
    by (intro ext) (simp add: step_ok_def waits_reorder [OF assms(2)])
  ultimately show ?thesis using assms(1) by (simp add: graph_ok_def)
qed

lemma wfq_ok_reorder:
  assumes "wfq_ok q" "mset m = mset (repos q)" "mset i = mset (in_flight q)"
  shows "wfq_ok (q\<lparr>repos := m, in_flight := i\<rparr>)"
    "pending_tags (q\<lparr>repos := m, in_flight := i\<rparr>) = pending_tags q" "hm_get i = hm_get (in_flight q)"
proof -
  have fl: "hm_ok (in_flight q)" using assms(1) by (simp add: wfq_ok_def)
  then show "hm_get i = hm_get (in_flight q)" using hm_get_reorder [OF assms(3)] by simp
  have "hm_ok i" "length i = length (in_flight q)"
    using fl hm_ok_reorder [OF assms(3)] assms(3) mset_eq_length by auto
  with reorder_ok [OF assms(1,2)] show "wfq_ok (q\<lparr>repos := m, in_flight := i\<rparr>)"
    by (simp add: wfq_ok_def cap_ok_def)
  show "pending_tags (q\<lparr>repos := m, in_flight := i\<rparr>) = pending_tags q"
    using hm_sum_reorder [OF assms(2)] by (simp add: pending_tags_def)
qed

lemma dag_reorder_ok:
  assumes ok: "dag_ok s" and R: "dag_reorder s s'"
  shows "dag_ok s' \<and> hm_get (by_drv s') = hm_get (by_drv s)"
proof -
  obtain m i b t j where R': "mset m = mset (repos (g_wfq s))" "mset i = mset (in_flight (g_wfq s))"
     "mset b = mset (by_drv s)" "mset t = mset (token_to_drv s)" "mset j = mset (job_meta s)"
     "s' = s\<lparr>g_wfq := (g_wfq s)\<lparr>repos := m, in_flight := i\<rparr>, by_drv := b, token_to_drv := t, job_meta := j\<rparr>"
    using R unfolding dag_reorder_def by blast
  have tok: "tok_ok s" and gr: "graph_ok (by_drv s)" using ok by (simp_all add: dag_ok_def)
  note D = tok_okD [OF tok]
  have hm: "hm_ok (by_drv s)" using gr by (simp add: graph_ok_def)
  have get: "hm_get b = hm_get (by_drv s)" "hm_get t = hm_get (token_to_drv s)" "hm_ok t" "hm_ok j"
    using hm_get_reorder [OF R'(3) hm] hm_get_reorder [OF R'(4) D(2)] D(2,3)
      hm_ok_reorder [OF R'(4)] hm_ok_reorder [OF R'(5)] by simp_all
  note W = wfq_ok_reorder [OF D(1) R'(1,2)]
  have "tok_step s' d x = tok_step s d x" for d x
    by (simp add: tok_step_def R'(6) get(2) W split: option.splits)
  then have "tok_ok s'"
    using tok W get by (simp add: tok_ok_def R'(6))
  with graph_ok_reorder [OF gr R'(3)] get(1) show ?thesis
    by (simp add: dag_ok_def R'(6))
qed

lemmas dag_vtable_simps = dag_vtable_def schedule_strategy.simps

lemma evolves_dispatched:
  assumes "dispatched_as s s' res"
  shows "evolves s s'"
proof (cases res)
  case None
  with assms show ?thesis by (simp add: dispatched_as_def evolves_same)
next
  case (Some y)
  with assms obtain x where x: "hm_get (by_drv s) (d_drv_path y) = Some x" "s_state x = StReady"
      "by_drv s' = hm_modify (d_drv_path y) (\<lambda>x. x\<lparr>s_state := StRunning\<rparr>) (by_drv s)"
    by (auto simp: dispatched_as_def)
  show ?thesis by (rule evolves_modify [OF x(3)]) (use x in \<open>simp add: step_le_def\<close>)
qed

lemma promoted_dispatched:
  assumes "dispatched_as s s' res" "promoted s"
  shows "promoted s'"
proof (cases res)
  case None
  with assms show ?thesis by (simp add: dispatched_as_def promoted_def)
next
  case (Some y)
  with assms(1) have "by_drv s' = hm_modify (d_drv_path y) (\<lambda>x. x\<lparr>s_state := StRunning\<rparr>) (by_drv s)"
    by (auto simp: dispatched_as_def)
  with assms(2) show ?thesis
    by (auto simp: promoted_def promotable_def hm_simps split: if_splits)
qed

lemma dag_dispatchE:
  assumes "dag_ok s" "dag_dispatch s = Some (s', res)"
  shows "dag_ok s'" "dispatched_as s s' res"
  using dag_dispatch_ok [OF assms(1)] assms(2) by auto

lemma dag_complete_ok:
  assumes "dag_ok s" "promoted s"
  obtains s' eff where "dag_complete t st s = Some (s', eff)" "dag_ok s'" "promoted s'" "evolves s s'"
proof (cases "hm_get (token_to_drv s) t")
  case None
  then show thesis using that dag_complete_unknown assms by simp
next
  case (Some d)
  show thesis by (rule dag_complete_known [OF assms Some, of st]) (rule that)
qed

text \<open>The invariant holds in every reachable state, and steps only move forward.\<close>

lemma dag_history:
  assumes "history dag_vtable dag_reorder s0 tr s" "dag_ok s0" "promoted s0"
  shows "dag_ok s \<and> promoted s \<and> evolves s0 s"
  using assms
proof (induction rule: history.induct)
  case start
  then show ?case by simp
next
  case (set_weight tr s r w)
  then have "dag_ok s" "promoted s" "evolves s0 s" by simp_all
  moreover have "tok_step (dag_set_weight r w s) d x = tok_step s d x" for d x
    by (simp add: dag_set_weight_def tok_step_def split: option.splits)
  ultimately show ?case
    by (simp add: dag_vtable_simps dag_ok_def tok_ok_def promoted_def evolves_def)
       (simp add: dag_set_weight_def)
next
  case (enqueue tr s it s')
  then have "dag_ok s" "promoted s" "evolves s0 s" "dag_enqueue it s = Some s'"
    by (simp_all add: dag_vtable_simps)
  then show ?case by (metis dag_enqueue_ok evolves_trans option.inject)
next
  case (dispatch_none tr s s')
  then have "dag_ok s" "promoted s" "evolves s0 s" "dag_dispatch s = Some (s', None)"
    by (simp_all add: dag_vtable_simps)
  then show ?case
    using dag_dispatchE evolves_dispatched promoted_dispatched evolves_trans by blast
next
  case (dispatch tr s s' x)
  then have "dag_ok s" "promoted s" "evolves s0 s" "dag_dispatch s = Some (s', Some x)"
    by (simp_all add: dag_vtable_simps)
  then show ?case
    using dag_dispatchE evolves_dispatched promoted_dispatched evolves_trans by blast
next
  case (complete tr s t st s' eff)
  then have "dag_ok s" "promoted s" "evolves s0 s" "dag_complete t st s = Some (s', eff)"
    by (simp_all add: dag_vtable_simps)
  then show ?case by (metis dag_complete_ok evolves_trans option.inject prod.inject)
next
  case (cancel tr s e s' skips)
  then have "dag_ok s" "promoted s" "evolves s0 s" "s' = fst (dag_cancel_eval e s)"
    by (simp_all add: dag_vtable_simps)
  then show ?case
    using dag_cancel_eval_ok [of s e] evolves_trans by (auto simp: cancelled_as_def)
next
  case (reorder tr s s')
  then have "dag_ok s" "promoted s" "evolves s0 s" by simp_all
  with dag_reorder_ok [OF _ reorder.hyps(2)] show ?case
    by (simp add: promoted_def evolves_def)
qed

section \<open>A lawful strategy\<close>

definition dag_good :: "dag \<Rightarrow> bool" where
  "dag_good s = (dag_ok s \<and> promoted s \<and> concurrency_cap (g_wfq s) \<noteq> Some 0)"

definition dag_live :: "dag \<Rightarrow> token set" where
  "dag_live s = dom (hm_get (in_flight (g_wfq s)))"

text \<open>The steps that may still be dispatched.\<close>

definition dag_work :: "dag \<Rightarrow> nat" where
  "dag_work s = hm_sum (\<lambda>_ x. if rank (s_state x) \<le> 1 then 1 else 0) (by_drv s)"

lemma dag_work_evolves:
  assumes "dag_ok s" "dag_ok s'" "evolves s s'" "dom (hm_get (by_drv s')) = dom (hm_get (by_drv s))"
  shows "dag_work s' \<le> dag_work s"
  unfolding dag_work_def
proof (rule hm_sum_mono)
  fix k x y assume "hm_get (by_drv s) k = Some x" "hm_get (by_drv s') k = Some y"
  then have "rank (s_state x) \<le> rank (s_state y)"
    using assms(3) by (fastforce simp: evolves_def step_le_def)
  then show "(if rank (s_state y) \<le> 1 then 1 else 0) \<le> (if rank (s_state x) \<le> 1 then 1 else (0::nat))"
    by auto
qed (use assms in \<open>auto simp: dag_ok_def graph_ok_def\<close>)

lemma dag_work_dispatch:
  assumes ok: "dag_ok s" and d: "dispatched_as s s' (Some x)"
  shows "dag_work s' < dag_work s"
proof -
  obtain y where y: "hm_get (by_drv s) (d_drv_path x) = Some y" "s_state y = StReady"
      "by_drv s' = hm_modify (d_drv_path x) (\<lambda>x. x\<lparr>s_state := StRunning\<rparr>) (by_drv s)"
    using d by (auto simp: dispatched_as_def)
  have "hm_ok (by_drv s)" using ok by (simp add: dag_ok_def graph_ok_def)
  from hm_sum_modify [OF this y(1), of "\<lambda>_ x. if rank (s_state x) \<le> 1 then 1 else (0::nat)"
      "\<lambda>x. x\<lparr>s_state := StRunning\<rparr>"] y
  show ?thesis by (simp add: dag_work_def)
qed

lemma completed_dom:
  assumes "hm_get (by_drv s) d = Some x" "completed_as d x st t s s'"
  shows "dom (hm_get (by_drv s')) = dom (hm_get (by_drv s))"
proof -
  have f: "dom (hm_get (by_drv (finish_step d st t s))) = dom (hm_get (by_drv s))"
    by (simp add: finish_step_def)
  show ?thesis
  proof (cases "st_is_successful st")
    case True
    have "dom (hm_get (fold decrement (rdeps x) m)) = dom (hm_get m)" for m
      by (auto simp: fold_decrement_get dom_def)
    with True assms(2) f show ?thesis by (simp add: completed_as_def promotes_def)
  next
    case False
    with assms(2) f show ?thesis by (auto simp: completed_as_def cascaded_def dom_def)
  qed
qed

lemma dag_live_known: "dag_ok s \<Longrightarrow> t \<in> dag_live s \<Longrightarrow> \<exists>d. hm_get (token_to_drv s) t = Some d"
  using tok_okD(7) [of s t] by (auto simp: dag_ok_def dag_live_def)

interpretation dag: lawful_strategy dag_vtable dag_good dag_live dag_work
proof
  fix s assume "dag_good s"
  then have ok: "dag_ok s" and pr: "promoted s" and cap: "concurrency_cap (g_wfq s) \<noteq> Some 0"
    by (simp_all add: dag_good_def)
  obtain s1 res where d: "dag_dispatch s = Some (s1, res)" "dag_ok s1" "dispatched_as s s1 res"
      "concurrency_cap (g_wfq s1) = concurrency_cap (g_wfq s)"
    using dag_dispatch_ok [OF ok] by blast
  show "\<exists>s' res. st_dispatch dag_vtable s = Some (s', res) \<and> dag_good s'"
    using d promoted_dispatched [OF d(3) pr] cap by (simp add: dag_vtable_simps dag_good_def)
  show "d_token x \<notin> dag_live s \<and> dag_live s' = insert (d_token x) (dag_live s) \<and> dag_work s' < dag_work s"
    if "st_dispatch dag_vtable s = Some (s', Some x)" for s' x
  proof -
    have e: "s' = s1" "res = Some x" using that d(1) by (simp_all add: dag_vtable_simps)
    with dag_work_dispatch [OF ok] d(3) show ?thesis
      by (auto simp: dispatched_as_def dag_live_def)
  qed
  show "dag_live s' = dag_live s \<and> dag_work s' \<le> dag_work s \<and>
      (st_pending_count dag_vtable s' = 0 \<or> dag_live s' \<noteq> {})"
    if "st_dispatch dag_vtable s = Some (s', None)" for s'
  proof -
    have e: "s' = s1" "res = None" using that d(1) by (simp_all add: dag_vtable_simps)
    then have n: "by_drv s1 = by_drv s" "hm_get (in_flight (g_wfq s1)) = hm_get (in_flight (g_wfq s))"
        "wfq_pending_count (g_wfq s1) = 0 \<or> cap_full (g_wfq s1)"
      using d(3) by (simp_all add: dispatched_as_def)
    have "in_flight (g_wfq s1) \<noteq> []" if "cap_full (g_wfq s1)"
      using that cap d(4) by (auto simp: cap_full_def split: option.splits)
    with n show ?thesis by (auto simp: e dag_live_def dag_work_def dag_vtable_simps)
  qed
  show "\<exists>s' eff. st_complete dag_vtable t st s = Some (s', eff) \<and> dag_good s' \<and>
      dag_live s' = dag_live s - {t} \<and> dag_work s' \<le> dag_work s" if "t \<in> dag_live s" for t st
  proof -
    have "\<exists>d. hm_get (token_to_drv s) t = Some d" by (rule dag_live_known [OF ok that])
    then obtain d where d: "hm_get (token_to_drv s) t = Some d" by blast
    obtain x s' eff where x: "hm_get (by_drv s) d = Some x" "in_flight_token x = Some t"
      "dag_complete t st s = Some (s', eff)" "dag_ok s'" "promoted s'" "evolves s s'"
      "completed_as d x (st_from_status st) t s s'"
      "concurrency_cap (g_wfq s') = concurrency_cap (g_wfq s)"
      "in_flight (g_wfq s') = hm_remove t (in_flight (g_wfq s))"
      using dag_complete_known [OF ok pr d, of st] by metis
    have "dag_work s' \<le> dag_work s"
      using dag_work_evolves [OF ok x(4,6) completed_dom [OF x(1,7)]] .
    moreover have "dag_live s' = dag_live s - {t}"
      by (auto simp: dag_live_def x(9) hm_simps dom_def split: if_splits)
    ultimately show ?thesis using x cap by (auto simp: dag_vtable_simps dag_good_def)
  qed
qed

section \<open>Lemmas for the properties\<close>

lemma gated_evolves:
  assumes "gated (by_drv s) d i" "evolves s s'"
  shows "gated (by_drv s') d i"
proof -
  from assms(1) obtain y where y: "hm_get (by_drv s) i = Some y"
      "st_is_successful (s_state y) \<or> d \<in> set (rdeps y)" by (auto simp: gated_def)
  with assms(2) obtain z where "hm_get (by_drv s') i = Some z" "step_le y z"
    unfolding evolves_def by blast
  with y(2) show ?thesis
    unfolding gated_def step_le_def by (auto dest: successful_terminal)
qed

lemma gated_runnable:
  assumes "graph_ok m" "gated m d i" "hm_get m d = Some x" "runnable (s_state x)"
  shows "\<exists>y. hm_get m i = Some y \<and> st_is_successful (s_state y)"
  using assms blocked_not_runnable [OF assms(1,3)] unfolding gated_def blocked_def by blast

lemma dispatched_state:
  assumes "dag_ok s" "dag_dispatch s = Some (s', Some x)"
  obtains y where "hm_get (by_drv s) (d_drv_path x) = Some y" "s_state y = StReady"
    "hm_get (by_drv s') (d_drv_path x) = Some (y\<lparr>s_state := StRunning\<rparr>)"
  using dag_dispatchE(2) [OF assms] by (auto simp: dispatched_as_def hm_simps)

definition all_started :: "sched_event list \<Rightarrow> dag \<Rightarrow> bool" where
  "all_started tr s = (\<forall>x\<in>set (dispatches tr).
     \<exists>y. hm_get (by_drv s) (d_drv_path x) = Some y \<and> 2 \<le> rank (s_state y))"

lemma all_started_evolves:
  assumes "all_started tr s" "evolves s s'"
  shows "all_started tr s'"
  unfolding all_started_def
proof
  fix x assume "x \<in> set (dispatches tr)"
  with assms(1) obtain y where y: "hm_get (by_drv s) (d_drv_path x) = Some y" "2 \<le> rank (s_state y)"
    unfolding all_started_def by blast
  with assms(2) obtain z where "hm_get (by_drv s') (d_drv_path x) = Some z" "step_le y z"
    unfolding evolves_def by blast
  with y(2) show "\<exists>y. hm_get (by_drv s') (d_drv_path x) = Some y \<and> 2 \<le> rank (s_state y)"
    by (auto simp: step_le_def)
qed

lemma dispatch_once:
  assumes "history dag_vtable dag_reorder s0 tr s" "dag_ok s0" "promoted s0"
  shows "distinct (map d_drv_path (dispatches tr)) \<and> all_started tr s"
  using assms
proof (induction rule: history.induct)
  case start
  then show ?case by (simp add: all_started_def)
next
  case (set_weight tr s r w)
  have "evolves s (st_set_weight dag_vtable r w s)"
    by (simp add: dag_vtable_simps dag_set_weight_def evolves_same)
  with set_weight all_started_evolves show ?case by blast
next
  case (enqueue tr s it s')
  then have "dag_ok s" "promoted s" using dag_history by blast+
  moreover have "history dag_vtable dag_reorder s ([] @ [EvEnqueued it]) s'"
    using history.enqueue [OF history.start enqueue.hyps(2)] .
  ultimately have "evolves s s'" using dag_history by blast
  then have "all_started tr s'" using enqueue all_started_evolves by blast
  with enqueue show ?case by (simp add: all_started_def)
next
  case (dispatch_none tr s s')
  then have "dag_ok s" "promoted s" using dag_history by blast+
  then have "evolves s s'"
    using dag_history [OF history.dispatch_none [OF history.start dispatch_none.hyps(2)]] by blast
  with dispatch_none all_started_evolves show ?case by blast
next
  case (dispatch tr s s' x)
  then have ok: "dag_ok s" "promoted s" using dag_history by blast+
  then have ev: "evolves s s'"
    using dag_history [OF history.dispatch [OF history.start dispatch.hyps(2)]] by blast
  have "dag_dispatch s = Some (s', Some x)" using dispatch.hyps(2) by (simp add: dag_vtable_simps)
  then obtain y where y: "hm_get (by_drv s) (d_drv_path x) = Some y" "s_state y = StReady"
    "hm_get (by_drv s') (d_drv_path x) = Some (y\<lparr>s_state := StRunning\<rparr>)"
    using dispatched_state [OF ok(1)] by metis
  have IH: "distinct (map d_drv_path (dispatches tr))" "all_started tr s" using dispatch by simp_all
  have "d_drv_path x \<notin> set (map d_drv_path (dispatches tr))"
  proof
    assume "d_drv_path x \<in> set (map d_drv_path (dispatches tr))"
    then obtain w where w: "w \<in> set (dispatches tr)" "d_drv_path w = d_drv_path x" by auto
    with IH(2) obtain z where "hm_get (by_drv s) (d_drv_path x) = Some z" "2 \<le> rank (s_state z)"
      unfolding all_started_def by metis
    with y show False by simp
  qed
  with IH(1) all_started_evolves [OF IH(2) ev] y(3) show ?case by (simp add: all_started_def)
next
  case (complete tr s t st s' eff)
  then have "dag_ok s" "promoted s" using dag_history by blast+
  then have "evolves s s'"
    using dag_history [OF history.complete [OF history.start complete.hyps(2)]] by blast
  then have "all_started tr s'" using complete all_started_evolves by blast
  with complete show ?case by (simp add: all_started_def)
next
  case (cancel tr s e s' skips)
  then have "dag_ok s" "promoted s" using dag_history by blast+
  then have "evolves s s'"
    using dag_history [OF history.cancel [OF history.start cancel.hyps(2)]] by blast
  then have "all_started tr s'" using cancel all_started_evolves by blast
  with cancel show ?case by (simp add: all_started_def)
next
  case (reorder tr s s')
  then have "dag_ok s" "promoted s" using dag_history by blast+
  then have "evolves s s'"
    using dag_history [OF history.reorder [OF history.start, of dag_reorder s s']] reorder.hyps(2) by blast
  with reorder all_started_evolves show ?case by blast
qed

text \<open>Ending a step that a cascade does not reach leaves what it reaches unchanged.\<close>

lemma reaches_other:
  assumes m': "hm_get m' = (hm_get m)(d \<mapsto> x')" and x: "hm_get m d = Some x" "rdeps x' = rdeps x"
    and t: "st_is_terminal (s_state x')" and d: "\<not> reaches m Q d"
  shows "reaches m' Q k \<longleftrightarrow> reaches m Q k"
proof
  assume "reaches m' Q k"
  then show "reaches m Q k"
  proof induction
    case (from_queue k y)
    then show ?case using t by (auto simp: m' split: if_splits intro: reaches.from_queue)
  next
    case (from_rdep k y j z)
    then have "k \<noteq> d" using d by auto
    then have "hm_get m k = Some y" using from_rdep by (simp add: m')
    moreover have "hm_get m j = Some z" using from_rdep t by (auto simp: m' split: if_splits)
    ultimately show ?case using from_rdep by (blast intro: reaches.from_rdep)
  qed
next
  assume "reaches m Q k"
  then show "reaches m' Q k"
  proof induction
    case (from_queue k y)
    then have "k \<noteq> d" using d by (blast intro: reaches.from_queue)
    with from_queue show ?case by (auto simp: m' intro: reaches.from_queue)
  next
    case (from_rdep k y j z)
    then have "k \<noteq> d" "j \<noteq> d" using d by (blast intro: reaches.from_rdep)+
    with from_rdep have "hm_get m' k = Some y" "hm_get m' j = Some z" by (simp_all add: m')
    with from_rdep show ?case by (blast intro: reaches.from_rdep)
  qed
qed

lemma not_reaches_runnable:
  assumes "graph_ok m" "hm_get m d = Some x" "runnable (s_state x)" "\<not> st_is_successful (s_state x)"
  shows "\<not> reaches m (set (rdeps x)) d"
proof
  assume "reaches m (set (rdeps x)) d"
  moreover have "\<forall>k\<in>set (rdeps x). blocked m k" using assms(2,4) unfolding blocked_def by blast
  ultimately have "blocked m d" by (rule reaches_blocked)
  with blocked_not_runnable [OF assms(1,2)] assms(3) show False by simp
qed

lemma jobs_in_modify:
  "(\<And>x. head_jobs (f x) = head_jobs x) \<Longrightarrow> jobs_in P (hm_modify d f m) j = jobs_in P m j"
  unfolding jobs_in_def by (rule hm_sum_modify_same) simp

text \<open>Small graphs for the concrete statements: \<open>b\<close> needs \<open>a\<close>, in the two orders of enqueueing.\<close>

definition item_a :: schedule_item where
  "item_a = sample_item 1 ''a'' []"

definition item_b :: schedule_item where
  "item_b = sample_item 2 ''b'' [''a'']"

definition graph_a :: dag where
  "graph_a = the (dag_enqueue item_a (dag_new None))"

definition graph_ab :: dag where
  "graph_ab = the (dag_enqueue item_b graph_a)"

definition graph_ab_running :: dag where
  "graph_ab_running = fst (the (dag_dispatch graph_ab))"

definition graph_ab_done :: dag where
  "graph_ab_done = fst (the (dag_complete 0 JSuccess graph_ab_running))"

definition graph_b :: dag where
  "graph_b = the (dag_enqueue item_b (dag_new None))"

definition graph_ba :: dag where
  "graph_ba = the (dag_enqueue item_a graph_b)"

lemma graph_a: "dag_enqueue item_a (dag_new None) = Some graph_a"
  by code_simp

lemma graph_ab: "dag_enqueue item_b graph_a = Some graph_ab"
  by code_simp

lemma history_a: "history dag_vtable dag_reorder (dag_new None) ([] @ [EvEnqueued item_a]) graph_a"
  by (rule history.enqueue [OF history.start]) (simp add: dag_vtable_simps graph_a)

lemma history_ab: "history dag_vtable dag_reorder (dag_new None)
    (([] @ [EvEnqueued item_a]) @ [EvEnqueued item_b]) graph_ab"
  by (rule history.enqueue [OF history_a]) (simp add: dag_vtable_simps graph_ab)

section \<open>Properties\<close>

text \<open>C12. No method of the DAG strategy panics or loops in any state a client can reach, with any
  arguments and any iteration order of the maps, and its in-flight count respects the cap.\<close>

theorem dag_never_panics:
  assumes "history dag_vtable dag_reorder (dag_new cap) tr s"
  shows "dag_enqueue it s \<noteq> None \<and> dag_dispatch s \<noteq> None \<and> dag_complete t st s \<noteq> None \<and>
    (\<forall>c. concurrency_cap (g_wfq s) = Some c \<longrightarrow> wfq_in_flight_count (g_wfq s) \<le> c)"
proof -
  have ok: "dag_ok s" "promoted s" using dag_history [OF assms] by simp_all
  have "wfq_ok (g_wfq s)" using ok(1) by (simp add: dag_ok_def tok_ok_def)
  moreover have "dag_enqueue it s \<noteq> None" using dag_enqueue_ok [OF ok, of it] by auto
  moreover have "dag_dispatch s \<noteq> None" using dag_dispatch_ok [OF ok(1)] by auto
  moreover have "dag_complete t st s \<noteq> None" by (rule dag_complete_ok [OF ok, of t st]) simp
  ultimately show ?thesis by (simp add: wfq_ok_def cap_ok_def wfq_in_flight_count_def)
qed

theorem dag_never_panics_witness:
  "dag_enqueue item_b graph_a \<noteq> None \<and> dag_dispatch graph_a \<noteq> None \<and> dag_complete 0 JFailure graph_a \<noteq> None"
  using dag_never_panics [OF history_a, of item_b 0 JFailure] by blast

text \<open>C1. Dispatch is gated on dependencies: if an item introduced step \<open>d\<close> with an input \<open>i\<close> that is a
  step of the graph once the item is enqueued, then whenever \<open>d\<close> is dispatched later, after any
  sequence of calls, \<open>i\<close> has succeeded.\<close>

theorem dag_dispatch_waits_for_inputs:
  assumes "history dag_vtable dag_reorder (dag_new cap) tr0 s0" "dag_enqueue it s0 = Some s1"
    and "d \<in> item_paths it" "hm_get (by_drv s0) d = None"
    and "hm_get (inputs_of it) d = Some inputs" "i \<in> set inputs" "hm_get (by_drv s1) i \<noteq> None"
    and "history dag_vtable dag_reorder s1 tr s2" "dag_dispatch s2 = Some (s3, Some x)" "d_drv_path x = d"
  shows "\<exists>y. hm_get (by_drv s2) i = Some y \<and> st_is_successful (s_state y)"
proof -
  have ok0: "dag_ok s0" "promoted s0" using dag_history [OF assms(1)] by simp_all
  obtain s1' where s1': "dag_enqueue it s0 = Some s1'" "dag_ok s1'" "promoted s1'" "enqueued_as it s0 s1'"
    using dag_enqueue_ok [OF ok0, of it] by metis
  then have ok1: "dag_ok s1" "promoted s1" "enqueued_as it s0 s1" using assms(2) by simp_all
  have "i \<in> dom (hm_get (by_drv s1))" using assms(7) by auto
  then have "gated (by_drv s1) d i"
    using ok1(3) assms(3-6) unfolding enqueued_as_def by blast
  moreover have ok2: "dag_ok s2" "evolves s1 s2" using dag_history [OF assms(8) ok1(1,2)] by simp_all
  ultimately have g: "gated (by_drv s2) d i" using gated_evolves by blast
  obtain y where "hm_get (by_drv s2) d = Some y" "s_state y = StReady"
    using dispatched_state [OF ok2(1) assms(9)] assms(10) by metis
  moreover have "graph_ok (by_drv s2)" using ok2(1) by (simp add: dag_ok_def)
  ultimately show ?thesis using gated_runnable [OF _ g] by (simp add: runnable_def)
qed

lemma run_ab: "history dag_vtable dag_reorder graph_ab
    (([] @ [EvDispatched (the (snd (the (dag_dispatch graph_ab))))]) @ EvCompleted 0 JSuccess # map EvSkip [] @ map EvAlias [])
    graph_ab_done"
proof -
  have 1: "dag_dispatch graph_ab = Some (graph_ab_running, Some (the (snd (the (dag_dispatch graph_ab)))))"
    by code_simp
  have 2: "dag_complete 0 JSuccess graph_ab_running =
      Some (graph_ab_done, \<lparr>eff_repo_id = Some (RepoId 1), cascaded_skips = [], alias_completions = []\<rparr>)"
    by code_simp
  show ?thesis
    using history.complete [OF history.dispatch [OF history.start], of dag_vtable graph_ab] 1 2
    by (fastforce simp: dag_vtable_simps)
qed

theorem dag_dispatch_waits_for_inputs_witness:
  "\<exists>y. hm_get (by_drv graph_ab_done) ''a'' = Some y \<and> st_is_successful (s_state y)"
proof (rule dag_dispatch_waits_for_inputs [OF history_a graph_ab, of "''b''" "[''a'']" "''a''"])
  show "dag_dispatch graph_ab_done = Some (fst (the (dag_dispatch graph_ab_done)),
      Some (the (snd (the (dag_dispatch graph_ab_done)))))" by code_simp
  show "d_drv_path (the (snd (the (dag_dispatch graph_ab_done)))) = ''b''" by code_simp
  show "''b'' \<in> item_paths item_b" by (simp add: item_paths_def item_b_def sample_item_def sample_drv_def)
  show "hm_get (by_drv graph_a) ''b'' = None" by code_simp
  show "hm_get (inputs_of item_b) ''b'' = Some [''a'']" by code_simp
  show "hm_get (by_drv graph_ab) ''a'' \<noteq> None" by code_simp
  show "''a'' \<in> set [''a'']" by simp
qed (rule run_ab)

text \<open>C23. A derivation is dispatched at most once in the life of the strategy, however many jobs and
  evaluations share it.\<close>

theorem dag_dispatches_once:
  assumes "history dag_vtable dag_reorder (dag_new cap) tr s"
  shows "distinct (map d_drv_path (dispatches tr))"
  using dispatch_once [OF assms] by simp

text \<open>C27. A terminal verdict of a step is final: no later call changes it.\<close>

theorem dag_terminal_is_final:
  assumes "history dag_vtable dag_reorder (dag_new cap) tr0 s" "history dag_vtable dag_reorder s tr s'"
    and "hm_get (by_drv s) d = Some x" "st_is_terminal (s_state x)"
  shows "\<exists>y. hm_get (by_drv s') d = Some y \<and> s_state y = s_state x"
proof -
  have "dag_ok s" "promoted s" using dag_history [OF assms(1)] by simp_all
  then have "evolves s s'" using dag_history [OF assms(2)] by blast
  with assms(3,4) show ?thesis unfolding evolves_def step_le_def by blast
qed

lemma history_ab_done: "history dag_vtable dag_reorder (dag_new None)
    ((((([] @ [EvEnqueued item_a]) @ [EvEnqueued item_b]) @
      [EvDispatched (the (snd (the (dag_dispatch graph_ab))))]) @ EvCompleted 0 JSuccess # map EvSkip [] @ map EvAlias []))
    graph_ab_done"
proof -
  have 1: "dag_dispatch graph_ab = Some (graph_ab_running, Some (the (snd (the (dag_dispatch graph_ab)))))"
    by code_simp
  have 2: "dag_complete 0 JSuccess graph_ab_running =
      Some (graph_ab_done, \<lparr>eff_repo_id = Some (RepoId 1), cascaded_skips = [], alias_completions = []\<rparr>)"
    by code_simp
  show ?thesis
    using history.complete [OF history.dispatch [OF history_ab]] 1 2
    by (fastforce simp: dag_vtable_simps)
qed

text \<open>Job a is built and completed, then job b, whose closure contains a's derivation.\<close>

definition trace_both :: "sched_event list" where
  "trace_both = (((([] @ [EvEnqueued item_a]) @ [EvEnqueued item_b]) @
     [EvDispatched (the (snd (the (dag_dispatch graph_ab))))]) @ EvCompleted 0 JSuccess # map EvSkip [] @ map EvAlias []) @
     [EvDispatched (the (snd (the (dag_dispatch graph_ab_done))))]"

theorem dag_dispatches_once_witness:
  "map d_drv_path (dispatches trace_both) = [''a'', ''b''] \<and> distinct (map d_drv_path (dispatches trace_both))"
proof
  have 1: "dag_dispatch graph_ab_done = Some (fst (the (dag_dispatch graph_ab_done)), Some (the (snd (the (dag_dispatch graph_ab_done)))))"
    by code_simp
  have "history dag_vtable dag_reorder (dag_new None) trace_both (fst (the (dag_dispatch graph_ab_done)))"
    unfolding trace_both_def using history.dispatch [OF history_ab_done] 1 by (fastforce simp: dag_vtable_simps)
  then show "distinct (map d_drv_path (dispatches trace_both))" by (rule dag_dispatches_once)
  show "map d_drv_path (dispatches trace_both) = [''a'', ''b'']" by code_simp
qed

theorem dag_terminal_is_final_witness:
  "\<exists>y. hm_get (by_drv (fst (dag_cancel_eval (EvalId 1) graph_ab_done))) ''a'' = Some y \<and>
     s_state y = s_state (the (hm_get (by_drv graph_ab_done) ''a''))"
proof (rule dag_terminal_is_final [OF history_ab_done])
  show "history dag_vtable dag_reorder graph_ab_done
      ([] @ EvCancelled (EvalId 1) # map EvSkip (snd (dag_cancel_eval (EvalId 1) graph_ab_done)))
      (fst (dag_cancel_eval (EvalId 1) graph_ab_done))"
    by (rule history.cancel [OF history.start]) (simp add: dag_vtable_simps)
  show "hm_get (by_drv graph_ab_done) ''a'' = Some (the (hm_get (by_drv graph_ab_done) ''a''))"
    by code_simp
  show "st_is_terminal (s_state (the (hm_get (by_drv graph_ab_done) ''a'')))"
    by code_simp
qed

text \<open>What the cascade of a failed step reaches and reports.\<close>

lemma failure_cascade:
  assumes ok: "dag_ok s" and x: "hm_get (by_drv s) d = Some x" "in_flight_token x = Some t"
    and f: "\<not> st_is_successful (st_from_status st)"
  shows "reaches (by_drv (finish_step d (st_from_status st) t s)) (set (rdeps x)) = reaches (by_drv s) (set (rdeps x))"
    and "\<not> reaches (by_drv s) (set (rdeps x)) d"
    and "count_list (map skip_job_id (snd (cascade_skip d (finish_step d (st_from_status st) t s)))) j =
      (if hm_get (job_meta s) j = None then 0 else jobs_in (reaches (by_drv s) (set (rdeps x))) (by_drv s) j)"
proof -
  let ?st = "st_from_status st" and ?s1 = "finish_step d (st_from_status st) t s"
  have tok: "tok_ok s" and gr: "graph_ok (by_drv s)" using ok by (simp_all add: dag_ok_def)
  have run: "runnable (s_state x)" "\<not> st_is_successful (s_state x)"
    using token_state [OF tok x] by (auto simp: runnable_def st_is_successful_def)
  note get = finish_step_get [OF x(1), of ?st t]
  show nd: "\<not> reaches (by_drv s) (set (rdeps x)) d" by (rule not_reaches_runnable [OF gr x(1) run])
  show r: "reaches (by_drv ?s1) (set (rdeps x)) = reaches (by_drv s) (set (rdeps x))"
    by (rule ext, rule reaches_other [OF get x(1)]) (use nd in auto)
  have ok1: "dag_ok ?s1" using finish_step_failure [OF ok x f] by simp
  have gx: "hm_get (by_drv ?s1) d = Some (x\<lparr>s_state := ?st, in_flight_token := None\<rparr>)" by (simp add: get)
  have "jobs_in P (by_drv ?s1) j = jobs_in P (by_drv s) j" for P
    by (simp add: finish_step_def jobs_in_modify)
  with cascade_skip_ok(2) [OF ok1 gx, of j] f r
  show "count_list (map skip_job_id (snd (cascade_skip d ?s1))) j =
      (if hm_get (job_meta s) j = None then 0 else jobs_in (reaches (by_drv s) (set (rdeps x))) (by_drv s) j)"
    by (simp add: finish_step_def)
qed

text \<open>C3. When a step ends without success, \<open>complete\<close> marks as skipped exactly the steps reachable
  from it over dependents that have not ended, leaves every other step's state alone, and reports
  each job of a skipped step exactly as often as it is linked there (once, if it was enqueued once).\<close>

theorem dag_failure_skips_dependents:
  assumes "history dag_vtable dag_reorder (dag_new cap) tr s"
    and "hm_get (token_to_drv s) t = Some d" "hm_get (by_drv s) d = Some x"
    and "\<not> st_is_successful (st_from_status st)"
  shows "\<exists>s' eff. dag_complete t st s = Some (s', eff) \<and>
    (\<forall>k y. hm_get (by_drv s) k = Some y \<longrightarrow> (\<exists>z. hm_get (by_drv s') k = Some z \<and>
       s_state z = (if k = d then st_from_status st
         else if reaches (by_drv s) (set (rdeps x)) k then StSkipped else s_state y))) \<and>
    (\<forall>j. count_list (map skip_job_id (cascaded_skips eff)) j =
       (if hm_get (job_meta s) j = None then 0 else jobs_in (reaches (by_drv s) (set (rdeps x))) (by_drv s) j))"
proof -
  let ?st = "st_from_status st"
  let ?s1 = "finish_step d ?st t s"
  have ok: "dag_ok s" "promoted s" using dag_history [OF assms(1)] by simp_all
  obtain x' s' eff where x': "hm_get (by_drv s) d = Some x'" "in_flight_token x' = Some t"
    "dag_complete t st s = Some (s', eff)" "completed_as d x' ?st t s s'"
    "cascaded_skips eff = (if st_is_successful ?st then [] else snd (cascade_skip d ?s1))"
    using dag_complete_known [OF ok assms(2), of st] by metis
  then have x: "in_flight_token x = Some t" "x' = x" using assms(3) by simp_all
  note get = finish_step_get [OF assms(3), of ?st t]
  note F = failure_cascade [OF ok(1) assms(3) x(1) assms(4)]
  have c: "cascaded (reaches (by_drv s) (set (rdeps x))) ?s1 s'"
    using x'(4) assms(4) by (simp add: completed_as_def x F(1))
  have "\<exists>z. hm_get (by_drv s') k = Some z \<and> s_state z = (if k = d then ?st
      else if reaches (by_drv s) (set (rdeps x)) k then StSkipped else s_state y)"
    if "hm_get (by_drv s) k = Some y" for k y
    using c that F(2) unfolding cascaded_def get by (auto split: if_splits)
  moreover have "count_list (map skip_job_id (cascaded_skips eff)) j =
      (if hm_get (job_meta s) j = None then 0 else jobs_in (reaches (by_drv s) (set (rdeps x))) (by_drv s) j)" for j
    using F(3) x'(5) assms(4) by simp
  ultimately show ?thesis using x'(3) by blast
qed

theorem dag_failure_skips_dependents_witness:
  "\<exists>s' eff. dag_complete 0 JFailure graph_ab = Some (s', eff) \<and>
    (\<forall>k y. hm_get (by_drv graph_ab) k = Some y \<longrightarrow> (\<exists>z. hm_get (by_drv s') k = Some z \<and>
       s_state z = (if k = ''a'' then st_from_status JFailure
         else if reaches (by_drv graph_ab) (set [''b'']) k then StSkipped else s_state y))) \<and>
    (\<forall>j. count_list (map skip_job_id (cascaded_skips eff)) j =
       (if hm_get (job_meta graph_ab) j = None then 0
        else jobs_in (reaches (by_drv graph_ab) (set [''b''])) (by_drv graph_ab) j))"
proof -
  have x: "hm_get (by_drv graph_ab) ''a'' = Some (the (hm_get (by_drv graph_ab) ''a''))"
    "rdeps (the (hm_get (by_drv graph_ab) ''a'')) = [''b'']" "hm_get (token_to_drv graph_ab) 0 = Some ''a''"
    by code_simp+
  show ?thesis
    unfolding x(2) [symmetric]
    by (rule dag_failure_skips_dependents [OF history_ab x(3,1)]) (simp add: st_is_successful_def)
qed

text \<open>C6. The dispatch loop drains the DAG strategy: from a reachable state with nothing in flight and a
  cap that is not zero, if every task ends with some status, the loop ends within one completion
  per unstarted step; unless cancelled, every step has then ended or waits for a step that did
  not succeed, and nothing is queued or running.\<close>

theorem drive_drains_dag:
  assumes "history dag_vtable dag_reorder (dag_new cap) tr s" "concurrency_cap (g_wfq s) \<noteq> Some 0"
    and "in_flight (g_wfq s) = []" "dag_work s < length ws"
    and "\<forall>w\<in>set ws. \<exists>cf i st. w = Turn cf (Joined i st)" "\<forall>w\<in>set ws. \<not> cancel_fired w"
  shows "\<exists>d. drive dag_vtable ws False (driver_start s) = Exited d \<and> join_set d = [] \<and>
    (\<forall>k x. hm_get (by_drv (strategy d)) k = Some x \<longrightarrow>
       st_is_terminal (s_state x) \<or> s_state x = StPending \<and> blocked (by_drv (strategy d)) k)"
proof -
  have ok: "dag_ok s" "promoted s" using dag_history [OF assms(1)] by simp_all
  then have "dag_good s" "dag_live s = {}" using assms(2,3) by (simp_all add: dag_good_def dag_live_def)
  from dag.drive_from_start [OF this assms(4,5)] assms(6) obtain d where
    d: "drive dag_vtable ws False (driver_start s) = Exited d" "dag_good (strategy d)"
      "dag_live (strategy d) = {}" "join_set d = []" "wfq_pending_count (g_wfq (strategy d)) = 0"
    by (auto simp: dag_vtable_simps)
  let ?s = "strategy d"
  have ok': "tok_ok ?s" "graph_ok (by_drv ?s)" "promoted ?s"
    using d(2) by (simp_all add: dag_good_def dag_ok_def)
  have none: "pending_tags (g_wfq ?s) = {#}" "\<And>t. hm_get (in_flight (g_wfq ?s)) t = None"
    using d(3,5) by (auto simp: pending_tags_count dag_live_def)
  have "st_is_terminal (s_state x) \<or> s_state x = StPending \<and> blocked (by_drv ?s) k"
    if x: "hm_get (by_drv ?s) k = Some x" for k x
  proof -
    have "s_state x \<noteq> StReady" "s_state x \<noteq> StRunning"
      using tok_okD(4) [OF ok'(1) x] none by (auto simp: tok_step_def split: option.splits)
    moreover have "blocked (by_drv ?s) k" if "s_state x = StPending"
    proof -
      have "0 < deps_unfinished x" using ok'(3) x that by (auto simp: promoted_def promotable_def)
      moreover have "step_ok (by_drv ?s) k x" "hm_ok (by_drv ?s)" using ok'(2) x by (simp_all add: graph_ok_def)
      ultimately show ?thesis by (simp add: step_ok_def blocked_waits)
    qed
    ultimately show ?thesis by (cases "s_state x") auto
  qed
  with d show ?thesis by blast
qed

theorem drive_drains_dag_witness:
  "\<exists>d. drive dag_vtable (replicate 3 (Turn False (Joined 0 JSuccess))) False (driver_start graph_ab) = Exited d \<and>
    join_set d = [] \<and> (\<forall>k x. hm_get (by_drv (strategy d)) k = Some x \<longrightarrow>
       st_is_terminal (s_state x) \<or> s_state x = StPending \<and> blocked (by_drv (strategy d)) k)"
proof (rule drive_drains_dag [OF history_ab])
  show "concurrency_cap (g_wfq graph_ab) \<noteq> Some 0" by code_simp
  show "in_flight (g_wfq graph_ab) = []" by code_simp
  show "dag_work graph_ab < length (replicate 3 (Turn False (Joined 0 JSuccess)))" by code_simp
qed auto

text \<open>The order of enqueueing matters: a job enqueued before the job it depends on is not gated
  on it. Here \<open>b\<close> declares \<open>a\<close> as its input, \<open>b\<close> is enqueued first, and \<open>b\<close> is dispatched while \<open>a\<close> has
  not even started.\<close>

lemma dag_gate_needs_topological_order:
  "map_option (map_option d_drv_path \<circ> snd) (dag_dispatch graph_ba) = Some (Some ''b'') \<and>
   map_option s_state (hm_get (by_drv graph_ba) ''a'') = Some StReady \<and>
   hm_get (inputs_of item_b) ''b'' = Some [''a'']"
  by code_simp

text \<open>Cancelling an evaluation takes other evaluations' jobs with it when they depend on one of its
  heads: job 2 of evaluation 2 is skipped by \<open>cancel_eval\<close> of evaluation 1.\<close>

definition item_b2 :: schedule_item where
  "item_b2 = item_b\<lparr>item_eval_id := EvalId 2\<rparr>"

definition graph_ab2 :: dag where
  "graph_ab2 = the (dag_enqueue item_b2 graph_a)"

lemma dag_cancel_reaches_other_evals:
  "map (\<lambda>k. (skip_job_id k, skip_eval_id k)) (snd (dag_cancel_eval (EvalId 1) graph_ab2)) =
     [(JobId 1, EvalId 1), (JobId 2, EvalId 2)] \<and>
   map_option s_state (hm_get (by_drv (fst (dag_cancel_eval (EvalId 1) graph_ab2))) ''b'') = Some StSkipped"
  by code_simp

text \<open>A job that aliases a running head loses its verdict when its evaluation is cancelled: the cancel
  reports no skip for it, and the later completion of the head reports no alias.\<close>

definition item_a_alias :: schedule_item where
  "item_a_alias = item_a\<lparr>item_job_id := JobId 3\<rparr>"

definition graph_aa_running :: dag where
  "graph_aa_running = fst (the (dag_dispatch (the (dag_enqueue item_a_alias graph_a))))"

lemma dag_cancel_drops_running_alias:
  "map alias_job_id (alias_completions (snd (the (dag_complete 0 JCancelled graph_aa_running)))) = [JobId 3] \<and>
   snd (dag_cancel_eval (EvalId 1) graph_aa_running) = [] \<and>
   alias_completions (snd (the (dag_complete 0 JCancelled
     (fst (dag_cancel_eval (EvalId 1) graph_aa_running))))) = []"
  by code_simp

end
