(* ===== verification/Registry.thy ===== *)
theory Registry
  imports Names
begin

text \<open>
  \<open>BuilderRegistry\<close> of \<open>argunix-builders/src/registry.rs\<close>: the runtime table of connected
  builders, their load, the lifecycle channels of the builds they run, the phase of every
  build, the ring of recent statistics, and the candidate selection of the dispatcher with
  its native tier and spill grace.

  Every mutex-protected map is an association list of the record \<open>registry\<close>. The clock is an
  argument \<open>now\<close> of the operations that read \<open>Instant::now()\<close>, counted in nanoseconds from an
  arbitrary origin, so that \<open>duration_since\<close> and \<open>elapsed\<close> are the truncated subtraction of the
  natural numbers. Counters keep their width with the wrap-around written out. The SSH session
  and the abort handle of a connection belong to \<open>russh\<close> and \<open>tokio\<close>; the registry only
  stores and returns them, and they are numbers here. A lifecycle channel is an entry of
  \<open>channels\<close>: the buffered events and whether the receiver is alive; the map
  \<open>in_flight_builds\<close> holds the sender, that is the number of the channel, and
  \<open>waiting\<close> the cloned senders of the blocked calls of \<open>forward_build_event\<close>.
\<close>

section \<open>Data\<close>

datatype conn_state = ConnActive | ConnDisconnecting

datatype build_phase = Push | Build | Pull

fun phase_as_str :: "build_phase \<Rightarrow> string" where
  "phase_as_str Push = ''push''"
| "phase_as_str Build = ''build''"
| "phase_as_str Pull = ''pull''"

datatype build_outcome_status =
  OutSuccess | OutFailure | OutTimeout | OutKilled | OutSpawnFailed

datatype build_lifecycle =
    Started "nat option"
  | LogChunk bytes
  | Finished build_outcome_status "int option" "string list" bool

datatype try_forward = Delivered | NoReceiver | Full build_lifecycle

text \<open>The two \<open>f32\<close> fields of a statistics sample are kept as their bit patterns: the registry
  never computes with them.\<close>

record builder_stats =
  load1 :: nat
  cpu_percent :: nat
  mem_used_bytes :: nat
  mem_total_bytes :: nat

record stats_sample =
  ss_ts :: nat
  ss_stats :: builder_stats

record conn_builder =
  cb_builder_id :: builder_id
  cb_capabilities :: capabilities
  cb_state :: conn_state
  cb_connected_since :: nat
  cb_connection_id :: nat
  cb_session :: "nat option"
  cb_last_activity :: nat
  cb_abort :: "nat option"

record snapshot =
  sn_name :: builder_name
  sn_builder_id :: builder_id
  sn_capabilities :: capabilities
  sn_state :: conn_state
  sn_connected_since :: nat
  sn_in_flight :: nat
  sn_connection_id :: nat

record displaced =
  dc_name :: builder_name
  dc_session :: "nat option"
  dc_abort :: "nat option"

record channel =
  ch_queue :: "build_lifecycle list"
  ch_receiver :: bool

type_synonym build_key = "builder_name \<times> int"

record registry =
  rg_inner :: "(builder_name, conn_builder) hashmap"
  rg_in_flight :: "(builder_name, nat) hashmap"
  rg_next_conn_id :: nat
  rg_in_flight_builds :: "(build_key, nat) hashmap"
  rg_phases :: "(build_key, build_phase) hashmap"
  rg_stats :: "(builder_name, stats_sample list) hashmap"
  rg_last_native_seen :: "(string, nat) hashmap"
  rg_spill_grace :: nat
  rg_channels :: "(nat, channel) hashmap"
  rg_next_channel :: nat
  rg_waiting :: "(nat \<times> build_lifecycle) list"

definition registry_new :: registry where
  "registry_new = \<lparr>rg_inner = [], rg_in_flight = [], rg_next_conn_id = 0,
     rg_in_flight_builds = [], rg_phases = [], rg_stats = [], rg_last_native_seen = [],
     rg_spill_grace = 0, rg_channels = [], rg_next_channel = 0, rg_waiting = []\<rparr>"

definition stats_ring_capacity :: nat where
  "stats_ring_capacity = 60"

definition lifecycle_capacity :: nat where
  "lifecycle_capacity = 4096"

section \<open>Connections\<close>

definition next_connection_id :: "registry \<Rightarrow> nat \<times> registry" where
  "next_connection_id r =
     (rg_next_conn_id r, r\<lparr>rg_next_conn_id := (rg_next_conn_id r + 1) mod 2 ^ 64\<rparr>)"

definition note_native_seen :: "nat \<Rightarrow> string \<Rightarrow> registry \<Rightarrow> registry" where
  "note_native_seen now system r =
     (if system = [] then r
      else r\<lparr>rg_last_native_seen := hm_insert system now (rg_last_native_seen r)\<rparr>)"

definition keys_of :: "builder_name \<Rightarrow> (build_key, 'v) hashmap \<Rightarrow> build_key list" where
  "keys_of name m = filter (\<lambda>k. fst k = name) (hm_keys m)"

definition remove_keys :: "build_key list \<Rightarrow> (build_key, 'v) hashmap \<Rightarrow> (build_key, 'v) hashmap" where
  "remove_keys ks m = fold hm_remove ks m"

definition drain_in_flight_for :: "builder_name \<Rightarrow> registry \<Rightarrow> int list \<times> registry" where
  "drain_in_flight_for name r =
     (let ks = keys_of name (rg_in_flight_builds r)
      in (map snd ks,
          r\<lparr>rg_in_flight_builds := remove_keys ks (rg_in_flight_builds r),
            rg_phases := remove_keys (keys_of name (rg_phases r)) (rg_phases r)\<rparr>))"

definition register ::
  "nat \<Rightarrow> builder_name \<Rightarrow> conn_builder \<Rightarrow> registry \<Rightarrow> displaced option \<times> registry" where
  "register now name conn r =
     (let r1 = note_native_seen now (cap_native_system (cb_capabilities conn)) r;
          prior = hm_get (rg_inner r1) name;
          r2 = r1\<lparr>rg_inner := hm_insert name conn (rg_inner r1),
                  rg_stats := hm_remove name (rg_stats r1)\<rparr>
      in case prior of
           None \<Rightarrow> (None, r2)
         | Some p \<Rightarrow>
             (Some \<lparr>dc_name = name, dc_session = cb_session p, dc_abort = cb_abort p\<rparr>,
              snd (drain_in_flight_for name r2)))"

definition touch_activity :: "nat \<Rightarrow> builder_name \<Rightarrow> registry \<Rightarrow> registry" where
  "touch_activity now name r =
     r\<lparr>rg_inner := hm_modify name (\<lambda>c. c\<lparr>cb_last_activity := now\<rparr>) (rg_inner r)\<rparr>"

definition transferring :: "registry \<Rightarrow> builder_name list" where
  "transferring r = map (fst \<circ> fst) (filter (\<lambda>(_, p). p = Push \<or> p = Pull) (rg_phases r))"

definition stale_builders :: "nat \<Rightarrow> nat \<Rightarrow> nat \<Rightarrow> registry \<Rightarrow> builder_name list" where
  "stale_builders now idle_max transfer_max r =
     map fst (filter (\<lambda>(name, c).
         (if name \<in> set (transferring r) then transfer_max else idle_max)
           < now - cb_last_activity c) (rg_inner r))"

text \<open>\<open>evict_dead\<close> returns whether a builder was evicted and the session task it aborts.\<close>

definition evict_dead ::
  "nat \<Rightarrow> builder_name \<Rightarrow> registry \<Rightarrow> bool \<times> nat option \<times> registry" where
  "evict_dead now name r =
     (case hm_get (rg_inner r) name of
        None \<Rightarrow> (False, None, r)
      | Some c \<Rightarrow>
          (let r1 = r\<lparr>rg_inner := hm_remove name (rg_inner r),
                      rg_in_flight := hm_remove name (rg_in_flight r),
                      rg_stats := hm_remove name (rg_stats r)\<rparr>;
               r2 = note_native_seen now (cap_native_system (cb_capabilities c)) r1
           in (True, cb_abort c, snd (drain_in_flight_for name r2))))"

definition mark_disconnecting :: "builder_name \<Rightarrow> registry \<Rightarrow> registry" where
  "mark_disconnecting name r =
     r\<lparr>rg_inner := hm_modify name (\<lambda>c. c\<lparr>cb_state := ConnDisconnecting\<rparr>) (rg_inner r)\<rparr>"

text \<open>Each operation is one step of the model. \<open>remove_if_matches\<close> (as \<open>evict_dead\<close>) releases the lock of the connections
  before it notes the departure and closes the channels, so a reader in between sees the builder gone and neither done
  yet; that moment is not a state here.\<close>

definition remove_if_matches :: "nat \<Rightarrow> builder_name \<Rightarrow> nat \<Rightarrow> registry \<Rightarrow> registry" where
  "remove_if_matches now name connection_id r =
     (case hm_get (rg_inner r) name of
        None \<Rightarrow> r
      | Some c \<Rightarrow>
          if cb_connection_id c = connection_id
          then (let r1 = r\<lparr>rg_inner := hm_remove name (rg_inner r),
                           rg_in_flight := hm_remove name (rg_in_flight r),
                           rg_stats := hm_remove name (rg_stats r)\<rparr>;
                    r2 = note_native_seen now (cap_native_system (cb_capabilities c)) r1
                in snd (drain_in_flight_for name r2))
          else r)"

section \<open>Snapshots and candidate selection\<close>

definition load_of :: "registry \<Rightarrow> builder_name \<Rightarrow> nat" where
  "load_of r name = (case hm_get (rg_in_flight r) name of Some n \<Rightarrow> n | None \<Rightarrow> 0)"

definition snapshot_of :: "registry \<Rightarrow> builder_name \<Rightarrow> conn_builder \<Rightarrow> snapshot" where
  "snapshot_of r name c =
     \<lparr>sn_name = name, sn_builder_id = cb_builder_id c, sn_capabilities = cb_capabilities c,
      sn_state = cb_state c, sn_connected_since = cb_connected_since c,
      sn_in_flight = load_of r name, sn_connection_id = cb_connection_id c\<rparr>"

definition snapshot :: "registry \<Rightarrow> builder_name \<Rightarrow> snapshot option" where
  "snapshot r name = map_option (snapshot_of r name) (hm_get (rg_inner r) name)"

definition list_builders :: "registry \<Rightarrow> snapshot list" where
  "list_builders r =
     sort_key (bname_str \<circ> sn_name) (map (\<lambda>(name, c). snapshot_of r name c) (rg_inner r))"

definition native_holdoff_active :: "nat \<Rightarrow> registry \<Rightarrow> string \<Rightarrow> bool" where
  "native_holdoff_active now r system =
     (if rg_spill_grace r = 0 then False
      else if list_ex (\<lambda>c. cb_state c = ConnActive
                \<and> cap_native_system (cb_capabilities c) = system) (hm_values (rg_inner r))
      then True
      else (case hm_get (rg_last_native_seen r) system of
              None \<Rightarrow> False
            | Some t \<Rightarrow> now - t < rg_spill_grace r))"

definition system_candidates :: "nat \<Rightarrow> registry \<Rightarrow> string \<Rightarrow> nat set \<Rightarrow> snapshot list" where
  "system_candidates now r system exclude =
     (let supporting =
            filter (\<lambda>b. system \<in> set (cap_systems (sn_capabilities b)))
              (filter (\<lambda>b. sn_connection_id b \<notin> exclude)
                (filter (\<lambda>b. sn_state b = ConnActive) (list_builders r)));
          native = (\<lambda>b. cap_native_system (sn_capabilities b) = system)
      in if list_ex native supporting then filter native supporting
         else if native_holdoff_active now r system then []
         else supporting)"

definition has_features :: "string list \<Rightarrow> snapshot \<Rightarrow> bool" where
  "has_features features b =
     list_all (\<lambda>f. f \<in> set (cap_features (sn_capabilities b))) features"

definition set_spill_grace :: "nat \<Rightarrow> registry \<Rightarrow> registry" where
  "set_spill_grace grace r = r\<lparr>rg_spill_grace := grace\<rparr>"

definition eligible ::
  "nat \<Rightarrow> registry \<Rightarrow> string \<Rightarrow> string list \<Rightarrow> nat set \<Rightarrow> snapshot list" where
  "eligible now r system features exclude =
     sort_key sn_in_flight
       (filter (\<lambda>b. sn_in_flight b < cap_max_jobs (sn_capabilities b))
         (filter (has_features features) (system_candidates now r system exclude)))"

definition any_matching_builder ::
  "nat \<Rightarrow> registry \<Rightarrow> string \<Rightarrow> string list \<Rightarrow> nat set \<Rightarrow> bool" where
  "any_matching_builder now r system features exclude =
     (if list_ex (has_features features) (system_candidates now r system exclude) then True
      else native_holdoff_active now r system)"

definition session :: "registry \<Rightarrow> builder_name \<Rightarrow> nat option" where
  "session r name = (case hm_get (rg_inner r) name of None \<Rightarrow> None | Some c \<Rightarrow> cb_session c)"

section \<open>Load, lifecycle channels, phases and statistics\<close>

definition inc_in_flight :: "builder_name \<Rightarrow> registry \<Rightarrow> registry" where
  "inc_in_flight name r =
     r\<lparr>rg_in_flight :=
         hm_modify name (\<lambda>v. (v + 1) mod 2 ^ 32) (hm_entry name 0 (rg_in_flight r))\<rparr>"

definition dec_in_flight :: "builder_name \<Rightarrow> registry \<Rightarrow> registry" where
  "dec_in_flight name r = r\<lparr>rg_in_flight := hm_modify name (\<lambda>v. v - 1) (rg_in_flight r)\<rparr>"

text \<open>The call returns the receiver: the number of the fresh channel.\<close>

definition register_in_flight_build ::
  "builder_name \<Rightarrow> int \<Rightarrow> registry \<Rightarrow> nat \<times> registry" where
  "register_in_flight_build name build_id r =
     (let ch = rg_next_channel r
      in (ch, r\<lparr>rg_in_flight_builds := hm_insert (name, build_id) ch (rg_in_flight_builds r),
                rg_channels := hm_insert ch \<lparr>ch_queue = [], ch_receiver = True\<rparr> (rg_channels r),
                rg_next_channel := ch + 1\<rparr>))"

definition unregister_in_flight_build :: "builder_name \<Rightarrow> int \<Rightarrow> registry \<Rightarrow> registry" where
  "unregister_in_flight_build name build_id r =
     r\<lparr>rg_in_flight_builds := hm_remove (name, build_id) (rg_in_flight_builds r)\<rparr>"

text \<open>\<open>mpsc::Sender::try_send\<close> on a channel of capacity 4096.\<close>

datatype try_send_result = SendOk | SendFull | SendClosed

definition try_send :: "nat \<Rightarrow> build_lifecycle \<Rightarrow> registry \<Rightarrow> try_send_result \<times> registry" where
  "try_send ch event r =
     (case hm_get (rg_channels r) ch of
        None \<Rightarrow> (SendClosed, r)
      | Some c \<Rightarrow>
          if \<not> ch_receiver c then (SendClosed, r)
          else if length (ch_queue c) < lifecycle_capacity
          then (SendOk, r\<lparr>rg_channels :=
                  hm_insert ch (c\<lparr>ch_queue := ch_queue c @ [event]\<rparr>) (rg_channels r)\<rparr>)
          else (SendFull, r))"

definition try_forward_build_event ::
  "builder_name \<Rightarrow> int \<Rightarrow> build_lifecycle \<Rightarrow> registry \<Rightarrow> try_forward \<times> registry" where
  "try_forward_build_event name build_id event r =
     (case hm_get (rg_in_flight_builds r) (name, build_id) of
        None \<Rightarrow> (NoReceiver, r)
      | Some ch \<Rightarrow>
          (case try_send ch event r of
             (SendOk, r') \<Rightarrow> (Delivered, r')
           | (SendFull, r') \<Rightarrow> (Full event, r')
           | (SendClosed, r') \<Rightarrow> (NoReceiver, r')))"

text \<open>\<open>forward_build_event\<close> up to its \<open>await\<close>: the returned boolean, or \<open>None\<close> when the call
  blocks holding its clone of the sender. \<open>forward_resume\<close> is the send once it is polled
  again.\<close>

definition forward_build_event ::
  "builder_name \<Rightarrow> int \<Rightarrow> build_lifecycle \<Rightarrow> registry \<Rightarrow> bool option \<times> registry" where
  "forward_build_event name build_id event r =
     (case hm_get (rg_in_flight_builds r) (name, build_id) of
        None \<Rightarrow> (Some False, r)
      | Some ch \<Rightarrow>
          (case try_send ch event r of
             (SendOk, r') \<Rightarrow> (Some True, r')
           | (SendFull, r') \<Rightarrow> (None, r'\<lparr>rg_waiting := rg_waiting r' @ [(ch, event)]\<rparr>)
           | (SendClosed, r') \<Rightarrow> (Some False, r')))"

definition forward_resume ::
  "nat \<Rightarrow> build_lifecycle \<Rightarrow> registry \<Rightarrow> bool option \<times> registry" where
  "forward_resume ch event r =
     (case try_send ch event r of
        (SendOk, r') \<Rightarrow> (Some True, r'\<lparr>rg_waiting := remove1 (ch, event) (rg_waiting r')\<rparr>)
      | (SendFull, r') \<Rightarrow> (None, r')
      | (SendClosed, r') \<Rightarrow> (Some False, r'\<lparr>rg_waiting := remove1 (ch, event) (rg_waiting r')\<rparr>))"

text \<open>\<open>Receiver::recv\<close>: the next event, the end of the stream once every sender is gone, or
  a wait.\<close>

datatype recv_result = RecvEvent build_lifecycle | RecvClosed | RecvWait

definition has_sender :: "registry \<Rightarrow> nat \<Rightarrow> bool" where
  "has_sender r ch \<longleftrightarrow>
     ch \<in> set (hm_values (rg_in_flight_builds r)) \<or> ch \<in> set (map fst (rg_waiting r))"

definition recv :: "nat \<Rightarrow> registry \<Rightarrow> recv_result \<times> registry" where
  "recv ch r =
     (case hm_get (rg_channels r) ch of
        None \<Rightarrow> (RecvClosed, r)
      | Some c \<Rightarrow>
          (case ch_queue c of
             e # es \<Rightarrow> (RecvEvent e,
               r\<lparr>rg_channels := hm_insert ch (c\<lparr>ch_queue := es\<rparr>) (rg_channels r)\<rparr>)
           | [] \<Rightarrow> (if has_sender r ch then RecvWait else RecvClosed, r)))"

definition drop_receiver :: "nat \<Rightarrow> registry \<Rightarrow> registry" where
  "drop_receiver ch r =
     r\<lparr>rg_channels :=
         hm_modify ch (\<lambda>c. c\<lparr>ch_queue := [], ch_receiver := False\<rparr>) (rg_channels r)\<rparr>"

definition set_phase :: "builder_name \<Rightarrow> int \<Rightarrow> build_phase \<Rightarrow> registry \<Rightarrow> registry" where
  "set_phase name build_id phase r =
     r\<lparr>rg_phases := hm_insert (name, build_id) phase (rg_phases r)\<rparr>"

definition clear_phase :: "builder_name \<Rightarrow> int \<Rightarrow> registry \<Rightarrow> registry" where
  "clear_phase name build_id r =
     r\<lparr>rg_phases := hm_remove (name, build_id) (rg_phases r)\<rparr>"

definition phase_snapshot :: "registry \<Rightarrow> (string \<times> int, build_phase) hashmap" where
  "phase_snapshot r = map (\<lambda>((n, i), p). ((bname_str n, i), p)) (rg_phases r)"

definition push_stats :: "builder_name \<Rightarrow> nat \<Rightarrow> builder_stats \<Rightarrow> registry \<Rightarrow> registry" where
  "push_stats name ts stats r =
     r\<lparr>rg_stats :=
         hm_modify name
           (\<lambda>ring. (if length ring = stats_ring_capacity then tl ring else ring)
              @ [\<lparr>ss_ts = ts, ss_stats = stats\<rparr>])
           (hm_entry name [] (rg_stats r))\<rparr>"

definition stats_snapshot :: "registry \<Rightarrow> builder_name \<Rightarrow> stats_sample list" where
  "stats_snapshot r name = (case hm_get (rg_stats r) name of None \<Rightarrow> [] | Some ring \<Rightarrow> ring)"

definition builder_for_build :: "registry \<Rightarrow> int \<Rightarrow> builder_name option" where
  "builder_for_build r build_id =
     map_option fst (List.find (\<lambda>k. snd k = build_id) (hm_keys (rg_phases r)))"

text \<open>The guards of \<open>argunix-daemon/src/worker.rs\<close> around a dispatched derivation: \<open>BuilderSlot\<close>
  counts one build on a builder and \<open>PhaseGuard\<close> owns its phase entry. A slot is the name it
  was reserved for.\<close>

datatype builder_slot = BuilderSlot builder_name

definition slot_reserve :: "builder_name \<Rightarrow> registry \<Rightarrow> builder_slot \<times> registry" where
  "slot_reserve name r = (BuilderSlot name, inc_in_flight name r)"

fun slot_drop :: "builder_slot \<Rightarrow> registry \<Rightarrow> registry" where
  "slot_drop (BuilderSlot name) r = dec_in_flight name r"

datatype phase_guard = PhaseGuard builder_name int

fun phase_guard_set :: "phase_guard \<Rightarrow> build_phase \<Rightarrow> registry \<Rightarrow> registry" where
  "phase_guard_set (PhaseGuard name i) phase r = set_phase name i phase r"

fun phase_guard_drop :: "phase_guard \<Rightarrow> registry \<Rightarrow> registry" where
  "phase_guard_drop (PhaseGuard name i) r = clear_phase name i r"

end
