(* ===== verification/Registry_Props.thy ===== *)
theory Registry_Props
  imports Registry
begin

text \<open>
  Correctness of the builder registry: the well-formedness of every state a sequence of calls
  can reach, the exact candidate set of \<open>eligible\<close>, the native tier over time, the closing of
  the lifecycle channels when a builder departs, the protection of a takeover against the
  stale connection, and the statistics ring.
\<close>

named_theorems reg_defs

lemmas [reg_defs] = touch_activity_def mark_disconnecting_def inc_in_flight_def
  dec_in_flight_def unregister_in_flight_build_def set_phase_def clear_phase_def push_stats_def
  drop_receiver_def set_spill_grace_def note_native_seen_def

section \<open>Sequences of calls\<close>

datatype reg_op =
    OpAccept
  | OpHello builder_name conn_builder
  | OpTouch builder_name
  | OpEvict builder_name
  | OpMark builder_name
  | OpDrop builder_name nat
  | OpInc builder_name
  | OpDec builder_name
  | OpBuild builder_name int
  | OpUnbuild builder_name int
  | OpForward builder_name int build_lifecycle
  | OpTryForward builder_name int build_lifecycle
  | OpResume nat build_lifecycle
  | OpRecv nat
  | OpDropReceiver nat
  | OpSetPhase builder_name int build_phase
  | OpClearPhase builder_name int
  | OpStats builder_name nat builder_stats

fun reg_apply :: "nat \<Rightarrow> reg_op \<Rightarrow> registry \<Rightarrow> registry" where
  "reg_apply now OpAccept r = snd (next_connection_id r)"
| "reg_apply now (OpHello name c) r = snd (register now name c r)"
| "reg_apply now (OpTouch name) r = touch_activity now name r"
| "reg_apply now (OpEvict name) r = snd (snd (evict_dead now name r))"
| "reg_apply now (OpMark name) r = mark_disconnecting name r"
| "reg_apply now (OpDrop name i) r = remove_if_matches now name i r"
| "reg_apply now (OpInc name) r = inc_in_flight name r"
| "reg_apply now (OpDec name) r = dec_in_flight name r"
| "reg_apply now (OpBuild name i) r = snd (register_in_flight_build name i r)"
| "reg_apply now (OpUnbuild name i) r = unregister_in_flight_build name i r"
| "reg_apply now (OpForward name i e) r = snd (forward_build_event name i e r)"
| "reg_apply now (OpTryForward name i e) r = snd (try_forward_build_event name i e r)"
| "reg_apply now (OpResume ch e) r = snd (forward_resume ch e r)"
| "reg_apply now (OpRecv ch) r = snd (recv ch r)"
| "reg_apply now (OpDropReceiver ch) r = drop_receiver ch r"
| "reg_apply now (OpSetPhase name i p) r = set_phase name i p r"
| "reg_apply now (OpClearPhase name i) r = clear_phase name i r"
| "reg_apply now (OpStats name ts st) r = push_stats name ts st r"

definition reg_run :: "(nat \<times> reg_op) list \<Rightarrow> registry \<Rightarrow> registry" where
  "reg_run ops r = fold (\<lambda>(now, op). reg_apply now op) ops r"

lemma reg_run_simps [simp]:
  "reg_run [] r = r"
  "reg_run ((now, op) # ops) r = reg_run ops (reg_apply now op r)"
  by (simp_all add: reg_run_def)

lemma reg_run_preserves:
  assumes "\<And>now op r. (now, op) \<in> set ops \<Longrightarrow> P r \<Longrightarrow> P (reg_apply now op r)" and "P r"
  shows "P (reg_run ops r)"
  using assms by (induction ops arbitrary: r) (auto simp: reg_run_def)

section \<open>Well-formed states\<close>

text \<open>Distinct keys everywhere; the stored senders are pairwise different live channels;
  channels and rings are within their capacity.\<close>

definition reg_ok :: "registry \<Rightarrow> bool" where
  "reg_ok r \<longleftrightarrow>
     hm_ok (rg_inner r) \<and> hm_ok (rg_in_flight r) \<and> hm_ok (rg_in_flight_builds r)
   \<and> hm_ok (rg_phases r) \<and> hm_ok (rg_stats r) \<and> hm_ok (rg_last_native_seen r)
   \<and> hm_ok (rg_channels r)
   \<and> inj_on (map_of (rg_in_flight_builds r)) (dom (map_of (rg_in_flight_builds r)))
   \<and> (\<forall>k ch. map_of (rg_in_flight_builds r) k = Some ch \<longrightarrow>
        ch < rg_next_channel r \<and> map_of (rg_channels r) ch \<noteq> None)
   \<and> (\<forall>ch c. map_of (rg_channels r) ch = Some c \<longrightarrow>
        ch < rg_next_channel r \<and> length (ch_queue c) \<le> lifecycle_capacity)
   \<and> (\<forall>n ring. map_of (rg_stats r) n = Some ring \<longrightarrow> length ring \<le> stats_ring_capacity)"

lemma reg_okI:
  assumes "hm_ok (rg_inner r)" "hm_ok (rg_in_flight r)" "hm_ok (rg_in_flight_builds r)"
    "hm_ok (rg_phases r)" "hm_ok (rg_stats r)" "hm_ok (rg_last_native_seen r)"
    "hm_ok (rg_channels r)"
    "inj_on (map_of (rg_in_flight_builds r)) (dom (map_of (rg_in_flight_builds r)))"
    "\<And>k ch. map_of (rg_in_flight_builds r) k = Some ch \<Longrightarrow>
       ch < rg_next_channel r \<and> map_of (rg_channels r) ch \<noteq> None"
    "\<And>ch c. map_of (rg_channels r) ch = Some c \<Longrightarrow>
       ch < rg_next_channel r \<and> length (ch_queue c) \<le> lifecycle_capacity"
    "\<And>n ring. map_of (rg_stats r) n = Some ring \<Longrightarrow> length ring \<le> stats_ring_capacity"
  shows "reg_ok r"
  using assms unfolding reg_ok_def by blast

lemma reg_okD:
  assumes "reg_ok r"
  shows "hm_ok (rg_inner r)" "hm_ok (rg_in_flight r)" "hm_ok (rg_in_flight_builds r)"
    "hm_ok (rg_phases r)" "hm_ok (rg_stats r)" "hm_ok (rg_last_native_seen r)"
    "hm_ok (rg_channels r)"
    "inj_on (map_of (rg_in_flight_builds r)) (dom (map_of (rg_in_flight_builds r)))"
    "\<And>k ch. map_of (rg_in_flight_builds r) k = Some ch \<Longrightarrow>
       ch < rg_next_channel r \<and> map_of (rg_channels r) ch \<noteq> None"
    "\<And>ch c. map_of (rg_channels r) ch = Some c \<Longrightarrow>
       ch < rg_next_channel r \<and> length (ch_queue c) \<le> lifecycle_capacity"
    "\<And>n ring. map_of (rg_stats r) n = Some ring \<Longrightarrow> length ring \<le> stats_ring_capacity"
  using assms unfolding reg_ok_def by blast+

lemma reg_ok_channel_inj:
  "reg_ok r \<Longrightarrow> map_of (rg_in_flight_builds r) k = Some ch \<Longrightarrow>
   map_of (rg_in_flight_builds r) k' = Some ch \<Longrightarrow> k = k'"
  using reg_okD(8) [of r] by (metis domI inj_onD)

subsection \<open>Removing all keys of a builder\<close>

lemma remove_keys_get:
  "map_of (remove_keys ks m) k = (if k \<in> set ks then None else map_of m k)"
  by (induction ks arbitrary: m) (auto simp: remove_keys_def hm_simps)

lemma remove_keys_ok [simp]: "hm_ok m \<Longrightarrow> hm_ok (remove_keys ks m)"
  by (induction ks arbitrary: m) (auto simp: remove_keys_def)

lemma keys_of_set: "k \<in> set (keys_of name m) \<longleftrightarrow> fst k = name \<and> map_of m k \<noteq> None"
  by (auto simp: keys_of_def map_of_eq_None_iff image_iff)

lemma drained_get [hm_simps]:
  "map_of (remove_keys (keys_of name m) m) k = (if fst k = name then None else map_of m k)"
  by (auto simp: remove_keys_get keys_of_set)

lemma inj_on_mono_map:
  assumes "inj_on m (dom m)" and "\<And>k. m' k = None \<or> m' k = m k"
  shows "inj_on m' (dom m')"
proof (rule inj_onI)
  fix x y assume xy: "x \<in> dom m'" "y \<in> dom m'" "m' x = m' y"
  then have "m' x = m x" "m' y = m y" using assms(2) [of x] assms(2) [of y] by auto
  with xy have "x \<in> dom m" "y \<in> dom m" "m x = m y" by (auto simp: dom_def)
  then show "x = y" using assms(1) by (auto dest: inj_onD)
qed

subsection \<open>Preservation\<close>

lemma reg_ok_frame:
  assumes "reg_ok r" and "hm_ok (rg_inner r')" and "hm_ok (rg_in_flight r')"
    and "hm_ok (rg_phases r')" and "hm_ok (rg_stats r')" and "hm_ok (rg_last_native_seen r')"
    and "rg_channels r' = rg_channels r" and "rg_next_channel r' = rg_next_channel r"
    and "hm_ok (rg_in_flight_builds r')"
    and "\<And>k. map_of (rg_in_flight_builds r') k = None
           \<or> map_of (rg_in_flight_builds r') k = map_of (rg_in_flight_builds r) k"
    and "\<And>n ring. map_of (rg_stats r') n = Some ring \<Longrightarrow> length ring \<le> stats_ring_capacity"
  shows "reg_ok r'"
proof (rule reg_okI)
  show "inj_on (map_of (rg_in_flight_builds r')) (dom (map_of (rg_in_flight_builds r')))"
    using inj_on_mono_map [OF reg_okD(8) [OF assms(1)] assms(10)] .
  show "ch < rg_next_channel r' \<and> map_of (rg_channels r') ch \<noteq> None"
    if "map_of (rg_in_flight_builds r') k = Some ch" for k ch
  proof -
    have "map_of (rg_in_flight_builds r) k = Some ch" using assms(10) [of k] that by auto
    then show ?thesis using reg_okD(9) [OF assms(1)] assms(7,8) by simp
  qed
  show "ch < rg_next_channel r' \<and> length (ch_queue c) \<le> lifecycle_capacity"
    if "map_of (rg_channels r') ch = Some c" for ch c
    using reg_okD(10) [OF assms(1)] that assms(7,8) by simp
  show "hm_ok (rg_channels r')" using reg_okD(7) [OF assms(1)] assms(7) by simp
qed (fact assms)+

lemma reg_ok_new: "reg_ok registry_new"
  by (simp add: reg_ok_def registry_new_def)

lemma push_stats_ring:
  assumes "reg_ok r" and "map_of (rg_stats (push_stats name ts st r)) n = Some ring"
  shows "length ring \<le> stats_ring_capacity"
proof (cases "n = name")
  case False
  then show ?thesis using assms reg_okD(11) [OF assms(1)] by (simp add: push_stats_def hm_simps)
next
  case True
  have "length ring0 \<le> stats_ring_capacity" if "map_of (rg_stats r) name = Some ring0" for ring0
    using reg_okD(11) [OF assms(1)] that .
  with True assms(2) show ?thesis
    by (auto simp: push_stats_def hm_simps stats_ring_capacity_def split: option.splits if_splits)
qed

lemma reg_ok_drain: "reg_ok r \<Longrightarrow> reg_ok (snd (drain_in_flight_for name r))"
  by (rule reg_ok_frame [where r = r])
    (auto simp: drain_in_flight_for_def Let_def hm_simps dest: reg_okD)

lemma reg_ok_note: "reg_ok r \<Longrightarrow> reg_ok (note_native_seen now s r)"
  by (rule reg_ok_frame [where r = r]) (auto simp: note_native_seen_def dest: reg_okD
      split: if_splits)

lemma reg_ok_updates [simp]:
  "reg_ok (r\<lparr>rg_next_conn_id := i\<rparr>) = reg_ok r"
  "reg_ok (r\<lparr>rg_waiting := w\<rparr>) = reg_ok r"
  "reg_ok r \<Longrightarrow> hm_ok inner \<Longrightarrow> reg_ok (r\<lparr>rg_inner := inner\<rparr>)"
  "reg_ok r \<Longrightarrow> hm_ok in_flight \<Longrightarrow> reg_ok (r\<lparr>rg_in_flight := in_flight\<rparr>)"
  "reg_ok r \<Longrightarrow> hm_ok phases \<Longrightarrow> reg_ok (r\<lparr>rg_phases := phases\<rparr>)"
  by (simp_all add: reg_ok_def)

lemmas reg_ok_maps [simp] = reg_okD(1-7)

lemma reg_ok_unbuild: "reg_ok r \<Longrightarrow> reg_ok (unregister_in_flight_build name i r)"
  by (rule reg_ok_frame [where r = r])
    (auto simp: unregister_in_flight_build_def hm_simps dest: reg_okD)

lemma reg_ok_without:
  assumes "reg_ok r" and "hm_ok inner" and "hm_ok in_flight"
  shows "reg_ok (r\<lparr>rg_inner := inner, rg_in_flight := in_flight,
                   rg_stats := hm_remove name (rg_stats r)\<rparr>)"
  by (rule reg_ok_frame [OF assms(1)])
    (use assms reg_okD [OF assms(1)] in \<open>auto simp: hm_simps split: if_splits\<close>)

lemma reg_ok_try_send:
  assumes "reg_ok r"
  shows "reg_ok (snd (try_send ch e r))"
proof -
  have "reg_ok (r\<lparr>rg_channels :=
      hm_insert ch (c\<lparr>ch_queue := ch_queue c @ [e]\<rparr>) (rg_channels r)\<rparr>)"
    if "map_of (rg_channels r) ch = Some c" "length (ch_queue c) < lifecycle_capacity" for c
    by (rule reg_okI)
      (use that reg_okD [OF assms] in \<open>auto simp: hm_simps split: if_splits\<close>)
  with assms show ?thesis by (auto simp: try_send_def split: option.splits)
qed

lemma reg_ok_forward: "reg_ok r \<Longrightarrow> reg_ok (snd (forward_build_event name i e r))"
  and reg_ok_try_forward: "reg_ok r \<Longrightarrow> reg_ok (snd (try_forward_build_event name i e r))"
  and reg_ok_resume: "reg_ok r \<Longrightarrow> reg_ok (snd (forward_resume ch e r))"
  using reg_ok_try_send [of r]
  by (auto simp: forward_build_event_def try_forward_build_event_def forward_resume_def
      split: option.splits prod.splits try_send_result.splits)
    (metis snd_conv)+

lemma reg_ok_recv:
  assumes "reg_ok r"
  shows "reg_ok (snd (recv ch r))"
proof -
  have "reg_ok (r\<lparr>rg_channels := hm_insert ch (c\<lparr>ch_queue := es\<rparr>) (rg_channels r)\<rparr>)"
    if "map_of (rg_channels r) ch = Some c" "ch_queue c = x # es" for c x es
  proof (rule reg_okI)
    fix ch' c'
    assume "map_of (rg_channels (r\<lparr>rg_channels :=
      hm_insert ch (c\<lparr>ch_queue := es\<rparr>) (rg_channels r)\<rparr>)) ch' = Some c'"
    then show "ch' < rg_next_channel (r\<lparr>rg_channels :=
      hm_insert ch (c\<lparr>ch_queue := es\<rparr>) (rg_channels r)\<rparr>) \<and> length (ch_queue c') \<le> lifecycle_capacity"
      using that reg_okD(10) [OF assms, of ch c] reg_okD(10) [OF assms, of ch' c']
      by (auto simp: hm_simps split: if_splits)
  qed (use reg_okD [OF assms] in \<open>auto simp: hm_simps\<close>)
  with assms show ?thesis by (auto simp: recv_def split: option.splits list.splits)
qed

lemma reg_ok_build:
  assumes "reg_ok r"
  shows "reg_ok (snd (register_in_flight_build name i r))"
proof -
  let ?r = "snd (register_in_flight_build name i r)"
  have fresh: "map_of (rg_in_flight_builds r) k \<noteq> Some (rg_next_channel r)" for k
    using reg_okD(9) [OF assms, of k "rg_next_channel r"] by auto
  show ?thesis
  proof (rule reg_okI)
    show "inj_on (map_of (rg_in_flight_builds ?r)) (dom (map_of (rg_in_flight_builds ?r)))"
    proof (rule inj_onI)
      fix x y
      assume x: "x \<in> dom (map_of (rg_in_flight_builds ?r))"
        and eq: "map_of (rg_in_flight_builds ?r) x = map_of (rg_in_flight_builds ?r) y"
      from x have "map_of (rg_in_flight_builds ?r) x \<noteq> None" by (simp add: dom_def)
      with eq fresh [of x] fresh [of y] show "x = y"
        by (auto simp: register_in_flight_build_def Let_def hm_simps split: if_splits
            intro: reg_ok_channel_inj [OF assms])
    qed
    show "ch < rg_next_channel ?r \<and> map_of (rg_channels ?r) ch \<noteq> None"
      if "map_of (rg_in_flight_builds ?r) k = Some ch" for k ch
      using that reg_okD(9) [OF assms, of k ch]
      by (auto simp: register_in_flight_build_def Let_def hm_simps split: if_splits)
    show "ch < rg_next_channel ?r \<and> length (ch_queue c) \<le> lifecycle_capacity"
      if "map_of (rg_channels ?r) ch = Some c" for ch c
      using that reg_okD(10) [OF assms, of ch c]
      by (auto simp: register_in_flight_build_def Let_def hm_simps split: if_splits)
  qed (use reg_okD [OF assms] in \<open>auto simp: register_in_flight_build_def Let_def\<close>)
qed

lemma reg_ok_drop_receiver:
  assumes "reg_ok r"
  shows "reg_ok (drop_receiver ch r)"
  by (rule reg_okI)
    (use reg_okD [OF assms] in \<open>auto simp: drop_receiver_def hm_simps split: if_splits\<close>)

lemma reg_ok_register:
  assumes "reg_ok r"
  shows "reg_ok (snd (register now name c r))"
proof -
  let ?r1 = "note_native_seen now (cap_native_system (cb_capabilities c)) r"
  have "reg_ok ?r1" using assms by (rule reg_ok_note)
  from reg_ok_without [OF this, of "hm_insert name c (rg_inner ?r1)" "rg_in_flight ?r1" name]
    reg_okD [OF this]
  have "reg_ok (?r1\<lparr>rg_inner := hm_insert name c (rg_inner ?r1),
                    rg_stats := hm_remove name (rg_stats ?r1)\<rparr>)" by simp
  then show ?thesis by (simp add: register_def Let_def reg_ok_drain split: option.splits)
qed

lemma reg_ok_depart:
  assumes "reg_ok r"
  shows "reg_ok (snd (drain_in_flight_for name (note_native_seen now s
    (r\<lparr>rg_inner := hm_remove name (rg_inner r), rg_in_flight := hm_remove name (rg_in_flight r),
       rg_stats := hm_remove name (rg_stats r)\<rparr>))))"
  by (intro reg_ok_drain reg_ok_note reg_ok_without) (use reg_okD [OF assms] assms in auto)

lemma reg_ok_apply: "reg_ok r \<Longrightarrow> reg_ok (reg_apply now op r)"
proof (cases op)
  case (OpStats n ts st)
  assume "reg_ok r"
  then show ?thesis
    using push_stats_ring [of r n ts st] OpStats
    by (intro reg_ok_frame [where r = r and r' = "reg_apply now op r"])
      (auto simp: push_stats_def dest: reg_okD)
qed (auto intro: reg_ok_register reg_ok_build reg_ok_forward reg_ok_try_forward reg_ok_resume
    reg_ok_recv reg_ok_drop_receiver reg_ok_depart reg_ok_unbuild
    simp: evict_dead_def remove_if_matches_def next_connection_id_def touch_activity_def
      mark_disconnecting_def inc_in_flight_def dec_in_flight_def
      set_phase_def clear_phase_def hm_simps Let_def
    dest: reg_okD split: option.splits)

lemma reg_ok_run: "reg_ok r \<Longrightarrow> reg_ok (reg_run ops r)"
  by (rule reg_run_preserves) (auto intro: reg_ok_apply)

section \<open>Candidate selection\<close>

lemma list_builders_set:
  "hm_ok (rg_inner r) \<Longrightarrow>
   b \<in> set (list_builders r) \<longleftrightarrow> (\<exists>n c. map_of (rg_inner r) n = Some c \<and> b = snapshot_of r n c)"
  by (force simp: list_builders_def hm_in_set [symmetric])

lemma snapshot_of_sel [simp]:
  "sn_name (snapshot_of r n c) = n" "sn_state (snapshot_of r n c) = cb_state c"
  "sn_connection_id (snapshot_of r n c) = cb_connection_id c"
  "sn_capabilities (snapshot_of r n c) = cb_capabilities c"
  "sn_in_flight (snapshot_of r n c) = load_of r n"
  by (simp_all add: snapshot_of_def)

lemma has_features_snapshot [simp]:
  "has_features fs (snapshot_of r n c) \<longleftrightarrow> set fs \<subseteq> set (cap_features (cb_capabilities c))"
  by (auto simp: has_features_def list_all_iff)

lemma distinct_list_builders: "hm_ok (rg_inner r) \<Longrightarrow> distinct (list_builders r)"
proof -
  assume "hm_ok (rg_inner r)"
  then have "distinct (map sn_name (map (\<lambda>(name, c). snapshot_of r name c) (rg_inner r)))"
    by (simp add: comp_def case_prod_beta)
  then show ?thesis
    unfolding list_builders_def distinct_map by (simp add: distinct_map inj_on_imageI2)
qed

text \<open>A connection that may serve a system: active, not excluded, and listing the system.\<close>

definition supports :: "string \<Rightarrow> nat set \<Rightarrow> conn_builder \<Rightarrow> bool" where
  "supports system exclude c \<longleftrightarrow> cb_state c = ConnActive \<and> cb_connection_id c \<notin> exclude
     \<and> system \<in> set (cap_systems (cb_capabilities c))"

definition native_for :: "string \<Rightarrow> conn_builder \<Rightarrow> bool" where
  "native_for system c \<longleftrightarrow> cap_native_system (cb_capabilities c) = system"

definition tier_open :: "nat \<Rightarrow> registry \<Rightarrow> string \<Rightarrow> nat set \<Rightarrow> conn_builder \<Rightarrow> bool" where
  "tier_open now r system exclude c \<longleftrightarrow> native_for system c
     \<or> (\<forall>n c'. map_of (rg_inner r) n = Some c' \<longrightarrow> supports system exclude c'
          \<longrightarrow> \<not> native_for system c') \<and> \<not> native_holdoff_active now r system"

lemma system_candidates_set:
  assumes "hm_ok (rg_inner r)"
  shows "b \<in> set (system_candidates now r system exclude) \<longleftrightarrow>
    (\<exists>n c. map_of (rg_inner r) n = Some c \<and> b = snapshot_of r n c \<and> supports system exclude c
       \<and> tier_open now r system exclude c)"
proof -
  define sup where "sup = filter (\<lambda>b. system \<in> set (cap_systems (sn_capabilities b)))
      (filter (\<lambda>b. sn_connection_id b \<notin> exclude)
        (filter (\<lambda>b. sn_state b = ConnActive) (list_builders r)))"
  have S: "x \<in> set sup \<longleftrightarrow>
      (\<exists>n c. map_of (rg_inner r) n = Some c \<and> x = snapshot_of r n c \<and> supports system exclude c)"
    for x
    unfolding sup_def supports_def set_filter mem_Collect_eq list_builders_set [OF assms]
    by (metis snapshot_of_sel(2-4))
  have N: "list_ex (\<lambda>b. cap_native_system (sn_capabilities b) = system) sup \<longleftrightarrow>
      (\<exists>n c. map_of (rg_inner r) n = Some c \<and> supports system exclude c \<and> native_for system c)"
    unfolding list_ex_iff native_for_def
    by (metis (mono_tags, lifting) S snapshot_of_sel(4))
  show ?thesis
  proof (cases "list_ex (\<lambda>b. cap_native_system (sn_capabilities b) = system) sup")
    case True
    have tier: "supports system exclude c \<Longrightarrow> map_of (rg_inner r) n = Some c \<Longrightarrow>
        tier_open now r system exclude c \<longleftrightarrow> native_for system c" for n c
      using True N unfolding tier_open_def by blast
    have "b \<in> set (system_candidates now r system exclude) \<longleftrightarrow>
        b \<in> set sup \<and> cap_native_system (sn_capabilities b) = system"
      using True by (simp add: system_candidates_def Let_def sup_def)
    moreover have "cap_native_system (sn_capabilities (snapshot_of r n c)) = system \<longleftrightarrow>
        native_for system c" for n c by (simp add: native_for_def)
    ultimately show ?thesis unfolding S using tier by blast
  next
    case False
    have tier: "supports system exclude c \<Longrightarrow> map_of (rg_inner r) n = Some c \<Longrightarrow>
        tier_open now r system exclude c \<longleftrightarrow> \<not> native_holdoff_active now r system" for n c
      using False N unfolding tier_open_def by blast
    have "b \<in> set (system_candidates now r system exclude) \<longleftrightarrow>
        b \<in> set sup \<and> \<not> native_holdoff_active now r system"
      using False by (simp add: system_candidates_def Let_def sup_def)
    then show ?thesis unfolding S using tier by blast
  qed
qed

lemma distinct_system_candidates:
  "hm_ok (rg_inner r) \<Longrightarrow> distinct (system_candidates now r system exclude)"
  by (simp add: system_candidates_def Let_def distinct_list_builders)

lemma eligible_set:
  assumes "hm_ok (rg_inner r)"
  shows "b \<in> set (eligible now r system features exclude) \<longleftrightarrow>
    (\<exists>n c. map_of (rg_inner r) n = Some c \<and> b = snapshot_of r n c \<and> supports system exclude c
       \<and> tier_open now r system exclude c \<and> set features \<subseteq> set (cap_features (cb_capabilities c))
       \<and> load_of r n < cap_max_jobs (cb_capabilities c))"
proof -
  have "b \<in> set (eligible now r system features exclude) \<longleftrightarrow>
      b \<in> set (system_candidates now r system exclude) \<and> has_features features b
      \<and> sn_in_flight b < cap_max_jobs (sn_capabilities b)"
    by (auto simp: eligible_def)
  then show ?thesis
    unfolding system_candidates_set [OF assms]
    by (metis has_features_snapshot snapshot_of_sel(4,5))
qed

lemma reachable_ok: "reg_ok (reg_run ops registry_new)"
  by (simp add: reg_ok_run reg_ok_new)

text \<open>The daemon sets the emulation spill grace once, on the fresh registry, before any builder can
  connect; so it is not one of the calls of a run, and the runs start from any grace.\<close>

lemma granted_ok: "reg_ok (reg_run ops (set_spill_grace grace registry_new))"
proof (rule reg_ok_run)
  show "reg_ok (set_spill_grace grace registry_new)"
    using reg_ok_new unfolding set_spill_grace_def reg_ok_def by simp
qed

lemma spill_grace_kept: "rg_spill_grace (reg_run ops (set_spill_grace grace registry_new)) = grace"
proof (rule reg_run_preserves [where P = "\<lambda>r. rg_spill_grace r = grace"])
  show "rg_spill_grace (reg_apply now op r) = grace" if "rg_spill_grace r = grace" for now op r
    using that by (cases op) (auto simp: next_connection_id_def register_def evict_dead_def reg_defs remove_if_matches_def
        register_in_flight_build_def forward_build_event_def try_forward_build_event_def forward_resume_def recv_def
        drain_in_flight_for_def try_send_def Let_def split: option.splits if_splits prod.splits list.splits)
qed (simp add: set_spill_grace_def)

text \<open>C29. The candidate set of the dispatcher is exact. For every emulation spill grace, in every state a
  sequence of calls reaches, \<open>eligible\<close> returns, without duplicates and with the least loaded first, exactly the
  snapshots of the registered builders that are active, not excluded, list the system, have
  every required feature, run fewer builds than \<open>max_jobs\<close>, and pass the native tier: they are
  native for the system, or no native builder supports it and no holdoff is active. With a grace of
  zero there is no holdoff; otherwise it is active while a native builder is connected and
  for the grace after one was last seen. When
  \<open>any_matching_builder\<close> is false there is no such builder at any load, and when it is true
  while \<open>eligible\<close> is empty, either a matching builder is at capacity or the holdoff is active,
  which is the capacity wait of the worker.\<close>

theorem eligible_is_exact:
  fixes ops grace now system features exclude
  defines "r \<equiv> reg_run ops (set_spill_grace grace registry_new)"
  defines "matching \<equiv> (\<lambda>n c. map_of (rg_inner r) n = Some c \<and> supports system exclude c
      \<and> tier_open now r system exclude c \<and> set features \<subseteq> set (cap_features (cb_capabilities c)))"
  shows "set (eligible now r system features exclude) =
       {snapshot_of r n c | n c. matching n c \<and> load_of r n < cap_max_jobs (cb_capabilities c)}
     \<and> distinct (eligible now r system features exclude)
     \<and> sorted (map sn_in_flight (eligible now r system features exclude))
     \<and> (any_matching_builder now r system features exclude \<longleftrightarrow>
          (\<exists>n c. matching n c) \<or> native_holdoff_active now r system)
     \<and> (any_matching_builder now r system features exclude
          \<and> eligible now r system features exclude = [] \<longrightarrow>
          (\<exists>n c. matching n c \<and> cap_max_jobs (cb_capabilities c) \<le> load_of r n)
          \<or> native_holdoff_active now r system)
     \<and> (native_holdoff_active now r system \<longleftrightarrow> 0 < grace
          \<and> ((\<exists>n c. map_of (rg_inner r) n = Some c \<and> cb_state c = ConnActive \<and> native_for system c)
             \<or> (\<exists>t. map_of (rg_last_native_seen r) system = Some t \<and> now < t + grace)))"
proof -
  have ok: "hm_ok (rg_inner r)" using granted_ok r_def by simp
  have grace: "rg_spill_grace r = grace" unfolding r_def by (rule spill_grace_kept)
  have vals: "(\<exists>c\<in>set (hm_values (rg_inner r)). P c) \<longleftrightarrow> (\<exists>n c. map_of (rg_inner r) n = Some c \<and> P c)" for P
    using map_of_is_SomeI [OF ok] by (force dest: map_of_SomeD)
  have H: "native_holdoff_active now r system \<longleftrightarrow> 0 < grace
      \<and> ((\<exists>n c. map_of (rg_inner r) n = Some c \<and> cb_state c = ConnActive \<and> native_for system c)
         \<or> (\<exists>t. map_of (rg_last_native_seen r) system = Some t \<and> now < t + grace))"
    unfolding native_holdoff_active_def grace native_for_def list_ex_iff vals by (auto split: option.splits)
  have S: "set (eligible now r system features exclude) =
       {snapshot_of r n c | n c. matching n c \<and> load_of r n < cap_max_jobs (cb_capabilities c)}"
    unfolding matching_def set_eq_iff eligible_set [OF ok] mem_Collect_eq by blast
  have A: "any_matching_builder now r system features exclude \<longleftrightarrow>
      (\<exists>n c. matching n c) \<or> native_holdoff_active now r system"
    unfolding any_matching_builder_def list_ex_iff matching_def Bex_def
      system_candidates_set [OF ok] if_bool_eq_disj
    by (metis has_features_snapshot)
  have "(\<exists>n c. matching n c \<and> cap_max_jobs (cb_capabilities c) \<le> load_of r n)
      \<or> native_holdoff_active now r system"
    if "any_matching_builder now r system features exclude"
      "eligible now r system features exclude = []"
  proof -
    have "{snapshot_of r n c | n c. matching n c \<and> load_of r n < cap_max_jobs (cb_capabilities c)} = {}"
      using S that(2) by simp
    then have "matching n c \<Longrightarrow> cap_max_jobs (cb_capabilities c) \<le> load_of r n" for n c
      by (auto simp: not_less)
    with A that(1) show ?thesis by blast
  qed
  with S A H show ?thesis
    by (simp add: eligible_def distinct_system_candidates [OF ok])
qed

definition sample_conn :: "nat \<Rightarrow> string \<Rightarrow> string list \<Rightarrow> conn_builder" where
  "sample_conn i native systems =
     \<lparr>cb_builder_id = BuilderId 1,
      cb_capabilities = \<lparr>cap_systems = systems, cap_native_system = native, cap_features = [''kvm''],
        cap_max_jobs = 1, cap_nix_version = ''2.24''\<rparr>,
      cb_state = ConnActive, cb_connected_since = 0, cb_connection_id = i, cb_session = Some 1,
      cb_last_activity = 0, cb_abort = Some 1\<rparr>"

definition sample_run :: "(nat \<times> reg_op) list" where
  "sample_run =
     [(0, OpAccept), (1, OpHello (BuilderName ''arm'') (sample_conn 0 ''arm'' [''arm''])),
      (2, OpAccept), (3, OpHello (BuilderName ''x86'') (sample_conn 1 ''x86'' [''x86'', ''arm''])),
      (4, OpBuild (BuilderName ''arm'') 7)]"

lemmas reg_eval = reg_defs sample_run_def sample_conn_def next_connection_id_def register_def
  registry_new_def register_in_flight_build_def evict_dead_def drain_in_flight_for_def
  keys_of_def remove_keys_def eligible_def any_matching_builder_def system_candidates_def
  native_holdoff_active_def list_builders_def snapshot_of_def load_of_def has_features_def
  recv_def has_sender_def snapshot_def hm_entry_def Let_def

text \<open>With both builders idle only the native one is offered; once it is busy the job waits. When it has left, the
  emulating builder is not offered within the grace of 60, and is offered after it.\<close>

theorem eligible_is_exact_witness:
  "map sn_name (eligible 5 (reg_run sample_run (set_spill_grace 60 registry_new)) ''arm'' [''kvm''] {})
     = [BuilderName ''arm'']
   \<and> (let r = reg_run (sample_run @ [(5, OpInc (BuilderName ''arm''))]) (set_spill_grace 60 registry_new) in
      eligible 5 r ''arm'' [] {} = [] \<and> any_matching_builder 5 r ''arm'' [] {}
      \<and> distinct (eligible 5 r ''arm'' [] {}))
   \<and> (let r = reg_run (sample_run @ [(10, OpEvict (BuilderName ''arm''))]) (set_spill_grace 60 registry_new) in
      eligible 69 r ''arm'' [] {} = [] \<and> native_holdoff_active 69 r ''arm''
      \<and> map sn_name (eligible 70 r ''arm'' [] {}) = [BuilderName ''x86''])"
proof -
  have 1: "distinct (eligible 5 (reg_run (sample_run @ [(5, OpInc (BuilderName ''arm''))]) (set_spill_grace 60 registry_new))
      ''arm'' [] {})"
    using eligible_is_exact [of 5 "sample_run @ [(5, OpInc (BuilderName ''arm''))]" 60 "''arm''" "[]" "{}"]
    by blast
  have "map_of (rg_last_native_seen (reg_run (sample_run @ [(10, OpEvict (BuilderName ''arm''))])
      (set_spill_grace 60 registry_new))) ''arm'' = Some 10" by (simp add: reg_eval)
  then have "native_holdoff_active 69 (reg_run (sample_run @ [(10, OpEvict (BuilderName ''arm''))])
      (set_spill_grace 60 registry_new)) ''arm''"
    using eligible_is_exact [of 69 "sample_run @ [(10, OpEvict (BuilderName ''arm''))]" 60 "''arm''" "[]" "{}"]
    by force
  with 1 show ?thesis by (simp add: reg_eval)
qed

section \<open>The native tier over time\<close>

text \<open>The last-seen stamp of a system never moves backwards while the clock does not.\<close>

definition seen_since :: "string \<Rightarrow> nat \<Rightarrow> nat \<Rightarrow> registry \<Rightarrow> bool" where
  "seen_since system t0 grace r \<longleftrightarrow>
     (\<exists>t\<ge>t0. map_of (rg_last_native_seen r) system = Some t) \<and> rg_spill_grace r = grace"

lemma try_send_frame [simp]:
  "rg_last_native_seen (snd (try_send ch e r)) = rg_last_native_seen r"
  "rg_spill_grace (snd (try_send ch e r)) = rg_spill_grace r"
  "rg_inner (snd (try_send ch e r)) = rg_inner r"
  "rg_next_conn_id (snd (try_send ch e r)) = rg_next_conn_id r"
  by (simp_all add: try_send_def split: option.splits)

lemma channel_ops_frame [simp]:
  "rg_last_native_seen (snd (forward_build_event n i e r)) = rg_last_native_seen r"
  "rg_spill_grace (snd (forward_build_event n i e r)) = rg_spill_grace r"
  "rg_inner (snd (forward_build_event n i e r)) = rg_inner r"
  "rg_next_conn_id (snd (forward_build_event n i e r)) = rg_next_conn_id r"
  "rg_last_native_seen (snd (try_forward_build_event n i e r)) = rg_last_native_seen r"
  "rg_spill_grace (snd (try_forward_build_event n i e r)) = rg_spill_grace r"
  "rg_inner (snd (try_forward_build_event n i e r)) = rg_inner r"
  "rg_next_conn_id (snd (try_forward_build_event n i e r)) = rg_next_conn_id r"
  "rg_last_native_seen (snd (forward_resume ch e r)) = rg_last_native_seen r"
  "rg_spill_grace (snd (forward_resume ch e r)) = rg_spill_grace r"
  "rg_inner (snd (forward_resume ch e r)) = rg_inner r"
  "rg_next_conn_id (snd (forward_resume ch e r)) = rg_next_conn_id r"
  "rg_last_native_seen (snd (recv ch r)) = rg_last_native_seen r"
  "rg_spill_grace (snd (recv ch r)) = rg_spill_grace r"
  "rg_inner (snd (recv ch r)) = rg_inner r"
  "rg_next_conn_id (snd (recv ch r)) = rg_next_conn_id r"
  by (simp_all add: forward_build_event_def try_forward_build_event_def forward_resume_def recv_def
      try_send_def split: option.splits list.splits)

lemma drain_frame [simp]:
  "rg_last_native_seen (snd (drain_in_flight_for n r)) = rg_last_native_seen r"
  "rg_spill_grace (snd (drain_in_flight_for n r)) = rg_spill_grace r"
  "rg_inner (snd (drain_in_flight_for n r)) = rg_inner r"
  "rg_next_conn_id (snd (drain_in_flight_for n r)) = rg_next_conn_id r"
  by (simp_all add: drain_in_flight_for_def Let_def)

lemma note_frame [simp]:
  "rg_spill_grace (note_native_seen now s r) = rg_spill_grace r"
  "rg_inner (note_native_seen now s r) = rg_inner r"
  "rg_next_conn_id (note_native_seen now s r) = rg_next_conn_id r"
  by (simp_all add: note_native_seen_def)

lemma seen_since_note:
  "seen_since s t0 g r \<Longrightarrow> t0 \<le> now \<Longrightarrow> seen_since s t0 g (note_native_seen now s' r)"
  by (auto simp: seen_since_def note_native_seen_def hm_simps)

lemma seen_since_cong:
  "rg_last_native_seen r' = rg_last_native_seen r \<Longrightarrow> rg_spill_grace r' = rg_spill_grace r \<Longrightarrow>
   seen_since s t0 g r \<Longrightarrow> seen_since s t0 g r'"
  by (simp add: seen_since_def)

lemma seen_since_apply:
  assumes "seen_since s t0 g r" and "t0 \<le> now"
  shows "seen_since s t0 g (reg_apply now op r)"
proof -
  have drain: "seen_since s t0 g (snd (drain_in_flight_for n r'))" if "seen_since s t0 g r'" for n r'
    using that by (simp add: seen_since_def)
  have cong: "seen_since s t0 g r'"
    if "rg_last_native_seen r' = rg_last_native_seen r" "rg_spill_grace r' = rg_spill_grace r" for r'
    using that assms(1) by (rule seen_since_cong)
  show ?thesis
  proof (cases op)
    case (OpHello n c)
    have "seen_since s t0 g (note_native_seen now (cap_native_system (cb_capabilities c)) r)"
      using assms by (rule seen_since_note)
    then show ?thesis
      by (auto simp: OpHello register_def Let_def seen_since_def split: option.splits)
  next
    case (OpEvict n)
    then show ?thesis using assms
      by (auto simp: evict_dead_def Let_def cong split: option.splits
          intro!: drain seen_since_note)
  next
    case (OpDrop n i)
    then show ?thesis using assms
      by (auto simp: remove_if_matches_def Let_def cong split: option.splits
          intro!: drain seen_since_note)
  qed (auto intro!: cong simp: reg_defs next_connection_id_def register_in_flight_build_def Let_def)
qed

lemma seen_since_departure:
  assumes "map_of (rg_inner r) name = Some c" and "cap_native_system (cb_capabilities c) \<noteq> []"
    and "op = OpEvict name \<or> op = OpDrop name (cb_connection_id c)"
  shows "seen_since (cap_native_system (cb_capabilities c)) t (rg_spill_grace r) (reg_apply t op r)"
proof -
  let ?r = "r\<lparr>rg_inner := hm_remove name (rg_inner r),
     rg_in_flight := hm_remove name (rg_in_flight r), rg_stats := hm_remove name (rg_stats r)\<rparr>"
  have "reg_apply t op r = snd (drain_in_flight_for name
      (note_native_seen t (cap_native_system (cb_capabilities c)) ?r))"
    using assms(3) by (elim disjE) (simp_all add: evict_dead_def remove_if_matches_def assms(1))
  then show ?thesis by (simp add: seen_since_def) (simp add: note_native_seen_def assms(2) hm_simps)
qed

lemma holdoff_tier:
  assumes "reg_ok r" and "native_holdoff_active now r system"
    and "b \<in> set (eligible now r system features exclude)"
  shows "cap_native_system (sn_capabilities b) = system"
  using assms by (auto simp: eligible_set tier_open_def native_for_def)

text \<open>C9. No spill onto emulation during a reconnect. Let a builder that is native for a system
  leave the registry at time \<open>t\<close>, by eviction or because its connection dropped. With a spill
  grace \<open>g\<close> configured, as long as less than \<open>g\<close> has passed, and whatever calls happen in
  between, every builder \<open>eligible\<close> offers for that system is native for it, and
  \<open>any_matching_builder\<close> stays true, so that jobs wait instead of being interrupted.\<close>

theorem no_emulation_within_grace:
  fixes ops later and t now grace :: nat and op name c system features exclude
  defines "r \<equiv> set_spill_grace grace (reg_run ops registry_new)"
  assumes "map_of (rg_inner r) name = Some c"
    and "cap_native_system (cb_capabilities c) = system" and "system \<noteq> []"
    and "op = OpEvict name \<or> op = OpDrop name (cb_connection_id c)"
    and "\<forall>(u, _)\<in>set later. t \<le> u" and "0 < grace" and "now < t + grace"
  defines "r' \<equiv> reg_run later (reg_apply t op r)"
  shows "(\<forall>b\<in>set (eligible now r' system features exclude).
       cap_native_system (sn_capabilities b) = system)
    \<and> any_matching_builder now r' system features exclude"
proof -
  have ok: "reg_ok r"
    using reachable_ok [of ops] unfolding set_spill_grace_def r_def reg_ok_def by simp
  have "rg_spill_grace r = grace" by (simp add: r_def set_spill_grace_def)
  then have "seen_since system t grace (reg_apply t op r)"
    using seen_since_departure [OF assms(2) _ assms(5)] assms(3,4) by simp
  then have "seen_since system t grace r'"
    unfolding r'_def using assms(6)
    by (intro reg_run_preserves [where P = "seen_since system t grace"])
      (auto intro: seen_since_apply)
  then obtain u where "map_of (rg_last_native_seen r') system = Some u" "t \<le> u"
    "rg_spill_grace r' = grace" by (auto simp: seen_since_def)
  then have hold: "native_holdoff_active now r' system"
    using assms(7,8) by (auto simp: native_holdoff_active_def)
  moreover have "reg_ok r'" unfolding r'_def using ok by (intro reg_ok_run reg_ok_apply)
  ultimately show ?thesis
    using holdoff_tier [of r' now system] by (simp add: any_matching_builder_def)
qed

text \<open>The reconnect of an \<open>arm\<close> builder with a grace of 60 while an emulating builder is up.\<close>

theorem no_emulation_within_grace_witness:
  "eligible 30 (reg_run [(20, OpTouch (BuilderName ''x86''))]
      (reg_apply 10 (OpEvict (BuilderName ''arm'')) (set_spill_grace 60 (reg_run sample_run registry_new))))
     ''arm'' [] {} = []
   \<and> any_matching_builder 30 (reg_run [(20, OpTouch (BuilderName ''x86''))]
      (reg_apply 10 (OpEvict (BuilderName ''arm'')) (set_spill_grace 60 (reg_run sample_run registry_new))))
     ''arm'' [] {}"
proof -
  let ?r = "set_spill_grace 60 (reg_run sample_run registry_new)"
  have 1: "map_of (rg_inner ?r) (BuilderName ''arm'') = Some (sample_conn 0 ''arm'' [''arm''])"
    by (simp add: reg_eval)
  have 2: "cap_native_system (cb_capabilities (sample_conn 0 ''arm'' [''arm''])) = ''arm''"
    by (simp add: reg_eval)
  have "any_matching_builder 30 (reg_run [(20, OpTouch (BuilderName ''x86''))]
      (reg_apply 10 (OpEvict (BuilderName ''arm'')) ?r)) ''arm'' [] {}"
    using no_emulation_within_grace [OF 1 2, where op = "OpEvict (BuilderName ''arm'')" and t = 10
        and later = "[(20, OpTouch (BuilderName ''x86''))]" and now = 30 and features = "[]"
        and exclude = "{}"] by simp
  moreover have "eligible 30 (reg_run [(20, OpTouch (BuilderName ''x86''))]
      (reg_apply 10 (OpEvict (BuilderName ''arm'')) ?r)) ''arm'' [] {} = []" by (simp add: reg_eval)
  ultimately show ?thesis by blast
qed

section \<open>Departure closes the lifecycle channels\<close>

text \<open>The three calls that end a connection: eviction, the drop of its handler, and a
  takeover by a new connection under the same name.\<close>

definition departure :: "builder_name \<Rightarrow> conn_builder \<Rightarrow> reg_op \<Rightarrow> bool" where
  "departure name c op \<longleftrightarrow> op = OpEvict name \<or> op = OpDrop name (cb_connection_id c)
     \<or> (\<exists>c'. op = OpHello name c')"

lemma departure_effect:
  assumes "map_of (rg_inner r) name = Some c" and "departure name c op"
  shows "map_of (rg_in_flight_builds (reg_apply t op r)) k =
           (if fst k = name then None else map_of (rg_in_flight_builds r) k)"
    and "map_of (rg_phases (reg_apply t op r)) k =
           (if fst k = name then None else map_of (rg_phases r) k)"
    and "rg_channels (reg_apply t op r) = rg_channels r"
    and "rg_waiting (reg_apply t op r) = rg_waiting r"
  using assms unfolding departure_def
  by (auto simp: evict_dead_def remove_if_matches_def register_def drain_in_flight_for_def
      note_native_seen_def Let_def hm_simps)

lemma recv_not_blocked:
  assumes "map_of (rg_channels r) ch = Some q" and "ch_receiver q"
    and "ch \<notin> set (hm_values (rg_in_flight_builds r))"
  shows "fst (recv ch r) = RecvWait \<longrightarrow>
     (\<exists>e. (ch, e) \<in> set (rg_waiting r) \<and> fst (forward_resume ch e r) = Some True)"
  using assms
  by (auto simp: recv_def has_sender_def forward_resume_def try_send_def lifecycle_capacity_def
      split: list.splits if_splits)

text \<open>C30. A worker never hangs on a builder that is gone. In every reachable state, when a
  connected builder is evicted, its handler is dropped, or a new connection takes its name
  over, the registry afterwards holds no lifecycle sender and no phase for that name, and the
  entries of all other builders are untouched. A worker that still listens on a channel of one
  of its builds reads the buffered events and then the end of the channel: \<open>recv\<close> only waits
  when a blocked \<open>forward_build_event\<close> still holds a clone of the sender, and then that call
  can go through at once.\<close>

theorem departure_wakes_workers:
  fixes ops t name c op
  defines "r \<equiv> reg_run ops registry_new"
  assumes "map_of (rg_inner r) name = Some c" and "departure name c op"
  defines "r' \<equiv> reg_apply t op r"
  shows "(\<forall>i. map_of (rg_in_flight_builds r') (name, i) = None \<and> map_of (rg_phases r') (name, i) = None)
    \<and> (\<forall>n i. n \<noteq> name \<longrightarrow>
         map_of (rg_in_flight_builds r') (n, i) = map_of (rg_in_flight_builds r) (n, i)
         \<and> map_of (rg_phases r') (n, i) = map_of (rg_phases r) (n, i))
    \<and> (\<forall>i ch q. map_of (rg_in_flight_builds r) (name, i) = Some ch
         \<and> map_of (rg_channels r) ch = Some q \<and> ch_receiver q \<longrightarrow>
         fst (recv ch r') = RecvWait \<longrightarrow>
         (\<exists>e. (ch, e) \<in> set (rg_waiting r') \<and> fst (forward_resume ch e r') = Some True))"
proof -
  note eff = departure_effect [OF assms(2,3), of t, folded r'_def]
  have ok: "reg_ok r" unfolding r_def by (rule reachable_ok)
  have ok': "reg_ok r'" unfolding r'_def using ok by (rule reg_ok_apply)
  have gone: "ch \<notin> set (hm_values (rg_in_flight_builds r'))"
    if "map_of (rg_in_flight_builds r) (name, i) = Some ch" for i ch
  proof
    assume "ch \<in> set (hm_values (rg_in_flight_builds r'))"
    then obtain k where "(k, ch) \<in> set (rg_in_flight_builds r')" by fastforce
    then have k: "map_of (rg_in_flight_builds r') k = Some ch"
      using hm_in_set [OF reg_okD(3) [OF ok']] by blast
    then have "fst k \<noteq> name" "map_of (rg_in_flight_builds r) k = Some ch"
      by (simp_all add: eff(1) split: if_splits)
    with reg_ok_channel_inj [OF ok that, of k] show False by auto
  qed
  have "fst (recv ch r') = RecvWait \<longrightarrow>
      (\<exists>e. (ch, e) \<in> set (rg_waiting r') \<and> fst (forward_resume ch e r') = Some True)"
    if "map_of (rg_in_flight_builds r) (name, i) = Some ch
        \<and> map_of (rg_channels r) ch = Some q \<and> ch_receiver q" for i ch q
    using that recv_not_blocked [of r' ch q] gone [of i ch] unfolding eff(3) by blast
  then show ?thesis by (intro conjI allI impI) ((simp add: eff(1,2))+, blast)
qed

theorem departure_wakes_workers_witness:
  "map_of (rg_in_flight_builds (reg_run sample_run registry_new)) (BuilderName ''arm'', 7) = Some 0
   \<and> map_of (rg_in_flight_builds (reg_apply 9 (OpEvict (BuilderName ''arm''))
       (reg_run sample_run registry_new))) (BuilderName ''arm'', 7) = None
   \<and> fst (recv 0 (reg_run sample_run registry_new)) = RecvWait
   \<and> fst (recv 0 (reg_apply 9 (OpEvict (BuilderName ''arm'')) (reg_run sample_run registry_new)))
       = RecvClosed"
proof -
  have 1: "map_of (rg_inner (reg_run sample_run registry_new)) (BuilderName ''arm'')
      = Some (sample_conn 0 ''arm'' [''arm''])" by (simp add: reg_eval)
  have 2: "departure (BuilderName ''arm'') (sample_conn 0 ''arm'' [''arm'']) (OpEvict (BuilderName ''arm''))"
    by (simp add: departure_def)
  have "map_of (rg_in_flight_builds (reg_apply 9 (OpEvict (BuilderName ''arm''))
       (reg_run sample_run registry_new))) (BuilderName ''arm'', 7) = None"
    using departure_wakes_workers [OF 1 2, of 9] by blast
  moreover have "map_of (rg_in_flight_builds (reg_run sample_run registry_new)) (BuilderName ''arm'', 7) = Some 0"
    by (simp add: reg_eval)
  moreover have "fst (recv 0 (reg_run sample_run registry_new)) = RecvWait" by (simp add: reg_eval)
  moreover have "fst (recv 0 (reg_apply 9 (OpEvict (BuilderName ''arm'')) (reg_run sample_run registry_new)))
       = RecvClosed" by (simp add: reg_eval)
  ultimately show ?thesis by blast
qed

section \<open>Takeover\<close>

definition accepts :: "(nat \<times> reg_op) list \<Rightarrow> nat" where
  "accepts ops = length (filter (\<lambda>(_, op). op = OpAccept) ops)"

lemma next_conn_id_apply:
  "rg_next_conn_id (reg_apply now op r) =
     (if op = OpAccept then (rg_next_conn_id r + 1) mod 2 ^ 64 else rg_next_conn_id r)"
  by (cases op) (simp_all add: next_connection_id_def register_def evict_dead_def reg_defs
      remove_if_matches_def register_in_flight_build_def drain_in_flight_for_def Let_def
      split: option.splits)

lemma next_conn_id_run:
  "rg_next_conn_id r < 2 ^ 64 \<Longrightarrow>
   rg_next_conn_id (reg_run ops r) = (rg_next_conn_id r + accepts ops) mod 2 ^ 64"
proof (induction ops arbitrary: r)
  case (Cons o' ops)
  obtain now op where o: "o' = (now, op)" by force
  have "rg_next_conn_id (reg_apply now op r) < 2 ^ 64"
    using Cons.prems by (simp add: next_conn_id_apply)
  from Cons.IH [OF this] show ?case
    by (simp add: o next_conn_id_apply accepts_def mod_simps ac_simps)
qed (simp add: accepts_def)

lemma conn_id_frame:
  assumes "\<And>c. map_of (rg_inner r) name = Some c \<Longrightarrow> cb_connection_id c \<noteq> a"
    and "\<And>c. op = OpHello name c \<Longrightarrow> cb_connection_id c \<noteq> a"
    and "map_of (rg_inner (reg_apply now op r)) name = Some c"
  shows "cb_connection_id c \<noteq> a"
  using assms
  by (cases op) (auto simp: next_connection_id_def register_def evict_dead_def reg_defs
      remove_if_matches_def register_in_flight_build_def Let_def hm_simps
      split: option.splits if_splits)

text \<open>C31. A stale connection cannot tear down its successor. A connection id \<open>a\<close> is minted, and
  later, with fewer than \<open>2\<^sup>6\<^sup>4 - 1\<close> connections accepted in between, an id \<open>b\<close> for another
  connection. Then the ids differ, and once the second connection has registered under a name,
  dropping the handler of the first one at any later point leaves the registry exactly as it
  is, whatever happened in between, as long as the first connection does not say hello
  again.\<close>

theorem takeover_survives_stale_drop:
  fixes before between later and name :: builder_name and conn :: conn_builder and t u :: nat
  defines "r0 \<equiv> reg_run before registry_new"
  defines "a \<equiv> fst (next_connection_id r0)"
  defines "r1 \<equiv> reg_run between (snd (next_connection_id r0))"
  defines "b \<equiv> fst (next_connection_id r1)"
  assumes "accepts between < 2 ^ 64 - 1" and "cb_connection_id conn = b"
    and "\<forall>(_, op)\<in>set later. \<forall>c. op = OpHello name c \<longrightarrow> cb_connection_id c \<noteq> a"
  defines "r2 \<equiv> reg_run later (snd (register t name conn (snd (next_connection_id r1))))"
  shows "b \<noteq> a \<and> remove_if_matches u name a r2 = r2"
proof -
  have lt: "rg_next_conn_id r0 < 2 ^ 64"
    unfolding r0_def by (subst next_conn_id_run) (simp_all add: registry_new_def)
  then have "b = (Suc (rg_next_conn_id r0) mod 2 ^ 64 + accepts between) mod 2 ^ 64"
    by (simp add: b_def r1_def next_conn_id_run next_connection_id_def)
  then have b: "b = (a + (1 + accepts between)) mod 2 ^ 64"
    by (simp add: a_def next_connection_id_def mod_simps)
  have ne: "b \<noteq> a"
  proof
    assume "b = a"
    with b lt have "(a + (1 + accepts between)) mod 2 ^ 64 = a mod 2 ^ 64"
      by (simp add: a_def next_connection_id_def)
    then have "2 ^ 64 dvd 1 + accepts between"
      by (simp add: mod_eq_dvd_iff_nat)
    then show False using assms(5) by (auto dest!: dvd_imp_le)
  qed
  have "\<forall>c. map_of (rg_inner r2) name = Some c \<longrightarrow> cb_connection_id c \<noteq> a"
    unfolding r2_def
  proof (rule reg_run_preserves
      [where P = "\<lambda>r. \<forall>c. map_of (rg_inner r) name = Some c \<longrightarrow> cb_connection_id c \<noteq> a"])
    fix now op and r :: registry
    assume "(now, op) \<in> set later"
      and "\<forall>c. map_of (rg_inner r) name = Some c \<longrightarrow> cb_connection_id c \<noteq> a"
    then show "\<forall>c. map_of (rg_inner (reg_apply now op r)) name = Some c \<longrightarrow> cb_connection_id c \<noteq> a"
      using assms(7) conn_id_frame [of r name a op now] by fast
  next
    show "\<forall>c. map_of (rg_inner (snd (register t name conn (snd (next_connection_id r1))))) name
        = Some c \<longrightarrow> cb_connection_id c \<noteq> a"
      using ne assms(6) by (simp add: register_def Let_def hm_simps split: option.splits)
  qed
  with ne show ?thesis by (auto simp: remove_if_matches_def split: option.splits)
qed

theorem takeover_survives_stale_drop_witness:
  "let r = snd (register 5 (BuilderName ''arm'') (sample_conn 1 ''arm'' [''arm''])
     (snd (next_connection_id (reg_run [(1, OpHello (BuilderName ''arm'') (sample_conn 0 ''arm'' [''arm'']))]
       (snd (next_connection_id registry_new))))))
   in remove_if_matches 9 (BuilderName ''arm'') 0 r = r \<and> snapshot r (BuilderName ''arm'') \<noteq> None"
proof -
  let ?r1 = "reg_run [(1, OpHello (BuilderName ''arm'') (sample_conn 0 ''arm'' [''arm'']))]
       (snd (next_connection_id (reg_run [] registry_new)))"
  let ?r = "snd (register 5 (BuilderName ''arm'') (sample_conn 1 ''arm'' [''arm''])
     (snd (next_connection_id ?r1)))"
  have 1: "cb_connection_id (sample_conn 1 ''arm'' [''arm'']) = fst (next_connection_id ?r1)"
    and 2: "fst (next_connection_id (reg_run [] registry_new)) = 0"
    and 3: "accepts [(1, OpHello (BuilderName ''arm'') (sample_conn 0 ''arm'' [''arm'']))] < 2 ^ 64 - 1"
    and 4: "snapshot ?r (BuilderName ''arm'') \<noteq> None"
    by (simp_all add: reg_eval accepts_def)
  have "remove_if_matches 9 (BuilderName ''arm'') 0 ?r = ?r"
    using takeover_survives_stale_drop [OF 3 1, of "[]" "BuilderName ''arm''" 9 5]
    unfolding 2 by simp
  with 4 show ?thesis by simp
qed

section \<open>Statistics\<close>

lemma push_stats_snapshot:
  "stats_snapshot (push_stats name ts st r) name =
     (let ring = stats_snapshot r name in
      (if length ring = stats_ring_capacity then tl ring else ring) @ [\<lparr>ss_ts = ts, ss_stats = st\<rparr>])"
  by (simp add: push_stats_def stats_snapshot_def hm_simps stats_ring_capacity_def
      split: option.splits)

text \<open>The samples that a sequence of calls pushes under a name, whichever session pushes them.\<close>

fun pushed_under :: "builder_name \<Rightarrow> (nat \<times> reg_op) list \<Rightarrow> stats_sample list" where
  "pushed_under name [] = []"
| "pushed_under name ((now, OpStats n ts st) # ops) =
     (if n = name then [\<lparr>ss_ts = ts, ss_stats = st\<rparr>] else []) @ pushed_under name ops"
| "pushed_under name (_ # ops) = pushed_under name ops"

text \<open>The connection stays: nobody else says hello under the name, and it is neither evicted nor dropped. A drop
  of any other connection id is allowed.\<close>

definition connection_stays :: "builder_name \<Rightarrow> nat \<Rightarrow> reg_op \<Rightarrow> bool" where
  "connection_stays name i op \<longleftrightarrow> op \<noteq> OpEvict name \<and> op \<noteq> OpDrop name i \<and> (\<forall>c. op \<noteq> OpHello name c)"

definition holds_name :: "builder_name \<Rightarrow> nat \<Rightarrow> registry \<Rightarrow> bool" where
  "holds_name name i r \<longleftrightarrow> (\<exists>c. map_of (rg_inner r) name = Some c \<and> cb_connection_id c = i)"

lemmas stats_frame_defs = next_connection_id_def register_def evict_dead_def reg_defs remove_if_matches_def
  register_in_flight_build_def forward_build_event_def try_forward_build_event_def forward_resume_def recv_def
  drain_in_flight_for_def try_send_def Let_def hm_simps

lemma quiet_op_frame:
  assumes "\<And>n c. op \<noteq> OpHello n c" "\<And>n. op \<noteq> OpEvict n" "\<And>n i. op \<noteq> OpDrop n i"
  shows "(\<And>n. op \<noteq> OpTouch n) \<Longrightarrow> (\<And>n. op \<noteq> OpMark n) \<Longrightarrow> rg_inner (reg_apply now op r) = rg_inner r"
    and "(\<And>n ts st. op \<noteq> OpStats n ts st) \<Longrightarrow> rg_stats (reg_apply now op r) = rg_stats r"
proof -
  note defs = next_connection_id_def reg_defs register_in_flight_build_def forward_build_event_def try_forward_build_event_def
    forward_resume_def recv_def try_send_def Let_def
  show "rg_inner (reg_apply now op r) = rg_inner r" if "\<And>n. op \<noteq> OpTouch n" "\<And>n. op \<noteq> OpMark n"
    using assms that by (cases op) (auto simp: defs split: option.splits prod.splits list.splits)
  show "rg_stats (reg_apply now op r) = rg_stats r" if "\<And>n ts st. op \<noteq> OpStats n ts st"
    using assms that by (cases op) (auto simp: defs split: option.splits prod.splits list.splits)
qed

lemma connection_frame:
  assumes "connection_stays name i op" "holds_name name i r"
  shows "holds_name name i (reg_apply now op r)"
    and "(\<And>n ts st. op \<noteq> OpStats n ts st) \<Longrightarrow> stats_snapshot (reg_apply now op r) name = stats_snapshot r name"
proof -
  note defs = holds_name_def stats_snapshot_def connection_stays_def
  show "holds_name name i (reg_apply now op r)"
  proof (cases "(\<exists>n c. op = OpHello n c) \<or> (\<exists>n. op = OpEvict n \<or> op = OpTouch n \<or> op = OpMark n) \<or> (\<exists>n j. op = OpDrop n j)")
    case True
    then show ?thesis
      using assms by (elim disjE exE) (auto simp: defs stats_frame_defs split: option.splits if_splits)
  next
    case False
    then show ?thesis using assms(2) quiet_op_frame(1) [of op now r] by (auto simp: holds_name_def)
  qed
  assume stats: "\<And>n ts st. op \<noteq> OpStats n ts st"
  show "stats_snapshot (reg_apply now op r) name = stats_snapshot r name"
  proof (cases "(\<exists>n c. op = OpHello n c) \<or> (\<exists>n. op = OpEvict n) \<or> (\<exists>n j. op = OpDrop n j)")
    case True
    then show ?thesis
      using assms by (elim disjE exE) (auto simp: defs stats_frame_defs split: option.splits if_splits)
  next
    case False
    then show ?thesis using stats quiet_op_frame(2) [of op now r] by (auto simp: stats_snapshot_def)
  qed
qed

lemma push_stats_other: "n \<noteq> name \<Longrightarrow> stats_snapshot (push_stats n ts st r) name = stats_snapshot r name"
  by (simp add: push_stats_def stats_snapshot_def hm_entry_def hm_simps split: option.splits)

lemma drop_last_window:
  assumes "ring = drop (length xs - k) xs" and "0 < k"
  shows "(if length ring = k then tl ring else ring) @ [x] = drop (length (xs @ [x]) - k) (xs @ [x])"
proof (cases "length xs < k")
  case False
  then have "length (xs @ [x]) - k = Suc (length xs - k)" by simp
  with False assms show ?thesis by (simp add: drop_Suc tl_drop)
qed (use assms in auto)

lemma stats_window:
  assumes "\<forall>(u, op)\<in>set ops. connection_stays name i op" "holds_name name i r"
    and "stats_snapshot r name = drop (length ss - stats_ring_capacity) ss"
  shows "holds_name name i (reg_run ops r) \<and> stats_snapshot (reg_run ops r) name =
    drop (length (ss @ pushed_under name ops) - stats_ring_capacity) (ss @ pushed_under name ops)"
  using assms
proof (induction ops arbitrary: r ss)
  case (Cons x ops)
  obtain u op where x: "x = (u, op)" by fastforce
  have stays: "connection_stays name i op" using Cons.prems(1) x by simp
  note frame = connection_frame [OF stays Cons.prems(2)]
  show ?case
  proof (cases "\<exists>ts st. op = OpStats name ts st")
    case True
    then obtain ts st where op: "op = OpStats name ts st" by blast
    have "stats_snapshot (push_stats name ts st r) name =
        drop (length (ss @ [\<lparr>ss_ts = ts, ss_stats = st\<rparr>]) - stats_ring_capacity) (ss @ [\<lparr>ss_ts = ts, ss_stats = st\<rparr>])"
      using drop_last_window [OF Cons.prems(3)] by (simp add: push_stats_snapshot Let_def stats_ring_capacity_def)
    then show ?thesis
      using Cons.IH [of "reg_apply u op r" "ss @ [\<lparr>ss_ts = ts, ss_stats = st\<rparr>]"] Cons.prems(1) frame(1) by (simp add: x op)
  next
    case False
    have same: "stats_snapshot (reg_apply u op r) name = stats_snapshot r name"
      using False frame(2) by (cases op) (auto simp: push_stats_other)
    moreover have "pushed_under name (x # ops) = pushed_under name ops" using False by (cases op) (auto simp: x)
    ultimately show ?thesis
      using Cons.IH [of "reg_apply u op r" ss] Cons.prems frame(1) by (simp add: x)
  qed
qed simp

text \<open>C32. The statistics ring is a sliding window. From any state, let a builder register under a name and then
  any calls follow, interleaved in any way, that do not end its connection. Then
  \<open>stats_snapshot\<close> returns the last 60 samples pushed under the name since it registered, oldest first, and nothing
  from before; and the end of the connection, by eviction, its own drop or a takeover, empties the ring. The
  samples are those pushed under the name by any session: a displaced session is told to go
  asynchronously, and a heartbeat it still sends counts.\<close>

theorem stats_ring_is_window:
  fixes t :: nat and r :: registry
  assumes "\<forall>(u, op)\<in>set ops. connection_stays name (cb_connection_id conn) op"
  defines "r' \<equiv> reg_run ops (reg_apply t (OpHello name conn) r)"
  shows "stats_snapshot r' name = drop (length (pushed_under name ops) - 60) (pushed_under name ops)
    \<and> (op \<in> {OpEvict name, OpDrop name (cb_connection_id conn), OpHello name conn'} \<longrightarrow>
         stats_snapshot (reg_apply u op r') name = [])"
proof -
  let ?r = "reg_apply t (OpHello name conn) r"
  have "holds_name name (cb_connection_id conn) ?r" "stats_snapshot ?r name = []"
    by (auto simp: holds_name_def stats_snapshot_def stats_frame_defs split: option.splits)
  with stats_window [OF assms(1), of ?r "[]"]
  have "holds_name name (cb_connection_id conn) r'"
    "stats_snapshot r' name = drop (length (pushed_under name ops) - 60) (pushed_under name ops)"
    unfolding r'_def by (simp_all add: stats_ring_capacity_def)
  then show ?thesis
    by (auto simp: holds_name_def stats_snapshot_def stats_frame_defs split: option.splits)
qed

definition sample_stats :: builder_stats where
  "sample_stats = \<lparr>load1 = 1, cpu_percent = 2, mem_used_bytes = 3, mem_total_bytes = 4\<rparr>"

definition takeover_run :: "(nat \<times> reg_op) list" where
  "takeover_run = [(1, OpTouch (BuilderName ''arm'')), (2, OpStats (BuilderName ''arm'') 8 sample_stats),
     (3, OpDrop (BuilderName ''arm'') 0), (4, OpStats (BuilderName ''x86'') 9 sample_stats)]"

theorem stats_ring_is_window_witness:
  "stats_snapshot (reg_run takeover_run (reg_apply 5 (OpHello (BuilderName ''arm'') (sample_conn 2 ''arm'' [''arm'']))
     (reg_run sample_run registry_new))) (BuilderName ''arm'') = [\<lparr>ss_ts = 8, ss_stats = sample_stats\<rparr>]"
proof -
  have "\<forall>(u, op)\<in>set takeover_run. connection_stays (BuilderName ''arm'') (cb_connection_id (sample_conn 2 ''arm'' [''arm''])) op"
    by (simp add: takeover_run_def connection_stays_def sample_conn_def)
  from stats_ring_is_window [OF this] show ?thesis by (simp add: takeover_run_def)
qed

text \<open>A heartbeat that is handled after the eviction of its builder makes a ring for a builder that is not
  connected.\<close>

lemma late_heartbeat_outlives_builder:
  assumes "map_of (rg_inner r) name = Some c"
  shows "snapshot (reg_run [(u, OpEvict name), (v, OpStats name ts st)] r) name = None
    \<and> stats_snapshot (reg_run [(u, OpEvict name), (v, OpStats name ts st)] r) name = [\<lparr>ss_ts = ts, ss_stats = st\<rparr>]"
  using assms by (simp add: snapshot_def stats_snapshot_def stats_frame_defs hm_entry_def)

section \<open>The load gauge\<close>

definition drift_run :: "(nat \<times> reg_op) list" where
  "drift_run = [(0, OpHello (BuilderName ''arm'') (sample_conn 0 ''arm'' [''arm'']))]"

definition drift_reconnect :: "(nat \<times> reg_op) list" where
  "drift_reconnect = [(8, OpEvict (BuilderName ''arm'')),
     (9, OpHello (BuilderName ''arm'') (sample_conn 1 ''arm'' [''arm'']))]"

lemma single_eligible:
  assumes "rg_inner r = [(n, sample_conn i s [s])]" and "rg_spill_grace r = 0"
  shows "eligible now r s [] {} =
    (if load_of r n < 1 then [snapshot_of r n (sample_conn i s [s])] else [])"
  using assms
  by (simp add: eligible_def system_candidates_def list_builders_def has_features_def Let_def
      sample_conn_def)

text \<open>The load gauge drifts across a reconnect. A builder with \<open>max_jobs = 1\<close> runs a build
  (slot \<open>s1\<close>), is evicted and connects again; a second build reserves slot \<open>s2\<close> and the
  builder is full. When the worker of the first build now unwinds and drops \<open>s1\<close>, it
  decrements the count of the new connection: the builder is eligible again, with load 0, while
  the build of \<open>s2\<close> still runs on it.\<close>

lemma slot_of_old_connection_frees_new_one:
  "let n = BuilderName ''arm'';
       (s1, r1) = slot_reserve n (reg_run drift_run registry_new);
       (s2, r2) = slot_reserve n (reg_run drift_reconnect r1);
       r3 = slot_drop s1 r2
   in eligible 10 r1 ''arm'' [] {} = [] \<and> eligible 10 r2 ''arm'' [] {} = []
      \<and> map sn_in_flight (eligible 10 r3 ''arm'' [] {}) = [0]"
proof -
  define n where "n = BuilderName ''arm''"
  define r1 where "r1 = inc_in_flight n (reg_run drift_run registry_new)"
  define r2 where "r2 = inc_in_flight n (reg_run drift_reconnect r1)"
  have r1: "rg_inner r1 = [(n, sample_conn 0 ''arm'' [''arm''])]" "rg_in_flight r1 = [(n, 1)]"
    "rg_spill_grace r1 = 0"
    by (simp_all add: r1_def n_def drift_run_def registry_new_def register_def inc_in_flight_def
        hm_entry_def note_native_seen_def Let_def)
  define e where "e = snd (snd (evict_dead 8 n r1))"
  have e: "rg_inner e = []" "rg_in_flight e = []" "rg_spill_grace e = 0"
    using r1 by (simp_all add: e_def evict_dead_def note_native_seen_def drain_in_flight_for_def Let_def)
  define c where "c = snd (register 9 n (sample_conn 1 ''arm'' [''arm'']) e)"
  have c: "rg_inner c = [(n, sample_conn 1 ''arm'' [''arm''])]" "rg_in_flight c = []"
    "rg_spill_grace c = 0"
    using e by (simp_all add: c_def register_def note_native_seen_def Let_def)
  have "r2 = inc_in_flight n c"
    by (simp add: r2_def drift_reconnect_def n_def [symmetric] e_def c_def)
  then have r2: "rg_inner r2 = [(n, sample_conn 1 ''arm'' [''arm''])]" "rg_in_flight r2 = [(n, 1)]"
    "rg_spill_grace r2 = 0"
    using c by (simp_all add: inc_in_flight_def hm_entry_def)
  have r3: "rg_inner (dec_in_flight n r2) = [(n, sample_conn 1 ''arm'' [''arm''])]"
    "rg_in_flight (dec_in_flight n r2) = [(n, 0)]" "rg_spill_grace (dec_in_flight n r2) = 0"
    using r2 by (simp_all add: dec_in_flight_def)
  have "eligible 10 r1 ''arm'' [] {} = []" "eligible 10 r2 ''arm'' [] {} = []"
    "map sn_in_flight (eligible 10 (dec_in_flight n r2) ''arm'' [] {}) = [0]"
    using r1 r2 r3 by (simp_all add: single_eligible load_of_def)
  then show ?thesis
    unfolding Let_def slot_reserve_def n_def [symmetric]
    by (simp add: r1_def [symmetric] r2_def [symmetric])
qed

end
