(* ===== verification/Store.thy ===== *)
theory Store
  imports Names
begin

text \<open>
  The persistence layer \<open>argunix-store\<close>: \<open>SqlxStore\<close> of \<open>sqlite.rs\<close> over the schema of the
  migrations. A table is the list of its rows in the order of their ids. Columns that the
  schema declares as text are strings, so that the decoding functions \<open>map_repo\<close>,
  \<open>map_eval\<close>, \<open>map_job\<close>, \<open>map_builder\<close>, \<open>map_docker_image\<close>, \<open>map_effect_run\<close>, \<open>map_sbom\<close>
  keep their error branches. Every method is one SQL statement and therefore one atomic step.
  The primary keys are \<open>AUTOINCREMENT\<close>: \<open>st_seq\<close> counts the ids given out per table and no id is
  reused (SQLite refuses an insert after \<open>2\<^sup>6\<^sup>3 - 1\<close> rows, which is not modelled). Foreign keys
  are enforced, with \<open>ON DELETE CASCADE\<close> everywhere but on \<open>jobs.builder_id\<close>, and so are the
  unique constraints. The table \<open>queue\<close> of the schema is not used by any method. Timestamps are
  numbers. The JSON codec of \<open>serde_json\<close> is the parameter \<open>serde\<close>.
\<close>

section \<open>Errors, rows and records\<close>

datatype sqlx_error = FkViolation | UniqueViolation

datatype store_error =
    Sqlx sqlx_error
  | InvalidStatus string
  | InvalidSha int sha_error
  | InvalidSlug int slug_error
  | InvalidBuilderName int builder_name_error
  | InvalidBuilderPubkey int builder_pubkey_error
  | InvalidBuilderCapabilities int
  | BuilderNameConflict string
  | SlicePanic

record serde =
  ser_strings :: "string list \<Rightarrow> string"
  de_strings :: "string \<Rightarrow> string list option"
  ser_map :: "(string \<times> string) list \<Rightarrow> string"
  de_map :: "string \<Rightarrow> (string \<times> string) list option"

record repo_row =
  r_id :: int
  r_forge :: string
  r_slug :: string
  r_webhook_secret :: "bytes option"
  r_webhook_hook_id :: "string option"
  r_name :: "string option"
  r_description :: "string option"
  r_web_url :: "string option"
  r_default_branch :: "string option"

record eval_row =
  e_id :: int
  e_repo_id :: int
  e_trigger :: string
  e_git_ref :: string
  e_sha :: string
  e_started_at :: "nat option"
  e_finished_at :: "nat option"
  e_status :: string
  e_pr_number :: "int option"
  e_building_started_at :: "nat option"
  e_failure_reason :: "string option"

record job_row =
  j_id :: int
  j_eval_id :: int
  j_attr_path :: string
  j_drv_path :: "string option"
  j_system :: string
  j_started_at :: "nat option"
  j_finished_at :: "nat option"
  j_status :: string
  j_log_path :: "string option"
  j_output_path :: "string option"
  j_builder_id :: "int option"
  j_interrupt_count :: int
  j_failure_reason :: "string option"
  j_push_bytes :: "int option"
  j_push_ms :: "int option"
  j_build_ms :: "int option"
  j_pull_bytes :: "int option"
  j_pull_ms :: "int option"
  j_cache_push_ms :: "int option"
  j_image_size_bytes :: "int option"
  j_main_program :: "string option"
  j_outputs_json :: "string option"
  j_spec_json :: "string option"

record builder_row =
  b_id :: int
  b_name :: string
  b_pubkey :: bytes
  b_systems :: string
  b_native_system :: string
  b_features :: string
  b_max_jobs :: int
  b_nix_version :: string
  b_enrolled_at :: nat
  b_last_seen :: nat
  b_revoked_at :: "nat option"

record forge_status_row =
  f_eval_id :: int
  f_kind :: string
  f_handle :: "string option"
  f_last_posted_at :: nat

record docker_image_row =
  d_id :: int
  d_repo_id :: int
  d_eval_id :: int
  d_job_id :: int
  d_image_name :: string
  d_system :: string
  d_git_ref :: string
  d_sha :: string
  d_manifest_digest :: string
  d_manifest_path :: string
  d_created_at :: nat

record effect_row =
  x_id :: int
  x_job_id :: int
  x_kind :: string
  x_target :: string
  x_status :: string
  x_detail :: "string option"
  x_started_at :: nat
  x_finished_at :: "nat option"

record sbom_row =
  s_id :: int
  s_job_id :: int
  s_format :: string
  s_content :: string
  s_component_count :: int
  s_created_at :: nat

record sequences =
  q_repos :: int
  q_evals :: int
  q_jobs :: int
  q_builders :: int
  q_images :: int
  q_effects :: int
  q_sboms :: int

record store =
  st_repos :: "repo_row list"
  st_evals :: "eval_row list"
  st_jobs :: "job_row list"
  st_builders :: "builder_row list"
  st_forge_status :: "forge_status_row list"
  st_images :: "docker_image_row list"
  st_effects :: "effect_row list"
  st_sboms :: "sbom_row list"
  st_seq :: sequences

definition store_new :: store where
  "store_new = \<lparr>st_repos = [], st_evals = [], st_jobs = [], st_builders = [],
     st_forge_status = [], st_images = [], st_effects = [], st_sboms = [],
     st_seq = \<lparr>q_repos = 0, q_evals = 0, q_jobs = 0, q_builders = 0, q_images = 0,
       q_effects = 0, q_sboms = 0\<rparr>\<rparr>"

record repo_record =
  rr_id :: repo_id
  rr_forge :: string
  rr_slug :: slug
  rr_name :: "string option"
  rr_description :: "string option"
  rr_web_url :: "string option"
  rr_default_branch :: "string option"

record new_evaluation =
  ne_repo_id :: repo_id
  ne_trigger :: string
  ne_git_ref :: string
  ne_sha :: sha
  ne_pr_number :: "nat option"

record eval_record =
  er_id :: eval_id
  er_repo_id :: repo_id
  er_trigger :: string
  er_git_ref :: string
  er_sha :: sha
  er_started_at :: "nat option"
  er_finished_at :: "nat option"
  er_status :: eval_status
  er_pr_number :: "nat option"
  er_building_started_at :: "nat option"
  er_failure_reason :: "string option"

record new_job =
  nj_eval_id :: eval_id
  nj_attr_path :: string
  nj_drv_path :: "string option"
  nj_system :: string
  nj_main_program :: "string option"
  nj_outputs :: "(string \<times> string) list"

record phase_metrics =
  pm_push_bytes :: "nat option"
  pm_push_ms :: "nat option"
  pm_build_ms :: "nat option"
  pm_pull_bytes :: "nat option"
  pm_pull_ms :: "nat option"
  pm_cache_push_ms :: "nat option"

record job_record =
  jr_id :: job_id
  jr_eval_id :: eval_id
  jr_attr_path :: string
  jr_drv_path :: "string option"
  jr_system :: string
  jr_started_at :: "nat option"
  jr_finished_at :: "nat option"
  jr_status :: job_status
  jr_log_path :: "string option"
  jr_output_path :: "string option"
  jr_builder_id :: "builder_id option"
  jr_interrupt_count :: nat
  jr_failure_reason :: "string option"
  jr_phase_metrics :: phase_metrics
  jr_main_program :: "string option"
  jr_outputs :: "(string \<times> string) list"
  jr_image_size_bytes :: "nat option"

record job_with_context =
  jc_job :: job_record
  jc_forge :: string
  jc_slug :: slug
  jc_git_ref :: string
  jc_short_sha :: string

record eval_with_repo =
  ew_eval :: eval_record
  ew_forge :: string
  ew_slug :: slug

record eval_job_tally =
  ejt_total :: nat
  ejt_not_succeeded :: nat

definition all_succeeded :: "eval_job_tally \<Rightarrow> bool" where
  "all_succeeded t \<longleftrightarrow> 0 < ejt_total t \<and> ejt_not_succeeded t = 0"

record forge_status_record =
  fs_eval_id :: eval_id
  fs_kind :: string
  fs_handle :: "string option"
  fs_last_posted_at :: nat

record new_builder =
  nb_name :: builder_name
  nb_pubkey :: builder_pubkey
  nb_capabilities :: capabilities

record builder_record =
  br_id :: builder_id
  br_name :: builder_name
  br_pubkey :: builder_pubkey
  br_capabilities :: capabilities
  br_enrolled_at :: nat
  br_last_seen :: nat
  br_revoked_at :: "nat option"

record new_docker_image =
  nd_repo_id :: repo_id
  nd_eval_id :: eval_id
  nd_job_id :: job_id
  nd_image_name :: string
  nd_system :: string
  nd_git_ref :: string
  nd_sha :: sha
  nd_manifest_digest :: string
  nd_manifest_path :: string

record docker_image_record =
  dr_repo_id :: repo_id
  dr_eval_id :: eval_id
  dr_job_id :: job_id
  dr_image_name :: string
  dr_system :: string
  dr_git_ref :: string
  dr_sha :: sha
  dr_manifest_digest :: string
  dr_manifest_path :: string
  dr_created_at :: nat

record effect_run_record =
  xr_id :: int
  xr_job_id :: job_id
  xr_kind :: string
  xr_target :: string
  xr_status :: string
  xr_detail :: "string option"
  xr_started_at :: nat
  xr_finished_at :: "nat option"

record sbom_record =
  sr_id :: int
  sr_job_id :: job_id
  sr_format :: string
  sr_content :: string
  sr_component_count :: nat
  sr_created_at :: nat

section \<open>Statement vocabulary\<close>

text \<open>\<open>UPDATE ... SET f WHERE p\<close>, \<open>rows_affected\<close>, \<open>collect::<Result<_, _>>\<close>, and the
  \<open>transpose\<close> of an optional fallible decode.\<close>

definition update_where :: "('r \<Rightarrow> bool) \<Rightarrow> ('r \<Rightarrow> 'r) \<Rightarrow> 'r list \<Rightarrow> 'r list" where
  "update_where p f rows = map (\<lambda>r. if p r then f r else r) rows"

definition rows_affected :: "('r \<Rightarrow> bool) \<Rightarrow> 'r list \<Rightarrow> nat" where
  "rows_affected p rows = length (filter p rows)"

fun collect_results :: "('e + 'a) list \<Rightarrow> 'e + 'a list" where
  "collect_results [] = Inr []"
| "collect_results (Inl e # xs) = Inl e"
| "collect_results (Inr x # xs) = map_sum id (\<lambda>ys. x # ys) (collect_results xs)"

definition map_results :: "('r \<Rightarrow> 'e + 'a) \<Rightarrow> 'r list \<Rightarrow> 'e + 'a list" where
  "map_results f rows = collect_results (map f rows)"

fun transpose_result :: "('e + 'a) option \<Rightarrow> 'e + 'a option" where
  "transpose_result None = Inr None"
| "transpose_result (Some (Inl e)) = Inl e"
| "transpose_result (Some (Inr x)) = Inr (Some x)"

definition bind_result :: "'e + 'a \<Rightarrow> ('a \<Rightarrow> 'e + 'b) \<Rightarrow> 'e + 'b" where
  "bind_result x f = (case x of Inl e \<Rightarrow> Inl e | Inr a \<Rightarrow> f a)"

definition as_u32 :: "int \<Rightarrow> nat" where
  "as_u32 n = nat (max 0 n) mod 2 ^ 32"

definition to_u64 :: "int option \<Rightarrow> nat option" where
  "to_u64 v = map_option (\<lambda>n. nat (max 0 n)) v"

definition clamp_i64 :: "nat \<Rightarrow> int" where
  "clamp_i64 n = int (min n (2 ^ 63 - 1))"

text \<open>SQLite's \<open>LIKE\<close> over characters: \<open>%\<close> matches any run, \<open>_\<close> one character, the escape
  character takes the next one literally, and ASCII letters match in either case.\<close>

definition fold_case :: "nat \<Rightarrow> nat" where
  "fold_case c = (if 65 \<le> c \<and> c \<le> 90 then c + 32 else c)"

function like :: "nat option \<Rightarrow> nat list \<Rightarrow> nat list \<Rightarrow> bool" where
  "like esc [] s = (s = [])"
| "like esc (p # ps) s =
     (if esc = Some p then
        (case ps of
           [] \<Rightarrow> False
         | q # qs \<Rightarrow> (case s of [] \<Rightarrow> False | c # cs \<Rightarrow> fold_case q = fold_case c \<and> like esc qs cs))
      else if p = 37 then like esc ps s \<or> (case s of [] \<Rightarrow> False | c # cs \<Rightarrow> like esc (p # ps) cs)
      else (case s of
              [] \<Rightarrow> False
            | c # cs \<Rightarrow> (p = 95 \<or> fold_case p = fold_case c) \<and> like esc ps cs))"
  by pat_completeness auto
termination by (relation "measure (\<lambda>(_, ps, s). length ps + length s)") auto

definition sql_like :: "char option \<Rightarrow> string \<Rightarrow> string \<Rightarrow> bool" where
  "sql_like esc pattern s = like (map_option byte esc) (chars pattern) (chars s)"

section \<open>Decoding rows\<close>

definition to_eval_status :: "string \<Rightarrow> store_error + eval_status" where
  "to_eval_status s = map_sum (\<lambda>_. InvalidStatus s) id (eval_from_str s)"

definition to_job_status :: "string \<Rightarrow> store_error + job_status" where
  "to_job_status s = map_sum (\<lambda>_. InvalidStatus s) id (job_from_str s)"

definition to_sha :: "int \<Rightarrow> string \<Rightarrow> store_error + sha" where
  "to_sha i s = map_sum (InvalidSha i) id (sha_new s)"

definition to_slug :: "int \<Rightarrow> string \<Rightarrow> store_error + slug" where
  "to_slug i s = map_sum (InvalidSlug i) id (slug_new s)"

definition map_repo :: "repo_row \<Rightarrow> store_error + repo_record" where
  "map_repo row = bind_result (to_slug (r_id row) (r_slug row)) (\<lambda>slug.
     Inr \<lparr>rr_id = RepoId (r_id row), rr_forge = r_forge row, rr_slug = slug, rr_name = r_name row,
          rr_description = r_description row, rr_web_url = r_web_url row,
          rr_default_branch = r_default_branch row\<rparr>)"

definition map_eval :: "eval_row \<Rightarrow> store_error + eval_record" where
  "map_eval row =
     bind_result (to_sha (e_id row) (e_sha row)) (\<lambda>sha.
     bind_result (to_eval_status (e_status row)) (\<lambda>status.
     Inr \<lparr>er_id = EvalId (e_id row), er_repo_id = RepoId (e_repo_id row),
          er_trigger = e_trigger row, er_git_ref = e_git_ref row, er_sha = sha,
          er_started_at = e_started_at row, er_finished_at = e_finished_at row,
          er_status = status,
          er_pr_number = (case e_pr_number row of
              None \<Rightarrow> None
            | Some n \<Rightarrow> if 0 \<le> n \<and> n < 2 ^ 32 then Some (nat n) else None),
          er_building_started_at = e_building_started_at row,
          er_failure_reason = e_failure_reason row\<rparr>))"

definition map_builder :: "serde \<Rightarrow> builder_row \<Rightarrow> store_error + builder_record" where
  "map_builder S row =
     bind_result (map_sum (InvalidBuilderName (b_id row)) id (builder_name_new (b_name row))) (\<lambda>name.
     bind_result (map_sum (InvalidBuilderPubkey (b_id row)) id (pubkey_from_bytes (b_pubkey row)))
       (\<lambda>pubkey.
     (case de_strings S (b_systems row) of
        None \<Rightarrow> Inl (InvalidBuilderCapabilities (b_id row))
      | Some systems \<Rightarrow>
          (case de_strings S (b_features row) of
             None \<Rightarrow> Inl (InvalidBuilderCapabilities (b_id row))
           | Some features \<Rightarrow>
               Inr \<lparr>br_id = BuilderId (b_id row), br_name = name, br_pubkey = pubkey,
                    br_capabilities = \<lparr>cap_systems = systems,
                      cap_native_system = b_native_system row, cap_features = features,
                      cap_max_jobs = as_u32 (b_max_jobs row), cap_nix_version = b_nix_version row\<rparr>,
                    br_enrolled_at = b_enrolled_at row, br_last_seen = b_last_seen row,
                    br_revoked_at = b_revoked_at row\<rparr>))))"

definition map_job :: "serde \<Rightarrow> job_row \<Rightarrow> store_error + job_record" where
  "map_job S row =
     bind_result (to_job_status (j_status row)) (\<lambda>status.
     Inr \<lparr>jr_id = JobId (j_id row), jr_eval_id = EvalId (j_eval_id row),
          jr_attr_path = j_attr_path row, jr_drv_path = j_drv_path row, jr_system = j_system row,
          jr_started_at = j_started_at row, jr_finished_at = j_finished_at row,
          jr_status = status, jr_log_path = j_log_path row, jr_output_path = j_output_path row,
          jr_builder_id = map_option BuilderId (j_builder_id row),
          jr_interrupt_count = as_u32 (j_interrupt_count row),
          jr_failure_reason = j_failure_reason row,
          jr_phase_metrics = \<lparr>pm_push_bytes = to_u64 (j_push_bytes row),
            pm_push_ms = to_u64 (j_push_ms row), pm_build_ms = to_u64 (j_build_ms row),
            pm_pull_bytes = to_u64 (j_pull_bytes row), pm_pull_ms = to_u64 (j_pull_ms row),
            pm_cache_push_ms = to_u64 (j_cache_push_ms row)\<rparr>,
          jr_main_program = j_main_program row,
          jr_outputs = (case j_outputs_json row of
              None \<Rightarrow> []
            | Some s \<Rightarrow> (case de_map S s of None \<Rightarrow> [] | Some m \<Rightarrow> m)),
          jr_image_size_bytes = to_u64 (j_image_size_bytes row)\<rparr>)"

definition is_char_boundary :: "string \<Rightarrow> nat \<Rightarrow> bool" where
  "is_char_boundary s i \<longleftrightarrow>
     i = length s \<or> i < length s \<and> \<not> (128 \<le> byte (s ! i) \<and> byte (s ! i) < (192 :: nat))"

definition map_job_with_context ::
  "serde \<Rightarrow> job_row \<times> eval_row \<times> repo_row \<Rightarrow> store_error + job_with_context" where
  "map_job_with_context S = (\<lambda>(row, e, r).
     bind_result (map_job S row) (\<lambda>job.
     bind_result (to_slug (eval_get (jr_eval_id job)) (r_slug r)) (\<lambda>slug.
     if 7 \<le> length (e_sha e) \<and> \<not> is_char_boundary (e_sha e) 7 then Inl SlicePanic
     else Inr \<lparr>jc_job = job, jc_forge = r_forge r, jc_slug = slug, jc_git_ref = e_git_ref e,
               jc_short_sha = (if 7 \<le> length (e_sha e) then take 7 (e_sha e) else e_sha e)\<rparr>)))"

definition map_docker_image :: "docker_image_row \<Rightarrow> store_error + docker_image_record" where
  "map_docker_image row =
     bind_result (to_sha (d_job_id row) (d_sha row)) (\<lambda>sha.
     Inr \<lparr>dr_repo_id = RepoId (d_repo_id row), dr_eval_id = EvalId (d_eval_id row),
          dr_job_id = JobId (d_job_id row), dr_image_name = d_image_name row,
          dr_system = d_system row, dr_git_ref = d_git_ref row, dr_sha = sha,
          dr_manifest_digest = d_manifest_digest row, dr_manifest_path = d_manifest_path row,
          dr_created_at = d_created_at row\<rparr>)"

definition map_effect_run :: "effect_row \<Rightarrow> store_error + effect_run_record" where
  "map_effect_run row =
     Inr \<lparr>xr_id = x_id row, xr_job_id = JobId (x_job_id row), xr_kind = x_kind row,
          xr_target = x_target row, xr_status = x_status row, xr_detail = x_detail row,
          xr_started_at = x_started_at row, xr_finished_at = x_finished_at row\<rparr>"

definition map_sbom :: "sbom_row \<Rightarrow> store_error + sbom_record" where
  "map_sbom row =
     Inr \<lparr>sr_id = s_id row, sr_job_id = JobId (s_job_id row), sr_format = s_format row,
          sr_content = s_content row, sr_component_count = as_u32 (s_component_count row),
          sr_created_at = s_created_at row\<rparr>"

section \<open>Cascading deletes\<close>

definition delete_jobs :: "(job_row \<Rightarrow> bool) \<Rightarrow> store \<Rightarrow> store" where
  "delete_jobs p s =
     (let gone = map j_id (filter p (st_jobs s))
      in s\<lparr>st_jobs := filter (\<lambda>j. \<not> p j) (st_jobs s),
           st_images := filter (\<lambda>d. d_job_id d \<notin> set gone) (st_images s),
           st_effects := filter (\<lambda>x. x_job_id x \<notin> set gone) (st_effects s),
           st_sboms := filter (\<lambda>b. s_job_id b \<notin> set gone) (st_sboms s)\<rparr>)"

definition delete_evals :: "(eval_row \<Rightarrow> bool) \<Rightarrow> store \<Rightarrow> store" where
  "delete_evals p s =
     (let gone = map e_id (filter p (st_evals s));
          s1 = delete_jobs (\<lambda>j. j_eval_id j \<in> set gone) s
      in s1\<lparr>st_evals := filter (\<lambda>e. \<not> p e) (st_evals s1),
            st_images := filter (\<lambda>d. d_eval_id d \<notin> set gone) (st_images s1),
            st_forge_status := filter (\<lambda>f. f_eval_id f \<notin> set gone) (st_forge_status s1)\<rparr>)"

definition delete_repo :: "int \<Rightarrow> store \<Rightarrow> store" where
  "delete_repo i s =
     (let s1 = delete_evals (\<lambda>e. e_repo_id e = i) s
      in s1\<lparr>st_repos := filter (\<lambda>r. r_id r \<noteq> i) (st_repos s1),
            st_images := filter (\<lambda>d. d_repo_id d \<noteq> i) (st_images s1)\<rparr>)"

definition has_repo :: "int \<Rightarrow> store \<Rightarrow> bool" where
  "has_repo i s = list_ex (\<lambda>r. r_id r = i) (st_repos s)"

definition has_eval :: "int \<Rightarrow> store \<Rightarrow> bool" where
  "has_eval i s = list_ex (\<lambda>e. e_id e = i) (st_evals s)"

definition has_job :: "int \<Rightarrow> store \<Rightarrow> bool" where
  "has_job i s = list_ex (\<lambda>j. j_id j = i) (st_jobs s)"

definition has_builder :: "int \<Rightarrow> store \<Rightarrow> bool" where
  "has_builder i s = list_ex (\<lambda>b. b_id b = i) (st_builders s)"

end
