(* ===== verification/Store_Ops.thy ===== *)
theory Store_Ops
  imports Store
begin

text \<open>
  The methods of the eight store traits of \<open>argunix-store/src/sqlite.rs\<close>, in the order of the
  source. A method that writes returns the new store; one that can be refused by a constraint
  returns \<open>Inl\<close> with the store unchanged.
\<close>

section \<open>\<open>RepoStore\<close>\<close>

definition find_repo :: "string \<Rightarrow> slug \<Rightarrow> store \<Rightarrow> repo_row option" where
  "find_repo forge slug s =
     List.find (\<lambda>r. r_forge r = forge \<and> r_slug r = slug_str slug) (st_repos s)"

definition repo_upsert :: "string \<Rightarrow> slug \<Rightarrow> store \<Rightarrow> repo_id \<times> store" where
  "repo_upsert forge slug s =
     (case find_repo forge slug s of
        Some r \<Rightarrow> (RepoId (r_id r), s\<lparr>st_repos :=
           update_where (\<lambda>q. r_id q = r_id r) (\<lambda>q. q\<lparr>r_slug := slug_str slug\<rparr>) (st_repos s)\<rparr>)
      | None \<Rightarrow>
          (let i = q_repos (st_seq s) + 1
           in (RepoId i,
               s\<lparr>st_repos := st_repos s @ [\<lparr>r_id = i, r_forge = forge, r_slug = slug_str slug,
                   r_webhook_secret = None, r_webhook_hook_id = None, r_name = None,
                   r_description = None, r_web_url = None, r_default_branch = None\<rparr>],
                 st_seq := (st_seq s)\<lparr>q_repos := i\<rparr>\<rparr>)))"

definition store_repo_get :: "repo_id \<Rightarrow> store \<Rightarrow> store_error + repo_record option" where
  "store_repo_get i s =
     transpose_result (map_option map_repo
       (List.find (\<lambda>r. r_id r = repo_get i) (st_repos s)))"

definition repo_find :: "string \<Rightarrow> slug \<Rightarrow> store \<Rightarrow> store_error + repo_record option" where
  "repo_find forge slug s = transpose_result (map_option map_repo (find_repo forge slug s))"

definition repo_list :: "store \<Rightarrow> store_error + repo_record list" where
  "repo_list s = map_results map_repo (sort_key r_id (st_repos s))"

definition get_webhook_secret :: "string \<Rightarrow> slug \<Rightarrow> store \<Rightarrow> bytes option" where
  "get_webhook_secret forge slug s =
     (case find_repo forge slug s of None \<Rightarrow> None | Some r \<Rightarrow> r_webhook_secret r)"

definition set_webhook :: "repo_id \<Rightarrow> bytes \<Rightarrow> string \<Rightarrow> store \<Rightarrow> store" where
  "set_webhook i secret hook_id s =
     s\<lparr>st_repos := update_where (\<lambda>r. r_id r = repo_get i)
        (\<lambda>r. r\<lparr>r_webhook_secret := Some secret, r_webhook_hook_id := Some hook_id\<rparr>) (st_repos s)\<rparr>"

definition set_metadata ::
  "repo_id \<Rightarrow> string option \<Rightarrow> string option \<Rightarrow> string option \<Rightarrow> string option \<Rightarrow> store \<Rightarrow> store" where
  "set_metadata i name description web_url default_branch s =
     s\<lparr>st_repos := update_where (\<lambda>r. r_id r = repo_get i)
        (\<lambda>r. r\<lparr>r_name := name, r_description := description, r_web_url := web_url,
               r_default_branch := default_branch\<rparr>) (st_repos s)\<rparr>"

definition prune_repos_not_in ::
  "(string \<times> slug) list \<Rightarrow> store \<Rightarrow> store_error + (repo_record list \<times> store)" where
  "prune_repos_not_in keep s =
     bind_result (map_results map_repo (st_repos s)) (\<lambda>all.
       let kept = set (map (\<lambda>(f, g). (f, slug_str g)) keep);
           orphans = filter (\<lambda>r. (rr_forge r, slug_str (rr_slug r)) \<notin> kept) all
       in Inr (orphans, fold (\<lambda>r. delete_repo (repo_get (rr_id r))) orphans s))"

section \<open>\<open>EvalStore\<close>\<close>

definition eval_terminal_statuses :: "string list" where
  "eval_terminal_statuses = [''evaluation_failed'', ''done'', ''cancelled'']"

definition eval_create :: "new_evaluation \<Rightarrow> store \<Rightarrow> store_error + (eval_id \<times> store)" where
  "eval_create new s =
     (if \<not> has_repo (repo_get (ne_repo_id new)) s then Inl (Sqlx FkViolation)
      else (let i = q_evals (st_seq s) + 1
            in Inr (EvalId i,
              s\<lparr>st_evals := st_evals s @ [\<lparr>e_id = i, e_repo_id = repo_get (ne_repo_id new),
                  e_trigger = ne_trigger new, e_git_ref = ne_git_ref new,
                  e_sha = sha_str (ne_sha new), e_started_at = None, e_finished_at = None,
                  e_status = eval_as_str EQueued, e_pr_number = map_option int (ne_pr_number new),
                  e_building_started_at = None, e_failure_reason = None\<rparr>],
                st_seq := (st_seq s)\<lparr>q_evals := i\<rparr>\<rparr>)))"

definition eval_get_row :: "eval_id \<Rightarrow> store \<Rightarrow> eval_row option" where
  "eval_get_row i s = List.find (\<lambda>e. e_id e = eval_get i) (st_evals s)"

definition store_eval_get :: "eval_id \<Rightarrow> store \<Rightarrow> store_error + eval_record option" where
  "store_eval_get i s = transpose_result (map_option map_eval (eval_get_row i s))"

definition eval_set_status :: "eval_id \<Rightarrow> eval_status \<Rightarrow> store \<Rightarrow> store" where
  "eval_set_status i status s =
     s\<lparr>st_evals := update_where (\<lambda>e. e_id e = eval_get i)
        (\<lambda>e. e\<lparr>e_status := eval_as_str status\<rparr>) (st_evals s)\<rparr>"

definition eval_start :: "eval_id \<Rightarrow> nat \<Rightarrow> eval_status \<Rightarrow> store \<Rightarrow> store" where
  "eval_start i started_at status s =
     s\<lparr>st_evals := update_where
        (\<lambda>e. e_id e = eval_get i \<and> e_status e \<notin> set eval_terminal_statuses)
        (\<lambda>e. e\<lparr>e_status := eval_as_str status, e_started_at := Some started_at\<rparr>) (st_evals s)\<rparr>"

definition eval_finish :: "eval_id \<Rightarrow> eval_status \<Rightarrow> nat \<Rightarrow> store \<Rightarrow> store" where
  "eval_finish i status finished_at s =
     s\<lparr>st_evals := update_where
        (\<lambda>e. e_id e = eval_get i \<and> e_status e \<notin> set eval_terminal_statuses)
        (\<lambda>e. e\<lparr>e_status := eval_as_str status, e_finished_at := Some finished_at\<rparr>) (st_evals s)\<rparr>"

definition fail_with_reason :: "eval_id \<Rightarrow> string \<Rightarrow> nat \<Rightarrow> store \<Rightarrow> store" where
  "fail_with_reason i reason finished_at s =
     s\<lparr>st_evals := update_where
        (\<lambda>e. e_id e = eval_get i \<and> e_status e \<notin> set eval_terminal_statuses)
        (\<lambda>e. e\<lparr>e_status := eval_as_str EEvaluationFailed, e_finished_at := Some finished_at,
               e_failure_reason := Some reason\<rparr>) (st_evals s)\<rparr>"

definition mark_building :: "eval_id \<Rightarrow> nat \<Rightarrow> store \<Rightarrow> store" where
  "mark_building i building_started_at s =
     s\<lparr>st_evals := update_where
        (\<lambda>e. e_id e = eval_get i \<and> e_status e \<notin> set eval_terminal_statuses)
        (\<lambda>e. e\<lparr>e_status := eval_as_str EBuilding,
               e_building_started_at := Some building_started_at\<rparr>) (st_evals s)\<rparr>"

definition eval_list_by_repo :: "repo_id \<Rightarrow> nat \<Rightarrow> store \<Rightarrow> store_error + eval_record list" where
  "eval_list_by_repo i limit s =
     map_results map_eval (take limit (rev (sort_key e_id
       (filter (\<lambda>e. e_repo_id e = repo_get i) (st_evals s)))))"

definition latest_done_for_ref ::
  "repo_id \<Rightarrow> string \<Rightarrow> store \<Rightarrow> store_error + eval_record option" where
  "latest_done_for_ref i git_ref s =
     transpose_result (map_option map_eval (case rev (sort_key e_id
       (filter (\<lambda>e. e_repo_id e = repo_get i \<and> e_git_ref e = git_ref
                  \<and> e_status e = ''done'') (st_evals s))) of
         [] \<Rightarrow> None | e # _ \<Rightarrow> Some e))"

definition escape_backslashes :: "string \<Rightarrow> string" where
  "escape_backslashes s = concat (map (\<lambda>c. if byte c = (92 :: nat) then [c, c] else [c]) s)"

definition list_active_by_branch_key ::
  "repo_id \<Rightarrow> string \<Rightarrow> store \<Rightarrow> store_error + eval_record list" where
  "list_active_by_branch_key i key s =
     (let like_pattern = escape_backslashes key @ '':%''
      in map_results map_eval (sort_key e_id (filter (\<lambda>e.
           e_repo_id e = repo_get i
           \<and> e_status e \<in> set [''queued'', ''evaluating'', ''building'']
           \<and> (e_git_ref e = key \<or> sql_like (Some (char_of (92 :: nat))) like_pattern (e_git_ref e)))
         (st_evals s))))"

definition ids_with_status :: "string \<Rightarrow> store \<Rightarrow> eval_id list" where
  "ids_with_status status s =
     map (\<lambda>e. EvalId (e_id e)) (sort_key e_id (filter (\<lambda>e. e_status e = status) (st_evals s)))"

definition list_queued_ids :: "store \<Rightarrow> eval_id list" where
  "list_queued_ids s = ids_with_status ''queued'' s"

definition list_building_ids :: "store \<Rightarrow> eval_id list" where
  "list_building_ids s = ids_with_status ''building'' s"

definition list_evaluating_ids :: "store \<Rightarrow> eval_id list" where
  "list_evaluating_ids s = ids_with_status ''evaluating'' s"

definition join_repo :: "store \<Rightarrow> eval_row \<Rightarrow> (eval_row \<times> repo_row) list" where
  "join_repo s e = map (\<lambda>r. (e, r)) (filter (\<lambda>r. e_repo_id e = r_id r) (st_repos s))"

definition eval_list_by_status ::
  "eval_status \<Rightarrow> nat \<Rightarrow> store \<Rightarrow> store_error + eval_with_repo list" where
  "eval_list_by_status status limit s =
     map_results (\<lambda>(e, r).
         bind_result (map_eval e) (\<lambda>eval.
         bind_result (to_slug (eval_get (er_id eval)) (r_slug r)) (\<lambda>slug.
         Inr \<lparr>ew_eval = eval, ew_forge = r_forge r, ew_slug = slug\<rparr>)))
       (take limit (concat (map (join_repo s)
         (sort_key e_id (filter (\<lambda>e. e_status e = eval_as_str status) (st_evals s))))))"

definition finished_or_zero :: "eval_row \<Rightarrow> nat" where
  "finished_or_zero e = (case e_finished_at e of None \<Rightarrow> 0 | Some t \<Rightarrow> t)"

definition list_terminal_evals_older_than ::
  "repo_id \<Rightarrow> nat \<Rightarrow> store \<Rightarrow> store_error + eval_record list" where
  "list_terminal_evals_older_than i cutoff s =
     map_results map_eval (sort_key finished_or_zero (sort_key e_id (filter (\<lambda>e.
         e_repo_id e = repo_get i \<and> e_status e \<in> set eval_terminal_statuses
         \<and> (case e_finished_at e of None \<Rightarrow> False | Some t \<Rightarrow> t \<le> cutoff)) (st_evals s))))"

definition list_terminal_evals_oldest_first ::
  "nat \<Rightarrow> store \<Rightarrow> store_error + eval_record list" where
  "list_terminal_evals_oldest_first limit s =
     map_results map_eval (take limit (sort_key finished_or_zero (sort_key e_id (filter (\<lambda>e.
         e_status e \<in> set eval_terminal_statuses \<and> e_finished_at e \<noteq> None) (st_evals s)))))"

definition delete_eval_cascade :: "eval_id \<Rightarrow> store \<Rightarrow> store" where
  "delete_eval_cascade i s = delete_evals (\<lambda>e. e_id e = eval_get i) s"

section \<open>\<open>JobStore\<close>\<close>

definition job_terminal_statuses :: "string list" where
  "job_terminal_statuses =
     [''cached'', ''success'', ''failure'', ''cancelled'', ''skipped_no_builder'']"

definition job_create :: "serde \<Rightarrow> new_job \<Rightarrow> store \<Rightarrow> store_error + (job_id \<times> store)" where
  "job_create S new s =
     (if \<not> has_eval (eval_get (nj_eval_id new)) s then Inl (Sqlx FkViolation)
      else (let i = q_jobs (st_seq s) + 1;
                outputs_json = (if nj_outputs new = [] then None else Some (ser_map S (nj_outputs new)))
            in Inr (JobId i,
              s\<lparr>st_jobs := st_jobs s @ [\<lparr>j_id = i, j_eval_id = eval_get (nj_eval_id new),
                  j_attr_path = nj_attr_path new, j_drv_path = nj_drv_path new,
                  j_system = nj_system new, j_started_at = None, j_finished_at = None,
                  j_status = job_as_str JQueued, j_log_path = None, j_output_path = None,
                  j_builder_id = None, j_interrupt_count = 0, j_failure_reason = None,
                  j_push_bytes = None, j_push_ms = None, j_build_ms = None, j_pull_bytes = None,
                  j_pull_ms = None, j_cache_push_ms = None, j_image_size_bytes = None,
                  j_main_program = nj_main_program new, j_outputs_json = outputs_json,
                  j_spec_json = None\<rparr>],
                st_seq := (st_seq s)\<lparr>q_jobs := i\<rparr>\<rparr>)))"

definition job_get_row :: "job_id \<Rightarrow> store \<Rightarrow> job_row option" where
  "job_get_row i s = List.find (\<lambda>j. j_id j = job_get i) (st_jobs s)"

definition store_job_get :: "serde \<Rightarrow> job_id \<Rightarrow> store \<Rightarrow> store_error + job_record option" where
  "store_job_get S i s = transpose_result (map_option (map_job S) (job_get_row i s))"

definition job_list_by_eval :: "serde \<Rightarrow> eval_id \<Rightarrow> store \<Rightarrow> store_error + job_record list" where
  "job_list_by_eval S i s =
     map_results (map_job S)
       (sort_key j_id (filter (\<lambda>j. j_eval_id j = eval_get i) (st_jobs s)))"

definition job_tallies_by_repo :: "repo_id \<Rightarrow> store \<Rightarrow> (eval_id, eval_job_tally) hashmap" where
  "job_tallies_by_repo i s =
     (let rows = filter (\<lambda>j. list_ex (\<lambda>e. j_eval_id j = e_id e \<and> e_repo_id e = repo_get i)
                   (st_evals s)) (st_jobs s)
      in map (\<lambda>v. (EvalId v,
           \<lparr>ejt_total = length (filter (\<lambda>j. j_eval_id j = v) rows) mod 2 ^ 32,
            ejt_not_succeeded = length (filter (\<lambda>j. j_eval_id j = v
                \<and> j_status j \<notin> set [''success'', ''cached'']) rows) mod 2 ^ 32\<rparr>))
         (remdups (map j_eval_id rows)))"

definition join_context :: "store \<Rightarrow> job_row \<Rightarrow> (job_row \<times> eval_row \<times> repo_row) list" where
  "join_context s j =
     concat (map (\<lambda>e. map (\<lambda>(e, r). (j, e, r)) (join_repo s e))
       (filter (\<lambda>e. j_eval_id j = e_id e) (st_evals s)))"

definition list_running :: "serde \<Rightarrow> store \<Rightarrow> store_error + job_with_context list" where
  "list_running S s =
     map_results (map_job_with_context S) (concat (map (join_context s)
       (sort_key (\<lambda>j. case j_started_at j of None \<Rightarrow> 0 | Some t \<Rightarrow> t + 1) (sort_key j_id
         (filter (\<lambda>j. j_status j = ''running'') (st_jobs s))))))"

definition list_queued :: "serde \<Rightarrow> nat \<Rightarrow> store \<Rightarrow> store_error + job_with_context list" where
  "list_queued S limit s =
     map_results (map_job_with_context S) (take limit
       (filter (\<lambda>(j, e, r). e_status e \<in> set [''queued'', ''evaluating'', ''building''])
         (concat (map (join_context s) (sort_key j_id
           (filter (\<lambda>j. j_status j = ''queued'') (st_jobs s)))))))"

definition job_set_status :: "job_id \<Rightarrow> job_status \<Rightarrow> store \<Rightarrow> store" where
  "job_set_status i status s =
     s\<lparr>st_jobs := update_where (\<lambda>j. j_id j = job_get i)
        (\<lambda>j. j\<lparr>j_status := job_as_str status\<rparr>) (st_jobs s)\<rparr>"

definition job_start :: "job_id \<Rightarrow> nat \<Rightarrow> store \<Rightarrow> store" where
  "job_start i started_at s =
     s\<lparr>st_jobs := update_where
        (\<lambda>j. j_id j = job_get i \<and> j_status j \<notin> set job_terminal_statuses)
        (\<lambda>j. j\<lparr>j_status := job_as_str JRunning, j_started_at := Some started_at\<rparr>) (st_jobs s)\<rparr>"

definition job_finish ::
  "job_id \<Rightarrow> job_status \<Rightarrow> nat \<Rightarrow> string option \<Rightarrow> string option \<Rightarrow> phase_metrics \<Rightarrow> store \<Rightarrow> store" where
  "job_finish i status finished_at log_path output_path m s =
     s\<lparr>st_jobs := update_where
        (\<lambda>j. j_id j = job_get i \<and> j_status j \<notin> set job_terminal_statuses)
        (\<lambda>j. j\<lparr>j_status := job_as_str status, j_finished_at := Some finished_at,
               j_log_path := log_path, j_output_path := output_path,
               j_push_bytes := map_option clamp_i64 (pm_push_bytes m),
               j_push_ms := map_option clamp_i64 (pm_push_ms m),
               j_build_ms := map_option clamp_i64 (pm_build_ms m),
               j_pull_bytes := map_option clamp_i64 (pm_pull_bytes m),
               j_pull_ms := map_option clamp_i64 (pm_pull_ms m)\<rparr>) (st_jobs s)\<rparr>"

definition record_cache_push_ms :: "job_id \<Rightarrow> nat \<Rightarrow> store \<Rightarrow> store" where
  "record_cache_push_ms i ms s =
     s\<lparr>st_jobs := update_where (\<lambda>j. j_id j = job_get i)
        (\<lambda>j. j\<lparr>j_cache_push_ms := Some (clamp_i64 ms)\<rparr>) (st_jobs s)\<rparr>"

definition record_image_size :: "job_id \<Rightarrow> nat \<Rightarrow> store \<Rightarrow> store" where
  "record_image_size i size_bytes s =
     s\<lparr>st_jobs := update_where (\<lambda>j. j_id j = job_get i)
        (\<lambda>j. j\<lparr>j_image_size_bytes := Some (clamp_i64 size_bytes)\<rparr>) (st_jobs s)\<rparr>"

definition mark_running_interrupted :: "store \<Rightarrow> nat \<times> store" where
  "mark_running_interrupted s =
     (let p = (\<lambda>j. j_status j = job_as_str JRunning)
      in (rows_affected p (st_jobs s),
          s\<lparr>st_jobs := update_where p (\<lambda>j. j\<lparr>j_status := job_as_str JInterrupted\<rparr>) (st_jobs s)\<rparr>))"

definition interrupt_if_running :: "job_id \<Rightarrow> store \<Rightarrow> bool \<times> store" where
  "interrupt_if_running i s =
     (let p = (\<lambda>j. j_id j = job_get i \<and> j_status j = job_as_str JRunning)
      in (0 < rows_affected p (st_jobs s),
          s\<lparr>st_jobs := update_where p (\<lambda>j. j\<lparr>j_status := job_as_str JInterrupted\<rparr>) (st_jobs s)\<rparr>))"

definition requeue_interrupted_for_eval :: "eval_id \<Rightarrow> store \<Rightarrow> nat \<times> store" where
  "requeue_interrupted_for_eval i s =
     (let p = (\<lambda>j. j_eval_id j = eval_get i \<and> j_status j = job_as_str JInterrupted)
      in (rows_affected p (st_jobs s),
          s\<lparr>st_jobs := update_where p (\<lambda>j. j\<lparr>j_status := job_as_str JQueued, j_started_at := None,
              j_builder_id := None\<rparr>) (st_jobs s)\<rparr>))"

definition set_spec_json :: "job_id \<Rightarrow> string \<Rightarrow> store \<Rightarrow> store" where
  "set_spec_json i spec_json s =
     s\<lparr>st_jobs := update_where (\<lambda>j. j_id j = job_get i)
        (\<lambda>j. j\<lparr>j_spec_json := Some spec_json\<rparr>) (st_jobs s)\<rparr>"

definition resume_specs_for_eval :: "eval_id \<Rightarrow> store \<Rightarrow> (job_id \<times> string) list" where
  "resume_specs_for_eval i s =
     map (\<lambda>j. (JobId (j_id j), the (j_spec_json j))) (sort_key j_id (filter (\<lambda>j.
       j_eval_id j = eval_get i \<and> j_status j = ''queued'' \<and> j_spec_json j \<noteq> None)
       (st_jobs s)))"

definition job_dispatch ::
  "job_id \<Rightarrow> builder_id \<Rightarrow> nat \<Rightarrow> store \<Rightarrow> store_error + store" where
  "job_dispatch i b started_at s =
     (let p = (\<lambda>j. j_id j = job_get i \<and> j_status j \<notin> set job_terminal_statuses)
      in if 0 < rows_affected p (st_jobs s) \<and> \<not> has_builder (builder_get b) s
         then Inl (Sqlx FkViolation)
         else Inr (s\<lparr>st_jobs := update_where p
           (\<lambda>j. j\<lparr>j_status := job_as_str JRunning, j_started_at := Some started_at,
                  j_builder_id := Some (builder_get b)\<rparr>) (st_jobs s)\<rparr>))"

section \<open>\<open>BuilderStore\<close>\<close>

definition find_builder :: "string \<Rightarrow> store \<Rightarrow> builder_row option" where
  "find_builder name s = List.find (\<lambda>b. b_name b = name) (st_builders s)"

definition builder_upsert ::
  "serde \<Rightarrow> new_builder \<Rightarrow> nat \<Rightarrow> store \<Rightarrow> store_error + (builder_id \<times> store)" where
  "builder_upsert S new now s =
     (let name = bname_str (nb_name new); caps = nb_capabilities new;
          systems_json = ser_strings S (cap_systems caps);
          features_json = ser_strings S (cap_features caps)
      in case find_builder name s of
           Some b \<Rightarrow>
             if b_pubkey b = pubkey_bytes (nb_pubkey new) \<and> b_revoked_at b = None
             then Inr (BuilderId (b_id b),
                s\<lparr>st_builders := update_where (\<lambda>q. b_id q = b_id b)
                   (\<lambda>q. q\<lparr>b_systems := systems_json, b_native_system := cap_native_system caps,
                          b_features := features_json, b_max_jobs := int (cap_max_jobs caps),
                          b_nix_version := cap_nix_version caps, b_last_seen := now\<rparr>)
                   (st_builders s)\<rparr>)
             else Inl (BuilderNameConflict name)
         | None \<Rightarrow>
             (let i = q_builders (st_seq s) + 1
              in Inr (BuilderId i,
                s\<lparr>st_builders := st_builders s @ [\<lparr>b_id = i, b_name = name,
                    b_pubkey = pubkey_bytes (nb_pubkey new), b_systems = systems_json,
                    b_native_system = cap_native_system caps, b_features = features_json,
                    b_max_jobs = int (cap_max_jobs caps), b_nix_version = cap_nix_version caps,
                    b_enrolled_at = now, b_last_seen = now, b_revoked_at = None\<rparr>],
                  st_seq := (st_seq s)\<lparr>q_builders := i\<rparr>\<rparr>)))"

definition store_builder_get :: "serde \<Rightarrow> builder_id \<Rightarrow> store \<Rightarrow> store_error + builder_record option" where
  "store_builder_get S i s =
     transpose_result (map_option (map_builder S)
       (List.find (\<lambda>b. b_id b = builder_get i) (st_builders s)))"

definition find_by_name :: "serde \<Rightarrow> string \<Rightarrow> store \<Rightarrow> store_error + builder_record option" where
  "find_by_name S name s = transpose_result (map_option (map_builder S) (find_builder name s))"

definition find_active_by_pubkey ::
  "serde \<Rightarrow> builder_pubkey \<Rightarrow> store \<Rightarrow> store_error + builder_record option" where
  "find_active_by_pubkey S key s =
     transpose_result (map_option (map_builder S)
       (List.find (\<lambda>b. b_pubkey b = pubkey_bytes key \<and> b_revoked_at b = None) (st_builders s)))"

definition mark_seen :: "builder_id \<Rightarrow> nat \<Rightarrow> store \<Rightarrow> store" where
  "mark_seen i now s =
     s\<lparr>st_builders := update_where (\<lambda>b. b_id b = builder_get i)
        (\<lambda>b. b\<lparr>b_last_seen := now\<rparr>) (st_builders s)\<rparr>"

definition revoke :: "string \<Rightarrow> nat \<Rightarrow> store \<Rightarrow> bool \<times> store" where
  "revoke name now s =
     (0 < rows_affected (\<lambda>b. b_name b = name) (st_builders s),
      s\<lparr>st_builders := update_where (\<lambda>b. b_name b = name)
          (\<lambda>b. b\<lparr>b_revoked_at := Some now\<rparr>) (st_builders s)\<rparr>)"

definition builder_remove :: "string \<Rightarrow> store \<Rightarrow> store_error + (bool \<times> store)" where
  "builder_remove name s =
     (let gone = filter (\<lambda>b. b_name b = name) (st_builders s)
      in if list_ex (\<lambda>j. list_ex (\<lambda>b. j_builder_id j = Some (b_id b)) gone) (st_jobs s)
         then Inl (Sqlx FkViolation)
         else Inr (gone \<noteq> [],
                s\<lparr>st_builders := filter (\<lambda>b. b_name b \<noteq> name) (st_builders s)\<rparr>))"

definition rename_row :: "string \<Rightarrow> string \<Rightarrow> store \<Rightarrow> store_error + (nat \<times> store)" where
  "rename_row old new s =
     (let p = (\<lambda>b. b_name b = old)
      in if old \<noteq> new \<and> 0 < rows_affected p (st_builders s) \<and> find_builder new s \<noteq> None
         then Inl (Sqlx UniqueViolation)
         else Inr (rows_affected p (st_builders s),
                s\<lparr>st_builders := update_where p (\<lambda>b. b\<lparr>b_name := new\<rparr>) (st_builders s)\<rparr>))"

definition builder_rename :: "string \<Rightarrow> string \<Rightarrow> store \<Rightarrow> store_error + (bool \<times> store)" where
  "builder_rename old new s =
     (case rename_row old new s of
        Inr (n, s') \<Rightarrow> Inr (0 < n, s')
      | Inl e \<Rightarrow> if e = Sqlx UniqueViolation then Inr (False, s) else Inl e)"

definition list_all_builders :: "serde \<Rightarrow> store \<Rightarrow> store_error + builder_record list" where
  "list_all_builders S s = map_results (map_builder S) (sort_key b_enrolled_at (st_builders s))"

section \<open>\<open>ForgeStatusStore\<close>\<close>

definition find_forge_status :: "eval_id \<Rightarrow> string \<Rightarrow> store \<Rightarrow> forge_status_row option" where
  "find_forge_status i kind s =
     List.find (\<lambda>f. f_eval_id f = eval_get i \<and> f_kind f = kind) (st_forge_status s)"

definition forge_status_upsert ::
  "nat \<Rightarrow> eval_id \<Rightarrow> string \<Rightarrow> string option \<Rightarrow> store \<Rightarrow> store_error + store" where
  "forge_status_upsert now i kind handle s =
     (if \<not> has_eval (eval_get i) s then Inl (Sqlx FkViolation)
      else if find_forge_status i kind s \<noteq> None
      then Inr (s\<lparr>st_forge_status := update_where
             (\<lambda>f. f_eval_id f = eval_get i \<and> f_kind f = kind)
             (\<lambda>f. f\<lparr>f_handle := handle, f_last_posted_at := now\<rparr>) (st_forge_status s)\<rparr>)
      else Inr (s\<lparr>st_forge_status := st_forge_status s @
             [\<lparr>f_eval_id = eval_get i, f_kind = kind, f_handle = handle,
               f_last_posted_at = now\<rparr>]\<rparr>))"

definition forge_status_get :: "eval_id \<Rightarrow> string \<Rightarrow> store \<Rightarrow> forge_status_record option" where
  "forge_status_get i kind s =
     map_option (\<lambda>f. \<lparr>fs_eval_id = EvalId (f_eval_id f), fs_kind = f_kind f,
        fs_handle = f_handle f, fs_last_posted_at = f_last_posted_at f\<rparr>) (find_forge_status i kind s)"

section \<open>\<open>DockerImageStore\<close>\<close>

definition image_create :: "nat \<Rightarrow> new_docker_image \<Rightarrow> store \<Rightarrow> store_error + store" where
  "image_create now new s =
     (if \<not> has_repo (repo_get (nd_repo_id new)) s
        \<or> \<not> has_eval (eval_get (nd_eval_id new)) s
        \<or> \<not> has_job (job_get (nd_job_id new)) s
      then Inl (Sqlx FkViolation)
      else (let i = q_images (st_seq s) + 1
            in Inr (s\<lparr>st_images := st_images s @ [\<lparr>d_id = i,
                 d_repo_id = repo_get (nd_repo_id new),
                 d_eval_id = eval_get (nd_eval_id new),
                 d_job_id = job_get (nd_job_id new), d_image_name = nd_image_name new,
                 d_system = nd_system new, d_git_ref = nd_git_ref new,
                 d_sha = sha_str (nd_sha new), d_manifest_digest = nd_manifest_digest new,
                 d_manifest_path = nd_manifest_path new, d_created_at = now\<rparr>],
               st_seq := (st_seq s)\<lparr>q_images := i\<rparr>\<rparr>)))"

definition head_option :: "'a list \<Rightarrow> 'a option" where
  "head_option xs = (case xs of [] \<Rightarrow> None | x # _ \<Rightarrow> Some x)"

definition latest_for_branch ::
  "string \<Rightarrow> string \<Rightarrow> string \<Rightarrow> store \<Rightarrow> store_error + docker_image_record option" where
  "latest_for_branch image_name system git_ref s =
     transpose_result (map_option map_docker_image (head_option (rev
       (sort_key d_created_at (sort_key d_id (filter (\<lambda>d. d_image_name d = image_name
          \<and> d_system d = system \<and> d_git_ref d = git_ref) (st_images s)))))))"

definition latest_per_system_for_branch ::
  "string \<Rightarrow> string \<Rightarrow> store \<Rightarrow> store_error + docker_image_record list" where
  "latest_per_system_for_branch image_name git_ref s =
     map_results map_docker_image (sort_key d_system (filter (\<lambda>d.
         d_image_name d = image_name \<and> d_git_ref d = git_ref
         \<and> list_all (\<lambda>d'. d_image_name d' = d_image_name d \<and> d_git_ref d' = d_git_ref d
              \<and> d_system d' = d_system d \<longrightarrow> d_id d' \<le> d_id d) (st_images s)) (st_images s)))"

definition rows_by_sha_prefix ::
  "string \<Rightarrow> string \<Rightarrow> store \<Rightarrow> store_error + docker_image_record list" where
  "rows_by_sha_prefix image_name sha_prefix s =
     map_results map_docker_image (sort_key d_system (rev (sort_key d_created_at
       (filter (\<lambda>d. d_image_name d = image_name \<and> sql_like None (sha_prefix @ ''%'') (d_sha d))
         (st_images s)))))"

definition by_manifest_digest ::
  "string \<Rightarrow> string \<Rightarrow> store \<Rightarrow> store_error + docker_image_record option" where
  "by_manifest_digest image_name digest s =
     transpose_result (map_option map_docker_image (List.find (\<lambda>d.
       d_image_name d = image_name \<and> d_manifest_digest d = digest) (st_images s)))"

section \<open>\<open>EffectRunStore\<close> and \<open>SbomStore\<close>\<close>

definition create_effect_run ::
  "job_id \<Rightarrow> string \<Rightarrow> string \<Rightarrow> nat \<Rightarrow> store \<Rightarrow> store_error + (int \<times> store)" where
  "create_effect_run i kind target started_at s =
     (if \<not> has_job (job_get i) s then Inl (Sqlx FkViolation)
      else (let n = q_effects (st_seq s) + 1
            in Inr (n, s\<lparr>st_effects := st_effects s @ [\<lparr>x_id = n, x_job_id = job_get i,
                 x_kind = kind, x_target = target, x_status = ''running'', x_detail = None,
                 x_started_at = started_at, x_finished_at = None\<rparr>],
               st_seq := (st_seq s)\<lparr>q_effects := n\<rparr>\<rparr>)))"

definition finish_effect_run ::
  "int \<Rightarrow> string \<Rightarrow> string option \<Rightarrow> nat \<Rightarrow> store \<Rightarrow> store" where
  "finish_effect_run n status detail finished_at s =
     s\<lparr>st_effects := update_where (\<lambda>x. x_id x = n)
        (\<lambda>x. x\<lparr>x_status := status, x_detail := detail, x_finished_at := Some finished_at\<rparr>)
        (st_effects s)\<rparr>"

definition list_effect_runs_by_job ::
  "job_id \<Rightarrow> store \<Rightarrow> store_error + effect_run_record list" where
  "list_effect_runs_by_job i s =
     map_results map_effect_run
       (sort_key x_id (filter (\<lambda>x. x_job_id x = job_get i) (st_effects s)))"

definition list_effect_runs_by_eval ::
  "eval_id \<Rightarrow> store \<Rightarrow> store_error + effect_run_record list" where
  "list_effect_runs_by_eval i s =
     map_results map_effect_run (sort_key x_id (filter (\<lambda>x. list_ex (\<lambda>j.
        x_job_id x = j_id j \<and> j_eval_id j = eval_get i) (st_jobs s)) (st_effects s)))"

definition effect_interrupted_detail :: string where
  "effect_interrupted_detail = ''daemon exited before the effect finished''"

definition mark_running_effects_interrupted :: "nat \<Rightarrow> store \<Rightarrow> nat \<times> store" where
  "mark_running_effects_interrupted finished_at s =
     (let p = (\<lambda>x. x_status x = ''running'')
      in (rows_affected p (st_effects s),
          s\<lparr>st_effects := update_where p (\<lambda>x. x\<lparr>x_status := ''interrupted'',
              x_finished_at := Some finished_at,
              x_detail := Some (case x_detail x of
                Some d \<Rightarrow> d | None \<Rightarrow> effect_interrupted_detail)\<rparr>) (st_effects s)\<rparr>))"

definition upsert_sbom ::
  "job_id \<Rightarrow> string \<Rightarrow> string \<Rightarrow> nat \<Rightarrow> nat \<Rightarrow> store \<Rightarrow> store_error + store" where
  "upsert_sbom i format content component_count created_at s =
     (if \<not> has_job (job_get i) s then Inl (Sqlx FkViolation)
      else if list_ex (\<lambda>b. s_job_id b = job_get i) (st_sboms s)
      then Inr (s\<lparr>st_sboms := update_where (\<lambda>b. s_job_id b = job_get i)
             (\<lambda>b. b\<lparr>s_format := format, s_content := content,
                    s_component_count := int component_count, s_created_at := created_at\<rparr>)
             (st_sboms s)\<rparr>)
      else (let n = q_sboms (st_seq s) + 1
            in Inr (s\<lparr>st_sboms := st_sboms s @ [\<lparr>s_id = n, s_job_id = job_get i,
                 s_format = format, s_content = content, s_component_count = int component_count,
                 s_created_at = created_at\<rparr>],
               st_seq := (st_seq s)\<lparr>q_sboms := n\<rparr>\<rparr>)))"

definition get_sbom_by_job :: "job_id \<Rightarrow> store \<Rightarrow> store_error + sbom_record option" where
  "get_sbom_by_job i s =
     transpose_result (map_option map_sbom
       (List.find (\<lambda>b. s_job_id b = job_get i) (st_sboms s)))"

end
