(* ===== verification/Store_Inv.thy ===== *)
theory Store_Inv
  imports Store_Ops
begin

text \<open>
  The integrity of the database: every table has unique, once-only ids, every reference points
  to an existing row, the unique constraints hold, and every row decodes. The invariant is
  kept by every method, for arguments of the validated types; sequences of calls are lists of
  \<open>store_op\<close>.
\<close>

section \<open>Decodable rows\<close>

lemma bind_result_Inr:
  "bind_result x f = Inr b \<longleftrightarrow> (\<exists>a. x = Inr a \<and> f a = Inr b)"
  by (cases x) (auto simp: bind_result_def)

lemma map_sum_Inr: "map_sum f g x = Inr b \<longleftrightarrow> (\<exists>a. x = Inr a \<and> b = g a)"
  by (cases x) auto

definition decodes :: "('r \<Rightarrow> store_error + 'a) \<Rightarrow> 'r \<Rightarrow> bool" where
  "decodes f r \<longleftrightarrow> (\<exists>x. f r = Inr x)"

lemma decodes_repo: "decodes map_repo r \<longleftrightarrow> (\<exists>x. slug_new (r_slug r) = Inr x)"
  by (auto simp: decodes_def map_repo_def bind_result_Inr to_slug_def map_sum_Inr)

lemma decodes_eval:
  "decodes map_eval e \<longleftrightarrow>
     (\<exists>x. sha_new (e_sha e) = Inr x) \<and> (\<exists>x. eval_from_str (e_status e) = Inr x)"
  by (auto simp: decodes_def map_eval_def bind_result_Inr to_sha_def to_eval_status_def map_sum_Inr)

lemma decodes_job: "decodes (map_job S) j \<longleftrightarrow> (\<exists>x. job_from_str (j_status j) = Inr x)"
  by (auto simp: decodes_def map_job_def bind_result_Inr to_job_status_def map_sum_Inr)

lemma decodes_builder:
  "decodes (map_builder S) b \<longleftrightarrow>
     (\<exists>x. builder_name_new (b_name b) = Inr x) \<and> (\<exists>x. pubkey_from_bytes (b_pubkey b) = Inr x)
     \<and> (\<exists>x. de_strings S (b_systems b) = Some x) \<and> (\<exists>x. de_strings S (b_features b) = Some x)"
  by (auto simp: decodes_def map_builder_def bind_result_Inr map_sum_Inr split: option.splits)

lemma decodes_image: "decodes map_docker_image d \<longleftrightarrow> (\<exists>x. sha_new (d_sha d) = Inr x)"
  by (auto simp: decodes_def map_docker_image_def bind_result_Inr to_sha_def map_sum_Inr)

lemmas decodes_iffs = decodes_repo decodes_eval decodes_job decodes_builder decodes_image

section \<open>Tables\<close>

definition rows_ok :: "('r \<Rightarrow> int) \<Rightarrow> int \<Rightarrow> ('r \<Rightarrow> bool) \<Rightarrow> 'r list \<Rightarrow> bool" where
  "rows_ok key n good rows \<longleftrightarrow> distinct (map key rows) \<and> (\<forall>r\<in>set rows. key r \<le> n \<and> good r)"

lemma update_where_keys:
  "(\<And>r. key (f r) = key r) \<Longrightarrow> map key (update_where p f rows) = map key rows"
  by (induction rows) (auto simp: update_where_def)

lemma update_where_key_set [simp]:
  "(\<And>r. key (f r) = key r) \<Longrightarrow> key ` set (update_where p f rows) = key ` set rows"
  using update_where_keys [of key f p rows] by (metis set_map)

lemma rows_ok_update:
  assumes "rows_ok key n good rows" and "\<And>r. key (f r) = key r"
    and "\<And>r. r \<in> set rows \<Longrightarrow> p r \<Longrightarrow> good r \<Longrightarrow> good (f r)"
  shows "rows_ok key n good (update_where p f rows)"
  unfolding rows_ok_def
proof
  show "distinct (map key (update_where p f rows))"
    using assms(1,2) by (simp add: update_where_keys rows_ok_def)
  show "\<forall>r\<in>set (update_where p f rows). key r \<le> n \<and> good r"
    using assms by (auto simp: rows_ok_def update_where_def)
qed

lemma rows_ok_filter:
  assumes "rows_ok key n good rows" and "\<And>r. r \<in> set rows \<Longrightarrow> p r \<Longrightarrow> good r \<Longrightarrow> good' r"
  shows "rows_ok key n good' (filter p rows)"
  using assms by (auto simp: rows_ok_def distinct_map_filter)

lemma rows_ok_mono:
  assumes "rows_ok key n good rows" and "n \<le> n'" and "\<And>r. r \<in> set rows \<Longrightarrow> good r \<Longrightarrow> good' r"
  shows "rows_ok key n' good' rows"
  using assms by (force simp: rows_ok_def)

lemma rows_ok_append:
  assumes "rows_ok key n good rows" and "key r = n + 1" and "good r"
  shows "rows_ok key (n + 1) good (rows @ [r])"
  using assms by (force simp: rows_ok_def)

lemma rows_ok_find:
  assumes "rows_ok key n good rows" and "r \<in> set rows"
  shows "List.find (\<lambda>q. key q = key r) rows = Some r"
proof (cases "List.find (\<lambda>q. key q = key r) rows")
  case None
  then show ?thesis using assms(2) by (auto simp: find_None_iff)
next
  case (Some q)
  then have "q \<in> set rows" "key q = key r" by (auto dest: find_Some_mem simp: find_Some_iff)
  with assms have "q = r" by (auto simp: rows_ok_def distinct_map dest: inj_onD)
  with Some show ?thesis by simp
qed

section \<open>Integrity\<close>

text \<open>Each table is well-formed relative to the ids of the tables it refers to.\<close>

definition repos_ok :: "int \<Rightarrow> repo_row list \<Rightarrow> bool" where
  "repos_ok n rows \<longleftrightarrow> rows_ok r_id n (decodes map_repo) rows
     \<and> distinct (map (\<lambda>r. (r_forge r, r_slug r)) rows)"

definition evals_ok :: "int set \<Rightarrow> int \<Rightarrow> eval_row list \<Rightarrow> bool" where
  "evals_ok R n rows \<longleftrightarrow> rows_ok e_id n (\<lambda>e. e_repo_id e \<in> R \<and> decodes map_eval e) rows"

definition jobs_ok :: "serde \<Rightarrow> int set \<Rightarrow> int set \<Rightarrow> int \<Rightarrow> job_row list \<Rightarrow> bool" where
  "jobs_ok S E B n rows \<longleftrightarrow> rows_ok j_id n (\<lambda>j. j_eval_id j \<in> E
     \<and> (\<forall>b. j_builder_id j = Some b \<longrightarrow> b \<in> B) \<and> decodes (map_job S) j) rows"

definition builders_ok :: "serde \<Rightarrow> int \<Rightarrow> builder_row list \<Rightarrow> bool" where
  "builders_ok S n rows \<longleftrightarrow> rows_ok b_id n (decodes (map_builder S)) rows
     \<and> distinct (map b_name rows)"

definition forge_ok :: "int set \<Rightarrow> forge_status_row list \<Rightarrow> bool" where
  "forge_ok E rows \<longleftrightarrow> distinct (map (\<lambda>f. (f_eval_id f, f_kind f)) rows)
     \<and> (\<forall>f\<in>set rows. f_eval_id f \<in> E)"

definition images_ok :: "int set \<Rightarrow> int set \<Rightarrow> int set \<Rightarrow> int \<Rightarrow> docker_image_row list \<Rightarrow> bool" where
  "images_ok R E J n rows \<longleftrightarrow> rows_ok d_id n (\<lambda>d. d_repo_id d \<in> R \<and> d_eval_id d \<in> E
     \<and> d_job_id d \<in> J \<and> decodes map_docker_image d) rows"

definition effects_ok :: "int set \<Rightarrow> int \<Rightarrow> effect_row list \<Rightarrow> bool" where
  "effects_ok J n rows \<longleftrightarrow> rows_ok x_id n (\<lambda>x. x_job_id x \<in> J) rows"

definition sboms_ok :: "int set \<Rightarrow> int \<Rightarrow> sbom_row list \<Rightarrow> bool" where
  "sboms_ok J n rows \<longleftrightarrow> rows_ok s_id n (\<lambda>b. s_job_id b \<in> J) rows \<and> distinct (map s_job_id rows)"

lemmas tables_ok_defs = repos_ok_def evals_ok_def jobs_ok_def builders_ok_def forge_ok_def
  images_ok_def effects_ok_def sboms_ok_def

definition repo_ids :: "store \<Rightarrow> int set" where
  "repo_ids s = r_id ` set (st_repos s)"

definition eval_ids :: "store \<Rightarrow> int set" where
  "eval_ids s = e_id ` set (st_evals s)"

definition job_ids :: "store \<Rightarrow> int set" where
  "job_ids s = j_id ` set (st_jobs s)"

definition builder_ids :: "store \<Rightarrow> int set" where
  "builder_ids s = b_id ` set (st_builders s)"

lemmas ids_defs = repo_ids_def eval_ids_def job_ids_def builder_ids_def

definition store_ok :: "serde \<Rightarrow> store \<Rightarrow> bool" where
  "store_ok S s \<longleftrightarrow>
     repos_ok (q_repos (st_seq s)) (st_repos s)
   \<and> evals_ok (repo_ids s) (q_evals (st_seq s)) (st_evals s)
   \<and> jobs_ok S (eval_ids s) (builder_ids s) (q_jobs (st_seq s)) (st_jobs s)
   \<and> builders_ok S (q_builders (st_seq s)) (st_builders s)
   \<and> forge_ok (eval_ids s) (st_forge_status s)
   \<and> images_ok (repo_ids s) (eval_ids s) (job_ids s) (q_images (st_seq s)) (st_images s)
   \<and> effects_ok (job_ids s) (q_effects (st_seq s)) (st_effects s)
   \<and> sboms_ok (job_ids s) (q_sboms (st_seq s)) (st_sboms s)"

lemma store_okD:
  assumes "store_ok S s"
  shows "repos_ok (q_repos (st_seq s)) (st_repos s)"
    and "evals_ok (repo_ids s) (q_evals (st_seq s)) (st_evals s)"
    and "jobs_ok S (eval_ids s) (builder_ids s) (q_jobs (st_seq s)) (st_jobs s)"
    and "builders_ok S (q_builders (st_seq s)) (st_builders s)"
    and "forge_ok (eval_ids s) (st_forge_status s)"
    and "images_ok (repo_ids s) (eval_ids s) (job_ids s) (q_images (st_seq s)) (st_images s)"
    and "effects_ok (job_ids s) (q_effects (st_seq s)) (st_effects s)"
    and "sboms_ok (job_ids s) (q_sboms (st_seq s)) (st_sboms s)"
  using assms unfolding store_ok_def by blast+

lemma rows_ok_weaken:
  "rows_ok key n good rows \<Longrightarrow> (\<And>r. good r \<Longrightarrow> good' r) \<Longrightarrow> rows_ok key n good' rows"
  by (auto simp: rows_ok_def)

lemma tables_ok_mono:
  "evals_ok R n es \<Longrightarrow> R \<subseteq> R' \<Longrightarrow> evals_ok R' n es"
  "jobs_ok S E B n js \<Longrightarrow> E \<subseteq> E' \<Longrightarrow> B \<subseteq> B' \<Longrightarrow> jobs_ok S E' B' n js"
  "forge_ok E fs \<Longrightarrow> E \<subseteq> E' \<Longrightarrow> forge_ok E' fs"
  "images_ok R E J n ds \<Longrightarrow> R \<subseteq> R' \<Longrightarrow> E \<subseteq> E' \<Longrightarrow> J \<subseteq> J' \<Longrightarrow> images_ok R' E' J' n ds"
  "effects_ok J n xs \<Longrightarrow> J \<subseteq> J' \<Longrightarrow> effects_ok J' n xs"
  "sboms_ok J n bs \<Longrightarrow> J \<subseteq> J' \<Longrightarrow> sboms_ok J' n bs"
  unfolding tables_ok_defs rows_ok_def by blast+

text \<open>Replacing one table. The children of a table only see its set of ids.\<close>

lemma store_ok_repos:
  assumes "store_ok S s" and "repos_ok (q_repos (st_seq s)) rows"
    and "repo_ids s \<subseteq> r_id ` set rows"
  shows "store_ok S (s\<lparr>st_repos := rows\<rparr>)"
  using assms store_okD [OF assms(1)] tables_ok_mono(1) [OF _ assms(3)]
    tables_ok_mono(4) [OF _ assms(3) order_refl order_refl]
  by (simp add: store_ok_def ids_defs)

lemma store_ok_evals:
  assumes "store_ok S s" and "evals_ok (repo_ids s) (q_evals (st_seq s)) rows"
    and "eval_ids s \<subseteq> e_id ` set rows"
  shows "store_ok S (s\<lparr>st_evals := rows\<rparr>)"
  using assms store_okD [OF assms(1)] tables_ok_mono(2) [OF _ assms(3) order_refl]
    tables_ok_mono(3) [OF _ assms(3)] tables_ok_mono(4) [OF _ order_refl assms(3) order_refl]
  by (simp add: store_ok_def ids_defs)

lemma store_ok_jobs:
  assumes "store_ok S s" and "jobs_ok S (eval_ids s) (builder_ids s) (q_jobs (st_seq s)) rows"
    and "job_ids s \<subseteq> j_id ` set rows"
  shows "store_ok S (s\<lparr>st_jobs := rows\<rparr>)"
  using assms store_okD [OF assms(1)] tables_ok_mono(5,6) [OF _ assms(3)]
    tables_ok_mono(4) [OF _ order_refl order_refl assms(3)]
  by (simp add: store_ok_def ids_defs)

lemma store_ok_builders:
  assumes "store_ok S s" and "builders_ok S (q_builders (st_seq s)) rows"
    and "builder_ids s \<subseteq> b_id ` set rows"
  shows "store_ok S (s\<lparr>st_builders := rows\<rparr>)"
  using assms store_okD [OF assms(1)] tables_ok_mono(2) [OF _ order_refl assms(3)]
  by (simp add: store_ok_def ids_defs)

lemma store_ok_leaves:
  assumes "store_ok S s"
  shows "forge_ok (eval_ids s) fs \<Longrightarrow> store_ok S (s\<lparr>st_forge_status := fs\<rparr>)"
    and "images_ok (repo_ids s) (eval_ids s) (job_ids s) (q_images (st_seq s)) ds
      \<Longrightarrow> store_ok S (s\<lparr>st_images := ds\<rparr>)"
    and "effects_ok (job_ids s) (q_effects (st_seq s)) xs \<Longrightarrow> store_ok S (s\<lparr>st_effects := xs\<rparr>)"
    and "sboms_ok (job_ids s) (q_sboms (st_seq s)) bs \<Longrightarrow> store_ok S (s\<lparr>st_sboms := bs\<rparr>)"
  using assms by (simp_all add: store_ok_def ids_defs)

section \<open>Sequences of calls\<close>

datatype store_op =
    RepoUpsert string slug
  | SetWebhook repo_id bytes string
  | SetMetadata repo_id "string option" "string option" "string option" "string option"
  | PruneRepos "(string \<times> slug) list"
  | EvalCreate new_evaluation
  | EvalSetStatus eval_id eval_status
  | EvalStart eval_id nat eval_status
  | EvalFinish eval_id eval_status nat
  | FailWithReason eval_id string nat
  | MarkBuilding eval_id nat
  | DeleteEval eval_id
  | JobCreate new_job
  | JobSetStatus job_id job_status
  | JobStart job_id nat
  | JobFinish job_id job_status nat "string option" "string option" phase_metrics
  | RecordCachePush job_id nat
  | RecordImageSize job_id nat
  | MarkRunningInterrupted
  | InterruptIfRunning job_id
  | RequeueInterrupted eval_id
  | SetSpecJson job_id string
  | JobDispatch job_id builder_id nat
  | BuilderUpsert new_builder nat
  | MarkSeen builder_id nat
  | Revoke string nat
  | BuilderRemove string
  | BuilderRename string string
  | ForgeUpsert nat eval_id string "string option"
  | ImageCreate nat new_docker_image
  | EffectCreate job_id string string nat
  | EffectFinish int string "string option" nat
  | EffectsInterrupted nat
  | SbomUpsert job_id string string nat nat

text \<open>A refused call leaves the store as it is.\<close>

definition kept :: "store \<Rightarrow> store_error + store \<Rightarrow> store" where
  "kept s r = (case r of Inl _ \<Rightarrow> s | Inr s' \<Rightarrow> s')"

fun store_step :: "serde \<Rightarrow> store_op \<Rightarrow> store \<Rightarrow> store" where
  "store_step S (RepoUpsert f g) s = snd (repo_upsert f g s)"
| "store_step S (SetWebhook i k h) s = set_webhook i k h s"
| "store_step S (SetMetadata i a b c d) s = set_metadata i a b c d s"
| "store_step S (PruneRepos keep) s = kept s (map_sum id snd (prune_repos_not_in keep s))"
| "store_step S (EvalCreate new) s = kept s (map_sum id snd (eval_create new s))"
| "store_step S (EvalSetStatus i st) s = eval_set_status i st s"
| "store_step S (EvalStart i t st) s = eval_start i t st s"
| "store_step S (EvalFinish i st t) s = eval_finish i st t s"
| "store_step S (FailWithReason i r t) s = fail_with_reason i r t s"
| "store_step S (MarkBuilding i t) s = mark_building i t s"
| "store_step S (DeleteEval i) s = delete_eval_cascade i s"
| "store_step S (JobCreate new) s = kept s (map_sum id snd (job_create S new s))"
| "store_step S (JobSetStatus i st) s = job_set_status i st s"
| "store_step S (JobStart i t) s = job_start i t s"
| "store_step S (JobFinish i st t l p m) s = job_finish i st t l p m s"
| "store_step S (RecordCachePush i n) s = record_cache_push_ms i n s"
| "store_step S (RecordImageSize i n) s = record_image_size i n s"
| "store_step S MarkRunningInterrupted s = snd (mark_running_interrupted s)"
| "store_step S (InterruptIfRunning i) s = snd (interrupt_if_running i s)"
| "store_step S (RequeueInterrupted i) s = snd (requeue_interrupted_for_eval i s)"
| "store_step S (SetSpecJson i j) s = set_spec_json i j s"
| "store_step S (JobDispatch i b t) s = kept s (job_dispatch i b t s)"
| "store_step S (BuilderUpsert new t) s = kept s (map_sum id snd (builder_upsert S new t s))"
| "store_step S (MarkSeen i t) s = mark_seen i t s"
| "store_step S (Revoke n t) s = snd (revoke n t s)"
| "store_step S (BuilderRemove n) s = kept s (map_sum id snd (builder_remove n s))"
| "store_step S (BuilderRename a b) s = kept s (map_sum id snd (builder_rename a b s))"
| "store_step S (ForgeUpsert t i k h) s = kept s (forge_status_upsert t i k h s)"
| "store_step S (ImageCreate t new) s = kept s (image_create t new s)"
| "store_step S (EffectCreate i k g t) s = kept s (map_sum id snd (create_effect_run i k g t s))"
| "store_step S (EffectFinish n st d t) s = finish_effect_run n st d t s"
| "store_step S (EffectsInterrupted t) s = snd (mark_running_effects_interrupted t s)"
| "store_step S (SbomUpsert i f c n t) s = kept s (upsert_sbom i f c n t s)"

definition store_run :: "serde \<Rightarrow> store_op list \<Rightarrow> store \<Rightarrow> store" where
  "store_run S ops s = fold (store_step S) ops s"

lemma store_run_simps [simp]:
  "store_run S [] s = s" "store_run S (op # ops) s = store_run S ops (store_step S op s)"
  by (simp_all add: store_run_def)

lemma store_run_append: "store_run S (a @ b) s = store_run S b (store_run S a s)"
  by (simp add: store_run_def)

text \<open>The arguments of the validated types carry valid values, and a rename is checked by the
  control socket before it reaches the store.\<close>

fun op_valid :: "store_op \<Rightarrow> bool" where
  "op_valid (RepoUpsert f g) \<longleftrightarrow> slug_new (slug_str g) = Inr g"
| "op_valid (EvalCreate new) \<longleftrightarrow> sha_new (sha_str (ne_sha new)) = Inr (ne_sha new)"
| "op_valid (ImageCreate t new) \<longleftrightarrow> sha_new (sha_str (nd_sha new)) = Inr (nd_sha new)"
| "op_valid (BuilderUpsert new t) \<longleftrightarrow>
     builder_name_new (bname_str (nb_name new)) = Inr (nb_name new)
     \<and> pubkey_from_bytes (pubkey_bytes (nb_pubkey new)) = Inr (nb_pubkey new)"
| "op_valid (BuilderRename a b) \<longleftrightarrow> (\<exists>n. builder_name_new b = Inr n)"
| "op_valid _ \<longleftrightarrow> True"

text \<open>What the store relies on of \<open>serde_json\<close>: lists of strings and maps of strings survive
  the round trip.\<close>

definition serde_ok :: "serde \<Rightarrow> bool" where
  "serde_ok S \<longleftrightarrow> (\<forall>xs. de_strings S (ser_strings S xs) = Some xs)
     \<and> (\<forall>m. de_map S (ser_map S m) = Some m)"

section \<open>Every method keeps the integrity\<close>

lemma store_ok_new: "store_ok S store_new"
  by (simp add: store_ok_def store_new_def tables_ok_defs rows_ok_def)

definition seq_le :: "sequences \<Rightarrow> sequences \<Rightarrow> bool" where
  "seq_le q q' \<longleftrightarrow> q_repos q \<le> q_repos q' \<and> q_evals q \<le> q_evals q' \<and> q_jobs q \<le> q_jobs q'
     \<and> q_builders q \<le> q_builders q' \<and> q_images q \<le> q_images q' \<and> q_effects q \<le> q_effects q'
     \<and> q_sboms q \<le> q_sboms q'"

lemma rows_ok_seq: "rows_ok key n good rows \<Longrightarrow> n \<le> n' \<Longrightarrow> rows_ok key n' good rows"
  by (force simp: rows_ok_def)

lemma store_ok_seq:
  assumes "store_ok S s" and "seq_le (st_seq s) q"
  shows "store_ok S (s\<lparr>st_seq := q\<rparr>)"
proof -
  have "repos_ok (q_repos q) (st_repos s)" "evals_ok (repo_ids s) (q_evals q) (st_evals s)"
    "jobs_ok S (eval_ids s) (builder_ids s) (q_jobs q) (st_jobs s)"
    "builders_ok S (q_builders q) (st_builders s)"
    "images_ok (repo_ids s) (eval_ids s) (job_ids s) (q_images q) (st_images s)"
    "effects_ok (job_ids s) (q_effects q) (st_effects s)" "sboms_ok (job_ids s) (q_sboms q) (st_sboms s)"
    using store_okD [OF assms(1)] assms(2) unfolding tables_ok_defs seq_le_def
    by (blast intro: rows_ok_seq)+
  then show ?thesis using store_okD(5) [OF assms(1)] by (simp add: store_ok_def ids_defs)
qed

lemma store_ok_evals_update:
  assumes "store_ok S s"
    and "\<And>e. e_id (f e) = e_id e \<and> e_repo_id (f e) = e_repo_id e \<and> e_sha (f e) = e_sha e
           \<and> (\<exists>st. eval_from_str (e_status (f e)) = Inr st)"
  shows "store_ok S (s\<lparr>st_evals := update_where p f (st_evals s)\<rparr>)"
proof (rule store_ok_evals [OF assms(1)])
  have "decodes map_eval (f e)" if "decodes map_eval e" for e
    using that assms(2) [of e] by (auto simp: decodes_eval)
  with store_okD(2) [OF assms(1)] assms(2)
  show "evals_ok (repo_ids s) (q_evals (st_seq s)) (update_where p f (st_evals s))"
    unfolding evals_ok_def by (intro rows_ok_update) auto
  show "eval_ids s \<subseteq> e_id ` set (update_where p f (st_evals s))"
    using assms(2) by (simp add: eval_ids_def)
qed

lemma store_ok_jobs_update:
  assumes "store_ok S s"
    and "\<And>j. j_id (f j) = j_id j \<and> j_eval_id (f j) = j_eval_id j
           \<and> (j_status (f j) = j_status j \<or> (\<exists>st. job_from_str (j_status (f j)) = Inr st))
           \<and> (j_builder_id (f j) = j_builder_id j \<or> j_builder_id (f j) = None)"
  shows "store_ok S (s\<lparr>st_jobs := update_where p f (st_jobs s)\<rparr>)"
proof (rule store_ok_jobs [OF assms(1)])
  have "decodes (map_job S) (f j)" if "decodes (map_job S) j" for j
    using that assms(2) [of j] by (auto simp: decodes_job)
  moreover have "\<forall>b. j_builder_id (f j) = Some b \<longrightarrow> b \<in> builder_ids s"
    if "\<forall>b. j_builder_id j = Some b \<longrightarrow> b \<in> builder_ids s" for j
    using that assms(2) [of j] by auto
  ultimately show "jobs_ok S (eval_ids s) (builder_ids s) (q_jobs (st_seq s)) (update_where p f (st_jobs s))"
    using store_okD(3) [OF assms(1)] assms(2)
    unfolding jobs_ok_def by (intro rows_ok_update) auto
  show "job_ids s \<subseteq> j_id ` set (update_where p f (st_jobs s))"
    using assms(2) by (simp add: job_ids_def)
qed

lemma store_ok_repos_update:
  assumes "store_ok S s"
    and "\<And>r. p r \<Longrightarrow> r_id (f r) = r_id r \<and> r_forge (f r) = r_forge r \<and> r_slug (f r) = r_slug r"
  shows "store_ok S (s\<lparr>st_repos := update_where p f (st_repos s)\<rparr>)"
proof -
  let ?f = "\<lambda>r. if p r then f r else r"
  have eq: "update_where p f rows = update_where p ?f rows" for rows
    by (simp add: update_where_def)
  have f: "r_id (?f r) = r_id r" "(r_forge (?f r), r_slug (?f r)) = (r_forge r, r_slug r)" for r
    using assms(2) [of r] by auto
  have "repos_ok (q_repos (st_seq s)) (update_where p ?f (st_repos s))"
    using store_okD(1) [OF assms(1)] f(2) unfolding repos_ok_def
    by (intro conjI rows_ok_update) (auto simp: update_where_keys f decodes_repo assms(2))
  then show ?thesis
    unfolding eq by (intro store_ok_repos [OF assms(1)]) (simp_all add: repo_ids_def f)
qed

lemma store_ok_builders_update:
  assumes "store_ok S s"
    and "\<And>b. b_id (f b) = b_id b \<and> b_name (f b) = b_name b \<and> b_pubkey (f b) = b_pubkey b"
    and "\<And>b. decodes (map_builder S) b \<Longrightarrow> decodes (map_builder S) (f b)"
  shows "store_ok S (s\<lparr>st_builders := update_where p f (st_builders s)\<rparr>)"
proof (rule store_ok_builders [OF assms(1)])
  show "builders_ok S (q_builders (st_seq s)) (update_where p f (st_builders s))"
    using store_okD(4) [OF assms(1)] assms(2,3) unfolding builders_ok_def
    by (intro conjI rows_ok_update) (auto simp: update_where_keys)
  show "builder_ids s \<subseteq> b_id ` set (update_where p f (st_builders s))"
    using assms(2) by (simp add: builder_ids_def)
qed

subsection \<open>Inserts\<close>

lemma has_ids:
  "has_repo i s \<longleftrightarrow> i \<in> repo_ids s" "has_eval i s \<longleftrightarrow> i \<in> eval_ids s"
  "has_job i s \<longleftrightarrow> i \<in> job_ids s" "has_builder i s \<longleftrightarrow> i \<in> builder_ids s"
  by (auto simp: has_repo_def has_eval_def has_job_def has_builder_def ids_defs list_ex_iff)

lemma find_None_map: "List.find (\<lambda>r. key r = k) rows = None \<longleftrightarrow> k \<notin> key ` set rows"
  by (auto simp: find_None_iff)

text \<open>An insert extends a table and its sequence.\<close>

lemma store_ok_insert:
  assumes "store_ok S s" and "seq_le (st_seq s) q"
  shows "repos_ok (q_repos q) rows \<Longrightarrow> repo_ids s \<subseteq> r_id ` set rows \<Longrightarrow>
           store_ok S (s\<lparr>st_repos := rows, st_seq := q\<rparr>)"
    and "evals_ok (repo_ids s) (q_evals q) es \<Longrightarrow> eval_ids s \<subseteq> e_id ` set es \<Longrightarrow>
           store_ok S (s\<lparr>st_evals := es, st_seq := q\<rparr>)"
    and "jobs_ok S (eval_ids s) (builder_ids s) (q_jobs q) js \<Longrightarrow> job_ids s \<subseteq> j_id ` set js \<Longrightarrow>
           store_ok S (s\<lparr>st_jobs := js, st_seq := q\<rparr>)"
    and "builders_ok S (q_builders q) bs \<Longrightarrow> builder_ids s \<subseteq> b_id ` set bs \<Longrightarrow>
           store_ok S (s\<lparr>st_builders := bs, st_seq := q\<rparr>)"
    and "images_ok (repo_ids s) (eval_ids s) (job_ids s) (q_images q) ds \<Longrightarrow>
           store_ok S (s\<lparr>st_images := ds, st_seq := q\<rparr>)"
    and "effects_ok (job_ids s) (q_effects q) xs \<Longrightarrow> store_ok S (s\<lparr>st_effects := xs, st_seq := q\<rparr>)"
    and "sboms_ok (job_ids s) (q_sboms q) ss \<Longrightarrow> store_ok S (s\<lparr>st_sboms := ss, st_seq := q\<rparr>)"
proof -
  have ok: "store_ok S (s\<lparr>st_seq := q\<rparr>)" using assms by (rule store_ok_seq)
  have swap: "s\<lparr>st_repos := rows, st_seq := q\<rparr> = s\<lparr>st_seq := q\<rparr>\<lparr>st_repos := rows\<rparr>"
    "s\<lparr>st_evals := es, st_seq := q\<rparr> = s\<lparr>st_seq := q\<rparr>\<lparr>st_evals := es\<rparr>"
    "s\<lparr>st_jobs := js, st_seq := q\<rparr> = s\<lparr>st_seq := q\<rparr>\<lparr>st_jobs := js\<rparr>"
    "s\<lparr>st_builders := bs, st_seq := q\<rparr> = s\<lparr>st_seq := q\<rparr>\<lparr>st_builders := bs\<rparr>"
    "s\<lparr>st_images := ds, st_seq := q\<rparr> = s\<lparr>st_seq := q\<rparr>\<lparr>st_images := ds\<rparr>"
    "s\<lparr>st_effects := xs, st_seq := q\<rparr> = s\<lparr>st_seq := q\<rparr>\<lparr>st_effects := xs\<rparr>"
    "s\<lparr>st_sboms := ss, st_seq := q\<rparr> = s\<lparr>st_seq := q\<rparr>\<lparr>st_sboms := ss\<rparr>"
    by simp_all
  have ids: "repo_ids (s\<lparr>st_seq := q\<rparr>) = repo_ids s" "eval_ids (s\<lparr>st_seq := q\<rparr>) = eval_ids s"
    "job_ids (s\<lparr>st_seq := q\<rparr>) = job_ids s" "builder_ids (s\<lparr>st_seq := q\<rparr>) = builder_ids s"
    by (simp_all add: ids_defs)
  show "repos_ok (q_repos q) rows \<Longrightarrow> repo_ids s \<subseteq> r_id ` set rows \<Longrightarrow>
      store_ok S (s\<lparr>st_repos := rows, st_seq := q\<rparr>)"
    unfolding swap by (rule store_ok_repos [OF ok]) (simp_all add: ids)
  show "evals_ok (repo_ids s) (q_evals q) es \<Longrightarrow> eval_ids s \<subseteq> e_id ` set es \<Longrightarrow>
      store_ok S (s\<lparr>st_evals := es, st_seq := q\<rparr>)"
    unfolding swap by (rule store_ok_evals [OF ok]) (simp_all add: ids)
  show "jobs_ok S (eval_ids s) (builder_ids s) (q_jobs q) js \<Longrightarrow> job_ids s \<subseteq> j_id ` set js \<Longrightarrow>
      store_ok S (s\<lparr>st_jobs := js, st_seq := q\<rparr>)"
    unfolding swap by (rule store_ok_jobs [OF ok]) (simp_all add: ids)
  show "builders_ok S (q_builders q) bs \<Longrightarrow> builder_ids s \<subseteq> b_id ` set bs \<Longrightarrow>
      store_ok S (s\<lparr>st_builders := bs, st_seq := q\<rparr>)"
    unfolding swap by (rule store_ok_builders [OF ok]) (simp_all add: ids)
  show "images_ok (repo_ids s) (eval_ids s) (job_ids s) (q_images q) ds \<Longrightarrow>
      store_ok S (s\<lparr>st_images := ds, st_seq := q\<rparr>)"
    unfolding swap by (rule store_ok_leaves(2) [OF ok]) (simp_all add: ids)
  show "effects_ok (job_ids s) (q_effects q) xs \<Longrightarrow> store_ok S (s\<lparr>st_effects := xs, st_seq := q\<rparr>)"
    unfolding swap by (rule store_ok_leaves(3) [OF ok]) (simp_all add: ids)
  show "sboms_ok (job_ids s) (q_sboms q) ss \<Longrightarrow> store_ok S (s\<lparr>st_sboms := ss, st_seq := q\<rparr>)"
    unfolding swap by (rule store_ok_leaves(4) [OF ok]) (simp_all add: ids)
qed

lemma store_ok_repo_upsert:
  assumes "store_ok S s" and "slug_new (slug_str g) = Inr g"
  shows "store_ok S (snd (repo_upsert f g s))"
proof (cases "find_repo f g s")
  case (Some r)
  then have r: "r \<in> set (st_repos s)" "r_forge r = f" "r_slug r = slug_str g"
    by (auto simp: find_repo_def find_Some_iff)
  have same: "r_slug q = slug_str g" if "q \<in> set (st_repos s)" "r_id q = r_id r" for q
  proof -
    have "distinct (map r_id (st_repos s))"
      using store_okD(1) [OF assms(1)] by (simp add: repos_ok_def rows_ok_def)
    with that r(1) have "q = r" by (auto simp: distinct_map dest: inj_onD)
    with r show ?thesis by simp
  qed
  have "update_where (\<lambda>q. r_id q = r_id r) (\<lambda>q. q\<lparr>r_slug := slug_str g\<rparr>) (st_repos s) = st_repos s"
    unfolding update_where_def by (rule map_idI) (simp add: same)
  then show ?thesis using assms(1) Some by (simp add: repo_upsert_def)
next
  case None
  let ?q = "(st_seq s)\<lparr>q_repos := q_repos (st_seq s) + 1\<rparr>"
  let ?row = "\<lparr>r_id = q_repos (st_seq s) + 1, r_forge = f, r_slug = slug_str g,
     r_webhook_secret = None, r_webhook_hook_id = None, r_name = None,
     r_description = None, r_web_url = None, r_default_branch = None\<rparr>"
  have "store_ok S (s\<lparr>st_repos := st_repos s @ [?row], st_seq := ?q\<rparr>)"
  proof (rule store_ok_insert(1) [OF assms(1)])
    have "(f, slug_str g) \<notin> (\<lambda>r. (r_forge r, r_slug r)) ` set (st_repos s)"
      using None by (auto simp: find_repo_def find_None_iff)
    then show "repos_ok (q_repos ?q) (st_repos s @ [?row])"
      using store_okD(1) [OF assms(1)] assms(2)
      by (auto simp: repos_ok_def decodes_repo intro!: rows_ok_append)
  qed (auto simp: repo_ids_def seq_le_def)
  then show ?thesis using None by (simp add: repo_upsert_def Let_def)
qed

lemma store_ok_eval_create:
  assumes "store_ok S s" and "sha_new (sha_str (ne_sha new)) = Inr (ne_sha new)"
    and "eval_create new s = Inr (i, s')"
  shows "store_ok S s'"
proof -
  let ?q = "(st_seq s)\<lparr>q_evals := q_evals (st_seq s) + 1\<rparr>"
  have "seq_le (st_seq s) ?q" by (simp add: seq_le_def)
  moreover obtain row where row: "s' = s\<lparr>st_evals := st_evals s @ [row], st_seq := ?q\<rparr>"
    "e_id row = q_evals (st_seq s) + 1" "e_repo_id row \<in> repo_ids s" "decodes map_eval row"
    using assms(2,3)
    by (auto simp: eval_create_def Let_def has_ids decodes_eval split: if_splits)
  moreover have "evals_ok (repo_ids s) (q_evals (st_seq s) + 1) (st_evals s @ [row])"
    using store_okD(2) [OF assms(1)] row unfolding evals_ok_def by (intro rows_ok_append) auto
  ultimately show ?thesis
    by (auto intro!: store_ok_insert(2) [OF assms(1)] simp: eval_ids_def)
qed

lemma store_ok_job_create:
  assumes "store_ok S s" and "job_create S new s = Inr (i, s')"
  shows "store_ok S s'"
proof -
  let ?q = "(st_seq s)\<lparr>q_jobs := q_jobs (st_seq s) + 1\<rparr>"
  have "seq_le (st_seq s) ?q" by (simp add: seq_le_def)
  moreover obtain row where row: "s' = s\<lparr>st_jobs := st_jobs s @ [row], st_seq := ?q\<rparr>"
    "j_id row = q_jobs (st_seq s) + 1" "j_eval_id row \<in> eval_ids s" "j_builder_id row = None"
    "j_status row = job_as_str JQueued"
    using assms(2) by (auto simp: job_create_def Let_def has_ids split: if_splits)
  moreover have "jobs_ok S (eval_ids s) (builder_ids s) (q_jobs (st_seq s) + 1) (st_jobs s @ [row])"
    using store_okD(3) [OF assms(1)] row unfolding jobs_ok_def
    by (intro rows_ok_append) (auto simp: decodes_job)
  ultimately show ?thesis
    by (auto intro!: store_ok_insert(3) [OF assms(1)] simp: job_ids_def)
qed

lemma store_ok_image_create:
  assumes "store_ok S s" and "sha_new (sha_str (nd_sha new)) = Inr (nd_sha new)"
    and "image_create t new s = Inr s'"
  shows "store_ok S s'"
proof -
  let ?q = "(st_seq s)\<lparr>q_images := q_images (st_seq s) + 1\<rparr>"
  have "seq_le (st_seq s) ?q" by (simp add: seq_le_def)
  moreover obtain row where row: "s' = s\<lparr>st_images := st_images s @ [row], st_seq := ?q\<rparr>"
    "d_id row = q_images (st_seq s) + 1" "d_repo_id row \<in> repo_ids s" "d_eval_id row \<in> eval_ids s"
    "d_job_id row \<in> job_ids s" "decodes map_docker_image row"
    using assms(2,3) by (auto simp: image_create_def Let_def has_ids decodes_image split: if_splits)
  moreover have "images_ok (repo_ids s) (eval_ids s) (job_ids s) (q_images (st_seq s) + 1) (st_images s @ [row])"
    using store_okD(6) [OF assms(1)] row unfolding images_ok_def by (intro rows_ok_append) auto
  ultimately show ?thesis by (auto intro!: store_ok_insert(5) [OF assms(1)])
qed

lemma store_ok_effect_create:
  assumes "store_ok S s" and "create_effect_run j k g t s = Inr (i, s')"
  shows "store_ok S s'"
proof -
  let ?q = "(st_seq s)\<lparr>q_effects := q_effects (st_seq s) + 1\<rparr>"
  have "seq_le (st_seq s) ?q" by (simp add: seq_le_def)
  moreover obtain row where row: "s' = s\<lparr>st_effects := st_effects s @ [row], st_seq := ?q\<rparr>"
    "x_id row = q_effects (st_seq s) + 1" "x_job_id row \<in> job_ids s"
    using assms(2) by (auto simp: create_effect_run_def Let_def has_ids split: if_splits)
  moreover have "effects_ok (job_ids s) (q_effects (st_seq s) + 1) (st_effects s @ [row])"
    using store_okD(7) [OF assms(1)] row unfolding effects_ok_def by (intro rows_ok_append) auto
  ultimately show ?thesis by (auto intro!: store_ok_insert(6) [OF assms(1)])
qed

lemma store_ok_sbom_upsert:
  assumes "store_ok S s" and "upsert_sbom j f c n t s = Inr s'"
  shows "store_ok S s'"
proof (cases "list_ex (\<lambda>b. s_job_id b = job_get j) (st_sboms s)")
  case True
  then have "s' = s\<lparr>st_sboms := update_where (\<lambda>b. s_job_id b = job_get j)
      (\<lambda>b. b\<lparr>s_format := f, s_content := c, s_component_count := int n, s_created_at := t\<rparr>) (st_sboms s)\<rparr>"
    using assms(2) by (auto simp: upsert_sbom_def split: if_splits)
  moreover have "sboms_ok (job_ids s) (q_sboms (st_seq s)) (update_where (\<lambda>b. s_job_id b = job_get j)
      (\<lambda>b. b\<lparr>s_format := f, s_content := c, s_component_count := int n, s_created_at := t\<rparr>) (st_sboms s))"
    using store_okD(8) [OF assms(1)] unfolding sboms_ok_def
    by (intro conjI rows_ok_update) (auto simp: update_where_keys)
  ultimately show ?thesis using store_ok_leaves(4) [OF assms(1)] by simp
next
  case False
  let ?q = "(st_seq s)\<lparr>q_sboms := q_sboms (st_seq s) + 1\<rparr>"
  have "seq_le (st_seq s) ?q" by (simp add: seq_le_def)
  moreover obtain row where row: "s' = s\<lparr>st_sboms := st_sboms s @ [row], st_seq := ?q\<rparr>"
    "s_id row = q_sboms (st_seq s) + 1" "s_job_id row \<in> job_ids s" "s_job_id row = job_get j"
    using assms(2) False by (auto simp: upsert_sbom_def Let_def has_ids split: if_splits)
  moreover have "sboms_ok (job_ids s) (q_sboms (st_seq s) + 1) (st_sboms s @ [row])"
    using store_okD(8) [OF assms(1)] row False unfolding sboms_ok_def
    by (auto intro!: rows_ok_append simp: list_ex_iff)
  ultimately show ?thesis by (auto intro!: store_ok_insert(7) [OF assms(1)])
qed

lemma store_ok_forge_upsert:
  assumes "store_ok S s" and "forge_status_upsert t i k h s = Inr s'"
  shows "store_ok S s'"
proof (cases "find_forge_status i k s")
  case (Some r)
  then have "s' = s\<lparr>st_forge_status := update_where (\<lambda>f. f_eval_id f = eval_get i \<and> f_kind f = k)
      (\<lambda>f. f\<lparr>f_handle := h, f_last_posted_at := t\<rparr>) (st_forge_status s)\<rparr>"
    using assms(2) by (auto simp: forge_status_upsert_def split: if_splits)
  moreover have "forge_ok (eval_ids s) (update_where (\<lambda>f. f_eval_id f = eval_get i \<and> f_kind f = k)
      (\<lambda>f. f\<lparr>f_handle := h, f_last_posted_at := t\<rparr>) (st_forge_status s))"
    using store_okD(5) [OF assms(1)] unfolding forge_ok_def
    by (auto simp: update_where_keys) (auto simp: update_where_def)
  ultimately show ?thesis using store_ok_leaves(1) [OF assms(1)] by simp
next
  case None
  then have "s' = s\<lparr>st_forge_status := st_forge_status s @ [\<lparr>f_eval_id = eval_get i, f_kind = k,
      f_handle = h, f_last_posted_at = t\<rparr>]\<rparr>" and "eval_get i \<in> eval_ids s"
    using assms(2) by (auto simp: forge_status_upsert_def has_ids split: if_splits)
  moreover have "(eval_get i, k) \<notin> (\<lambda>f. (f_eval_id f, f_kind f)) ` set (st_forge_status s)"
    using None by (auto simp: find_forge_status_def find_None_iff)
  ultimately show ?thesis
    using store_okD(5) [OF assms(1)] by (auto intro!: store_ok_leaves(1) [OF assms(1)] simp: forge_ok_def)
qed

lemma store_ok_builder_upsert:
  assumes "store_ok S s" and "serde_ok S" and "op_valid (BuilderUpsert new t)"
    and "builder_upsert S new t s = Inr (i, s')"
  shows "store_ok S s'"
proof (cases "find_builder (bname_str (nb_name new)) s")
  case (Some b)
  let ?f = "\<lambda>q. q\<lparr>b_systems := ser_strings S (cap_systems (nb_capabilities new)),
     b_native_system := cap_native_system (nb_capabilities new),
     b_features := ser_strings S (cap_features (nb_capabilities new)),
     b_max_jobs := int (cap_max_jobs (nb_capabilities new)),
     b_nix_version := cap_nix_version (nb_capabilities new), b_last_seen := t\<rparr>"
  have "s' = s\<lparr>st_builders := update_where (\<lambda>q. b_id q = b_id b) ?f (st_builders s)\<rparr>"
    using assms(4) Some by (auto simp: builder_upsert_def Let_def split: if_splits)
  then show ?thesis
    using assms(2) store_ok_builders_update [OF assms(1), of ?f]
    by (auto simp: decodes_builder serde_ok_def)
next
  case None
  let ?q = "(st_seq s)\<lparr>q_builders := q_builders (st_seq s) + 1\<rparr>"
  obtain row where row: "s' = s\<lparr>st_builders := st_builders s @ [row], st_seq := ?q\<rparr>"
    "b_id row = q_builders (st_seq s) + 1" "b_name row = bname_str (nb_name new)"
    "decodes (map_builder S) row"
    using assms(2-4) None by (auto simp: builder_upsert_def Let_def decodes_builder serde_ok_def)
  have "bname_str (nb_name new) \<notin> b_name ` set (st_builders s)"
    using None by (auto simp: find_builder_def find_None_iff)
  with row store_okD(4) [OF assms(1)]
  have "builders_ok S (q_builders ?q) (st_builders s @ [row])"
    unfolding builders_ok_def by (auto intro!: rows_ok_append)
  then show ?thesis
    unfolding row(1) by (intro store_ok_insert(4) [OF assms(1)]) (auto simp: seq_le_def builder_ids_def)
qed

subsection \<open>Deletes\<close>

lemma delete_jobs_fields [simp]:
  "st_repos (delete_jobs p s) = st_repos s" "st_evals (delete_jobs p s) = st_evals s"
  "st_builders (delete_jobs p s) = st_builders s" "st_seq (delete_jobs p s) = st_seq s"
  "st_forge_status (delete_jobs p s) = st_forge_status s"
  "st_jobs (delete_jobs p s) = filter (\<lambda>j. \<not> p j) (st_jobs s)"
  by (simp_all add: delete_jobs_def Let_def)

lemma rows_ok_filter_same: "rows_ok key n good rows \<Longrightarrow> rows_ok key n good (filter p rows)"
  by (rule rows_ok_filter)

lemma distinct_map_filter': "distinct (map f xs) \<Longrightarrow> distinct (map f (filter p xs))"
  by (simp add: distinct_map_filter)

lemma keys_remaining:
  assumes "k \<in> key ` set rows" and "k \<notin> key ` set (filter p rows)"
  shows "k \<in> key ` set (filter (\<lambda>r. \<not> p r) rows)"
  using assms by auto

lemma store_ok_delete_jobs:
  assumes "store_ok S s"
  shows "store_ok S (delete_jobs p s)"
proof -
  let ?J = "j_id ` set (filter (\<lambda>j. \<not> p j) (st_jobs s))"
  let ?gone = "j_id ` set (filter p (st_jobs s))"
  have J: "i \<in> ?J" if "i \<in> job_ids s" "i \<notin> ?gone" for i
    using keys_remaining [of i j_id "st_jobs s" p] that by (simp add: job_ids_def)
  have "images_ok (repo_ids s) (eval_ids s) ?J (q_images (st_seq s))
      (filter (\<lambda>d. d_job_id d \<notin> ?gone) (st_images s))"
    unfolding images_ok_def
    by (rule rows_ok_filter [OF store_okD(6) [OF assms, unfolded images_ok_def]]) (use J in auto)
  moreover have "effects_ok ?J (q_effects (st_seq s)) (filter (\<lambda>x. x_job_id x \<notin> ?gone) (st_effects s))"
    unfolding effects_ok_def
    by (rule rows_ok_filter [OF store_okD(7) [OF assms, unfolded effects_ok_def]]) (use J in auto)
  moreover have "sboms_ok ?J (q_sboms (st_seq s)) (filter (\<lambda>b. s_job_id b \<notin> ?gone) (st_sboms s))"
    unfolding sboms_ok_def
    by (intro conjI distinct_map_filter'
        rows_ok_filter [OF conjunct1 [OF store_okD(8) [OF assms, unfolded sboms_ok_def]]])
      (use J store_okD(8) [OF assms, unfolded sboms_ok_def] in auto)
  moreover have "jobs_ok S (eval_ids s) (builder_ids s) (q_jobs (st_seq s)) (filter (\<lambda>j. \<not> p j) (st_jobs s))"
    using store_okD(3) [OF assms] unfolding jobs_ok_def by (rule rows_ok_filter_same)
  ultimately show ?thesis
    using store_okD [OF assms] by (simp add: store_ok_def delete_jobs_def Let_def ids_defs)
qed

lemma store_ok_delete_evals:
  assumes "store_ok S s"
  shows "store_ok S (delete_evals p s)"
proof -
  let ?gone = "e_id ` set (filter p (st_evals s))"
  let ?s = "delete_jobs (\<lambda>j. j_eval_id j \<in> ?gone) s"
  let ?E = "e_id ` set (filter (\<lambda>e. \<not> p e) (st_evals s))"
  have ok: "store_ok S ?s" using assms by (rule store_ok_delete_jobs)
  have E: "i \<in> ?E" if "i \<in> eval_ids s" "i \<notin> ?gone" for i
    using keys_remaining [of i e_id "st_evals s" p] that by (simp add: eval_ids_def)
  have ids: "eval_ids ?s = eval_ids s" "repo_ids ?s = repo_ids s" "builder_ids ?s = builder_ids s"
    by (simp_all add: ids_defs)
  have "evals_ok (repo_ids s) (q_evals (st_seq s)) (filter (\<lambda>e. \<not> p e) (st_evals s))"
    using store_okD(2) [OF assms] unfolding evals_ok_def by (rule rows_ok_filter_same)
  moreover have "jobs_ok S ?E (builder_ids s) (q_jobs (st_seq s)) (st_jobs ?s)"
    unfolding jobs_ok_def delete_jobs_fields
    by (rule rows_ok_filter [OF store_okD(3) [OF assms, unfolded jobs_ok_def]]) (use E in auto)
  moreover have "images_ok (repo_ids s) ?E (job_ids ?s) (q_images (st_seq s))
      (filter (\<lambda>d. d_eval_id d \<notin> ?gone) (st_images ?s))"
    unfolding images_ok_def
    by (rule rows_ok_filter [OF store_okD(6) [OF ok, unfolded images_ok_def ids delete_jobs_fields]])
      (use E in auto)
  moreover have "forge_ok ?E (filter (\<lambda>f. f_eval_id f \<notin> ?gone) (st_forge_status s))"
    using store_okD(5) [OF assms] E unfolding forge_ok_def by (auto intro: distinct_map_filter')
  ultimately show ?thesis
    using store_okD [OF ok]
    by (simp add: store_ok_def delete_evals_def Let_def repo_ids_def eval_ids_def builder_ids_def
        job_ids_def)
qed

lemma delete_evals_fields [simp]:
  "st_repos (delete_evals p s) = st_repos s" "st_builders (delete_evals p s) = st_builders s"
  "st_seq (delete_evals p s) = st_seq s" "st_evals (delete_evals p s) = filter (\<lambda>e. \<not> p e) (st_evals s)"
  by (simp_all add: delete_evals_def Let_def)

lemma store_ok_delete_repo:
  assumes "store_ok S s"
  shows "store_ok S (delete_repo i s)"
proof -
  let ?s = "delete_evals (\<lambda>e. e_repo_id e = i) s"
  let ?R = "r_id ` set (filter (\<lambda>r. r_id r \<noteq> i) (st_repos s))"
  have ok: "store_ok S ?s" using assms by (rule store_ok_delete_evals)
  have R: "k \<in> ?R" if "k \<in> repo_ids s" "k \<noteq> i" for k using that by (auto simp: repo_ids_def)
  have "repos_ok (q_repos (st_seq s)) (filter (\<lambda>r. r_id r \<noteq> i) (st_repos s))"
    using store_okD(1) [OF assms] unfolding repos_ok_def
    by (auto intro: rows_ok_filter_same distinct_map_filter')
  moreover have "evals_ok ?R (q_evals (st_seq s)) (st_evals ?s)"
    unfolding evals_ok_def delete_evals_fields
    by (rule rows_ok_filter [OF store_okD(2) [OF assms, unfolded evals_ok_def]]) (use R in auto)
  moreover have "images_ok ?R (eval_ids ?s) (job_ids ?s) (q_images (st_seq s))
      (filter (\<lambda>d. d_repo_id d \<noteq> i) (st_images ?s))"
    unfolding images_ok_def
    by (rule rows_ok_filter [OF store_okD(6) [OF ok, unfolded images_ok_def delete_evals_fields]])
      (use R in \<open>auto simp: repo_ids_def\<close>)
  ultimately show ?thesis
    using store_okD [OF ok] by (simp add: store_ok_def delete_repo_def Let_def ids_defs)
qed

lemma store_ok_prune:
  assumes "store_ok S s" and "prune_repos_not_in keep s = Inr (orphans, s')"
  shows "store_ok S s'"
proof -
  have "store_ok S (fold (\<lambda>r. delete_repo (repo_get (rr_id r))) rs s)" for rs
    using assms(1) by (induction rs arbitrary: s) (simp_all add: store_ok_delete_repo)
  then show ?thesis using assms(2)
    by (auto simp: prune_repos_not_in_def bind_result_Inr Let_def)
qed

subsection \<open>Builders\<close>

lemma store_ok_dispatch:
  assumes "store_ok S s" and "job_dispatch i b t s = Inr s'"
  shows "store_ok S s'"
proof -
  let ?p = "\<lambda>j. j_id j = job_get i \<and> j_status j \<notin> set job_terminal_statuses"
  let ?f = "\<lambda>j. j\<lparr>j_status := job_as_str JRunning, j_started_at := Some t,
     j_builder_id := Some (builder_get b)\<rparr>"
  have s': "s' = s\<lparr>st_jobs := update_where ?p ?f (st_jobs s)\<rparr>"
    and b: "0 < rows_affected ?p (st_jobs s) \<longrightarrow> builder_get b \<in> builder_ids s"
    using assms(2) by (auto simp: job_dispatch_def Let_def has_ids split: if_splits)
  have "builder_get b \<in> builder_ids s" if "j \<in> set (st_jobs s)" "?p j" for j
    using b that by (force simp: rows_affected_def filter_empty_conv)
  then have "jobs_ok S (eval_ids s) (builder_ids s) (q_jobs (st_seq s)) (update_where ?p ?f (st_jobs s))"
    using store_okD(3) [OF assms(1)] unfolding jobs_ok_def
    by (intro rows_ok_update) (auto simp: decodes_job)
  then show ?thesis unfolding s' by (rule store_ok_jobs [OF assms(1)]) (simp add: job_ids_def)
qed

lemma store_ok_builder_remove:
  assumes "store_ok S s" and "builder_remove name s = Inr (f, s')"
  shows "store_ok S s'"
proof -
  let ?B = "b_id ` set (filter (\<lambda>b. b_name b \<noteq> name) (st_builders s))"
  have free: "j_builder_id j \<noteq> Some (b_id b)"
    if "j \<in> set (st_jobs s)" "b \<in> set (st_builders s)" "b_name b = name" for j b
    using assms(2) that by (auto simp: builder_remove_def Let_def list_ex_iff split: if_splits)
  have B: "k \<in> ?B" if "j \<in> set (st_jobs s)" "j_builder_id j = Some k" "k \<in> builder_ids s" for j k
    using that free [OF that(1)] by (auto simp: builder_ids_def)
  have s': "s' = s\<lparr>st_builders := filter (\<lambda>b. b_name b \<noteq> name) (st_builders s)\<rparr>"
    using assms(2) by (auto simp: builder_remove_def Let_def split: if_splits)
  have "jobs_ok S (eval_ids s) ?B (q_jobs (st_seq s)) (st_jobs s)"
    unfolding jobs_ok_def
    by (rule rows_ok_mono [OF store_okD(3) [OF assms(1), unfolded jobs_ok_def]]) (use B in auto)
  moreover have "builders_ok S (q_builders (st_seq s)) (filter (\<lambda>b. b_name b \<noteq> name) (st_builders s))"
    using store_okD(4) [OF assms(1)] unfolding builders_ok_def
    by (auto intro: rows_ok_filter_same distinct_map_filter')
  ultimately show ?thesis
    using store_okD [OF assms(1)] by (simp add: store_ok_def s' ids_defs)
qed

lemma distinct_rename:
  assumes "distinct (map b_name rows)" and "new = old \<or> new \<notin> b_name ` set rows \<or> old \<notin> b_name ` set rows"
  shows "distinct (map b_name (update_where (\<lambda>b. b_name b = old) (\<lambda>b. b\<lparr>b_name := new\<rparr>) rows))"
proof -
  have "map b_name (update_where (\<lambda>b. b_name b = old) (\<lambda>b. b\<lparr>b_name := new\<rparr>) rows) =
      map (\<lambda>n. if n = old then new else n) (map b_name rows)"
    by (simp add: update_where_def)
  moreover have "inj_on (\<lambda>n. if n = old then new else n) (set (map b_name rows))"
    using assms(2) by (auto intro!: inj_onI split: if_splits)
  ultimately show ?thesis using assms(1) by (simp only: distinct_map set_map)
qed

lemma store_ok_builder_rename:
  assumes "store_ok S s" and "\<exists>n. builder_name_new new = Inr n"
    and "builder_rename old new s = Inr (f, s')"
  shows "store_ok S s'"
proof (cases "rename_row old new s")
  case (Inl e)
  then show ?thesis using assms(1,3) by (auto simp: builder_rename_def split: if_splits)
next
  case (Inr r)
  let ?u = "update_where (\<lambda>b. b_name b = old) (\<lambda>b. b\<lparr>b_name := new\<rparr>) (st_builders s)"
  have s': "s' = s\<lparr>st_builders := ?u\<rparr>"
    and free: "old = new \<or> rows_affected (\<lambda>b. b_name b = old) (st_builders s) = 0
      \<or> find_builder new s = None"
    using Inr assms(3) by (auto simp: builder_rename_def rename_row_def Let_def split: if_splits)
  have "new = old \<or> new \<notin> b_name ` set (st_builders s) \<or> old \<notin> b_name ` set (st_builders s)"
    using free by (auto simp: rows_affected_def filter_empty_conv find_builder_def find_None_iff)
  then have "builders_ok S (q_builders (st_seq s)) ?u"
    using store_okD(4) [OF assms(1)] assms(2) unfolding builders_ok_def
    by (intro conjI rows_ok_update distinct_rename) (auto simp: decodes_builder)
  then show ?thesis
    unfolding s' by (rule store_ok_builders [OF assms(1)]) (simp add: builder_ids_def)
qed

lemma store_ok_effects_update:
  assumes "store_ok S s" and "\<And>x. x_id (f x) = x_id x \<and> x_job_id (f x) = x_job_id x"
  shows "store_ok S (s\<lparr>st_effects := update_where p f (st_effects s)\<rparr>)"
proof (rule store_ok_leaves(3) [OF assms(1)])
  show "effects_ok (job_ids s) (q_effects (st_seq s)) (update_where p f (st_effects s))"
    unfolding effects_ok_def
    by (rule rows_ok_update [OF store_okD(7) [OF assms(1), unfolded effects_ok_def]])
      (use assms(2) in auto)
qed

subsection \<open>All methods\<close>

lemma store_ok_kept:
  "(\<And>s'. x = Inr s' \<Longrightarrow> store_ok S s') \<Longrightarrow> store_ok S s \<Longrightarrow> store_ok S (kept s x)"
  "(\<And>a s'. r = Inr (a, s') \<Longrightarrow> store_ok S s') \<Longrightarrow> store_ok S s \<Longrightarrow>
   store_ok S (kept s (map_sum id snd r))"
  by (cases x, simp_all add: kept_def) (cases r, auto)

lemma store_ok_step:
  assumes "store_ok S s" and "serde_ok S" and "op_valid op"
  shows "store_ok S (store_step S op s)"
proof (cases op)
  case (BuilderUpsert new t)
  then show ?thesis
    using store_ok_builder_upsert [OF assms(1,2)] assms by (auto intro!: store_ok_kept)
next
  case (BuilderRename a b)
  then show ?thesis
    using assms by (auto intro!: store_ok_kept elim: store_ok_builder_rename [OF _ exI])
qed (use assms in \<open>auto intro!: store_ok_kept store_ok_evals_update store_ok_jobs_update
      store_ok_repos_update store_ok_builders_update store_ok_effects_update store_ok_repo_upsert
      intro: store_ok_eval_create store_ok_job_create store_ok_image_create store_ok_effect_create
        store_ok_sbom_upsert store_ok_forge_upsert store_ok_prune store_ok_dispatch
        store_ok_builder_remove
      simp: set_webhook_def set_metadata_def eval_set_status_def eval_start_def eval_finish_def
        fail_with_reason_def mark_building_def delete_eval_cascade_def store_ok_delete_evals
        job_set_status_def job_start_def job_finish_def record_cache_push_ms_def
        record_image_size_def mark_running_interrupted_def interrupt_if_running_def
        requeue_interrupted_for_eval_def set_spec_json_def mark_seen_def revoke_def
        finish_effect_run_def mark_running_effects_interrupted_def Let_def decodes_builder\<close>)

lemma store_ok_run:
  "store_ok S s \<Longrightarrow> serde_ok S \<Longrightarrow> list_all op_valid ops \<Longrightarrow> store_ok S (store_run S ops s)"
  by (induction ops arbitrary: s) (auto intro: store_ok_step)

end
