(* ===== verification/Store_Props.thy ===== *)
theory Store_Props
  imports Store_Inv
begin

text \<open>
  Correctness of the persistence layer: reads of a database written by these methods never
  fail to decode, the first terminal verdict on an evaluation or a job is final, a builder name
  stays bound to its key, records round-trip, a delete takes exactly the dependent rows, and a
  restart resumes exactly the interrupted jobs.
\<close>

named_theorems store_defs

lemmas [store_defs] = repo_upsert_def set_webhook_def set_metadata_def prune_repos_not_in_def
  eval_create_def eval_set_status_def eval_start_def eval_finish_def fail_with_reason_def
  mark_building_def delete_eval_cascade_def job_create_def job_set_status_def job_start_def
  job_finish_def record_cache_push_ms_def record_image_size_def mark_running_interrupted_def
  interrupt_if_running_def requeue_interrupted_for_eval_def set_spec_json_def job_dispatch_def
  builder_upsert_def mark_seen_def revoke_def builder_remove_def builder_rename_def
  rename_row_def forge_status_upsert_def image_create_def create_effect_run_def
  finish_effect_run_def mark_running_effects_interrupted_def upsert_sbom_def kept_def Let_def

section \<open>Rows and their status\<close>

lemma find_update_where:
  "\<forall>r. k (f r) = k r \<Longrightarrow> List.find (\<lambda>r. k r = i) (update_where p f rows)
     = map_option (\<lambda>r. if p r then f r else r) (List.find (\<lambda>r. k r = i) rows)"
  unfolding update_where_def by (induction rows) auto

lemma found_key: "List.find (\<lambda>r. k r = i) rows = Some r \<Longrightarrow> k r = i"
  by (auto simp: find_Some_iff)

text \<open>What the worker relies on of a status column: a write sets the status, unless it is final.\<close>

locale status_cell =
  fixes status :: "'s \<Rightarrow> string option" and final :: "string \<Rightarrow> bool" and as_str :: "'v \<Rightarrow> string"
    and put :: "'v \<Rightarrow> 's \<Rightarrow> 's"
  assumes status_write: "status (put v s) = map_option (\<lambda>x. if final x then x else as_str v) (status s)"
begin

lemma write_open: "status s = Some x \<Longrightarrow> \<not> final x \<Longrightarrow> status (put v s) = Some (as_str v)"
  by (simp add: status_write)

lemma write_final: "status s = Some x \<Longrightarrow> final x \<Longrightarrow> status (put v s) = Some x"
  by (simp add: status_write)

lemma write_settles: "status s = Some x \<Longrightarrow> final (as_str v) \<Longrightarrow> \<exists>y. status (put v s) = Some y \<and> final y"
  by (simp add: status_write)

lemma write_present: "status s = Some x \<Longrightarrow> \<exists>y. status (put v s) = Some y \<and> (y = x \<or> y = as_str v)"
  by (simp add: status_write)

end

section \<open>Tables whose verdicts are final\<close>

text \<open>The contract of a table in which a row, once \<open>final\<close>, keeps its \<open>verdict\<close>: a step
  produces rows that continue an old row under its id, or fresh rows, and it respects the
  verdict of a final row.\<close>

locale verdict_table =
  fixes rows :: "'s \<Rightarrow> 'r list" and key :: "'r \<Rightarrow> int" and seq :: "'s \<Rightarrow> int"
    and final :: "'r \<Rightarrow> bool" and verdict :: "'r \<Rightarrow> 'v"
    and step :: "'op \<Rightarrow> 's \<Rightarrow> 's" and allowed :: "'op \<Rightarrow> bool" and inv :: "'s \<Rightarrow> bool"
  assumes inv_step: "inv s \<Longrightarrow> allowed op \<Longrightarrow> inv (step op s)"
    and unique_key: "inv s \<Longrightarrow> distinct (map key (rows s))"
    and known_key: "inv s \<Longrightarrow> r \<in> set (rows s) \<Longrightarrow> key r \<le> seq s"
    and seq_step: "seq s \<le> seq (step op s)"
    and step_row: "inv s \<Longrightarrow> allowed op \<Longrightarrow> r' \<in> set (rows (step op s)) \<Longrightarrow>
      (\<exists>r\<in>set (rows s). key r' = key r \<and> (final r \<longrightarrow> final r' \<and> verdict r' = verdict r))
      \<or> seq s < key r'"
begin

definition settled :: "int \<Rightarrow> 'v \<Rightarrow> 's \<Rightarrow> bool" where
  "settled k v s \<longleftrightarrow> inv s \<and> k \<le> seq s
     \<and> (\<forall>r\<in>set (rows s). key r = k \<longrightarrow> final r \<and> verdict r = v)"

lemma settled_step:
  assumes "settled k v s" and "allowed op"
  shows "settled k v (step op s)"
  unfolding settled_def
proof (intro conjI ballI impI)
  have s: "inv s" "k \<le> seq s" "\<And>r. r \<in> set (rows s) \<Longrightarrow> key r = k \<Longrightarrow> final r \<and> verdict r = v"
    using assms(1) by (auto simp: settled_def)
  show "inv (step op s)" using s(1) assms(2) by (rule inv_step)
  show "k \<le> seq (step op s)" using s(2) seq_step [of s op] by linarith
  fix r' assume r': "r' \<in> set (rows (step op s))" "key r' = k"
  then obtain r where "r \<in> set (rows s)" "key r' = key r"
    "final r \<longrightarrow> final r' \<and> verdict r' = verdict r"
    using step_row [OF s(1) assms(2) r'(1)] s(2) by force
  with s(3) r'(2) show "final r'" "verdict r' = v" by auto
qed

lemma settled_run: "settled k v s \<Longrightarrow> list_all allowed ops \<Longrightarrow> settled k v (fold step ops s)"
  by (induction ops arbitrary: s) (auto intro: settled_step)

lemma verdict_is_final:
  assumes "inv s" and "list_all allowed ops" and "r \<in> set (rows s)" and "final r"
    and "r' \<in> set (rows (fold step ops s))" and "key r' = key r"
  shows "final r' \<and> verdict r' = verdict r"
proof -
  have "settled (key r) (verdict r) s"
    using assms(1,3,4) known_key [OF assms(1,3)] unique_key [OF assms(1)]
    by (auto simp: settled_def distinct_map dest: inj_onD)
  from settled_run [OF this assms(2)] show ?thesis
    using assms(5,6) by (auto simp: settled_def)
qed

end

section \<open>How the methods change the tables\<close>

lemma store_seq_step: "seq_le (st_seq s) (st_seq (store_step S op s))"
proof -
  have fold: "st_seq (fold (\<lambda>r. delete_repo (repo_get (rr_id r))) rs s) = st_seq s" for rs
    by (induction rs arbitrary: s) (auto simp: delete_repo_def Let_def)
  show ?thesis
    by (cases op) (auto simp: seq_le_def store_defs bind_result_def delete_evals_def fold
        split: sum.splits option.splits if_splits)
qed

lemma fold_delete_repo_subset:
  "set (st_evals (fold (\<lambda>r. delete_repo (repo_get (rr_id r))) rs s)) \<subseteq> set (st_evals s)"
  "set (st_jobs (fold (\<lambda>r. delete_repo (repo_get (rr_id r))) rs s)) \<subseteq> set (st_jobs s)"
  "st_builders (fold (\<lambda>r. delete_repo (repo_get (rr_id r))) rs s) = st_builders s"
  by (induction rs arbitrary: s)
    (fastforce simp: delete_repo_def delete_evals_def delete_jobs_def Let_def)+

text \<open>The rows of a table after a step continue the rows before it, or are fresh.\<close>

definition continues ::
  "('r \<Rightarrow> int) \<Rightarrow> ('r \<Rightarrow> bool) \<Rightarrow> ('r \<Rightarrow> 'v) \<Rightarrow> int \<Rightarrow> 'r list \<Rightarrow> 'r list \<Rightarrow> bool" where
  "continues key final verdict n rows rows' \<longleftrightarrow> (\<forall>r'\<in>set rows'.
     (\<exists>r\<in>set rows. key r' = key r \<and> (final r \<longrightarrow> final r' \<and> verdict r' = verdict r)) \<or> n < key r')"

lemma continuesD:
  "continues key final verdict n rows rows' \<Longrightarrow> r' \<in> set rows' \<Longrightarrow>
   (\<exists>r\<in>set rows. key r' = key r \<and> (final r \<longrightarrow> final r' \<and> verdict r' = verdict r)) \<or> n < key r'"
  by (simp add: continues_def)

lemma continues_subset: "set rows' \<subseteq> set rows \<Longrightarrow> continues key final verdict n rows rows'"
  by (auto simp: continues_def)

lemma continues_refl [simp]: "continues key final verdict n rows rows"
  by (rule continues_subset) simp

lemma continues_filter [simp]: "continues key final verdict n rows (filter p rows)"
  by (rule continues_subset) auto

lemma continues_append [simp]:
  "n < key r \<Longrightarrow> continues key final verdict n rows (rows @ [r])"
  by (auto simp: continues_def)

lemma continues_update:
  assumes "\<And>r. p r \<Longrightarrow> key (f r) = key r"
    and "\<And>r. p r \<Longrightarrow> final r \<Longrightarrow> final (f r) \<and> verdict (f r) = verdict r"
  shows "continues key final verdict n rows (update_where p f rows)"
  using assms by (fastforce simp: continues_def update_where_def)

definition eval_final :: "eval_row \<Rightarrow> bool" where
  "eval_final e \<longleftrightarrow> e_status e \<in> set eval_terminal_statuses"

definition eval_guarded :: "store_op \<Rightarrow> bool" where
  "eval_guarded op \<longleftrightarrow> op_valid op \<and> (\<forall>i st. op \<noteq> EvalSetStatus i st)"

lemma evals_continue:
  "eval_guarded op \<Longrightarrow> continues e_id eval_final id (q_evals (st_seq s)) (st_evals s)
     (st_evals (store_step S op s))"
  by (cases op) (auto simp: eval_guarded_def store_defs bind_result_def delete_evals_def
      eval_final_def continues_subset [OF fold_delete_repo_subset(1)] split: sum.splits option.splits
      intro!: continues_update)

definition job_final :: "job_row \<Rightarrow> bool" where
  "job_final j \<longleftrightarrow> j_status j \<in> set job_terminal_statuses"

definition job_guarded :: "store_op \<Rightarrow> bool" where
  "job_guarded op \<longleftrightarrow> op_valid op \<and> (\<forall>i st. op \<noteq> JobSetStatus i st)"

text \<open>The verdict of a job: everything but the figures and the spec that are recorded
  separately.\<close>

definition job_verdict :: "job_row \<Rightarrow> job_row" where
  "job_verdict j = j\<lparr>j_cache_push_ms := None, j_image_size_bytes := None, j_spec_json := None\<rparr>"

lemma terminal_literals [simp]:
  "''running'' \<notin> set job_terminal_statuses" "''interrupted'' \<notin> set job_terminal_statuses"
  "''queued'' \<notin> set job_terminal_statuses"
  by (simp_all add: job_terminal_statuses_def)

lemma jobs_continue:
  "job_guarded op \<Longrightarrow> continues j_id job_final job_verdict (q_jobs (st_seq s)) (st_jobs s)
     (st_jobs (store_step S op s))"
  by (cases op) (auto simp: job_guarded_def store_defs bind_result_def delete_evals_def
      job_final_def job_verdict_def continues_subset [OF fold_delete_repo_subset(2)] split: sum.splits option.splits
      intro!: continues_update)

lemma builders_continue:
  "continues b_id (\<lambda>_. True) b_pubkey (q_builders (st_seq s)) (st_builders s)
     (st_builders (store_step S op s))"
  "continues b_id (\<lambda>b. b_revoked_at b \<noteq> None) (\<lambda>_. ()) (q_builders (st_seq s)) (st_builders s)
     (st_builders (store_step S op s))"
  by (cases op; auto simp: store_defs bind_result_def delete_evals_def fold_delete_repo_subset(3)
      split: sum.splits option.splits intro!: continues_update)+

abbreviation trusted_store :: "serde \<Rightarrow> store \<Rightarrow> bool" where
  "trusted_store S s \<equiv> store_ok S s \<and> serde_ok S"

interpretation evals_table: verdict_table st_evals e_id "\<lambda>s. q_evals (st_seq s)" eval_final id
  "store_step S" eval_guarded "trusted_store S" for S
proof (unfold_locales, goal_cases)
  case (1 s op)
  then show ?case by (auto simp: eval_guarded_def intro: store_ok_step)
next
  case (2 s)
  then show ?case using store_okD(2) [of S s] by (simp add: evals_ok_def rows_ok_def)
next
  case (3 s r)
  then show ?case using store_okD(2) [of S s] by (simp add: evals_ok_def rows_ok_def)
next
  case (4 s op)
  show ?case using store_seq_step [of s S op] by (simp add: seq_le_def)
next
  case (5 s op r')
  then show ?case using continuesD [OF evals_continue] by blast
qed

interpretation jobs_table: verdict_table st_jobs j_id "\<lambda>s. q_jobs (st_seq s)" job_final job_verdict
  "store_step S" job_guarded "trusted_store S" for S
proof (unfold_locales, goal_cases)
  case (1 s op)
  then show ?case by (auto simp: job_guarded_def intro: store_ok_step)
next
  case (2 s)
  then show ?case using store_okD(3) [of S s] by (simp add: jobs_ok_def rows_ok_def)
next
  case (3 s r)
  then show ?case using store_okD(3) [of S s] by (simp add: jobs_ok_def rows_ok_def)
next
  case (4 s op)
  show ?case using store_seq_step [of s S op] by (simp add: seq_le_def)
next
  case (5 s op r')
  then show ?case using continuesD [OF jobs_continue] by blast
qed

interpretation keys_table: verdict_table st_builders b_id "\<lambda>s. q_builders (st_seq s)" "\<lambda>_. True"
  b_pubkey "store_step S" op_valid "trusted_store S" for S
proof (unfold_locales, goal_cases)
  case (1 s op)
  then show ?case by (auto intro: store_ok_step)
next
  case (2 s)
  then show ?case using store_okD(4) [of S s] by (simp add: builders_ok_def rows_ok_def)
next
  case (3 s r)
  then show ?case using store_okD(4) [of S s] by (simp add: builders_ok_def rows_ok_def)
next
  case (4 s op)
  show ?case using store_seq_step [of s S op] by (simp add: seq_le_def)
next
  case (5 s op r')
  then show ?case using continuesD [OF builders_continue(1)] by blast
qed

interpretation revoked_table: verdict_table st_builders b_id "\<lambda>s. q_builders (st_seq s)"
  "\<lambda>b. b_revoked_at b \<noteq> None" "\<lambda>_. ()" "store_step S" op_valid "trusted_store S" for S
  by unfold_locales
    (use keys_table.inv_step keys_table.unique_key keys_table.known_key keys_table.seq_step
        continuesD [OF builders_continue(2)] in blast)+

section \<open>First verdict wins\<close>

lemma fresh_store_ok:
  "serde_ok S \<Longrightarrow> list_all op_valid ops \<Longrightarrow> trusted_store S (store_run S ops store_new)"
  by (simp add: store_ok_run store_ok_new)

text \<open>C8. The first terminal verdict on an evaluation is final. In any database built by these
  methods, once an evaluation has one of the statuses \<open>evaluation_failed\<close>, \<open>done\<close>,
  \<open>cancelled\<close>, no later sequence of calls changes its row in any column or reuses its id, as long as
  the unguarded \<open>set_status\<close> is not called: a racing \<open>finish\<close>, \<open>start\<close>, \<open>mark_building\<close> or
  \<open>fail_with_reason\<close> is without effect.\<close>

theorem eval_first_verdict_wins:
  assumes "serde_ok S" and "list_all op_valid before" and "list_all eval_guarded later"
    and "e \<in> set (st_evals (store_run S before store_new))" and "eval_final e"
    and "e' \<in> set (st_evals (store_run S later (store_run S before store_new)))"
    and "e_id e' = e_id e"
  shows "e' = e"
  using evals_table.verdict_is_final [OF fresh_store_ok [OF assms(1,2)] assms(3-5)] assms(6,7)
  by (simp add: store_run_def)

text \<open>C33. The same for a job: once it is \<open>cached\<close>, \<open>success\<close>, \<open>failure\<close>, \<open>cancelled\<close> or
  \<open>skipped_no_builder\<close>, no \<open>start\<close>, \<open>dispatch\<close>, \<open>finish\<close>, interruption or requeueing changes its
  status, times, paths, builder or metrics; only the separately recorded push time, image size
  and spec may still be written.\<close>

theorem job_first_verdict_wins:
  assumes "serde_ok S" and "list_all op_valid before" and "list_all job_guarded later"
    and "j \<in> set (st_jobs (store_run S before store_new))" and "job_final j"
    and "j' \<in> set (st_jobs (store_run S later (store_run S before store_new)))"
    and "j_id j' = j_id j"
  shows "job_final j' \<and> job_verdict j' = job_verdict j"
  using jobs_table.verdict_is_final [OF fresh_store_ok [OF assms(1,2)] assms(3-5)] assms(6,7)
  by (simp add: store_run_def)

section \<open>Builder identity\<close>

lemma find_builder_unique:
  assumes "store_ok S s" and "b \<in> set (st_builders s)"
  shows "find_builder (b_name b) s = Some b"
proof -
  have "distinct (map b_name (st_builders s))"
    using store_okD(4) [OF assms(1)] by (simp add: builders_ok_def)
  then have uniq: "q = b" if "q \<in> set (st_builders s)" "b_name q = b_name b" for q
    using that assms(2) by (auto simp: distinct_map dest: inj_onD)
  obtain q where "find_builder (b_name b) s = Some q"
    using assms(2) by (cases "find_builder (b_name b) s") (auto simp: find_builder_def find_None_iff)
  moreover from this have "q = b" using uniq by (auto simp: find_builder_def find_Some_iff)
  ultimately show ?thesis by simp
qed

lemma upsert_conflict:
  assumes "store_ok S s" and "b \<in> set (st_builders s)" and "bname_str (nb_name new) = b_name b"
    and "b_pubkey b \<noteq> pubkey_bytes (nb_pubkey new) \<or> b_revoked_at b \<noteq> None"
  shows "builder_upsert S new t s = Inl (BuilderNameConflict (b_name b))"
  using find_builder_unique [OF assms(1,2)] assms(3,4) by (auto simp: builder_upsert_def Let_def)

text \<open>C35. A builder name stays bound to its key, and a revocation is permanent. Whatever calls
  follow, a builder row keeps the key it was enrolled with and stays revoked once it is
  revoked; enrolling under its name with another key, or at all while it is revoked, is refused
  with \<open>BuilderNameConflict\<close>. (The comment on \<open>BuilderStore::upsert\<close> in \<open>traits.rs\<close> says that an existing row gets
  the new key and loses its revocation; the statements of \<open>sqlite.rs\<close> refuse both.)\<close>

theorem builder_key_is_pinned:
  assumes "serde_ok S" and "list_all op_valid before" and "list_all op_valid later"
    and "b \<in> set (st_builders (store_run S before store_new))"
    and "b' \<in> set (st_builders (store_run S later (store_run S before store_new)))"
    and "b_id b' = b_id b"
  shows "b_pubkey b' = b_pubkey b \<and> (b_revoked_at b \<noteq> None \<longrightarrow> b_revoked_at b' \<noteq> None)
    \<and> (bname_str (nb_name new) = b_name b'
       \<and> (pubkey_bytes (nb_pubkey new) \<noteq> b_pubkey b \<or> b_revoked_at b \<noteq> None) \<longrightarrow>
       builder_upsert S new t (store_run S later (store_run S before store_new))
         = Inl (BuilderNameConflict (b_name b')))"
proof -
  note ok = fresh_store_ok [OF assms(1,2)]
  have key: "b_pubkey b' = b_pubkey b"
    using keys_table.verdict_is_final [OF ok assms(3,4)] assms(5,6) by (simp add: store_run_def)
  have revoked: "b_revoked_at b \<noteq> None \<longrightarrow> b_revoked_at b' \<noteq> None"
    using revoked_table.verdict_is_final [OF ok assms(3,4)] assms(5,6) by (simp add: store_run_def)
  have "store_ok S (store_run S later (store_run S before store_new))"
    using ok assms(1,3) by (simp add: store_ok_run)
  from upsert_conflict [OF this assms(5)] key revoked show ?thesis by auto
qed

section \<open>Reads\<close>

lemma map_results_ok:
  "\<forall>r\<in>set rows. decodes f r \<Longrightarrow> \<exists>xs. map_results f rows = Inr xs"
  by (induction rows) (auto simp: map_results_def decodes_def)

lemma transpose_ok: "(\<And>r. x = Some r \<Longrightarrow> decodes f r) \<Longrightarrow> \<exists>y. transpose_result (map_option f x) = Inr y"
  by (cases x) (auto simp: decodes_def)

lemma sha_boundary:
  assumes "sha_new t = Inr x"
  shows "is_char_boundary t 7"
proof -
  have len: "length t = 40" and "\<forall>v\<in>set (chars t). v < 128"
    using assms by (auto simp: sha_new_def is_ascii_hexdigit_def is_ascii_digit_def list_all_iff
        split: if_splits)
  then have "\<forall>c\<in>set t. byte c < (128::nat)" by (simp add: chars_ascii_iff)
  then have "byte (t ! 7) < (128::nat)" using len by simp
  with len show ?thesis by (simp add: is_char_boundary_def)
qed

lemma rows_decode:
  assumes "store_ok S s"
  shows "r \<in> set (st_repos s) \<Longrightarrow> decodes map_repo r"
    and "e \<in> set (st_evals s) \<Longrightarrow> decodes map_eval e"
    and "j \<in> set (st_jobs s) \<Longrightarrow> decodes (map_job S) j"
    and "b \<in> set (st_builders s) \<Longrightarrow> decodes (map_builder S) b"
    and "d \<in> set (st_images s) \<Longrightarrow> decodes map_docker_image d"
  using store_okD [OF assms] by (simp_all add: tables_ok_defs rows_ok_def)

lemma context_decodes:
  assumes "store_ok S s" and "j \<in> set (st_jobs s)" and "row \<in> set (join_context s j)"
  shows "decodes (map_job_with_context S) row"
proof -
  obtain e r where row: "row = (j, e, r)" "e \<in> set (st_evals s)" "r \<in> set (st_repos s)"
    using assms(3) by (auto simp: join_context_def join_repo_def)
  obtain x job g where "sha_new (e_sha e) = Inr x" "map_job S j = Inr job" "slug_new (r_slug r) = Inr g"
    using rows_decode(1) [OF assms(1) row(3)] rows_decode(2) [OF assms(1) row(2)]
      rows_decode(3) [OF assms(1,2)]
    unfolding decodes_eval decodes_repo by (auto simp: decodes_def)
  then show ?thesis
    using sha_boundary [of "e_sha e"]
    by (simp add: row decodes_def map_job_with_context_def bind_result_def to_slug_def)
qed

text \<open>C34. Whatever these methods wrote, they can read. In every database reachable by calls with
  valid arguments, all references resolve, ids, names and other unique columns are unique, and
  no read fails: no \<open>InvalidStatus\<close>, \<open>InvalidSha\<close>, \<open>InvalidSlug\<close>, \<open>InvalidBuilderName\<close>,
  \<open>InvalidBuilderPubkey\<close> or \<open>InvalidBuilderCapabilities\<close> error and no slicing panic of the
  short sha can occur.\<close>

theorem store_reads_never_fail:
  fixes S :: serde and ops :: "store_op list"
  assumes "serde_ok S" and "list_all op_valid ops"
  defines "s \<equiv> store_run S ops store_new"
  shows "store_ok S s \<and> (\<exists>x. repo_list s = Inr x) \<and> (\<forall>i. \<exists>x. store_eval_get i s = Inr x)
    \<and> (\<forall>i n. \<exists>x. eval_list_by_repo i n s = Inr x) \<and> (\<forall>i. \<exists>x. store_job_get S i s = Inr x)
    \<and> (\<forall>i. \<exists>x. job_list_by_eval S i s = Inr x) \<and> (\<exists>x. list_running S s = Inr x)
    \<and> (\<forall>n. \<exists>x. list_queued S n s = Inr x) \<and> (\<exists>x. list_all_builders S s = Inr x)
    \<and> (\<forall>i. \<exists>x. store_builder_get S i s = Inr x)
    \<and> (\<forall>m g. \<exists>x. latest_per_system_for_branch m g s = Inr x)"
proof -
  have ok: "store_ok S s" unfolding s_def using fresh_store_ok [OF assms(1,2)] by simp
  note dec = rows_decode [OF ok] context_decodes [OF ok]
  show ?thesis
    unfolding repo_list_def store_eval_get_def eval_list_by_repo_def store_job_get_def
      job_list_by_eval_def list_running_def list_queued_def list_all_builders_def
      store_builder_get_def latest_per_system_for_branch_def eval_get_row_def job_get_row_def
    by (intro conjI allI ok map_results_ok transpose_ok ballI)
      (auto dest!: find_Some_mem in_set_takeD intro: dec)
qed

section \<open>Round trips\<close>

lemma eval_round_trip:
  assumes "store_ok S s" and "op_valid (EvalCreate ne)"
    and "\<forall>n. ne_pr_number ne = Some n \<longrightarrow> n < 2 ^ 32" and "eval_create ne s = Inr (i, s')"
  shows "store_eval_get i s' = Inr (Some \<lparr>er_id = i, er_repo_id = ne_repo_id ne,
      er_trigger = ne_trigger ne, er_git_ref = ne_git_ref ne, er_sha = ne_sha ne,
      er_started_at = None, er_finished_at = None, er_status = EQueued,
      er_pr_number = ne_pr_number ne, er_building_started_at = None, er_failure_reason = None\<rparr>)"
proof -
  let ?row = "\<lparr>e_id = q_evals (st_seq s) + 1, e_repo_id = repo_get (ne_repo_id ne),
      e_trigger = ne_trigger ne, e_git_ref = ne_git_ref ne, e_sha = sha_str (ne_sha ne),
      e_started_at = None, e_finished_at = None, e_status = ''queued'',
      e_pr_number = map_option int (ne_pr_number ne), e_building_started_at = None,
      e_failure_reason = None\<rparr>"
  have s': "st_evals s' = st_evals s @ [?row]" "i = EvalId (q_evals (st_seq s) + 1)"
    using assms(4) by (auto simp: eval_create_def Let_def split: if_splits)
  have ok: "store_ok S s'" using store_ok_eval_create assms by simp
  have "List.find (\<lambda>q. e_id q = e_id ?row) (st_evals s') = Some ?row"
    by (rule rows_ok_find [OF store_okD(2) [OF ok, unfolded evals_ok_def]]) (simp add: s')
  then have "eval_get_row i s' = Some ?row" by (simp add: eval_get_row_def s'(2))
  then show ?thesis
    using assms(2,3)
    by (auto simp: store_eval_get_def map_eval_def bind_result_def to_sha_def to_eval_status_def
        s'(2) split: option.splits)
qed

lemma job_round_trip:
  assumes "store_ok S s" and "serde_ok S" and "job_create S nj s = Inr (k, s')"
  shows "\<exists>r. store_job_get S k s' = Inr (Some r) \<and> jr_id r = k \<and> jr_eval_id r = nj_eval_id nj
      \<and> jr_attr_path r = nj_attr_path nj \<and> jr_drv_path r = nj_drv_path nj
      \<and> jr_system r = nj_system nj \<and> jr_status r = JQueued \<and> jr_outputs r = nj_outputs nj
      \<and> jr_main_program r = nj_main_program nj"
proof -
  define row where "row = last (st_jobs s')"
  have row: "st_jobs s' = st_jobs s @ [row]" "k = JobId (j_id row)"
    "EvalId (j_eval_id row) = nj_eval_id nj" "j_attr_path row = nj_attr_path nj"
    "j_drv_path row = nj_drv_path nj" "j_system row = nj_system nj" "j_status row = ''queued''"
    "j_main_program row = nj_main_program nj"
    "j_outputs_json row = (if nj_outputs nj = [] then None else Some (ser_map S (nj_outputs nj)))"
    using assms(3) by (auto simp: row_def job_create_def Let_def split: if_splits)
  have ok: "store_ok S s'" using store_ok_job_create assms by simp
  have "List.find (\<lambda>q. j_id q = j_id row) (st_jobs s') = Some row"
    by (rule rows_ok_find [OF store_okD(3) [OF ok, unfolded jobs_ok_def]]) (simp add: row)
  then have "job_get_row k s' = Some row" by (simp add: job_get_row_def row(2))
  then show ?thesis
    using assms(2) row
    by (simp add: store_job_get_def map_job_def bind_result_def to_job_status_def serde_ok_def)
qed

definition enrolled :: "serde \<Rightarrow> new_builder \<Rightarrow> nat \<Rightarrow> builder_row \<Rightarrow> bool" where
  "enrolled S nb t row \<longleftrightarrow> b_name row = bname_str (nb_name nb)
     \<and> b_pubkey row = pubkey_bytes (nb_pubkey nb)
     \<and> b_systems row = ser_strings S (cap_systems (nb_capabilities nb))
     \<and> b_features row = ser_strings S (cap_features (nb_capabilities nb))
     \<and> b_native_system row = cap_native_system (nb_capabilities nb)
     \<and> b_max_jobs row = int (cap_max_jobs (nb_capabilities nb))
     \<and> b_nix_version row = cap_nix_version (nb_capabilities nb) \<and> b_last_seen row = t
     \<and> b_revoked_at row = None"

lemma builder_round_trip:
  assumes "store_ok S s" and "serde_ok S" and "op_valid (BuilderUpsert nb t)"
    and "cap_max_jobs (nb_capabilities nb) < 2 ^ 32" and "builder_upsert S nb t s = Inr (b, s')"
  shows "\<exists>r. find_by_name S (bname_str (nb_name nb)) s' = Inr (Some r) \<and> br_id r = b
      \<and> br_name r = nb_name nb \<and> br_pubkey r = nb_pubkey nb
      \<and> br_capabilities r = nb_capabilities nb \<and> br_last_seen r = t \<and> br_revoked_at r = None"
proof -
  obtain row where row: "row \<in> set (st_builders s')" "b = BuilderId (b_id row)" "enrolled S nb t row"
  proof (cases "find_builder (bname_str (nb_name nb)) s")
    case None
    then have "last (st_builders s') \<in> set (st_builders s')"
      "b = BuilderId (b_id (last (st_builders s')))" "enrolled S nb t (last (st_builders s'))"
      using assms(5) by (auto simp: builder_upsert_def Let_def enrolled_def)
    then show ?thesis by (rule that)
  next
    case (Some q)
    let ?q = "q\<lparr>b_systems := ser_strings S (cap_systems (nb_capabilities nb)),
       b_native_system := cap_native_system (nb_capabilities nb),
       b_features := ser_strings S (cap_features (nb_capabilities nb)),
       b_max_jobs := int (cap_max_jobs (nb_capabilities nb)),
       b_nix_version := cap_nix_version (nb_capabilities nb), b_last_seen := t\<rparr>"
    have "q \<in> set (st_builders s)" "b_name q = bname_str (nb_name nb)"
      using find_Some_mem Some unfolding find_builder_def by fast+
    then have "?q \<in> set (st_builders s')" "b = BuilderId (b_id ?q)" "enrolled S nb t ?q"
      using Some assms(5)
      by (force simp: builder_upsert_def Let_def enrolled_def update_where_def split: if_splits)+
    then show ?thesis by (rule that)
  qed
  note row = row(1,2) row(3) [unfolded enrolled_def]
  have "store_ok S s'" using store_ok_builder_upsert [OF assms(1-3,5)] .
  from find_builder_unique [OF this row(1)] assms(2-4) row show ?thesis
    by (simp add: find_by_name_def map_builder_def bind_result_def serde_ok_def as_u32_def)
qed

text \<open>Created rows read back as they were given. \<open>create\<close> then \<open>get\<close> returns the evaluation
  with status \<open>Queued\<close> and all given columns, and the job with its outputs; enrolling a builder
  and looking its name up returns its key and capabilities. (A pull request number and a job
  limit are \<open>u32\<close>.)\<close>

lemma created_rows_read_back:
  assumes "serde_ok S" and "list_all op_valid ops" and "s = store_run S ops store_new"
  shows "(op_valid (EvalCreate ne) \<and> (\<forall>n. ne_pr_number ne = Some n \<longrightarrow> n < 2 ^ 32)
      \<and> eval_create ne s = Inr (i, s1) \<longrightarrow>
      store_eval_get i s1 = Inr (Some \<lparr>er_id = i, er_repo_id = ne_repo_id ne,
        er_trigger = ne_trigger ne, er_git_ref = ne_git_ref ne, er_sha = ne_sha ne,
        er_started_at = None, er_finished_at = None, er_status = EQueued,
        er_pr_number = ne_pr_number ne, er_building_started_at = None, er_failure_reason = None\<rparr>))
    \<and> (job_create S nj s = Inr (k, s2) \<longrightarrow>
      (\<exists>r. store_job_get S k s2 = Inr (Some r) \<and> jr_id r = k \<and> jr_eval_id r = nj_eval_id nj
        \<and> jr_attr_path r = nj_attr_path nj \<and> jr_drv_path r = nj_drv_path nj
        \<and> jr_system r = nj_system nj \<and> jr_status r = JQueued \<and> jr_outputs r = nj_outputs nj
        \<and> jr_main_program r = nj_main_program nj))
    \<and> (op_valid (BuilderUpsert nb t) \<and> cap_max_jobs (nb_capabilities nb) < 2 ^ 32
      \<and> builder_upsert S nb t s = Inr (b, s3) \<longrightarrow>
      (\<exists>r. find_by_name S (bname_str (nb_name nb)) s3 = Inr (Some r) \<and> br_id r = b
        \<and> br_name r = nb_name nb \<and> br_pubkey r = nb_pubkey nb
        \<and> br_capabilities r = nb_capabilities nb \<and> br_last_seen r = t \<and> br_revoked_at r = None))"
proof -
  have ok: "store_ok S s" unfolding assms(3) using fresh_store_ok [OF assms(1,2)] by simp
  show ?thesis
    using eval_round_trip [OF ok] job_round_trip [OF ok assms(1)] builder_round_trip [OF ok assms(1)]
    by blast
qed

section \<open>Deletion and restart\<close>

text \<open>C36. Deleting an evaluation takes exactly what depends on it. In every reachable database,
  \<open>delete_eval_cascade\<close> removes the evaluation, its jobs, its forge statuses, and the images,
  effect runs and SBOMs of that evaluation and its jobs; every other row of every table stays,
  and no reference is left dangling.\<close>

theorem delete_eval_is_exact:
  fixes S :: serde and ops :: "store_op list" and i :: eval_id
  assumes "serde_ok S" and "list_all op_valid ops"
  defines "s \<equiv> store_run S ops store_new"
  defines "s' \<equiv> delete_eval_cascade i s"
  defines "own \<equiv> {j_id j | j. j \<in> set (st_jobs s) \<and> j_eval_id j = eval_get i}"
  shows "store_ok S s' \<and> st_repos s' = st_repos s \<and> st_builders s' = st_builders s
    \<and> st_evals s' = filter (\<lambda>e. e_id e \<noteq> eval_get i) (st_evals s)
    \<and> st_jobs s' = filter (\<lambda>j. j_eval_id j \<noteq> eval_get i) (st_jobs s)
    \<and> st_forge_status s' = filter (\<lambda>f. f_eval_id f \<noteq> eval_get i) (st_forge_status s)
    \<and> st_images s' = filter (\<lambda>d. d_eval_id d \<noteq> eval_get i \<and> d_job_id d \<notin> own) (st_images s)
    \<and> st_effects s' = filter (\<lambda>x. x_job_id x \<notin> own) (st_effects s)
    \<and> st_sboms s' = filter (\<lambda>b. s_job_id b \<notin> own) (st_sboms s)"
proof -
  let ?gone = "e_id ` set (filter (\<lambda>e. e_id e = eval_get i) (st_evals s))"
  have ok: "store_ok S s" unfolding s_def using fresh_store_ok [OF assms(1,2)] by simp
  have E: "k \<in> ?gone \<longleftrightarrow> k = eval_get i" if "k \<in> eval_ids s" for k
    using that by (auto simp: eval_ids_def)
  have jobs: "j_eval_id j \<in> ?gone \<longleftrightarrow> j_eval_id j = eval_get i" if "j \<in> set (st_jobs s)" for j
    using E store_okD(3) [OF ok] that by (simp add: jobs_ok_def rows_ok_def)
  have own: "j_id ` set (filter (\<lambda>j. j_eval_id j \<in> ?gone) (st_jobs s)) = own"
  proof -
    have "filter (\<lambda>j. j_eval_id j \<in> ?gone) (st_jobs s) =
        filter (\<lambda>j. j_eval_id j = eval_get i) (st_jobs s)"
      using jobs by (intro filter_cong refl) blast
    then show ?thesis unfolding own_def by auto
  qed
  have forge: "f_eval_id f \<in> ?gone \<longleftrightarrow> f_eval_id f = eval_get i" if "f \<in> set (st_forge_status s)" for f
    using E store_okD(5) [OF ok] that by (simp add: forge_ok_def)
  have images: "d_eval_id d \<in> ?gone \<longleftrightarrow> d_eval_id d = eval_get i" if "d \<in> set (st_images s)" for d
    using E store_okD(6) [OF ok] that by (simp add: images_ok_def rows_ok_def)
  have "store_ok S s'" unfolding s'_def delete_eval_cascade_def by (rule store_ok_delete_evals [OF ok])
  moreover have "st_jobs s' = filter (\<lambda>j. j_eval_id j \<noteq> eval_get i) (st_jobs s)"
    unfolding s'_def delete_eval_cascade_def delete_evals_def Let_def set_map
    using jobs by (auto intro!: filter_cong)
  moreover have "st_forge_status s' = filter (\<lambda>f. f_eval_id f \<noteq> eval_get i) (st_forge_status s)"
    unfolding s'_def delete_eval_cascade_def delete_evals_def Let_def set_map
    using forge by (auto intro!: filter_cong)
  moreover have "st_images s' = filter (\<lambda>d. d_eval_id d \<noteq> eval_get i \<and> d_job_id d \<notin> own) (st_images s)"
    unfolding s'_def delete_eval_cascade_def delete_evals_def delete_jobs_def Let_def set_map
      own [unfolded set_map] using images by (auto intro!: filter_cong)
  moreover have "st_effects s' = filter (\<lambda>x. x_job_id x \<notin> own) (st_effects s)"
    "st_sboms s' = filter (\<lambda>b. s_job_id b \<notin> own) (st_sboms s)"
    unfolding s'_def delete_eval_cascade_def delete_evals_def delete_jobs_def Let_def set_map
      own [unfolded set_map] by simp_all
  moreover have "st_repos s' = st_repos s" "st_builders s' = st_builders s"
    "st_evals s' = filter (\<lambda>e. e_id e \<noteq> eval_get i) (st_evals s)"
    by (simp_all add: s'_def delete_eval_cascade_def)
  ultimately show ?thesis by blast
qed

text \<open>A restart resumes exactly the unfinished jobs. After \<open>mark_running_interrupted\<close> and
  \<open>requeue_interrupted_for_eval\<close>, no job is \<open>running\<close>; \<open>resume_specs_for_eval\<close> lists, in the order
  of their ids, exactly the jobs of the evaluation that were queued, running or interrupted and
  have a stored spec; the requeued ones have lost their builder and start time; and every job
  with a terminal status is unchanged.\<close>

lemma restart_resumes_unfinished:
  fixes s :: store and i :: eval_id
  defines "s1 \<equiv> snd (mark_running_interrupted s)"
  defines "s2 \<equiv> snd (requeue_interrupted_for_eval i s1)"
  shows "set (resume_specs_for_eval i s2) =
      {(JobId (j_id j), spec) | j spec. j \<in> set (st_jobs s) \<and> j_eval_id j = eval_get i
         \<and> j_status j \<in> {''queued'', ''running'', ''interrupted''} \<and> j_spec_json j = Some spec}
    \<and> sorted (map (job_get \<circ> fst) (resume_specs_for_eval i s2))
    \<and> (\<forall>j\<in>set (st_jobs s2). j_status j \<noteq> ''running'')
    \<and> map j_id (st_jobs s2) = map j_id (st_jobs s)
    \<and> (\<forall>j\<in>set (st_jobs s). j_status j \<in> set job_terminal_statuses \<longrightarrow> j \<in> set (st_jobs s2))
    \<and> (\<forall>j\<in>set (st_jobs s). j_eval_id j = eval_get i \<and> j_status j \<in> {''running'', ''interrupted''} \<longrightarrow>
         j\<lparr>j_status := ''queued'', j_started_at := None, j_builder_id := None\<rparr> \<in> set (st_jobs s2))"
proof -
  define f where "f j = (if j_status j = ''running'' then j\<lparr>j_status := ''interrupted''\<rparr> else j)"
    for j :: job_row
  define g where "g j = (if j_eval_id j = eval_get i \<and> j_status j = ''interrupted''
      then j\<lparr>j_status := ''queued'', j_started_at := None, j_builder_id := None\<rparr> else j)"
    for j :: job_row
  have jobs: "st_jobs s2 = map (\<lambda>j. g (f j)) (st_jobs s)"
    by (simp add: s2_def s1_def mark_running_interrupted_def requeue_interrupted_for_eval_def
        update_where_def Let_def f_def g_def)
  have gf: "j_id (g (f j)) = j_id j" "j_eval_id (g (f j)) = j_eval_id j"
    "j_spec_json (g (f j)) = j_spec_json j" "j_status (g (f j)) \<noteq> ''running''" for j
    by (simp_all add: f_def g_def)
  have q: "j_eval_id j = eval_get i \<Longrightarrow> j_status (g (f j)) = ''queued'' \<longleftrightarrow>
      j_status j \<in> {''queued'', ''running'', ''interrupted''}" for j
    by (auto simp: f_def g_def)
  have L: "set (resume_specs_for_eval i s2) = (\<lambda>j. (JobId (j_id j), the (j_spec_json j))) `
      {j \<in> set (st_jobs s2). j_eval_id j = eval_get i \<and> j_status j = ''queued''
         \<and> j_spec_json j \<noteq> None}"
    by (simp add: resume_specs_for_eval_def)
  have "set (resume_specs_for_eval i s2) =
      {(JobId (j_id j), spec) | j spec. j \<in> set (st_jobs s) \<and> j_eval_id j = eval_get i
         \<and> j_status j \<in> {''queued'', ''running'', ''interrupted''} \<and> j_spec_json j = Some spec}"
    (is "?L = ?R")
  proof (intro equalityI subsetI)
    fix x assume "x \<in> ?L"
    then obtain k where k: "k \<in> set (st_jobs s2)" "x = (JobId (j_id k), the (j_spec_json k))"
      "j_eval_id k = eval_get i" "j_status k = ''queued''" "j_spec_json k \<noteq> None"
      unfolding L by blast
    then obtain j where j: "j \<in> set (st_jobs s)" "k = g (f j)" unfolding jobs set_map by blast
    then have "j_spec_json j = Some (the (j_spec_json j))" using k(5) gf(3) [of j] by simp
    then show "x \<in> ?R" using k j gf(1-3) [of j] q [of j] by auto
  next
    fix x assume "x \<in> ?R"
    then obtain j spec where j: "j \<in> set (st_jobs s)" "x = (JobId (j_id j), spec)"
      "j_eval_id j = eval_get i" "j_status j \<in> {''queued'', ''running'', ''interrupted''}"
      "j_spec_json j = Some spec" by blast
    then have "g (f j) \<in> set (st_jobs s2)" "j_status (g (f j)) = ''queued''"
      using q [of j] by (auto simp: jobs)
    moreover have "x = (JobId (j_id (g (f j))), the (j_spec_json (g (f j))))"
      "j_eval_id (g (f j)) = eval_get i" "j_spec_json (g (f j)) \<noteq> None"
      using j gf(1-3) [of j] by simp_all
    ultimately show "x \<in> ?L" unfolding L by blast
  qed
  moreover have "sorted (map (job_get \<circ> fst) (resume_specs_for_eval i s2))"
    by (simp add: resume_specs_for_eval_def comp_def)
  moreover have "j \<in> set (st_jobs s2)"
    if "j \<in> set (st_jobs s)" "j_status j \<in> set job_terminal_statuses" for j
  proof -
    have "j_status j \<noteq> ''running''" "j_status j \<noteq> ''interrupted''"
      using that(2) by (auto simp: job_terminal_statuses_def)
    then have "g (f j) = j" by (simp add: f_def g_def)
    with that(1) show ?thesis by (force simp: jobs)
  qed
  moreover have "j\<lparr>j_status := ''queued'', j_started_at := None, j_builder_id := None\<rparr> \<in> set (st_jobs s2)"
    if "j \<in> set (st_jobs s)" "j_eval_id j = eval_get i" "j_status j \<in> {''running'', ''interrupted''}" for j
  proof -
    have "g (f j) = j\<lparr>j_status := ''queued'', j_started_at := None, j_builder_id := None\<rparr>"
      using that(2,3) by (auto simp: f_def g_def)
    with that(1) show ?thesis by (force simp: jobs)
  qed
  moreover have "\<forall>j\<in>set (st_jobs s2). j_status j \<noteq> ''running''"
    unfolding jobs set_map using gf(4) by blast
  moreover have "map j_id (st_jobs s2) = map j_id (st_jobs s)"
    by (simp add: jobs gf(1) comp_def)
  ultimately show ?thesis by blast
qed

section \<open>Active evaluations of a branch\<close>

lemma map_eval_ids: "map_eval e = Inr r \<Longrightarrow> er_id r = EvalId (e_id e) \<and> er_repo_id r = RepoId (e_repo_id e)"
  by (auto simp: map_eval_def bind_result_def split: sum.splits)

lemma map_results_ids:
  "map_results map_eval rows = Inr evals \<Longrightarrow> map er_id evals = map (EvalId \<circ> e_id) rows"
proof (induction rows arbitrary: evals)
  case (Cons e rows)
  then obtain r rest where "map_eval e = Inr r" "map_results map_eval rows = Inr rest" "evals = r # rest"
    by (cases "map_eval e") (auto simp: map_results_def map_sum_Inr)
  with Cons.IH map_eval_ids show ?case by simp
qed (simp add: map_results_def)

lemma map_results_id_set:
  "map_results map_eval rows = Inr evals \<Longrightarrow> eval_get ` er_id ` set evals = e_id ` set rows"
  by (drule map_results_ids, drule arg_cong [where f = "\<lambda>is. eval_get ` set is"]) (simp add: image_image)

lemma like_percent [simp]: "esc \<noteq> Some 37 \<Longrightarrow> like esc [37] s"
  by (induction s) simp_all

declare like.simps(2) [simp del]

lemma like_literal:
  assumes "\<forall>c\<in>set key. c \<noteq> 37 \<and> c \<noteq> 95 \<and> c \<noteq> 92"
  shows "like (Some 92) (key @ [58, 37]) s \<longleftrightarrow>
    length key < length s \<and> map fold_case (take (Suc (length key)) s) = map fold_case (key @ [58])"
  using assms
proof (induction key arbitrary: s)
  case Nil
  then show ?case by (cases s) (auto simp: like.simps(2) [of "Some 92" 58])
next
  case (Cons c key)
  show ?case
  proof (cases s)
    case Nil
    then show ?thesis using Cons.prems by (simp add: like.simps(2) [of "Some 92" c])
  next
    case (Cons a as)
    have "like (Some 92) (c # key @ [58, 37]) (a # as) \<longleftrightarrow>
        fold_case a = fold_case c \<and> like (Some 92) (key @ [58, 37]) as"
      using Cons.prems by (simp add: like.simps(2) [of "Some 92" c] eq_commute)
    then show ?thesis using Cons.IH [of as] Cons.prems Cons by (simp add: conj_ac)
  qed
qed

text \<open>The evaluations superseded by a push. For a branch key of plain characters (ASCII
  without the wildcards and the backslash), \<open>list_active_by_branch_key\<close> returns, in the order of
  their ids, exactly the queued, evaluating or building evaluations of the repository whose ref is
  the key, or continues the key and a colon up to the case of ASCII letters.\<close>

lemma active_by_branch_key_is_exact:
  assumes "serde_ok S" and "list_all op_valid ops" and "s = store_run S ops store_new"
    and "\<forall>c\<in>set key. byte c < (128::nat) \<and> byte c \<notin> {37, 92, 95 :: nat}"
  shows "\<exists>rs. list_active_by_branch_key i key s = Inr rs
    \<and> sorted (map (eval_get \<circ> er_id) rs)
    \<and> set (map (eval_get \<circ> er_id) rs) =
        {e_id e | e. e \<in> set (st_evals s) \<and> e_repo_id e = repo_get i
           \<and> e_status e \<in> {''queued'', ''evaluating'', ''building''}
           \<and> (e_git_ref e = key
              \<or> length key < length (chars (e_git_ref e))
                \<and> map fold_case (take (Suc (length key)) (chars (e_git_ref e)))
                  = map (fold_case \<circ> byte) (key @ '':''))}"
proof -
  have ok: "store_ok S s" unfolding assms(3) using fresh_store_ok [OF assms(1,2)] by simp
  have esc: "escape_backslashes key = key"
    using assms(4) unfolding escape_backslashes_def by (induction key) auto
  have ascii: "chars (key @ '':%'') = map byte key @ [58, 37]"
    using assms(4) by (subst chars_ascii) auto
  have like: "sql_like (Some (char_of (92 :: nat))) (escape_backslashes key @ '':%'') t \<longleftrightarrow>
      length key < length (chars t)
      \<and> map fold_case (take (Suc (length key)) (chars t)) = map (fold_case \<circ> byte) (key @ '':'')" for t
    unfolding sql_like_def esc ascii using assms(4) by (simp add: like_literal)
  let ?rows = "sort_key e_id (filter (\<lambda>e. e_repo_id e = repo_get i
      \<and> e_status e \<in> {''queued'', ''evaluating'', ''building''}
      \<and> (e_git_ref e = key \<or> length key < length (chars (e_git_ref e))
          \<and> map fold_case (take (Suc (length key)) (chars (e_git_ref e)))
            = map (fold_case \<circ> byte) (key @ '':''))) (st_evals s))"
  have rows: "list_active_by_branch_key i key s = map_results map_eval ?rows"
    unfolding list_active_by_branch_key_def Let_def like by simp
  obtain rs where "map_results map_eval ?rows = Inr rs"
    using map_results_ok [of ?rows map_eval] rows_decode(2) [OF ok] by auto
  moreover from arg_cong [OF map_results_ids [OF this], of "map eval_get"]
  have "map (eval_get \<circ> er_id) rs = map e_id ?rows" by (simp add: comp_def)
  ultimately show ?thesis unfolding rows by (intro exI [of _ rs]) auto
qed

section \<open>Removing a builder\<close>

definition sample_sha :: sha where
  "sample_sha = Sha (replicate 40 CHR ''0'')"

definition sample_new_eval :: new_evaluation where
  "sample_new_eval = \<lparr>ne_repo_id = RepoId 1, ne_trigger = ''push'', ne_git_ref = ''main'',
     ne_sha = sample_sha, ne_pr_number = Some 7\<rparr>"

definition sample_new_job :: new_job where
  "sample_new_job = \<lparr>nj_eval_id = EvalId 1, nj_attr_path = ''a'', nj_drv_path = None,
     nj_system = ''x'', nj_main_program = None, nj_outputs = [(''out'', ''p'')]\<rparr>"

definition sample_new_builder :: new_builder where
  "sample_new_builder = \<lparr>nb_name = BuilderName ''b'', nb_pubkey = BuilderPubkey (replicate 32 CHR ''k''),
     nb_capabilities = \<lparr>cap_systems = [''x''], cap_native_system = ''x'', cap_features = [],
       cap_max_jobs = 2, cap_nix_version = ''2''\<rparr>\<rparr>"

definition sample_store :: "serde \<Rightarrow> store" where
  "sample_store S = store_run S [RepoUpsert ''github'' (Slug ''a/b''), EvalCreate sample_new_eval,
     JobCreate sample_new_job, BuilderUpsert sample_new_builder 1] store_new"

lemma sample_store_eq:
  "st_builders (sample_store S) = [\<lparr>b_id = 1, b_name = ''b'', b_pubkey = replicate 32 CHR ''k'',
     b_systems = ser_strings S [''x''], b_native_system = ''x'', b_features = ser_strings S [],
     b_max_jobs = 2, b_nix_version = ''2'', b_enrolled_at = 1, b_last_seen = 1, b_revoked_at = None\<rparr>]"
  "map j_id (st_jobs (sample_store S)) = [1]"
  "map j_status (st_jobs (sample_store S)) = [''queued'']"
  "map j_builder_id (st_jobs (sample_store S)) = [None]"
  by (simp_all add: sample_store_def store_new_def sample_new_eval_def sample_new_job_def
      sample_new_builder_def store_defs find_repo_def has_repo_def has_eval_def find_builder_def)

text \<open>A builder that ever built something cannot be removed. After a job has been dispatched to
  a builder and finished, \<open>remove\<close> fails with a foreign key violation for as long as the job row
  exists, because \<open>jobs.builder_id\<close> has no \<open>ON DELETE\<close> action; the name therefore cannot be freed
  for another key, which is the documented way out of a \<open>BuilderNameConflict\<close>.\<close>

lemma builder_remove_blocked_by_jobs:
  "\<exists>s. job_dispatch (JobId 1) (BuilderId 1) 5 (sample_store S) = Inr s
     \<and> builder_remove ''b'' (job_finish (JobId 1) JSuccess 9 None None m s) = Inl (Sqlx FkViolation)
     \<and> builder_remove ''b'' (sample_store S) \<noteq> Inl (Sqlx FkViolation)"
proof -
  obtain j where j: "st_jobs (sample_store S) = [j]" "j_id j = 1" "j_status j = ''queued''"
    "j_builder_id j = None"
    using sample_store_eq(2-4) [of S] by (cases "st_jobs (sample_store S)") auto
  then show ?thesis
    by (simp add: job_dispatch_def job_finish_def builder_remove_def has_builder_def
        sample_store_eq(1) rows_affected_def update_where_def job_terminal_statuses_def)
qed

end
