(* ===== verification/Store_Samples.thy ===== *)
theory Store_Samples
  imports Store_Props
begin

text \<open>
  A concrete codec in the place of \<open>serde_json\<close>, and the store theorems at concrete databases.
  The codec marks every character and ends every string with a semicolon, so that any string
  can be stored; a map is the list of its keys and values.
\<close>

section \<open>A codec\<close>

fun enc :: "string list \<Rightarrow> string" where
  "enc [] = []"
| "enc (s # ss) = concat (map (\<lambda>c. [CHR ''x'', c]) s) @ CHR '';'' # enc ss"

fun dec :: "string \<Rightarrow> string list option" where
  "dec [] = Some []"
| "dec [c] = (if c = CHR '';'' then Some [[]] else None)"
| "dec (c # d # r) =
     (if c = CHR '';'' then map_option (\<lambda>ss. [] # ss) (dec (d # r))
      else case dec r of
             Some (s # ss) \<Rightarrow> Some ((d # s) # ss)
           | _ \<Rightarrow> None)"

lemma dec_enc_string:
  "dec (concat (map (\<lambda>c. [CHR ''x'', c]) s) @ CHR '';'' # r) = map_option (\<lambda>ss. s # ss) (dec r)"
proof (induction s)
  case Nil
  then show ?case by (cases r) auto
next
  case (Cons c s)
  then show ?case by (cases "dec r") auto
qed

lemma dec_enc [simp]: "dec (enc ss) = Some ss"
  by (induction ss) (auto simp: dec_enc_string)

fun pairs :: "string list \<Rightarrow> (string \<times> string) list" where
  "pairs (k # v # r) = (k, v) # pairs r"
| "pairs _ = []"

lemma pairs_concat [simp]: "pairs (concat (map (\<lambda>(k, v). [k, v]) m)) = m"
  by (induction m) auto

definition sample_serde :: serde where
  "sample_serde = \<lparr>ser_strings = enc, de_strings = dec,
     ser_map = (\<lambda>m. enc (concat (map (\<lambda>(k, v). [k, v]) m))),
     de_map = (\<lambda>s. map_option pairs (dec s))\<rparr>"

lemma sample_serde_ok: "serde_ok sample_serde"
  by (simp add: serde_ok_def sample_serde_def)

section \<open>The theorems at concrete databases\<close>

definition sample_ops :: "store_op list" where
  "sample_ops = [RepoUpsert ''github'' (Slug ''a/b''), EvalCreate sample_new_eval,
     JobCreate sample_new_job, BuilderUpsert sample_new_builder 1]"

lemma sample_values:
  "slug_new ''a/b'' = Inr (Slug ''a/b'')"
  "sha_new (sha_str sample_sha) = Inr sample_sha"
  "builder_name_new ''b'' = Inr (BuilderName ''b'')"
  "pubkey_from_bytes (replicate 32 CHR ''k'') = Inr (BuilderPubkey (replicate 32 CHR ''k''))"
proof -
  show "slug_new ''a/b'' = Inr (Slug ''a/b'')"
    by (simp add: slug_new_def is_whitespace_def is_control_def)
  show "builder_name_new ''b'' = Inr (BuilderName ''b'')"
    by (simp add: builder_name_new_def builder_name_char_def is_ascii_alphanumeric_def
        is_ascii_digit_def)
  show "sha_new (sha_str sample_sha) = Inr sample_sha"
    by (simp add: sha_new_def sample_sha_def chars_ascii list_all_iff is_ascii_hexdigit_def
        is_ascii_digit_def to_ascii_lowercase_def)
  show "pubkey_from_bytes (replicate 32 CHR ''k'') = Inr (BuilderPubkey (replicate 32 CHR ''k''))"
    by (simp add: pubkey_from_bytes_def)
qed

lemma sample_ops_valid: "list_all op_valid sample_ops"
  by (simp add: sample_ops_def sample_new_eval_def sample_new_builder_def sample_values)

theorem store_reads_never_fail_witness:
  "store_ok sample_serde (store_run sample_serde sample_ops store_new)
   \<and> (\<exists>x. list_queued sample_serde 5 (store_run sample_serde sample_ops store_new) = Inr x)"
  using store_reads_never_fail [OF sample_serde_ok sample_ops_valid] by blast

lemma sample_run_eq: "store_run S sample_ops store_new = sample_store S"
  by (simp add: sample_ops_def sample_store_def)

lemma sample_evals:
  "st_evals (sample_store S) = [\<lparr>e_id = 1, e_repo_id = 1, e_trigger = ''push'', e_git_ref = ''main'',
     e_sha = sha_str sample_sha, e_started_at = None, e_finished_at = None, e_status = ''queued'',
     e_pr_number = Some 7, e_building_started_at = None, e_failure_reason = None\<rparr>]"
  by (simp add: sample_store_def store_new_def sample_new_eval_def sample_new_job_def
      sample_new_builder_def store_defs find_repo_def has_repo_def has_eval_def find_builder_def)

text \<open>A cancelled evaluation is not marked done by the worker that still runs it.\<close>

theorem eval_first_verdict_wins_witness:
  "map (\<lambda>e. (e_status e, e_finished_at e))
     (st_evals (store_run sample_serde [EvalFinish (EvalId 1) EDone 9]
       (store_run sample_serde (sample_ops @ [EvalFinish (EvalId 1) ECancelled 5]) store_new)))
   = [(''cancelled'', Some 5)]"
proof -
  let ?before = "sample_ops @ [EvalFinish (EvalId 1) ECancelled 5]"
  let ?s = "store_run sample_serde ?before store_new"
  let ?s' = "store_run sample_serde [EvalFinish (EvalId 1) EDone 9] ?s"
  have valid: "list_all op_valid ?before" using sample_ops_valid by simp
  have guarded: "list_all eval_guarded [EvalFinish (EvalId 1) EDone 9]"
    by (simp add: eval_guarded_def)
  obtain e where e: "st_evals ?s = [e]" "e_id e = 1" "e_status e = ''cancelled''"
    "e_finished_at e = Some 5"
    by (simp add: store_run_append sample_run_eq eval_finish_def sample_evals update_where_def
        eval_terminal_statuses_def)
  then obtain e' where e': "st_evals ?s' = [e']" "e_id e' = e_id e"
    by (simp add: eval_finish_def update_where_def)
  then have "e' = e"
    using eval_first_verdict_wins [OF sample_serde_ok valid guarded, of e e'] e
    by (simp add: eval_final_def eval_terminal_statuses_def)
  with e e' show ?thesis by simp
qed

definition no_metrics :: phase_metrics where
  "no_metrics = \<lparr>pm_push_bytes = None, pm_push_ms = None, pm_build_ms = None, pm_pull_bytes = None,
     pm_pull_ms = None, pm_cache_push_ms = None\<rparr>"

theorem job_first_verdict_wins_witness:
  "map job_final (st_jobs (store_run sample_serde [JobStart (JobId 1) 9]
      (store_run sample_serde (sample_ops @ [JobFinish (JobId 1) JCancelled 5 None None no_metrics])
        store_new))) = [True]"
proof -
  let ?before = "sample_ops @ [JobFinish (JobId 1) JCancelled 5 None None no_metrics]"
  let ?s = "store_run sample_serde ?before store_new"
  let ?s' = "store_run sample_serde [JobStart (JobId 1) 9] ?s"
  have valid: "list_all op_valid ?before" using sample_ops_valid by simp
  have guarded: "list_all job_guarded [JobStart (JobId 1) 9]" by (simp add: job_guarded_def)
  obtain j0 where j0: "st_jobs (sample_store sample_serde) = [j0]" "j_id j0 = 1" "j_status j0 = ''queued''"
    using sample_store_eq(2,3) [of sample_serde] by (cases "st_jobs (sample_store sample_serde)") auto
  then obtain j where j: "st_jobs ?s = [j]" "j_id j = 1" "job_final j"
    by (simp add: store_run_append sample_run_eq job_finish_def update_where_def job_final_def
        job_terminal_statuses_def)
  then obtain j' where j': "st_jobs ?s' = [j']" "j_id j' = j_id j"
    by (simp add: job_start_def update_where_def)
  then have "job_final j'"
    using job_first_verdict_wins [OF sample_serde_ok valid guarded, of j j'] j by simp
  with j' show ?thesis by simp
qed

text \<open>Another key cannot enrol under the name of the sample builder.\<close>

theorem builder_key_is_pinned_witness:
  "builder_upsert sample_serde (sample_new_builder\<lparr>nb_pubkey := BuilderPubkey (replicate 32 CHR ''z'')\<rparr>) 9
     (store_run sample_serde [MarkSeen (BuilderId 1) 4] (store_run sample_serde sample_ops store_new))
   = Inl (BuilderNameConflict ''b'')"
proof -
  let ?s = "store_run sample_serde sample_ops store_new"
  obtain b where b: "st_builders ?s = [b]" "b_id b = 1" "b_name b = ''b''"
    "b_pubkey b = replicate 32 CHR ''k''" "b_last_seen b = 1"
    using sample_store_eq(1) [of sample_serde] by (simp add: sample_run_eq)
  let ?b = "b\<lparr>b_last_seen := 4\<rparr>"
  have "?b \<in> set (st_builders (store_run sample_serde [MarkSeen (BuilderId 1) 4] ?s))"
    using b by (simp add: mark_seen_def update_where_def)
  from builder_key_is_pinned [OF sample_serde_ok sample_ops_valid _ _ this,
      of b "sample_new_builder\<lparr>nb_pubkey := BuilderPubkey (replicate 32 CHR ''z'')\<rparr>" 9] b
  show ?thesis by (simp add: sample_new_builder_def replicate_eq_replicate)
qed

lemma created_rows_read_back_witness:
  "\<exists>i s'. eval_create sample_new_eval (store_run sample_serde sample_ops store_new) = Inr (i, s')
     \<and> store_eval_get i s' = Inr (Some \<lparr>er_id = i, er_repo_id = RepoId 1, er_trigger = ''push'',
          er_git_ref = ''main'', er_sha = sample_sha, er_started_at = None, er_finished_at = None,
          er_status = EQueued, er_pr_number = Some 7, er_building_started_at = None,
          er_failure_reason = None\<rparr>)"
proof -
  let ?s = "store_run sample_serde sample_ops store_new"
  have "has_repo 1 ?s"
    by (simp add: sample_ops_def store_new_def sample_new_eval_def
        sample_new_job_def sample_new_builder_def store_defs find_repo_def has_repo_def
        has_eval_def find_builder_def)
  then obtain i s' where "eval_create sample_new_eval ?s = Inr (i, s')"
    by (simp add: eval_create_def sample_new_eval_def Let_def)
  moreover have "op_valid (EvalCreate sample_new_eval)"
    by (simp add: sample_new_eval_def sample_values)
  ultimately show ?thesis
    using created_rows_read_back [OF sample_serde_ok sample_ops_valid refl, of sample_new_eval i s']
    by (simp add: sample_new_eval_def)
qed

theorem delete_eval_is_exact_witness:
  "st_jobs (delete_eval_cascade (EvalId 1) (store_run sample_serde sample_ops store_new)) = []
   \<and> store_ok sample_serde (delete_eval_cascade (EvalId 1) (store_run sample_serde sample_ops store_new))"
proof -
  have "j_eval_id j = 1" if "j \<in> set (st_jobs (store_run sample_serde sample_ops store_new))" for j
    using that by (simp add: sample_ops_def store_new_def sample_new_eval_def
        sample_new_job_def sample_new_builder_def store_defs find_repo_def has_repo_def
        has_eval_def find_builder_def)
  then show ?thesis
    using delete_eval_is_exact [OF sample_serde_ok sample_ops_valid, of "EvalId 1"]
    by (simp add: filter_empty_conv)
qed

lemma restart_resumes_unfinished_witness:
  "map j_id (st_jobs (snd (requeue_interrupted_for_eval (EvalId 1)
      (snd (mark_running_interrupted (job_start (JobId 1) 3 (sample_store sample_serde))))))) = [1]"
proof -
  let ?s = "job_start (JobId 1) 3 (sample_store sample_serde)"
  have "map j_id (st_jobs (snd (requeue_interrupted_for_eval (EvalId 1)
      (snd (mark_running_interrupted ?s))))) = map j_id (st_jobs ?s)"
    using restart_resumes_unfinished [of "EvalId 1" ?s] by blast
  also have "\<dots> = map j_id (st_jobs (sample_store sample_serde))"
    by (simp add: job_start_def update_where_keys)
  finally show ?thesis by (simp add: sample_store_eq)
qed

lemma active_by_branch_key_is_exact_witness:
  "\<exists>rs. list_active_by_branch_key (RepoId 1) ''main'' (store_run sample_serde sample_ops store_new) = Inr rs
     \<and> set (map (eval_get \<circ> er_id) rs) = {1}"
proof -
  have "\<forall>c\<in>set ''main''. byte c < (128::nat) \<and> byte c \<notin> {37, 92, 95 :: nat}" by simp
  from active_by_branch_key_is_exact [OF sample_serde_ok sample_ops_valid refl this, of "RepoId 1"]
  show ?thesis by (auto simp: sample_run_eq sample_evals)
qed

end
