(* ===== verification/Text.thy ===== *)
theory Text
  imports Domain
begin

text \<open>
  The operations of Rust's \<open>str\<close> and \<open>Path\<close> that the evaluator and the worker use on text:
  splitting into characters, lines and words, trimming, \<open>splitn\<close>,
  and the \<open>parent\<close> and \<open>join\<close> of \<open>Path\<close>. Strings are UTF-8 byte lists.
\<close>

section \<open>Characters as byte spans\<close>

definition utf8_width :: "char \<Rightarrow> nat" where
  "utf8_width a = (if byte a < (128::nat) then 1 else if byte a < (224::nat) then 2
     else if byte a < (240::nat) then 3 else 4)"

function spans :: "string \<Rightarrow> string list" where
  "spans [] = []"
| "spans (a # s) = take (utf8_width a) (a # s) # spans (drop (utf8_width a) (a # s))"
  by pat_completeness auto
termination
  by (relation "measure length") (auto simp: utf8_width_def)

lemma concat_spans [simp]: "concat (spans s) = s"
  by (induction s rule: spans.induct) auto

definition span_is_whitespace :: "string \<Rightarrow> bool" where
  "span_is_whitespace p = list_all is_whitespace (chars p)"

definition trim_start :: "string \<Rightarrow> string" where
  "trim_start s = concat (dropWhile span_is_whitespace (spans s))"

definition trim_end :: "string \<Rightarrow> string" where
  "trim_end s = concat (rev (dropWhile span_is_whitespace (rev (spans s))))"

definition trim :: "string \<Rightarrow> string" where
  "trim s = trim_end (trim_start s)"

fun split_words :: "string list \<Rightarrow> string \<Rightarrow> string list" where
  "split_words [] w = (if w = [] then [] else [w])"
| "split_words (p # ps) w =
     (if span_is_whitespace p then (if w = [] then split_words ps [] else w # split_words ps [])
      else split_words ps (w @ p))"

definition split_whitespace :: "string \<Rightarrow> string list" where
  "split_whitespace s = split_words (spans s) []"

section \<open>Lines and separators\<close>

definition strip_cr :: "string \<Rightarrow> string" where
  "strip_cr l = (if l \<noteq> [] \<and> last l = CHR 0x0D then butlast l else l)"

fun lines_of :: "string list \<Rightarrow> string list" where
  "lines_of [] = []"
| "lines_of [l] = (if l = [] then [] else [l])"
| "lines_of (l # ls) = strip_cr l # lines_of ls"

definition lines :: "string \<Rightarrow> string list" where
  "lines s = lines_of (split_on CHR 0x0A s)"

fun splitn :: "nat \<Rightarrow> char \<Rightarrow> string \<Rightarrow> string list" where
  "splitn 0 c s = []"
| "splitn (Suc 0) c s = [s]"
| "splitn (Suc (Suc n)) c s =
     (case split_once c s of None \<Rightarrow> [s] | Some (a, b) \<Rightarrow> a # splitn (Suc n) c b)"

section \<open>Paths\<close>

text \<open>\<open>Path\<close> ignores empty and \<open>.\<close> components of the body; \<open>parent\<close> drops the last component and the
  separators that then end the path. A leading \<open>.\<close> is a component of its own.\<close>

definition trim_segments :: "string list \<Rightarrow> string list" where
  "trim_segments ps = rev (dropWhile (\<lambda>p. p = [] \<or> p = ''.'') (rev ps))"

definition path_split :: "string \<Rightarrow> string \<times> string" where
  "path_split s =
     (if starts_with ''/'' s then (''/'', tl s)
      else if s = ''.'' \<or> starts_with ''./'' s then (''.'', tl s)
      else ([], s))"

definition path_parent :: "string \<Rightarrow> string option" where
  "path_parent s =
     (let (pre, body) = path_split s;
          segs = trim_segments (split_on CHR ''/'' body)
      in if segs = [] then (if pre = ''.'' then Some [] else None)
         else Some (pre @ join_with CHR ''/'' (trim_segments (butlast segs))))"

text \<open>\<open>Path::join\<close>: an absolute right-hand side replaces the path.\<close>

definition path_join :: "string \<Rightarrow> string \<Rightarrow> string" where
  "path_join base p =
     (if starts_with ''/'' p \<or> base = [] then p
      else if last base = CHR ''/'' then base @ p else base @ ''/'' @ p)"

end
