(* ===== verification/Config.thy ===== *)
theory Config
  imports Names Text
begin

text \<open>
  The configuration (crate \<open>argunix-config\<close>): expansion of environment variables in paths
  (\<open>path.rs\<close>), the run-time model and the wire shape with the conversion between them (\<open>schema.rs\<close>),
  and the checks of cross references (\<open>validate.rs\<close>). YAML decoding (\<open>serde_yaml\<close>) yields the wire
  shape; a \<open>BTreeMap\<close> is an association list with distinct keys.
\<close>

section \<open>Paths\<close>

datatype resolve_error = EmptyVarName | UnterminatedBrace | UndefinedVar string

definition is_var_char :: "char \<Rightarrow> bool" where
  "is_var_char c = (is_ascii_alphanumeric (byte c) \<or> c = CHR ''_'')"

text \<open>The inner loop of \<open>resolve_path\<close>, after the \<open>$\<close>: the name of the variable and what follows it.\<close>

definition read_name :: "string \<Rightarrow> resolve_error + (string \<times> string)" where
  "read_name s =
     (if starts_with ''{'' s then
        (let r = tl s in
         if CHR ''}'' \<in> set r
         then Inr (takeWhile (\<lambda>c. c \<noteq> CHR ''}'') r, tl (dropWhile (\<lambda>c. c \<noteq> CHR ''}'') r))
         else Inl UnterminatedBrace)
      else Inr (takeWhile is_var_char s, dropWhile is_var_char s))"

lemma read_name_shorter: "read_name s = Inr (n, rest) \<Longrightarrow> length rest \<le> length s"
  using length_dropWhile_le [of "\<lambda>c. c \<noteq> CHR ''}''" "tl s"] length_dropWhile_le [of is_var_char s]
  by (auto simp: read_name_def Let_def split: if_splits)

function resolve_path :: "(string \<Rightarrow> string option) \<Rightarrow> string \<Rightarrow> resolve_error + string" where
  "resolve_path env [] = Inr []"
| "resolve_path env (c # s) =
     (if c \<noteq> CHR ''$'' then map_sum id (\<lambda>t. c # t) (resolve_path env s)
      else case read_name s of
        Inl e \<Rightarrow> Inl e
      | Inr (name, rest) \<Rightarrow>
          if name = [] then Inl EmptyVarName
          else (case env name of
                  None \<Rightarrow> Inl (UndefinedVar name)
                | Some v \<Rightarrow> map_sum id (\<lambda>t. v @ t) (resolve_path env rest)))"
  by pat_completeness auto
termination
  by (relation "measure (\<lambda>(_, s). length s)") (auto simp: less_Suc_eq_le dest: read_name_shorter)

section \<open>The run-time model\<close>

text \<open>A \<open>SecretFile\<close> is the resolved path of a file.\<close>

type_synonym secret_file = string

datatype clone_method = Https | Ssh

record clone_config =
  cl_method :: clone_method
  cl_ssh_key_path :: "secret_file option"
  cl_persistent :: bool

record eval_overrides =
  eo_memory_max :: "string option"
  eo_timeout_seconds :: "nat option"
  eo_non_flake_max_depth :: "nat option"
  eo_allow_network :: "bool option"

record eval_defaults =
  ed_memory_max :: string
  ed_timeout_seconds :: nat
  ed_non_flake_max_depth :: nat
  ed_allow_network :: bool

record schedule =
  sc_collapsed_check_threshold :: nat
  sc_webhook_coalesce_seconds :: nat
  sc_build_concurrency :: nat
  sc_build_timeout_seconds :: nat
  sc_builder_wait_seconds :: nat
  sc_emulation_spill_grace_seconds :: nat

definition schedule_default :: schedule where
  "schedule_default =
     \<lparr>sc_collapsed_check_threshold = 100, sc_webhook_coalesce_seconds = 5, sc_build_concurrency = 4,
      sc_build_timeout_seconds = 18000, sc_builder_wait_seconds = 0,
      sc_emulation_spill_grace_seconds = 300\<rparr>"

record retention =
  rt_max_age_days :: "nat option"
  rt_max_size_gb :: "nat option"
  rt_interval_minutes :: nat

definition retention_default :: retention where
  "retention_default = \<lparr>rt_max_age_days = None, rt_max_size_gb = None, rt_interval_minutes = 60\<rparr>"

record forge_config =
  fc_kind :: forge_kind
  fc_web_url :: string
  fc_token_path :: "secret_file option"
  fc_app_id :: "nat option"
  fc_app_private_key_path :: "secret_file option"

definition api_url :: "forge_config \<Rightarrow> string" where
  "api_url f =
     (let web = trim_end_slash (fc_web_url f) in
      case fc_kind f of
        Github \<Rightarrow>
          if web = ''https://github.com'' then ''https://api.github.com''
          else if web = ''http://github.com'' then ''http://api.github.com''
          else web @ ''/api/v3''
      | Gitlab \<Rightarrow> web @ ''/api/v4''
      | Forgejo \<Rightarrow> web @ ''/api/v1'')"

datatype forge_auth_shape_error = AuthMissing | AuthMixed | AuthPartialApp

datatype forge_auth = AuthToken secret_file | AuthApp nat secret_file

fun auth_of :: "secret_file option \<Rightarrow> nat option \<Rightarrow> secret_file option \<Rightarrow>
    forge_auth_shape_error + forge_auth" where
  "auth_of (Some token) None None = Inr (AuthToken token)"
| "auth_of None (Some i) (Some key) = Inr (AuthApp i key)"
| "auth_of None None None = Inl AuthMissing"
| "auth_of None (Some _) None = Inl AuthPartialApp"
| "auth_of None None (Some _) = Inl AuthPartialApp"
| "auth_of _ _ _ = Inl AuthMixed"

definition auth :: "forge_config \<Rightarrow> forge_auth_shape_error + forge_auth" where
  "auth f = auth_of (fc_token_path f) (fc_app_id f) (fc_app_private_key_path f)"

record binary_cache =
  bc_push_url :: string
  bc_public_url :: "string option"
  bc_public_key :: "string option"
  bc_signing_key_path :: secret_file

record registry_config =
  gr_url :: string
  gr_namespace :: string
  gr_auth_path :: "secret_file option"
  gr_insecure :: bool

record repo_config =
  rc_slug :: slug
  rc_forge :: string
  rc_watched_branches :: "string list"
  rc_build_prs :: bool
  rc_pr_allowlist :: "string list"
  rc_clone :: clone_config
  rc_eval :: eval_overrides
  rc_collapsed_check_threshold :: "nat option"
  rc_weight :: nat
  rc_max_age_days :: "nat option"
  rc_push_to_registries :: "string list"

definition effective_max_age_days :: "retention \<Rightarrow> repo_config \<Rightarrow> nat option" where
  "effective_max_age_days global r =
     (case rc_max_age_days r of Some d \<Rightarrow> Some d | None \<Rightarrow> rt_max_age_days global)"

record builder_enrollment =
  be_token_path :: secret_file
  be_listen :: string

record config =
  cf_external_url :: string
  cf_listen :: string
  cf_control_socket :: string
  cf_dry_run :: bool
  cf_schedule :: schedule
  cf_retention :: retention
  cf_eval :: eval_defaults
  cf_static_dir :: string
  cf_forges :: "(string, forge_config) hashmap"
  cf_binary_caches :: "binary_cache list"
  cf_registries :: "(string, registry_config) hashmap"
  cf_repos :: "repo_config list"
  cf_builder_enrollment :: "builder_enrollment option"

section \<open>The wire shape\<close>

record wire_repo =
  wr_watched_branches :: "string list"
  wr_build_prs :: bool
  wr_pr_allowlist :: "string list"
  wr_clone :: clone_config
  wr_eval :: eval_overrides
  wr_collapsed_check_threshold :: "nat option"
  wr_weight :: nat
  wr_max_age_days :: "nat option"
  wr_push_to_registries :: "string list"

record wire_forge_config =
  wf_kind :: forge_kind
  wf_web_url :: string
  wf_token_path :: "secret_file option"
  wf_app_id :: "nat option"
  wf_app_private_key_path :: "secret_file option"
  wf_push_to_registries :: "string list"
  wf_repos :: "(string, wire_repo) hashmap"

record wire_config =
  wc_external_url :: string
  wc_listen :: string
  wc_control_socket :: string
  wc_dry_run :: bool
  wc_schedule :: schedule
  wc_retention :: retention
  wc_eval :: eval_defaults
  wc_static_dir :: string
  wc_forges :: "(string, wire_forge_config) hashmap"
  wc_binary_caches :: "binary_cache list"
  wc_registries :: "(string, registry_config) hashmap"
  wc_default_push_to_registries :: "string list"
  wc_builder_enrollment :: "builder_enrollment option"

definition merge_dedup :: "string list list \<Rightarrow> string list" where
  "merge_dedup ls =
     fold (\<lambda>item out. if item \<in> set out then out else out @ [item]) (concat ls) []"

datatype wire_error = InvalidWireSlug string string slug_error

definition repo_of_wire :: "string list \<Rightarrow> string \<Rightarrow> wire_forge_config \<Rightarrow> slug \<Rightarrow> wire_repo \<Rightarrow> repo_config" where
  "repo_of_wire defaults forge_name f slug r =
     \<lparr>rc_slug = slug, rc_forge = forge_name, rc_watched_branches = wr_watched_branches r,
      rc_build_prs = wr_build_prs r, rc_pr_allowlist = wr_pr_allowlist r, rc_clone = wr_clone r,
      rc_eval = wr_eval r, rc_collapsed_check_threshold = wr_collapsed_check_threshold r,
      rc_weight = wr_weight r, rc_max_age_days = wr_max_age_days r,
      rc_push_to_registries =
        merge_dedup [defaults, wf_push_to_registries f, wr_push_to_registries r]\<rparr>"

fun repos_of_wire :: "string list \<Rightarrow> string \<Rightarrow> wire_forge_config \<Rightarrow> (string \<times> wire_repo) list \<Rightarrow>
    wire_error + repo_config list" where
  "repos_of_wire defaults forge_name f [] = Inr []"
| "repos_of_wire defaults forge_name f ((text, r) # rs) =
     (case slug_new text of
        Inl e \<Rightarrow> Inl (InvalidWireSlug text forge_name e)
      | Inr slug \<Rightarrow> map_sum id (\<lambda>repos. repo_of_wire defaults forge_name f slug r # repos)
          (repos_of_wire defaults forge_name f rs))"

definition forge_of_wire :: "wire_forge_config \<Rightarrow> forge_config" where
  "forge_of_wire f =
     \<lparr>fc_kind = wf_kind f, fc_web_url = wf_web_url f, fc_token_path = wf_token_path f,
      fc_app_id = wf_app_id f, fc_app_private_key_path = wf_app_private_key_path f\<rparr>"

text \<open>The loop of \<open>try_from\<close> over the forges: the flat list of repos and the map of forges.\<close>

fun forges_of_wire :: "string list \<Rightarrow> (string \<times> wire_forge_config) list \<Rightarrow>
    wire_error + (repo_config list \<times> (string, forge_config) hashmap)" where
  "forges_of_wire defaults [] = Inr ([], [])"
| "forges_of_wire defaults ((forge_name, f) # fs) =
     (case repos_of_wire defaults forge_name f (wf_repos f) of
        Inl e \<Rightarrow> Inl e
      | Inr repos \<Rightarrow> map_sum id (\<lambda>(rest, forges). (repos @ rest, (forge_name, forge_of_wire f) # forges))
          (forges_of_wire defaults fs))"

definition config_try_from :: "wire_config \<Rightarrow> wire_error + config" where
  "config_try_from w =
     map_sum id (\<lambda>(repos, forges).
       \<lparr>cf_external_url = wc_external_url w, cf_listen = wc_listen w,
        cf_control_socket = wc_control_socket w, cf_dry_run = wc_dry_run w,
        cf_schedule = wc_schedule w, cf_retention = wc_retention w, cf_eval = wc_eval w,
        cf_static_dir = wc_static_dir w, cf_forges = forges,
        cf_binary_caches = wc_binary_caches w, cf_registries = wc_registries w, cf_repos = repos,
        cf_builder_enrollment = wc_builder_enrollment w\<rparr>)
       (forges_of_wire (wc_default_push_to_registries w) (wc_forges w))"

section \<open>Validation\<close>

datatype validation_error = SshWithoutKey string | ForgeAuthInvalid string forge_auth_shape_error
  | SecretUnreadable string string | BuilderListenInvalid string string
  | UnknownRegistry string string

text \<open>The \<open>?\<close> operator over a loop of checks: the first error ends it.\<close>

fun first_error :: "('a \<Rightarrow> 'e option) \<Rightarrow> 'a list \<Rightarrow> 'e option" where
  "first_error f [] = None"
| "first_error f (x # xs) = (case f x of Some e \<Rightarrow> Some e | None \<Rightarrow> first_error f xs)"

lemma first_error_None_iff [simp]: "first_error f xs = None \<longleftrightarrow> (\<forall>x\<in>set xs. f x = None)"
  by (induction xs) (auto split: option.splits)

definition check_repo_references :: "(string, registry_config) hashmap \<Rightarrow> repo_config \<Rightarrow>
    validation_error option" where
  "check_repo_references registries r =
     (if cl_method (rc_clone r) = Ssh \<and> cl_ssh_key_path (rc_clone r) = None
      then Some (SshWithoutKey (slug_str (rc_slug r)))
      else first_error (\<lambda>g. if hm_get registries g = None
             then Some (UnknownRegistry (slug_str (rc_slug r)) g) else None)
           (rc_push_to_registries r))"

definition check_auth :: "string \<times> forge_config \<Rightarrow> validation_error option" where
  "check_auth = (\<lambda>(name, f). case auth f of Inl e \<Rightarrow> Some (ForgeAuthInvalid name e) | Inr _ \<Rightarrow> None)"

text \<open>\<open>parse_addr\<close> is \<open>str::parse::<SocketAddr>\<close>: the error text, if there is one.\<close>

definition validate_references :: "(string \<Rightarrow> string option) \<Rightarrow> config \<Rightarrow> validation_error option" where
  "validate_references parse_addr c =
     (case first_error check_auth (cf_forges c) of
        Some e \<Rightarrow> Some e
      | None \<Rightarrow>
          (case first_error (check_repo_references (cf_registries c)) (cf_repos c) of
             Some e \<Rightarrow> Some e
           | None \<Rightarrow>
               (case cf_builder_enrollment c of
                  None \<Rightarrow> None
                | Some b \<Rightarrow> map_option (BuilderListenInvalid (be_listen b)) (parse_addr (be_listen b)))))"

text \<open>\<open>unreadable\<close> is the error of \<open>std::fs::metadata\<close> on a path, if there is one.\<close>

definition check_readable :: "(string \<Rightarrow> string option) \<Rightarrow> secret_file \<Rightarrow> validation_error option" where
  "check_readable unreadable path = map_option (SecretUnreadable path) (unreadable path)"

definition check_forge_secret :: "(string \<Rightarrow> string option) \<Rightarrow> string \<times> forge_config \<Rightarrow>
    validation_error option" where
  "check_forge_secret unreadable = (\<lambda>(name, f).
     case auth f of
       Inl e \<Rightarrow> Some (ForgeAuthInvalid name e)
     | Inr (AuthToken p) \<Rightarrow> check_readable unreadable p
     | Inr (AuthApp _ p) \<Rightarrow> check_readable unreadable p)"

definition validate_secrets_exist :: "(string \<Rightarrow> string option) \<Rightarrow> config \<Rightarrow> validation_error option" where
  "validate_secrets_exist unreadable c =
     (case first_error (check_forge_secret unreadable) (cf_forges c) of
        Some e \<Rightarrow> Some e
      | None \<Rightarrow> first_error (check_readable unreadable)
          (map bc_signing_key_path (cf_binary_caches c)
           @ List.map_filter gr_auth_path (hm_values (cf_registries c))
           @ List.map_filter (\<lambda>r. cl_ssh_key_path (rc_clone r)) (cf_repos c)
           @ (case cf_builder_enrollment c of None \<Rightarrow> [] | Some b \<Rightarrow> [be_token_path b])))"

section \<open>What a loaded configuration guarantees\<close>

lemma merge_dedup_spec:
  "set (merge_dedup ls) = set (concat ls) \<and> distinct (merge_dedup ls)"
proof -
  have "distinct out \<Longrightarrow> set (fold (\<lambda>item out. if item \<in> set out then out else out @ [item]) xs out)
      = set out \<union> set xs
    \<and> distinct (fold (\<lambda>item out. if item \<in> set out then out else out @ [item]) xs out)"
    for xs out :: "string list"
    by (induction xs arbitrary: out) auto
  from this [of "[]" "concat ls"] show ?thesis unfolding merge_dedup_def by simp
qed

lemma map_sum_Inr_iff [simp]: "map_sum id g x = Inr y \<longleftrightarrow> (\<exists>z. x = Inr z \<and> y = g z)"
  by (cases x) auto

lemma slug_new_Inr: "slug_new s = Inr g \<Longrightarrow> g = Slug s"
  by (auto simp: slug_new_def split: if_splits)

lemma repos_of_wire_spec:
  assumes "repos_of_wire defaults n f rs = Inr repos"
  shows "map (\<lambda>r. (rc_forge r, slug_str (rc_slug r))) repos = map (\<lambda>(t, _). (n, t)) rs
    \<and> (\<forall>r\<in>set repos. distinct (rc_push_to_registries r)
        \<and> (\<exists>(t, wr)\<in>set rs. rc_slug r = Slug t \<and> set (rc_push_to_registries r) =
             set defaults \<union> set (wf_push_to_registries f) \<union> set (wr_push_to_registries wr)))"
  using assms
proof (induction rs arbitrary: repos)
  case (Cons p rs)
  obtain t wr where p: "p = (t, wr)" by (cases p)
  with Cons.prems obtain g rest where g: "slug_new t = Inr g"
    and rest: "repos_of_wire defaults n f rs = Inr rest"
    and repos: "repos = repo_of_wire defaults n f g wr # rest"
    by (auto split: sum.splits)
  have "g = Slug t" by (rule slug_new_Inr [OF g])
  with Cons.IH [OF rest] repos show ?case
    using merge_dedup_spec [of "[defaults, wf_push_to_registries f, wr_push_to_registries wr]"]
    by (auto simp: p repo_of_wire_def)
qed simp

lemma forges_of_wire_spec:
  assumes "forges_of_wire defaults fs = Inr (repos, forges)"
  shows "map fst forges = map fst fs
    \<and> map (\<lambda>r. (rc_forge r, slug_str (rc_slug r))) repos =
        concat (map (\<lambda>(n, f). map (\<lambda>(t, _). (n, t)) (wf_repos f)) fs)
    \<and> (\<forall>r\<in>set repos. distinct (rc_push_to_registries r)
        \<and> (\<exists>(n, f)\<in>set fs. n = rc_forge r \<and> (\<exists>(t, wr)\<in>set (wf_repos f). rc_slug r = Slug t
             \<and> set (rc_push_to_registries r) =
               set defaults \<union> set (wf_push_to_registries f) \<union> set (wr_push_to_registries wr))))"
  using assms
proof (induction fs arbitrary: repos forges)
  case (Cons p fs)
  obtain n f where p: "p = (n, f)" by (cases p)
  with Cons.prems obtain own rest fr where own: "repos_of_wire defaults n f (wf_repos f) = Inr own"
    and rest: "forges_of_wire defaults fs = Inr (rest, fr)"
    and eq: "repos = own @ rest" "forges = (n, forge_of_wire f) # fr"
    by (auto split: sum.splits)
  note o = repos_of_wire_spec [OF own] and i = Cons.IH [OF rest]
  have "rc_forge r = n" if "r \<in> set own" for r
  proof -
    have "(rc_forge r, slug_str (rc_slug r)) \<in> set (map (\<lambda>(t, _). (n, t)) (wf_repos f))"
      using o that by (metis (no_types, lifting) image_eqI set_map)
    then show ?thesis by auto
  qed
  with o i show ?case unfolding p eq by fastforce
qed simp

lemma distinct_nested_keys:
  assumes "distinct (map fst fs)" and "\<forall>(n, f)\<in>set fs. distinct (map fst (g f))"
  shows "distinct (concat (map (\<lambda>(n, f). map (\<lambda>(t, _). (n, t)) (g f)) fs))"
  using assms
proof (induction fs)
  case (Cons p fs)
  obtain n f where p: "p = (n, f)" by (cases p)
  have "map (\<lambda>(t, _). (n, t)) (g f) = map (Pair n) (map fst (g f))" by (simp add: case_prod_unfold)
  moreover have "distinct (map (Pair n) (map fst (g f)))"
    using Cons.prems(2) by (simp add: p distinct_map inj_on_def)
  ultimately have "distinct (map (\<lambda>(t, _). (n, t)) (g f))" by (simp only:)
  with Cons show ?case by (auto simp: p image_iff)
qed simp

text \<open>C39. A configuration that loads and validates names an existing forge and existing registries in
  every repository, no two of its repositories share forge and slug, and a repository pushes to the union of the
  global, the forge's and its own registries, each once. (The comment on the global field in \<open>schema.rs\<close> says that a
  forge or a repository may narrow the set; the code only ever adds to it.)\<close>

theorem loaded_config_is_consistent:
  assumes "config_try_from w = Inr c" and "validate_references parse_addr c = None"
    and "distinct (map fst (wc_forges w))" and "\<forall>(n, f)\<in>set (wc_forges w). distinct (map fst (wf_repos f))"
  shows "distinct (map (\<lambda>r. (rc_forge r, rc_slug r)) (cf_repos c))
    \<and> (\<forall>r\<in>set (cf_repos c). hm_get (cf_forges c) (rc_forge r) \<noteq> None
        \<and> distinct (rc_push_to_registries r)
        \<and> (\<forall>g\<in>set (rc_push_to_registries r). hm_get (cf_registries c) g \<noteq> None)
        \<and> (\<exists>(n, f)\<in>set (wc_forges w). n = rc_forge r \<and> (\<exists>(t, wr)\<in>set (wf_repos f). rc_slug r = Slug t
             \<and> set (rc_push_to_registries r) = set (wc_default_push_to_registries w)
               \<union> set (wf_push_to_registries f) \<union> set (wr_push_to_registries wr))))
    \<and> (\<forall>(n, f)\<in>set (cf_forges c). \<exists>a. auth f = Inr a)"
proof -
  obtain repos forges where fw: "forges_of_wire (wc_default_push_to_registries w) (wc_forges w) = Inr (repos, forges)"
    and c: "cf_repos c = repos" "cf_forges c = forges"
    using assms(1) by (auto simp: config_try_from_def)
  note spec = forges_of_wire_spec [OF fw]
  have "distinct (map (\<lambda>r. (rc_forge r, slug_str (rc_slug r))) repos)"
    using spec distinct_nested_keys [OF assms(3,4)] by simp
  then have keys: "distinct (map (\<lambda>r. (rc_forge r, rc_slug r)) repos)"
    by (auto simp: distinct_map inj_on_def)
  have forge: "hm_get forges (rc_forge r) \<noteq> None" if "r \<in> set repos" for r
  proof -
    have "rc_forge r \<in> set (map fst (wc_forges w))" using spec that by force
    then show ?thesis using spec by (metis map_of_eq_None_iff set_map)
  qed
  have valid: "first_error check_auth forges = None"
    "first_error (check_repo_references (cf_registries c)) repos = None"
    using assms(2) unfolding validate_references_def c by (auto split: option.splits)
  have reg: "hm_get (cf_registries c) g \<noteq> None"
    if "r \<in> set repos" "g \<in> set (rc_push_to_registries r)" for r g
  proof -
    have "check_repo_references (cf_registries c) r = None" using valid(2) that(1) by simp
    then show ?thesis using that(2) by (auto simp: check_repo_references_def split: if_splits)
  qed
  have "\<exists>a. auth f = Inr a" if "(n, f) \<in> set forges" for n f
    using valid(1) that unfolding first_error_None_iff check_auth_def by (force split: sum.splits)
  with keys forge reg spec show ?thesis unfolding c by blast
qed

definition sample_wire_repo :: wire_repo where
  "sample_wire_repo = \<lparr>wr_watched_branches = [''main''], wr_build_prs = True, wr_pr_allowlist = [],
     wr_clone = \<lparr>cl_method = Https, cl_ssh_key_path = None, cl_persistent = False\<rparr>,
     wr_eval = \<lparr>eo_memory_max = None, eo_timeout_seconds = None, eo_non_flake_max_depth = None,
       eo_allow_network = None\<rparr>,
     wr_collapsed_check_threshold = None, wr_weight = 1, wr_max_age_days = None,
     wr_push_to_registries = [''ghcr'', ''local'']\<rparr>"

definition sample_wire :: wire_config where
  "sample_wire = \<lparr>wc_external_url = ''https://ci'', wc_listen = [], wc_control_socket = [], wc_dry_run = False,
     wc_schedule = schedule_default, wc_retention = retention_default,
     wc_eval = \<lparr>ed_memory_max = ''4G'', ed_timeout_seconds = 600, ed_non_flake_max_depth = 5,
       ed_allow_network = True\<rparr>,
     wc_static_dir = ''static'',
     wc_forges = [(''gh'', \<lparr>wf_kind = Github, wf_web_url = ''https://github.com/'',
       wf_token_path = Some ''/tok'', wf_app_id = None, wf_app_private_key_path = None,
       wf_push_to_registries = [''ghcr''], wf_repos = [(''o/a'', sample_wire_repo), (''o/b'', sample_wire_repo)]\<rparr>)],
     wc_binary_caches = [],
     wc_registries = [(''ghcr'', \<lparr>gr_url = ''ghcr.io'', gr_namespace = ''o'', gr_auth_path = None, gr_insecure = False\<rparr>),
       (''local'', \<lparr>gr_url = ''l'', gr_namespace = ''o'', gr_auth_path = None, gr_insecure = True\<rparr>)],
     wc_default_push_to_registries = [], wc_builder_enrollment = None\<rparr>"

definition sample_config :: config where
  "sample_config = (case config_try_from sample_wire of Inr c \<Rightarrow> c)"

lemma sample_slugs: "slug_new ''o/a'' = Inr (Slug ''o/a'')" "slug_new ''o/b'' = Inr (Slug ''o/b'')"
  by (simp_all add: slug_new_def is_whitespace_def is_control_def)

lemma sample_config:
  "config_try_from sample_wire = Inr sample_config" "validate_references (\<lambda>_. None) sample_config = None"
  by (simp_all add: sample_config_def config_try_from_def sample_wire_def sample_slugs
      repo_of_wire_def validate_references_def check_auth_def auth_def forge_of_wire_def
      check_repo_references_def sample_wire_repo_def merge_dedup_def)

theorem loaded_config_is_consistent_witness:
  "distinct (map (\<lambda>r. (rc_forge r, rc_slug r)) (cf_repos sample_config))
   \<and> map rc_push_to_registries (cf_repos sample_config) = replicate 2 [''ghcr'', ''local'']"
proof
  show "distinct (map (\<lambda>r. (rc_forge r, rc_slug r)) (cf_repos sample_config))"
    using loaded_config_is_consistent [OF sample_config] by (simp add: sample_wire_def)
  show "map rc_push_to_registries (cf_repos sample_config) = replicate 2 [''ghcr'', ''local'']"
    by (simp add: sample_config_def config_try_from_def sample_wire_def sample_slugs
        repo_of_wire_def sample_wire_repo_def merge_dedup_def numeral_2_eq_2)
qed

end
