(* ===== verification/Retention.thy ===== *)
theory Retention
  imports Config Store_Samples
begin

text \<open>
  The retention task of \<open>argunix-daemon/src/gc.rs\<close>: the age pass and the size pass of \<open>tick\<close>, which
  delete evaluations from the database and then their log and GC-root directories.

  The environment decides which calls to the database and which removals of directories fail and
  what the sizer measures; the model keeps the log of the measurements. Timestamps are in
  milliseconds. The arithmetic of \<open>chrono\<close> panics on a time before its earliest one, which is a parameter; a
  panic ends the task, and no later tick runs. The loop of the size pass is a total function: a turn that does not end the loop
  has measured fewer bytes than the turn before.
\<close>

section \<open>State and environment\<close>

record gc_env =
  ge_call_fails :: "nat \<Rightarrow> bool"
  ge_rm_fails :: "nat \<Rightarrow> bool"
  ge_rooted_bytes :: "nat \<Rightarrow> (int \<times> int) list \<Rightarrow> nat"
  ge_time_floor :: nat

text \<open>The directories are named by repository and evaluation, as the paths are.\<close>

record gc_state =
  gs_store :: store
  gs_logs :: "(int \<times> int) list"
  gs_roots :: "(int \<times> int) list"
  gs_calls :: nat
  gs_rms :: nat
  gs_reads :: "nat list"

record tick_stats =
  age_deleted :: nat
  size_deleted :: nat
  bytes_freed :: nat
  bytes_remaining :: nat

definition tick_stats_default :: tick_stats where
  "tick_stats_default = \<lparr>age_deleted = 0, size_deleted = 0, bytes_freed = 0, bytes_remaining = 0\<rparr>"

definition store_call :: "gc_env \<Rightarrow> gc_state \<Rightarrow> bool \<times> gc_state" where
  "store_call env g = (\<not> ge_call_fails env (gs_calls g), g\<lparr>gs_calls := Suc (gs_calls g)\<rparr>)"

definition rooted_bytes :: "gc_env \<Rightarrow> gc_state \<Rightarrow> nat \<times> gc_state" where
  "rooted_bytes env g =
     (let n = ge_rooted_bytes env (length (gs_reads g)) (gs_roots g)
      in (n, g\<lparr>gs_reads := gs_reads g @ [n]\<rparr>))"

section \<open>Deleting one evaluation\<close>

definition remove_log_dir :: "gc_env \<Rightarrow> int \<times> int \<Rightarrow> gc_state \<Rightarrow> gc_state" where
  "remove_log_dir env d g =
     (let g1 = g\<lparr>gs_rms := gs_rms g + 1\<rparr> in
      if ge_rm_fails env (gs_rms g) then g1 else g1\<lparr>gs_logs := removeAll d (gs_logs g1)\<rparr>)"

definition remove_root_dir :: "gc_env \<Rightarrow> int \<times> int \<Rightarrow> gc_state \<Rightarrow> gc_state" where
  "remove_root_dir env d g =
     (let g1 = g\<lparr>gs_rms := gs_rms g + 1\<rparr> in
      if ge_rm_fails env (gs_rms g) then g1 else g1\<lparr>gs_roots := removeAll d (gs_roots g1)\<rparr>)"

definition delete_eval :: "gc_env \<Rightarrow> eval_id \<Rightarrow> repo_id \<Rightarrow> gc_state \<Rightarrow> gc_state" where
  "delete_eval env i r g =
     (let (ok, g1) = store_call env g; d = (repo_get r, eval_get i) in
      if \<not> ok then g1
      else remove_root_dir env d (remove_log_dir env d
             (g1\<lparr>gs_store := delete_eval_cascade i (gs_store g1)\<rparr>)))"

definition delete_batch :: "gc_env \<Rightarrow> eval_record list \<Rightarrow> gc_state \<Rightarrow> gc_state" where
  "delete_batch env evals g = fold (\<lambda>e. delete_eval env (er_id e) (er_repo_id e)) evals g"

section \<open>The age pass\<close>

definition day :: nat where
  "day = 86400000"

text \<open>The subtraction \<open>now - Duration::days(days)\<close> panics when the result lies before the earliest time, which is
  \<open>ge_time_floor\<close> milliseconds before the epoch.\<close>

definition cutoff_panics :: "gc_env \<Rightarrow> nat \<Rightarrow> nat \<Rightarrow> bool" where
  "cutoff_panics env now days \<longleftrightarrow> now + ge_time_floor env < days * day"

text \<open>A cutoff before the epoch selects nothing: no row has a negative time.\<close>

definition stale_evals :: "repo_id \<Rightarrow> nat \<Rightarrow> nat \<Rightarrow> store \<Rightarrow> store_error + eval_record list" where
  "stale_evals r days now s =
     (if now < days * day then Inr [] else list_terminal_evals_older_than r (now - days * day) s)"

text \<open>\<open>None\<close> in the first component: the task has panicked. The cutoff is computed before the repository is
  looked up.\<close>

definition age_repo :: "gc_env \<Rightarrow> retention \<Rightarrow> nat \<Rightarrow> repo_config \<Rightarrow> nat option \<times> gc_state \<Rightarrow> nat option \<times> gc_state" where
  "age_repo env ret now repo = (\<lambda>(acc, g).
     case acc of
       None \<Rightarrow> (None, g)
     | Some n \<Rightarrow>
         (case effective_max_age_days ret repo of
            None \<Rightarrow> (Some n, g)
          | Some days \<Rightarrow>
              if cutoff_panics env now days then (None, g)
              else (let (found, g1) = store_call env g in
                if \<not> found then (Some n, g1)
                else case repo_find (rc_forge repo) (rc_slug repo) (gs_store g1) of
                  Inl _ \<Rightarrow> (Some n, g1)
                | Inr None \<Rightarrow> (Some n, g1)
                | Inr (Some r) \<Rightarrow>
                    (let (listed, g2) = store_call env g1 in
                     if \<not> listed then (Some n, g2)
                     else case stale_evals (rr_id r) days now (gs_store g2) of
                       Inl _ \<Rightarrow> (Some n, g2)
                     | Inr stale \<Rightarrow> (Some (n + length stale), delete_batch env stale g2)))))"

definition age_pass :: "gc_env \<Rightarrow> config \<Rightarrow> nat \<Rightarrow> gc_state \<Rightarrow> nat option \<times> gc_state" where
  "age_pass env c now g = fold (age_repo env (cf_retention c) now) (cf_repos c) (Some 0, g)"

section \<open>The size pass\<close>

definition u64_max :: nat where
  "u64_max = 2 ^ 64 - 1"

definition size_cap :: "nat \<Rightarrow> nat" where
  "size_cap max_gb = min u64_max (max_gb * 1024 * 1024 * 1024)"

definition gc_batch :: nat where
  "gc_batch = 8"

function size_loop :: "gc_env \<Rightarrow> nat \<Rightarrow> nat \<Rightarrow> tick_stats \<Rightarrow> gc_state \<Rightarrow> nat \<times> tick_stats \<times> gc_state" where
  "size_loop env cap current st g =
     (if current \<le> cap then (current, st, g)
      else let (listed, g1) = store_call env g in
        if \<not> listed then (current, st, g1)
        else case list_terminal_evals_oldest_first gc_batch (gs_store g1) of
          Inl _ \<Rightarrow> (current, st, g1)
        | Inr batch \<Rightarrow>
            if batch = [] then (current, st, g1)
            else let (after, g2) = rooted_bytes env (delete_batch env batch g1);
                     freed = current - after;
                     st1 = st\<lparr>size_deleted := size_deleted st + length batch,
                              bytes_freed := min u64_max (bytes_freed st + freed)\<rparr>
                 in if freed = 0 then (after, st1, g2) else size_loop env cap after st1 g2)"
  by pat_completeness auto
termination
  by (relation "measure (\<lambda>(_, _, current, _, _). current)") auto

declare size_loop.simps [simp del]

definition tick :: "gc_env \<Rightarrow> config \<Rightarrow> nat \<Rightarrow> gc_state \<Rightarrow> tick_stats option \<times> gc_state" where
  "tick env c now g =
     (case age_pass env c now g of
        (None, g1) \<Rightarrow> (None, g1)
      | (Some n, g1) \<Rightarrow>
          (let (current, g2) = rooted_bytes env g1;
               st = tick_stats_default\<lparr>age_deleted := n\<rparr>;
               (current', st', g3) =
                 (case rt_max_size_gb (cf_retention c) of
                    None \<Rightarrow> (current, st, g2)
                  | Some max_gb \<Rightarrow> size_loop env (size_cap max_gb) current st g2)
           in (Some (st'\<lparr>bytes_remaining := current'\<rparr>), g3)))"

text \<open>The pause of the run loop before each tick, in seconds.\<close>

definition tick_interval :: "config \<Rightarrow> nat" where
  "tick_interval c = max 1 (rt_interval_minutes (cf_retention c)) * 60"

section \<open>Composition of deletions\<close>

definition gone_evals :: "(eval_row \<Rightarrow> bool) \<Rightarrow> store \<Rightarrow> int set" where
  "gone_evals p s = e_id ` {e \<in> set (st_evals s). p e}"

definition gone_jobs :: "(eval_row \<Rightarrow> bool) \<Rightarrow> store \<Rightarrow> int set" where
  "gone_jobs p s = j_id ` {j \<in> set (st_jobs s). j_eval_id j \<in> gone_evals p s}"

lemma delete_evals_tables:
  "st_jobs (delete_evals p s) = filter (\<lambda>j. j_eval_id j \<notin> gone_evals p s) (st_jobs s)"
  "st_forge_status (delete_evals p s) = filter (\<lambda>f. f_eval_id f \<notin> gone_evals p s) (st_forge_status s)"
  "st_images (delete_evals p s) =
     filter (\<lambda>d. d_job_id d \<notin> gone_jobs p s \<and> d_eval_id d \<notin> gone_evals p s) (st_images s)"
  "st_effects (delete_evals p s) = filter (\<lambda>x. x_job_id x \<notin> gone_jobs p s) (st_effects s)"
  "st_sboms (delete_evals p s) = filter (\<lambda>b. s_job_id b \<notin> gone_jobs p s) (st_sboms s)"
  by (simp_all add: delete_evals_def delete_jobs_def Let_def gone_evals_def gone_jobs_def)

lemma gone_compose:
  "gone_evals (\<lambda>e. p e \<or> q e) s = gone_evals p s \<union> gone_evals q (delete_evals p s)"
  "gone_jobs (\<lambda>e. p e \<or> q e) s = gone_jobs p s \<union> gone_jobs q (delete_evals p s)"
proof -
  show evals: "gone_evals (\<lambda>e. p e \<or> q e) s = gone_evals p s \<union> gone_evals q (delete_evals p s)"
    by (auto simp: gone_evals_def)
  show "gone_jobs (\<lambda>e. p e \<or> q e) s = gone_jobs p s \<union> gone_jobs q (delete_evals p s)"
    unfolding gone_jobs_def evals delete_evals_tables by auto
qed

lemma delete_evals_compose: "delete_evals q (delete_evals p s) = delete_evals (\<lambda>e. p e \<or> q e) s"
  by (rule store.equality)
     (simp_all add: delete_evals_tables gone_compose filter_filter conj_ac)

lemma delete_evals_none: "delete_evals (\<lambda>_. False) s = s"
  by (rule store.equality) (simp_all add: delete_evals_tables gone_evals_def gone_jobs_def)

text \<open>The evaluations a pass may delete: terminal and with a finish time.\<close>

definition finished_ids :: "store \<Rightarrow> int set" where
  "finished_ids s = {e_id e | e. e \<in> set (st_evals s) \<and> eval_final e \<and> e_finished_at e \<noteq> None}"

text \<open>From one state to another, only evaluations with an id in \<open>F\<close> were deleted, and a directory was
  removed only when the row of its evaluation was.\<close>

definition pruned :: "int set \<Rightarrow> gc_state \<Rightarrow> gc_state \<Rightarrow> bool" where
  "pruned F g g' \<longleftrightarrow> (\<exists>D\<subseteq>F. gs_store g' = delete_evals (\<lambda>e. e_id e \<in> D) (gs_store g)
     \<and> (\<forall>d. d \<in> set (gs_logs g) \<and> d \<notin> set (gs_logs g') \<longrightarrow> snd d \<in> D)
     \<and> (\<forall>d. d \<in> set (gs_roots g) \<and> d \<notin> set (gs_roots g') \<longrightarrow> snd d \<in> D))"

lemma pruned_refl:
  "gs_store g' = gs_store g \<Longrightarrow> gs_logs g' = gs_logs g \<Longrightarrow> gs_roots g' = gs_roots g \<Longrightarrow> pruned F g g'"
  unfolding pruned_def by (intro exI [of _ "{}"]) (simp add: delete_evals_none)

lemma pruned_trans:
  assumes "pruned F g g1" and "pruned F g1 g2"
  shows "pruned F g g2"
proof -
  obtain D D' where "D \<subseteq> F" "gs_store g1 = delete_evals (\<lambda>e. e_id e \<in> D) (gs_store g)"
    and dirs: "\<forall>d. d \<in> set (gs_logs g) \<and> d \<notin> set (gs_logs g1) \<longrightarrow> snd d \<in> D"
      "\<forall>d. d \<in> set (gs_roots g) \<and> d \<notin> set (gs_roots g1) \<longrightarrow> snd d \<in> D"
    and "D' \<subseteq> F" "gs_store g2 = delete_evals (\<lambda>e. e_id e \<in> D') (gs_store g1)"
    and dirs': "\<forall>d. d \<in> set (gs_logs g1) \<and> d \<notin> set (gs_logs g2) \<longrightarrow> snd d \<in> D'"
      "\<forall>d. d \<in> set (gs_roots g1) \<and> d \<notin> set (gs_roots g2) \<longrightarrow> snd d \<in> D'"
    using assms unfolding pruned_def by blast
  then have "D \<union> D' \<subseteq> F" "gs_store g2 = delete_evals (\<lambda>e. e_id e \<in> D \<union> D') (gs_store g)"
    by (simp_all add: delete_evals_compose)
  with dirs dirs' show ?thesis unfolding pruned_def by blast
qed

lemma pruned_mono: "pruned F g g' \<Longrightarrow> F \<subseteq> F' \<Longrightarrow> pruned F' g g'"
  unfolding pruned_def by (meson order_trans)

lemma pruned_evals: "pruned F g g' \<Longrightarrow> set (st_evals (gs_store g')) \<subseteq> set (st_evals (gs_store g))"
  unfolding pruned_def by auto

lemma pruned_finished: "pruned F g g' \<Longrightarrow> finished_ids (gs_store g') \<subseteq> finished_ids (gs_store g)"
  using pruned_evals unfolding finished_ids_def by blast

lemma delete_eval_pruned: "pruned {eval_get i} g (delete_eval env i r g)"
proof (cases "ge_call_fails env (gs_calls g)")
  case True
  then show ?thesis by (intro pruned_refl) (simp_all add: delete_eval_def store_call_def)
next
  case False
  then show ?thesis
    unfolding pruned_def
    by (intro exI [of _ "{eval_get i}"])
       (auto simp: delete_eval_def store_call_def remove_log_dir_def remove_root_dir_def Let_def
         delete_eval_cascade_def)
qed

lemma delete_batch_pruned: "pruned (eval_get ` er_id ` set evals) g (delete_batch env evals g)"
proof (induction evals arbitrary: g)
  case (Cons e evals)
  have "pruned (eval_get ` er_id ` set (e # evals)) g (delete_eval env (er_id e) (er_repo_id e) g)"
    by (rule pruned_mono [OF delete_eval_pruned]) simp
  moreover have "pruned (eval_get ` er_id ` set (e # evals)) (delete_eval env (er_id e) (er_repo_id e) g)
      (delete_batch env (e # evals) g)"
    using pruned_mono [OF Cons.IH] by (simp add: delete_batch_def subset_insertI)
  ultimately show ?case by (rule pruned_trans)
qed (simp add: delete_batch_def pruned_refl)

lemma rooted_bytes_pruned: "pruned F g (snd (rooted_bytes env g))"
  by (rule pruned_refl) (simp_all add: rooted_bytes_def Let_def)

lemma store_call_pruned: "pruned F g (snd (store_call env g))"
  by (rule pruned_refl) (simp_all add: store_call_def)

section \<open>What the passes select\<close>

lemma stale_evals_ids:
  assumes "stale_evals r days now s = Inr evals"
  shows "eval_get ` er_id ` set evals = {e_id e | e. e \<in> set (st_evals s) \<and> e_repo_id e = repo_get r
    \<and> eval_final e \<and> (\<exists>t. e_finished_at e = Some t \<and> t + days * day \<le> now)}"
proof (cases "now < days * day")
  case True
  with assms show ?thesis by (auto simp: stale_evals_def)
next
  case False
  then have "eval_get ` er_id ` set evals = e_id ` {e \<in> set (st_evals s). e_repo_id e = repo_get r
      \<and> eval_final e \<and> (case e_finished_at e of None \<Rightarrow> False | Some t \<Rightarrow> t \<le> now - days * day)}"
    using assms map_results_id_set
    by (fastforce simp: stale_evals_def list_terminal_evals_older_than_def eval_final_def)
  also have "\<dots> = {e_id e | e. e \<in> set (st_evals s) \<and> e_repo_id e = repo_get r
    \<and> eval_final e \<and> (\<exists>t. e_finished_at e = Some t \<and> t + days * day \<le> now)}"
  proof -
    have "t \<le> now - days * day \<longleftrightarrow> t + days * day \<le> now" for t using False by linarith
    then show ?thesis by (auto split: option.splits)
  qed
  finally show ?thesis .
qed

lemma oldest_ids:
  assumes "list_terminal_evals_oldest_first n s = Inr batch"
  shows "eval_get ` er_id ` set batch \<subseteq> finished_ids s"
    and "batch = [] \<Longrightarrow> 0 < n \<Longrightarrow> finished_ids s = {}"
proof -
  let ?rows = "sort_key finished_or_zero (sort_key e_id (filter (\<lambda>e.
    e_status e \<in> set eval_terminal_statuses \<and> e_finished_at e \<noteq> None) (st_evals s)))"
  have m: "map_results map_eval (take n ?rows) = Inr batch"
    using assms by (simp add: list_terminal_evals_oldest_first_def)
  have rows: "e_id ` set ?rows = finished_ids s" by (auto simp: finished_ids_def eval_final_def)
  show "eval_get ` er_id ` set batch \<subseteq> finished_ids s"
    unfolding map_results_id_set [OF m] rows [symmetric] by (intro image_mono set_take_subset)
  assume "batch = []" "0 < n"
  have "map (EvalId \<circ> e_id) (take n ?rows) = []"
    using map_results_ids [OF m] unfolding \<open>batch = []\<close> list.map(1) by (rule sym)
  then have "?rows = []" using \<open>0 < n\<close> unfolding map_is_Nil_conv take_eq_Nil by blast
  then show "finished_ids s = {}" unfolding rows [symmetric] by simp
qed

lemma age_repo_pruned: "pruned (finished_ids (gs_store g)) g (snd (age_repo env ret now repo (n, g)))"
proof -
  have batch: "pruned (finished_ids (gs_store g)) g (delete_batch env evals g')"
    if "stale_evals r days now (gs_store g) = Inr evals" and "gs_store g' = gs_store g"
      "gs_logs g' = gs_logs g" "gs_roots g' = gs_roots g" for evals r days g'
  proof -
    have "eval_get ` er_id ` set evals \<subseteq> finished_ids (gs_store g)"
      unfolding stale_evals_ids [OF that(1)] by (auto simp: finished_ids_def)
    then have "pruned (finished_ids (gs_store g)) g' (delete_batch env evals g')"
      by (rule pruned_mono [OF delete_batch_pruned])
    with pruned_refl [OF that(2-4)] show ?thesis by (rule pruned_trans)
  qed
  show ?thesis
    by (auto simp: age_repo_def store_call_def Let_def pruned_refl batch split: option.splits sum.splits)
qed

lemma age_repos_pruned:
  "pruned (finished_ids (gs_store g)) g (snd (fold (age_repo env ret now) repos (n, g)))"
proof (induction repos arbitrary: n g)
  case (Cons repo repos)
  obtain m g1 where s: "age_repo env ret now repo (n, g) = (m, g1)" by force
  have one: "pruned (finished_ids (gs_store g)) g g1" using age_repo_pruned [of g env ret now repo n] s by simp
  from pruned_trans [OF one pruned_mono [OF Cons.IH pruned_finished [OF one]]] s show ?case by simp
qed (simp add: pruned_refl)

lemma age_pass_pruned: "pruned (finished_ids (gs_store g)) g (snd (age_pass env c now g))"
  unfolding age_pass_def by (rule age_repos_pruned)

text \<open>A turn of the size pass, by what it finds.\<close>

lemma size_loop_exit:
  assumes "current \<le> cap \<or> ge_call_fails env (gs_calls g)
    \<or> (\<exists>e. list_terminal_evals_oldest_first gc_batch (gs_store g) = Inl e)
    \<or> list_terminal_evals_oldest_first gc_batch (gs_store g) = Inr []"
  shows "size_loop env cap current st g =
    (current, st, if current \<le> cap then g else g\<lparr>gs_calls := Suc (gs_calls g)\<rparr>)"
  using assms by (subst size_loop.simps) (auto simp: store_call_def)

lemma size_loop_turn:
  assumes "\<not> current \<le> cap" and "\<not> ge_call_fails env (gs_calls g)"
    and "list_terminal_evals_oldest_first gc_batch (gs_store g) = Inr batch" and "batch \<noteq> []"
    and "rooted_bytes env (delete_batch env batch (g\<lparr>gs_calls := Suc (gs_calls g)\<rparr>)) = (b, g2)"
    and "st1 = st\<lparr>size_deleted := size_deleted st + length batch,
           bytes_freed := min u64_max (bytes_freed st + (current - b))\<rparr>"
  shows "size_loop env cap current st g =
    (if current \<le> b then (b, st1, g2) else size_loop env cap b st1 g2)"
  using assms by (subst size_loop.simps) (simp add: store_call_def)

lemma size_loop_cases [case_names exit last turn]:
  fixes env cap current st and g :: gc_state
  obtains "size_loop env cap current st g =
      (current, st, if current \<le> cap then g else g\<lparr>gs_calls := Suc (gs_calls g)\<rparr>)"
      "current \<le> cap \<or> ge_call_fails env (gs_calls g)
        \<or> (\<exists>e. list_terminal_evals_oldest_first gc_batch (gs_store g) = Inl e)
        \<or> list_terminal_evals_oldest_first gc_batch (gs_store g) = Inr []"
  | batch b g2 st1 where "list_terminal_evals_oldest_first gc_batch (gs_store g) = Inr batch"
      "rooted_bytes env (delete_batch env batch (g\<lparr>gs_calls := Suc (gs_calls g)\<rparr>)) = (b, g2)"
      "current \<le> b" "size_loop env cap current st g = (b, st1, g2)"
  | batch b g2 st1 where "list_terminal_evals_oldest_first gc_batch (gs_store g) = Inr batch"
      "rooted_bytes env (delete_batch env batch (g\<lparr>gs_calls := Suc (gs_calls g)\<rparr>)) = (b, g2)"
      "b < current" "size_loop env cap current st g = size_loop env cap b st1 g2"
proof (cases "current \<le> cap \<or> ge_call_fails env (gs_calls g)
    \<or> (\<exists>e. list_terminal_evals_oldest_first gc_batch (gs_store g) = Inl e)
    \<or> list_terminal_evals_oldest_first gc_batch (gs_store g) = Inr []")
  case True
  then show thesis using that(1) size_loop_exit by blast
next
  case False
  then obtain batch where batch: "list_terminal_evals_oldest_first gc_batch (gs_store g) = Inr batch" "batch \<noteq> []"
    by (cases "list_terminal_evals_oldest_first gc_batch (gs_store g)") auto
  obtain b g2 where r: "rooted_bytes env (delete_batch env batch (g\<lparr>gs_calls := Suc (gs_calls g)\<rparr>)) = (b, g2)"
    by force
  show thesis
    using False that(2,3) [OF batch(1) r] size_loop_turn [OF _ _ batch r refl, of current cap st]
    by (cases "current \<le> b") auto
qed

lemma size_loop_pruned:
  "pruned (finished_ids (gs_store g)) g (snd (snd (size_loop env cap current st g)))"
proof (induction current arbitrary: st g rule: less_induct)
  case (less current)
  let ?F = "finished_ids (gs_store g)" and ?g1 = "g\<lparr>gs_calls := Suc (gs_calls g)\<rparr>"
  have call: "pruned ?F g ?g1" by (rule pruned_refl) simp_all
  have step: "pruned ?F g g2" if "list_terminal_evals_oldest_first gc_batch (gs_store g) = Inr batch"
    "rooted_bytes env (delete_batch env batch ?g1) = (b, g2)" for batch b g2
  proof -
    have "pruned ?F ?g1 (delete_batch env batch ?g1)"
      using pruned_mono [OF delete_batch_pruned oldest_ids(1) [OF that(1)]] .
    from pruned_trans [OF call pruned_trans [OF this rooted_bytes_pruned [of _ _ env]]] that(2)
    show ?thesis by simp
  qed
  show ?case
  proof (cases rule: size_loop_cases [of env cap current st g])
    case exit
    with call show ?thesis by (simp add: pruned_refl)
  next
    case (last batch b g2 st1)
    with step show ?thesis by simp
  next
    case (turn batch b g2 st1)
    from step [OF turn(1,2)] have one: "pruned ?F g g2" .
    from pruned_trans [OF one pruned_mono [OF less [OF turn(3)] pruned_finished [OF one]]] turn(4)
    show ?thesis by simp
  qed
qed

lemma tick_pruned: "pruned (finished_ids (gs_store g)) g (snd (tick env c now g))"
proof -
  obtain acc g1 where a: "age_pass env c now g = (acc, g1)" by force
  have age: "pruned (finished_ids (gs_store g)) g g1" using age_pass_pruned [of g env c now] by (simp add: a)
  show ?thesis
  proof (cases acc)
    case None
    with age show ?thesis by (simp add: tick_def a)
  next
    case (Some n)
    obtain b g2 where r: "rooted_bytes env g1 = (b, g2)" by force
    have one: "pruned (finished_ids (gs_store g)) g g2"
      using pruned_trans [OF age rooted_bytes_pruned [of _ _ env]] by (simp add: r)
    show ?thesis
    proof (cases "rt_max_size_gb (cf_retention c)")
      case None
      with one show ?thesis by (simp add: tick_def a Some r)
    next
      case gb: (Some gb)
      from pruned_trans [OF one pruned_mono [OF size_loop_pruned pruned_finished [OF one]]] gb
      show ?thesis by (simp add: tick_def a Some r case_prod_unfold Let_def)
    qed
  qed
qed

text \<open>C11. A retention tick deletes only terminal evaluations that have a finish time, whatever calls
  fail, whatever the sizer measures, and also when it panics. The database is left as if exactly those
  evaluations had been deleted, with its references intact; every evaluation that is queued, evaluating or building
  keeps its row, its jobs and its directories; and a log or GC-root directory goes only with the
  row of its evaluation.\<close>

theorem retention_prunes_only_finished:
  fixes S :: serde and ops :: "store_op list" and g :: gc_state and env :: gc_env
    and c :: config and now :: nat
  assumes "serde_ok S" and "list_all op_valid ops" and "gs_store g = store_run S ops store_new"
  defines "s \<equiv> gs_store g" and "g' \<equiv> snd (tick env c now g)"
  shows "\<exists>D \<subseteq> finished_ids s. gs_store g' = delete_evals (\<lambda>e. e_id e \<in> D) s \<and> store_ok S (gs_store g')
    \<and> (\<forall>d. d \<in> set (gs_logs g) \<and> d \<notin> set (gs_logs g') \<or> d \<in> set (gs_roots g) \<and> d \<notin> set (gs_roots g') \<longrightarrow> snd d \<in> D)
    \<and> (\<forall>e\<in>set (st_evals s). \<not> eval_final e \<longrightarrow> e_id e \<notin> D \<and> e \<in> set (st_evals (gs_store g'))
        \<and> (\<forall>j\<in>set (st_jobs s). j_eval_id j = e_id e \<longrightarrow> j \<in> set (st_jobs (gs_store g'))))"
proof -
  have ok: "store_ok S s" using fresh_store_ok [OF assms(1,2)] assms(3) unfolding s_def by simp
  obtain D where D: "D \<subseteq> finished_ids s" "gs_store g' = delete_evals (\<lambda>e. e_id e \<in> D) s"
    and dirs: "\<forall>d. d \<in> set (gs_logs g) \<and> d \<notin> set (gs_logs g') \<longrightarrow> snd d \<in> D"
      "\<forall>d. d \<in> set (gs_roots g) \<and> d \<notin> set (gs_roots g') \<longrightarrow> snd d \<in> D"
    using tick_pruned [of g env c now] unfolding pruned_def s_def g'_def by blast
  have inj: "inj_on e_id (set (st_evals s))"
    using store_okD(2) [OF ok] by (simp add: evals_ok_def rows_ok_def distinct_map)
  have keep: "e_id e \<notin> D" if "e \<in> set (st_evals s)" "\<not> eval_final e" for e
    using D(1) that inj by (auto simp: finished_ids_def dest: inj_onD)
  have "store_ok S (gs_store g')" unfolding D(2) by (rule store_ok_delete_evals [OF ok])
  moreover have "e \<in> set (st_evals (gs_store g'))" if "e \<in> set (st_evals s)" "\<not> eval_final e" for e
    using keep that by (simp add: D(2))
  moreover have "j \<in> set (st_jobs (gs_store g'))"
    if "e \<in> set (st_evals s)" "\<not> eval_final e" "j \<in> set (st_jobs s)" "j_eval_id j = e_id e" for e j
    using keep [OF that(1,2)] that(3,4) by (auto simp: D(2) delete_evals_tables gone_evals_def)
  ultimately show ?thesis using D dirs keep by (intro exI [of _ D]) blast
qed

section \<open>What a tick achieves\<close>

lemma delete_eval_ok:
  "\<forall>n. \<not> ge_call_fails env n \<Longrightarrow> gs_store (delete_eval env i r g) = delete_eval_cascade i (gs_store g)"
  by (simp add: delete_eval_def store_call_def remove_log_dir_def remove_root_dir_def Let_def)

lemma delete_batch_ok:
  assumes "\<forall>n. \<not> ge_call_fails env n"
  shows "gs_store (delete_batch env evals g) = delete_evals (\<lambda>e. e_id e \<in> eval_get ` er_id ` set evals) (gs_store g)"
proof (induction evals arbitrary: g)
  case (Cons r evals)
  have "gs_store (delete_batch env (r # evals) g)
      = delete_evals (\<lambda>e. e_id e \<in> eval_get ` er_id ` set evals) (delete_eval_cascade (er_id r) (gs_store g))"
    using Cons.IH by (simp add: delete_batch_def delete_eval_ok [OF assms])
  then show ?case by (simp add: delete_eval_cascade_def delete_evals_compose)
qed (simp add: delete_batch_def delete_evals_none)

text \<open>An evaluation of the repository is past its age.\<close>

definition overdue :: "repo_record \<Rightarrow> nat \<Rightarrow> nat \<Rightarrow> eval_row \<Rightarrow> bool" where
  "overdue r days now e \<longleftrightarrow> e_repo_id e = repo_get (rr_id r) \<and> eval_final e
     \<and> (\<exists>t. e_finished_at e = Some t \<and> t + days * day \<le> now)"

lemma terminal_lists_ok:
  assumes "store_ok S s"
  shows "\<exists>xs. stale_evals r days now s = Inr xs" and "\<exists>xs. list_terminal_evals_oldest_first n s = Inr xs"
proof -
  have all: "\<exists>xs. map_results map_eval rows = Inr xs" if "set rows \<subseteq> set (st_evals s)" for rows
    using rows_decode(2) [OF assms] that by (intro map_results_ok) blast
  show "\<exists>xs. stale_evals r days now s = Inr xs"
    unfolding stale_evals_def list_terminal_evals_older_than_def by (simp, intro impI all) auto
  show "\<exists>xs. list_terminal_evals_oldest_first n s = Inr xs"
    unfolding list_terminal_evals_oldest_first_def by (rule all) (auto dest!: in_set_takeD)
qed

lemma age_repo_ok:
  assumes "\<forall>n. \<not> ge_call_fails env n" and "effective_max_age_days ret repo = Some days"
    and "repo_find (rc_forge repo) (rc_slug repo) (gs_store g) = Inr (Some r)"
    and "store_ok S (gs_store g)" and "\<not> cutoff_panics env now days"
    and "e \<in> set (st_evals (gs_store (snd (age_repo env ret now repo (Some n, g)))))"
  shows "\<not> overdue r days now e"
proof -
  obtain evals where ev: "stale_evals (rr_id r) days now (gs_store g) = Inr evals"
    using terminal_lists_ok(1) [OF assms(4)] by blast
  have "e \<in> set (st_evals (delete_evals (\<lambda>e. e_id e \<in> eval_get ` er_id ` set evals) (gs_store g)))"
    using assms(1,2,3,5,6) ev by (simp add: age_repo_def store_call_def delete_batch_ok)
  then have "e \<in> set (st_evals (gs_store g))" "e_id e \<notin> eval_get ` er_id ` set evals" by simp_all
  then show ?thesis unfolding stale_evals_ids [OF ev] overdue_def by blast
qed

lemma pruned_keeps:
  assumes "pruned F g g'"
  shows "st_repos (gs_store g') = st_repos (gs_store g)" and "store_ok S (gs_store g) \<Longrightarrow> store_ok S (gs_store g')"
  using assms store_ok_delete_evals unfolding pruned_def by auto

lemma repo_find_cong: "st_repos s' = st_repos s \<Longrightarrow> repo_find f x s' = repo_find f x s"
  by (simp add: repo_find_def find_repo_def)

definition repo_panics :: "gc_env \<Rightarrow> retention \<Rightarrow> nat \<Rightarrow> repo_config \<Rightarrow> bool" where
  "repo_panics env ret now repo \<longleftrightarrow> (\<exists>days. effective_max_age_days ret repo = Some days \<and> cutoff_panics env now days)"

lemma age_repo_panics:
  "fst (age_repo env ret now repo (acc, g)) = None \<longleftrightarrow> acc = None \<or> repo_panics env ret now repo"
  by (auto simp: age_repo_def repo_panics_def store_call_def Let_def split: option.splits sum.splits)

lemma age_fold_panics:
  "fst (fold (age_repo env ret now) repos (acc, g)) = None \<longleftrightarrow> acc = None \<or> list_ex (repo_panics env ret now) repos"
proof (induction repos arbitrary: acc g)
  case (Cons repo repos)
  obtain acc' g' where "age_repo env ret now repo (acc, g) = (acc', g')" by fastforce
  with Cons.IH [of acc' g'] age_repo_panics [of env ret now repo acc g] show ?case by auto
qed simp

lemma age_pass_panics: "fst (age_pass env c now g) = None \<longleftrightarrow> list_ex (repo_panics env (cf_retention c) now) (cf_repos c)"
  unfolding age_pass_def age_fold_panics by simp

lemma age_pass_ok:
  assumes "\<forall>n. \<not> ge_call_fails env n" and "store_ok S (gs_store g)" and "repo \<in> set (cf_repos c)"
    and "effective_max_age_days (cf_retention c) repo = Some days"
    and "repo_find (rc_forge repo) (rc_slug repo) (gs_store g) = Inr (Some r)"
    and "age_pass env c now g = (Some m, g')" and "e \<in> set (st_evals (gs_store g'))"
  shows "\<not> overdue r days now e"
proof -
  let ?step = "age_repo env (cf_retention c) now"
  have calm: "\<not> list_ex (repo_panics env (cf_retention c) now) (cf_repos c)"
    using age_pass_panics [of env c now g] assms(6) by simp
  then have fine: "\<not> cutoff_panics env now days"
    using assms(3,4) by (auto simp: list_ex_iff repo_panics_def)
  have "\<not> overdue r days now e"
    if "repo \<in> set repos" "set repos \<subseteq> set (cf_repos c)" "store_ok S (gs_store g)"
      "repo_find (rc_forge repo) (rc_slug repo) (gs_store g) = Inr (Some r)"
      "e \<in> set (st_evals (gs_store (snd (fold ?step repos (Some n, g)))))" for repos n g
    using that
  proof (induction repos arbitrary: n g)
    case (Cons q repos)
    have "\<not> repo_panics env (cf_retention c) now q" using calm Cons.prems(2) by (auto simp: list_ex_iff)
    then obtain m g1 where s: "?step q (Some n, g) = (Some m, g1)"
      using age_repo_panics [of env "cf_retention c" now q "Some n" g] by (metis not_None_eq prod.collapse)
    have one: "pruned (finished_ids (gs_store g)) g g1"
      using age_repo_pruned [of g env "cf_retention c" now q "Some n"] s by simp
    have later: "pruned (finished_ids (gs_store g1)) g1 (snd (fold ?step repos (Some m, g1)))"
      by (rule age_repos_pruned)
    show ?case
    proof (cases "q = repo")
      case True
      have "e \<in> set (st_evals (gs_store g1))" using pruned_evals [OF later] Cons.prems(5) s by auto
      then show ?thesis using age_repo_ok [OF assms(1,4) Cons.prems(4,3) fine, of e n] s True by simp
    next
      case False
      have "repo_find (rc_forge repo) (rc_slug repo) (gs_store g1) = Inr (Some r)"
        using Cons.prems(4) by (simp only: repo_find_cong [OF pruned_keeps(1) [OF one]])
      with False show ?thesis
        using Cons.IH [of g1 m] Cons.prems(1,2,3,5) pruned_keeps(2) [OF one] s by simp
    qed
  qed simp
  from this [of "cf_repos c" g 0] assms(2,3,5,6,7) show ?thesis by (simp add: age_pass_def)
qed

text \<open>Why the size pass may end above its cap: nothing is left to delete, or the last batch did not
  lower the measurement.\<close>

definition stuck :: "gc_state \<Rightarrow> bool" where
  "stuck g \<longleftrightarrow> finished_ids (gs_store g) = {} \<or> (\<exists>rest a b. gs_reads g = rest @ [a, b] \<and> a \<le> b)"

lemma delete_batch_reads [simp]: "gs_reads (delete_batch env evals h) = gs_reads h"
  by (induction evals arbitrary: h) (simp_all add: delete_batch_def delete_eval_def store_call_def
      remove_log_dir_def remove_root_dir_def Let_def)

lemma size_loop_ok:
  assumes "\<forall>n. \<not> ge_call_fails env n" and "store_ok S (gs_store g)" and "gs_reads g = rest @ [current]"
    and "size_loop env cap current st g = (current', st', g')"
  shows "current' \<le> cap \<or> stuck g'"
  using assms(2-)
proof (induction current arbitrary: st g rest rule: less_induct)
  case (less current)
  have reads: "gs_reads g2 = rest @ [current, b]"
    if "rooted_bytes env (delete_batch env batch (g\<lparr>gs_calls := Suc (gs_calls g)\<rparr>)) = (b, g2)" for batch b g2
    using that less.prems(2) by (auto simp: rooted_bytes_def Let_def)
  show ?case
  proof (cases rule: size_loop_cases [of env cap current st g])
    case exit
    then have "current \<le> cap \<or> list_terminal_evals_oldest_first gc_batch (gs_store g) = Inr []"
      using terminal_lists_ok(2) [OF less.prems(1), of gc_batch] assms(1) by auto
    then have "current \<le> cap \<or> finished_ids (gs_store g) = {}"
      using oldest_ids(2) [of gc_batch "gs_store g" "[]"] by (auto simp: gc_batch_def)
    with exit(1) less.prems(3) show ?thesis by (auto simp: stuck_def split: if_splits)
  next
    case (last batch b g2 st1)
    with less.prems(3) reads [OF last(2)] show ?thesis by (auto simp: stuck_def)
  next
    case (turn batch b g2 st1)
    have "pruned (finished_ids (gs_store g)) (g\<lparr>gs_calls := Suc (gs_calls g)\<rparr>) g2"
      using pruned_trans [OF pruned_mono [OF delete_batch_pruned oldest_ids(1) [OF turn(1)]]
          rooted_bytes_pruned [of _ _ env]] turn(2) by (metis snd_conv)
    from pruned_keeps(2) [OF this] have "store_ok S (gs_store g2)" using less.prems(1) by simp
    moreover have "gs_reads g2 = (rest @ [current]) @ [b]" using reads [OF turn(2)] by simp
    ultimately show ?thesis using less.IH [OF turn(3)] turn(4) less.prems(3) by simp
  qed
qed

text \<open>C37. A retention tick on which no call to the database fails panics exactly if the age of some repository
  reaches back before the earliest time \<open>chrono\<close> can represent (which no check of the configuration rules out).
  Otherwise it enforces its limits: no evaluation past the age its repository allows is left; and with
  a size budget, the bytes pinned at the end are
  within it, unless no finished evaluation is left to delete or the last batch freed nothing. The
  size pass always ends, whatever the sizer answers.\<close>

theorem retention_enforces_limits:
  fixes S :: serde and ops :: "store_op list" and g :: gc_state and env :: gc_env
    and c :: config and now :: nat
  assumes "serde_ok S" and "list_all op_valid ops" and "gs_store g = store_run S ops store_new"
    and "\<forall>n. \<not> ge_call_fails env n"
  defines "g' \<equiv> snd (tick env c now g)"
  shows "(fst (tick env c now g) = None \<longleftrightarrow> (\<exists>repo\<in>set (cf_repos c). \<exists>days.
        effective_max_age_days (cf_retention c) repo = Some days \<and> now + ge_time_floor env < days * day))
    \<and> (\<forall>st. fst (tick env c now g) = Some st \<longrightarrow>
        (\<forall>repo\<in>set (cf_repos c). \<forall>days r. effective_max_age_days (cf_retention c) repo = Some days
          \<and> repo_find (rc_forge repo) (rc_slug repo) (gs_store g) = Inr (Some r) \<longrightarrow>
          (\<forall>e\<in>set (st_evals (gs_store g')). \<not> overdue r days now e))
      \<and> (\<forall>gb. rt_max_size_gb (cf_retention c) = Some gb \<longrightarrow> bytes_remaining st \<le> size_cap gb \<or> stuck g'))"
proof -
  have ok: "store_ok S (gs_store g)" using fresh_store_ok [OF assms(1,2)] assms(3) by simp
  obtain acc g1 where a: "age_pass env c now g = (acc, g1)" by force
  have "fst (tick env c now g) = None \<longleftrightarrow> acc = None"
    by (cases acc) (simp_all add: tick_def a case_prod_unfold Let_def)
  then have panics: "fst (tick env c now g) = None \<longleftrightarrow> list_ex (repo_panics env (cf_retention c) now) (cf_repos c)"
    using age_pass_panics [of env c now g] by (simp add: a)
  have limits: "(repo \<in> set (cf_repos c) \<and> effective_max_age_days (cf_retention c) repo = Some days
        \<and> repo_find (rc_forge repo) (rc_slug repo) (gs_store g) = Inr (Some x)
        \<and> e \<in> set (st_evals (gs_store g')) \<longrightarrow> \<not> overdue x days now e)
      \<and> (rt_max_size_gb (cf_retention c) = Some gb \<longrightarrow> bytes_remaining st \<le> size_cap gb \<or> stuck g')"
    if st: "fst (tick env c now g) = Some st" for st repo days x e gb
  proof -
    obtain n where n: "acc = Some n" using st by (cases acc) (simp_all add: tick_def a)
    obtain b g2 where r: "rooted_bytes env g1 = (b, g2)" by force
    have reads: "gs_reads g2 = gs_reads g1 @ [b]" and st2: "gs_store g2 = gs_store g1"
      using r by (auto simp: rooted_bytes_def Let_def)
    have ok2: "store_ok S (gs_store g2)"
      using pruned_keeps(2) [OF age_pass_pruned [of g env c now] ok] by (simp add: a st2)
    have "set (st_evals (gs_store g')) \<subseteq> set (st_evals (gs_store g1))"
      using pruned_evals [OF size_loop_pruned [of g2 env]]
      by (auto simp: g'_def tick_def a n r st2 case_prod_unfold Let_def split: option.splits)
    then have age: "repo \<in> set (cf_repos c) \<and> effective_max_age_days (cf_retention c) repo = Some days
        \<and> repo_find (rc_forge repo) (rc_slug repo) (gs_store g) = Inr (Some x)
        \<and> e \<in> set (st_evals (gs_store g')) \<longrightarrow> \<not> overdue x days now e"
      using age_pass_ok [OF assms(4) ok _ _ _ a [unfolded n]] by blast
    have "bytes_remaining st \<le> size_cap gb \<or> stuck g'" if gb: "rt_max_size_gb (cf_retention c) = Some gb"
    proof -
      obtain b' st' g3 where l: "size_loop env (size_cap gb) b (tick_stats_default\<lparr>age_deleted := n\<rparr>) g2 = (b', st', g3)"
        by (metis prod_cases3)
      then have "bytes_remaining st = b'" "g' = g3" using st by (auto simp: g'_def tick_def a n r gb)
      with size_loop_ok [OF assms(4) ok2 reads l] show ?thesis by simp
    qed
    with age show ?thesis by blast
  qed
  show ?thesis using panics limits by (auto simp: list_ex_iff repo_panics_def cutoff_panics_def)
qed

section \<open>Concrete ticks\<close>

text \<open>An environment in which nothing fails and a directory pins a hundred bytes; the earliest time is the start of
  the year -262143.\<close>

definition sample_env :: gc_env where
  "sample_env = \<lparr>ge_call_fails = (\<lambda>_. False), ge_rm_fails = (\<lambda>_. False),
     ge_rooted_bytes = (\<lambda>_ roots. 100 * length roots), ge_time_floor = 8334601228800000\<rparr>"

definition sample_gc :: "store_op list \<Rightarrow> gc_state" where
  "sample_gc ops = \<lparr>gs_store = store_run sample_serde (sample_ops @ ops) store_new, gs_logs = [(1, 1)],
     gs_roots = [(1, 1)], gs_calls = 0, gs_rms = 0, gs_reads = []\<rparr>"

definition sample_gc_config :: config where
  "sample_gc_config = sample_config\<lparr>cf_repos := [(hd (cf_repos sample_config))\<lparr>rc_forge := ''github'',
     rc_slug := Slug ''a/b'', rc_max_age_days := Some 0\<rparr>],
     cf_retention := retention_default\<lparr>rt_max_size_gb := Some 0\<rparr>\<rparr>"

theorem retention_prunes_only_finished_witness:
  "\<exists>e\<in>set (st_evals (gs_store (snd (tick sample_env sample_gc_config 99 (sample_gc []))))). e_status e = ''queued''"
proof -
  have "gs_store (sample_gc []) = store_run sample_serde sample_ops store_new" by (simp add: sample_gc_def)
  note t = retention_prunes_only_finished [OF sample_serde_ok sample_ops_valid this, of sample_env sample_gc_config 99]
  obtain e where "e \<in> set (st_evals (gs_store (sample_gc [])))" "e_status e = ''queued''"
    by (simp add: sample_gc_def sample_run_eq sample_evals)
  moreover from this(2) have "\<not> eval_final e" by (simp add: eval_final_def eval_terminal_statuses_def)
  ultimately show ?thesis using t by blast
qed

lemma sample_finished:
  "st_evals (gs_store (sample_gc [EvalFinish (EvalId 1) EDone 5])) = [\<lparr>e_id = 1, e_repo_id = 1,
     e_trigger = ''push'', e_git_ref = ''main'', e_sha = sha_str sample_sha, e_started_at = None,
     e_finished_at = Some 5, e_status = ''done'', e_pr_number = Some 7, e_building_started_at = None,
     e_failure_reason = None\<rparr>]"
  by (simp add: sample_gc_def store_run_append sample_run_eq eval_finish_def sample_evals update_where_def
      eval_terminal_statuses_def)

lemma sample_repo:
  "\<exists>r. repo_find ''github'' (Slug ''a/b'') (gs_store (sample_gc [EvalFinish (EvalId 1) EDone 5])) = Inr (Some r)
     \<and> rr_id r = RepoId 1"
  by (simp add: sample_gc_def sample_ops_def store_new_def sample_new_eval_def sample_new_job_def
      sample_new_builder_def store_defs find_repo_def has_repo_def has_eval_def find_builder_def
      repo_find_def map_repo_def bind_result_def to_slug_def sample_values)

text \<open>A repository that keeps its evaluations for four thousand million days.\<close>

definition endless_config :: config where
  "endless_config = sample_gc_config\<lparr>cf_repos := [(hd (cf_repos sample_gc_config))\<lparr>rc_max_age_days := Some 4000000000\<rparr>]\<rparr>"

theorem retention_enforces_limits_witness:
  "st_evals (gs_store (snd (tick sample_env sample_gc_config 99 (sample_gc [EvalFinish (EvalId 1) EDone 5])))) = []
   \<and> fst (tick sample_env endless_config 99 (sample_gc [EvalFinish (EvalId 1) EDone 5])) = None"
proof -
  let ?g = "sample_gc [EvalFinish (EvalId 1) EDone 5]" and ?ops = "sample_ops @ [EvalFinish (EvalId 1) EDone 5]"
  have valid: "list_all op_valid ?ops" using sample_ops_valid by simp
  have store: "gs_store ?g = store_run sample_serde ?ops store_new" by (simp add: sample_gc_def)
  have env: "\<forall>n. \<not> ge_call_fails sample_env n" by (simp add: sample_env_def)
  obtain r where r: "repo_find ''github'' (Slug ''a/b'') (gs_store ?g) = Inr (Some r)" "rr_id r = RepoId 1"
    using sample_repo by blast
  let ?repo = "hd (cf_repos sample_gc_config)"
  have repo: "?repo \<in> set (cf_repos sample_gc_config)" "rc_forge ?repo = ''github''" "rc_slug ?repo = Slug ''a/b''"
    "effective_max_age_days (cf_retention sample_gc_config) ?repo = Some 0"
    by (simp_all add: sample_gc_config_def effective_max_age_days_def)
  have only: "set (cf_repos sample_gc_config) = {?repo}" by (simp add: sample_gc_config_def)
  have "\<not> (\<exists>repo\<in>set (cf_repos sample_gc_config). \<exists>days. effective_max_age_days (cf_retention sample_gc_config) repo = Some days
      \<and> 99 + ge_time_floor sample_env < days * day)"
    unfolding only using repo(4) by simp
  then obtain st where calm: "fst (tick sample_env sample_gc_config 99 ?g) = Some st"
    using conjunct1 [OF retention_enforces_limits [OF sample_serde_ok valid store env, of sample_gc_config 99]] by blast
  have no: "\<not> overdue r 0 99 e" if "e \<in> set (st_evals (gs_store (snd (tick sample_env sample_gc_config 99 ?g))))" for e
  proof -
    have all: "\<forall>repo\<in>set (cf_repos sample_gc_config). \<forall>days r. effective_max_age_days (cf_retention sample_gc_config) repo = Some days
        \<and> repo_find (rc_forge repo) (rc_slug repo) (gs_store ?g) = Inr (Some r) \<longrightarrow>
        (\<forall>e\<in>set (st_evals (gs_store (snd (tick sample_env sample_gc_config 99 ?g)))). \<not> overdue r days 99 e)"
      using retention_enforces_limits [OF sample_serde_ok valid store env, of sample_gc_config 99] calm by blast
    have "repo_find (rc_forge ?repo) (rc_slug ?repo) (gs_store ?g) = Inr (Some r)" unfolding repo by (rule r(1))
    with repo(4) bspec [OF all repo(1)] that show ?thesis by blast
  qed
  have yes: "overdue r 0 99 e" if "e \<in> set (st_evals (gs_store ?g))" for e
    using that r(2) by (auto simp: sample_finished overdue_def eval_final_def eval_terminal_statuses_def)
  have sub: "set (st_evals (gs_store (snd (tick sample_env sample_gc_config 99 ?g)))) \<subseteq> set (st_evals (gs_store ?g))"
    by (rule pruned_evals [OF tick_pruned])
  have "e \<notin> set (st_evals (gs_store (snd (tick sample_env sample_gc_config 99 ?g))))" for e
    using no [of e] yes [of e] subsetD [OF sub, of e] by argo
  from this [of "hd (st_evals (gs_store (snd (tick sample_env sample_gc_config 99 ?g))))"]
  have "st_evals (gs_store (snd (tick sample_env sample_gc_config 99 ?g))) = []" by (metis list.set_sel(1))
  moreover have "\<exists>repo\<in>set (cf_repos endless_config). \<exists>days. effective_max_age_days (cf_retention endless_config) repo = Some days
      \<and> 99 + ge_time_floor sample_env < days * day"
    by (simp add: endless_config_def effective_max_age_days_def sample_env_def day_def)
  ultimately show ?thesis
    using conjunct1 [OF retention_enforces_limits [OF sample_serde_ok valid store env, of endless_config 99]] by blast
qed

end
