(* ===== verification/Webhook.thy ===== *)
theory Webhook
  imports Config Store_Samples
begin

text \<open>
  The intake of webhooks (crates \<open>argunix-forge\<close> and \<open>argunix-web\<close>): normalised events and permissions,
  the policy gate (\<open>policy.rs\<close>), the coalescing pool (\<open>coalesce.rs\<close>), the registry of paused forges
  (\<open>pause.rs\<close>), cancellation tokens (\<open>cancel.rs\<close>) and the request handler (\<open>webhook.rs\<close>).

  A forge is the trait object \<open>Provider\<close>, a record of functions: what the forge answers to a
  request is the environment's choice. Posts of checks are detached tasks, kept in a list that
  \<open>run_post_task\<close> consumes one at a time, at any moment. The untrusted preview parse of the body is a parameter (\<open>serde_json\<close>).
\<close>

section \<open>Events, permissions and errors\<close>

datatype permission = PermNone | PermRead | PermTriage | PermWrite | PermMaintain | PermAdmin

definition can_trigger_ci :: "permission \<Rightarrow> bool" where
  "can_trigger_ci p = (p = PermWrite \<or> p = PermMaintain \<or> p = PermAdmin)"

definition permission_from_github :: "string \<Rightarrow> permission" where
  "permission_from_github s =
     (if s = ''admin'' then PermAdmin else if s = ''maintain'' then PermMaintain
      else if s = ''write'' then PermWrite else if s = ''triage'' then PermTriage
      else if s = ''read'' then PermRead else PermNone)"

definition permission_from_gitea :: "string \<Rightarrow> permission" where
  "permission_from_gitea s =
     (if s = ''admin'' \<or> s = ''owner'' then PermAdmin else if s = ''write'' then PermWrite
      else if s = ''read'' then PermRead else PermNone)"

definition permission_from_gitlab :: "nat \<Rightarrow> permission" where
  "permission_from_gitlab level =
     (if level = 50 then PermAdmin else if level = 40 then PermMaintain
      else if level = 30 then PermWrite else if level = 20 then PermTriage
      else if level = 10 then PermRead else PermNone)"

datatype pr_action = Opened | Reopened | Synchronize | Closed | Edited | OtherAction

definition pr_action_from_str :: "string \<Rightarrow> pr_action" where
  "pr_action_from_str s =
     (if s = ''opened'' then Opened else if s = ''reopened'' then Reopened
      else if s = ''synchronize'' then Synchronize else if s = ''closed'' then Closed
      else if s = ''edited'' then Edited else OtherAction)"

definition should_evaluate :: "pr_action \<Rightarrow> bool" where
  "should_evaluate a = (a = Opened \<or> a = Reopened \<or> a = Synchronize)"

record repo_display =
  rd_name :: "string option"
  rd_description :: "string option"
  rd_web_url :: "string option"
  rd_default_branch :: "string option"

record push_event =
  pe_slug :: slug
  pe_git_ref :: string
  pe_sha :: sha
  pe_pusher :: "string option"
  pe_display :: repo_display

record pull_request_event =
  pr_slug :: slug
  pr_number :: nat
  pr_head_sha :: sha
  pr_head_ref :: string
  pr_base_ref :: string
  pr_author :: string
  pr_action_of :: pr_action
  pr_is_fork :: bool
  pr_display :: repo_display

datatype normalized_event = Push push_event | PullRequest pull_request_event

datatype forge_error = MissingHeader string | InvalidHeader string string | BadSignature
  | BadPayload string | ForgeInvalidSlug string slug_error | ForgeInvalidSha string sha_error
  | ForgeHttp string | ForgeApi nat string string | Unauthorised

datatype check_state = CheckPending | CheckSuccess | CheckFailure | CheckError

record check_post =
  cp_slug :: slug
  cp_sha :: sha
  cp_context :: string
  cp_state :: check_state
  cp_description :: "string option"
  cp_target_url :: "string option"

type_synonym headers = "(string \<times> string) list"

record provider =
  verify_signature :: "headers \<Rightarrow> bytes \<Rightarrow> bytes \<Rightarrow> forge_error option"
  parse_event :: "headers \<Rightarrow> bytes \<Rightarrow> forge_error + normalized_event option"
  query_user_permission :: "slug \<Rightarrow> string \<Rightarrow> forge_error + permission"
  post_check :: "check_post \<Rightarrow> forge_error option"

section \<open>Paused forges\<close>

record pause_entry =
  pz_since :: nat
  pz_reason :: string

type_synonym pause_registry = "(string, pause_entry) hashmap"

definition pause :: "nat \<Rightarrow> string \<Rightarrow> string \<Rightarrow> pause_registry \<Rightarrow> pause_registry" where
  "pause now forge reason m = hm_insert forge \<lparr>pz_since = now, pz_reason = reason\<rparr> m"

definition mark_healthy :: "string \<Rightarrow> pause_registry \<Rightarrow> pause_registry" where
  "mark_healthy forge m = hm_remove forge m"

definition is_paused :: "string \<Rightarrow> pause_registry \<Rightarrow> bool" where
  "is_paused forge m = (hm_get m forge \<noteq> None)"

definition pause_snapshot :: "pause_registry \<Rightarrow> (string \<times> string) list" where
  "pause_snapshot m = map (\<lambda>(k, v). (k, pz_reason v)) m"

section \<open>The coalescing pool\<close>

record coalesce_pool =
  co_inner :: "(repo_id \<times> sha, nat) hashmap"
  co_window :: nat

definition coalesce_new :: "nat \<Rightarrow> coalesce_pool" where
  "coalesce_new window = \<lparr>co_inner = [], co_window = window\<rparr>"

definition admit_at :: "repo_id \<Rightarrow> sha \<Rightarrow> nat \<Rightarrow> coalesce_pool \<Rightarrow> bool \<times> coalesce_pool" where
  "admit_at r sha now p =
     (let m = filter (\<lambda>(_, deadline). now < deadline) (co_inner p) in
      if hm_get m (r, sha) \<noteq> None then (False, p\<lparr>co_inner := m\<rparr>)
      else (True, p\<lparr>co_inner := hm_insert (r, sha) (now + co_window p) m\<rparr>))"

section \<open>Cancellation\<close>

text \<open>A token is shared between the registry and the worker that registered it; its flag is in the
  store of tokens, and it outlives the entry of the registry.\<close>

record cancel_registry =
  cr_inner :: "(eval_id, nat) hashmap"
  cr_flags :: "bool list"

definition cancel_registry_new :: cancel_registry where
  "cancel_registry_new = \<lparr>cr_inner = [], cr_flags = []\<rparr>"

definition token_cancel :: "nat \<Rightarrow> cancel_registry \<Rightarrow> cancel_registry" where
  "token_cancel t r = r\<lparr>cr_flags := (cr_flags r)[t := True]\<rparr>"

definition token_is_cancelled :: "nat \<Rightarrow> cancel_registry \<Rightarrow> bool" where
  "token_is_cancelled t r = (t < length (cr_flags r) \<and> cr_flags r ! t)"

definition cancel_register :: "eval_id \<Rightarrow> cancel_registry \<Rightarrow> nat \<times> cancel_registry" where
  "cancel_register i r =
     (let t = length (cr_flags r)
      in (t, \<lparr>cr_inner = hm_insert i t (cr_inner r), cr_flags = cr_flags r @ [False]\<rparr>))"

definition cancel_deregister :: "eval_id \<Rightarrow> cancel_registry \<Rightarrow> cancel_registry" where
  "cancel_deregister i r = r\<lparr>cr_inner := hm_remove i (cr_inner r)\<rparr>"

definition registry_cancel :: "eval_id \<Rightarrow> cancel_registry \<Rightarrow> cancel_registry" where
  "registry_cancel i r =
     (case hm_get (cr_inner r) i of None \<Rightarrow> r | Some t \<Rightarrow> token_cancel t r)"

definition branch_key :: "string \<Rightarrow> string" where
  "branch_key git_ref = (case split_once CHR '':'' git_ref of None \<Rightarrow> git_ref | Some (k, _) \<Rightarrow> k)"

section \<open>The policy gate\<close>

datatype decision = Build | DropPushUnwatchedBranch string | DropPrsDisabled
  | DropPrUntrustedAuthor string | DropPrIgnoredAction

definition author_in_allowlist :: "string \<Rightarrow> string list \<Rightarrow> bool" where
  "author_in_allowlist author allowlist = list_ex (\<lambda>a. a = author) allowlist"

definition branch_matches :: "string \<Rightarrow> string list \<Rightarrow> bool" where
  "branch_matches git_ref branches =
     (starts_with ''refs/heads/'' git_ref
      \<and> list_ex (\<lambda>b. (if starts_with ''refs/'' b then b else ''refs/heads/'' @ b) = git_ref) branches)"

definition evaluate_push :: "repo_config \<Rightarrow> push_event \<Rightarrow> decision" where
  "evaluate_push repo push =
     (if branch_matches (pe_git_ref push) (rc_watched_branches repo) then Build
      else DropPushUnwatchedBranch (pe_git_ref push))"

definition evaluate_pr :: "provider \<Rightarrow> repo_config \<Rightarrow> pull_request_event \<Rightarrow> string \<Rightarrow> nat \<Rightarrow>
    pause_registry \<Rightarrow> decision \<times> pause_registry" where
  "evaluate_pr P repo pr forge_name now pauses =
     (let fallback = (if author_in_allowlist (pr_author pr) (rc_pr_allowlist repo) then Build
                      else DropPrUntrustedAuthor (pr_author pr)) in
      if \<not> should_evaluate (pr_action_of pr) then (DropPrIgnoredAction, pauses)
      else if \<not> rc_build_prs repo then (DropPrsDisabled, pauses)
      else case query_user_permission P (pr_slug pr) (pr_author pr) of
        Inr perm \<Rightarrow>
          (if can_trigger_ci perm then (Build, mark_healthy forge_name pauses)
           else (fallback, mark_healthy forge_name pauses))
      | Inl e \<Rightarrow>
          (fallback,
           if e = Unauthorised then pause now forge_name ''401 from query_user_permission'' pauses
           else pauses))"

definition policy_evaluate :: "provider \<Rightarrow> repo_config \<Rightarrow> normalized_event \<Rightarrow> string \<Rightarrow> nat \<Rightarrow>
    pause_registry \<Rightarrow> decision \<times> pause_registry" where
  "policy_evaluate P repo event forge_name now pauses =
     (case event of
        Push push \<Rightarrow> (evaluate_push repo push, pauses)
      | PullRequest pr \<Rightarrow> evaluate_pr P repo pr forge_name now pauses)"

section \<open>The handler\<close>

datatype webhook_error = UnknownForgeKind string | BadJson string | NoRepository
  | WebhookInvalidSlug string slug_error | RepoNotConfigured string | NoProvider string
  | WebhookNotProvisioned string string | WebhookForge forge_error | WebhookStore store_error

fun status_code :: "webhook_error \<Rightarrow> nat" where
  "status_code (UnknownForgeKind _) = 404"
| "status_code (BadJson _) = 400"
| "status_code NoRepository = 202"
| "status_code (WebhookInvalidSlug _ _) = 400"
| "status_code (RepoNotConfigured _) = 404"
| "status_code (NoProvider _) = 500"
| "status_code (WebhookNotProvisioned _ _) = 503"
| "status_code (WebhookForge e) =
     (case e of
        BadSignature \<Rightarrow> 401
      | MissingHeader _ \<Rightarrow> 400
      | InvalidHeader _ _ \<Rightarrow> 400
      | BadPayload _ \<Rightarrow> 400
      | ForgeInvalidSlug _ _ \<Rightarrow> 400
      | ForgeInvalidSha _ _ \<Rightarrow> 400
      | _ \<Rightarrow> 500)"
| "status_code (WebhookStore _) = 500"

text \<open>\<open>repository.full_name\<close> and \<open>project.path_with_namespace\<close> of the payload.\<close>

record payload_preview =
  pp_full_name :: "string option"
  pp_path_with_namespace :: "string option"

record config_snapshot =
  sn_config :: config
  sn_providers :: "(string, provider) hashmap"

record app_state =
  as_current :: config_snapshot
  as_store :: store
  as_work_dispatcher :: "eval_id list"
  as_coalesce :: coalesce_pool
  as_pauses :: pause_registry
  as_cancellations :: cancel_registry
  as_post_tasks :: "(string \<times> check_post) list"

definition eval_target_url :: "string \<Rightarrow> string \<Rightarrow> slug \<Rightarrow> eval_id \<Rightarrow> string" where
  "eval_target_url external_url forge slug i =
     trim_end_slash external_url @ ''/r/'' @ forge @ ''/'' @ slug_str slug @ ''/eval/'' @ show_int (eval_get i)"

definition job_target_url :: "string \<Rightarrow> string \<Rightarrow> slug \<Rightarrow> eval_id \<Rightarrow> string \<Rightarrow> string" where
  "job_target_url external_url forge slug i attr_path =
     eval_target_url external_url forge slug i @ ''/job/'' @ attr_path"

definition spawn_post_check :: "check_post \<Rightarrow> string \<Rightarrow> app_state \<Rightarrow> app_state" where
  "spawn_post_check post forge_name st =
     (if is_paused forge_name (as_pauses st) then st
      else st\<lparr>as_post_tasks := as_post_tasks st @ [(forge_name, post)]\<rparr>)"

text \<open>The body of the detached task.\<close>

definition run_post_task :: "provider \<Rightarrow> nat \<Rightarrow> string \<times> check_post \<Rightarrow> pause_registry \<Rightarrow> pause_registry" where
  "run_post_task P now = (\<lambda>(forge_name, post) pauses.
     case post_check P post of
       None \<Rightarrow> mark_healthy forge_name pauses
     | Some e \<Rightarrow> if e = Unauthorised then pause now forge_name ''401 from post_check'' pauses else pauses)"

definition event_display :: "normalized_event \<Rightarrow> repo_display" where
  "event_display event = (case event of Push p \<Rightarrow> pe_display p | PullRequest p \<Rightarrow> pr_display p)"

definition refresh_repo_metadata :: "repo_id \<Rightarrow> normalized_event \<Rightarrow> store \<Rightarrow> store" where
  "refresh_repo_metadata r event s =
     (let d = event_display event
      in set_metadata r (rd_name d) (rd_description d) (rd_web_url d) (rd_default_branch d) s)"

text \<open>What \<open>persist\<close> reads off the event: slug, stored ref, commit, trigger and PR number.\<close>

definition event_fields :: "normalized_event \<Rightarrow> slug \<times> string \<times> sha \<times> string \<times> nat option" where
  "event_fields event =
     (case event of
        Push p \<Rightarrow>
          (pe_slug p,
           (case strip_prefix ''refs/heads/'' (pe_git_ref p) of Some b \<Rightarrow> b | None \<Rightarrow> pe_git_ref p),
           pe_sha p, ''push'', None)
      | PullRequest p \<Rightarrow>
          (pr_slug p, ''refs/pull/'' @ show_nat (pr_number p) @ ''/head:'' @ pr_head_ref p, pr_head_sha p,
           ''pull_request'', if pr_number p < 2 ^ 32 then Some (pr_number p) else None))"

definition cancel_superseded :: "nat \<Rightarrow> eval_record \<Rightarrow> app_state \<Rightarrow> app_state" where
  "cancel_superseded now prev st =
     st\<lparr>as_store := eval_finish (er_id prev) ECancelled now (as_store st),
        as_cancellations := registry_cancel (er_id prev) (as_cancellations st)\<rparr>"

definition evaluating_text :: string where
  "evaluating_text = ''evaluating'' @ map (char_of :: nat \<Rightarrow> char) [226, 128, 166]"

definition persist :: "nat \<Rightarrow> string \<Rightarrow> normalized_event \<Rightarrow> repo_id \<Rightarrow> app_state \<Rightarrow>
    (webhook_error + unit) \<times> app_state" where
  "persist now forge_name event r st =
     (let (slug, git_ref, sha, trigger, pr_no) = event_fields event;
          (admitted, pool) = admit_at r sha now (as_coalesce st);
          st1 = st\<lparr>as_coalesce := pool\<rparr>
      in if \<not> admitted then (Inr (), st1)
         else case list_active_by_branch_key r (branch_key git_ref) (as_store st1) of
           Inl e \<Rightarrow> (Inl (WebhookStore e), st1)
         | Inr active \<Rightarrow>
             (let st2 = fold (cancel_superseded now) (filter (\<lambda>e. er_sha e \<noteq> sha) active) st1 in
              case eval_create \<lparr>ne_repo_id = r, ne_trigger = trigger, ne_git_ref = git_ref,
                     ne_sha = sha, ne_pr_number = pr_no\<rparr> (as_store st2) of
                Inl e \<Rightarrow> (Inl (WebhookStore e), st2)
              | Inr (i, s) \<Rightarrow>
                  (let post = \<lparr>cp_slug = slug, cp_sha = sha, cp_context = ''argunix: evaluation'',
                         cp_state = CheckPending, cp_description = Some evaluating_text,
                         cp_target_url = Some (eval_target_url
                           (cf_external_url (sn_config (as_current st2))) forge_name slug i)\<rparr>;
                       st3 = spawn_post_check post forge_name (st2\<lparr>as_store := s\<rparr>)
                   in (Inr (), st3\<lparr>as_work_dispatcher := as_work_dispatcher st3 @ [i]\<rparr>))))"

definition kind_of_path :: "string \<Rightarrow> forge_kind option" where
  "kind_of_path s =
     (if s = ''github'' then Some Github else if s = ''gitlab'' then Some Gitlab
      else if s = ''forgejo'' then Some Forgejo else None)"

definition find_repo_config :: "config \<Rightarrow> slug \<Rightarrow> forge_kind \<Rightarrow> repo_config option" where
  "find_repo_config c slug kind =
     List.find (\<lambda>r. rc_slug r = slug
       \<and> (case hm_get (cf_forges c) (rc_forge r) of Some f \<Rightarrow> fc_kind f = kind | None \<Rightarrow> False)) (cf_repos c)"

text \<open>The steps of \<open>handle_inner\<close> before the first write: each may reject the request.\<close>

definition identify :: "(bytes \<Rightarrow> string + payload_preview) \<Rightarrow> string \<Rightarrow> bytes \<Rightarrow> app_state \<Rightarrow>
    webhook_error + (slug \<times> repo_config \<times> provider \<times> bytes)" where
  "identify decode forge_kind body st =
     (case kind_of_path forge_kind of
        None \<Rightarrow> Inl (UnknownForgeKind forge_kind)
      | Some kind \<Rightarrow>
     (case decode body of
        Inl e \<Rightarrow> Inl (BadJson e)
      | Inr preview \<Rightarrow>
     (case (case pp_full_name preview of Some n \<Rightarrow> Some n | None \<Rightarrow> pp_path_with_namespace preview) of
        None \<Rightarrow> Inl NoRepository
      | Some full_name \<Rightarrow>
     (case slug_new full_name of
        Inl e \<Rightarrow> Inl (WebhookInvalidSlug full_name e)
      | Inr slug \<Rightarrow>
     (case find_repo_config (sn_config (as_current st)) slug kind of
        None \<Rightarrow> Inl (RepoNotConfigured full_name)
      | Some repo \<Rightarrow>
     (case hm_get (sn_providers (as_current st)) (rc_forge repo) of
        None \<Rightarrow> Inl (NoProvider (rc_forge repo))
      | Some P \<Rightarrow>
     (case get_webhook_secret (rc_forge repo) slug (as_store st) of
        None \<Rightarrow> Inl (WebhookNotProvisioned (rc_forge repo) (slug_str slug))
      | Some secret \<Rightarrow> Inr (slug, repo, P, secret))))))))"

definition handle_inner :: "(bytes \<Rightarrow> string + payload_preview) \<Rightarrow> nat \<Rightarrow> string \<Rightarrow> headers \<Rightarrow> bytes \<Rightarrow>
    app_state \<Rightarrow> (webhook_error + nat) \<times> app_state" where
  "handle_inner decode now forge_kind hs body st =
     (case identify decode forge_kind body st of
        Inl e \<Rightarrow> (Inl e, st)
      | Inr (slug, repo, P, secret) \<Rightarrow>
     (case verify_signature P hs body secret of
        Some e \<Rightarrow> (Inl (WebhookForge e), st)
      | None \<Rightarrow>
     (case parse_event P hs body of
        Inl e \<Rightarrow> (Inl (WebhookForge e), st)
      | Inr None \<Rightarrow> (Inr 202, st)
      | Inr (Some event) \<Rightarrow>
          (let (r, s) = repo_upsert (rc_forge repo) slug (as_store st);
               st1 = st\<lparr>as_store := refresh_repo_metadata r event s\<rparr>;
               (verdict, pauses) = policy_evaluate P repo event (rc_forge repo) now (as_pauses st1);
               st2 = st1\<lparr>as_pauses := pauses\<rparr>
           in if verdict = Build then
                (case persist now (rc_forge repo) event r st2 of
                   (Inl e, st3) \<Rightarrow> (Inl e, st3)
                 | (Inr _, st3) \<Rightarrow> (Inr 202, st3))
              else (Inr 202, st2)))))"

definition handle :: "(bytes \<Rightarrow> string + payload_preview) \<Rightarrow> nat \<Rightarrow> string \<Rightarrow> headers \<Rightarrow> bytes \<Rightarrow>
    app_state \<Rightarrow> nat \<times> app_state" where
  "handle decode now forge_kind hs body st =
     (case handle_inner decode now forge_kind hs body st of
        (Inl e, st') \<Rightarrow> (status_code e, st')
      | (Inr code, st') \<Rightarrow> (code, st'))"

section \<open>The coalescing pool refines a pool that remembers everything\<close>

text \<open>The specification keeps the time of every admitted event for ever and admits an event when no
  admitted event of its key is less than a window old.\<close>

type_synonym admission = "(repo_id \<times> sha) \<times> nat"

fun pool_answers :: "coalesce_pool \<Rightarrow> admission list \<Rightarrow> bool list" where
  "pool_answers p [] = []"
| "pool_answers p (((r, sha), now) # evs) =
     (case admit_at r sha now p of (b, p') \<Rightarrow> b # pool_answers p' evs)"

definition recent :: "nat \<Rightarrow> admission set \<Rightarrow> repo_id \<times> sha \<Rightarrow> nat \<Rightarrow> bool" where
  "recent window H k now \<longleftrightarrow> (\<exists>t. (k, t) \<in> H \<and> now < t + window)"

fun spec_answers :: "nat \<Rightarrow> admission set \<Rightarrow> admission list \<Rightarrow> bool list" where
  "spec_answers window H [] = []"
| "spec_answers window H ((k, now) # evs) =
     (if recent window H k now then False # spec_answers window H evs
      else True # spec_answers window (insert (k, now) H) evs)"

text \<open>The simulation: every entry of the pool is the deadline of an admitted event, and every admitted
  event whose window is still open has its entry.\<close>

definition pool_abs :: "nat \<Rightarrow> admission set \<Rightarrow> nat \<Rightarrow> coalesce_pool \<Rightarrow> bool" where
  "pool_abs window H now p \<longleftrightarrow> co_window p = window \<and> hm_ok (co_inner p)
     \<and> (\<forall>k d. hm_get (co_inner p) k = Some d \<longrightarrow> (\<exists>t. (k, t) \<in> H \<and> d = t + window))
     \<and> (\<forall>k t. (k, t) \<in> H \<and> now < t + window \<longrightarrow> hm_get (co_inner p) k = Some (t + window))"

lemma swept_get:
  assumes "hm_ok m"
  shows "hm_get (filter (\<lambda>(_, d). now < d) m) k = Some d \<longleftrightarrow> hm_get m k = Some d \<and> now < d"
  using assms by (auto simp: map_of_eq_Some_iff distinct_map_filter)

lemma swept_recent:
  assumes "pool_abs window H t0 p" "t0 \<le> now"
  shows "hm_get (filter (\<lambda>(_, d). now < d) (co_inner p)) k \<noteq> None \<longleftrightarrow> recent window H k now"
proof
  assume "hm_get (filter (\<lambda>(_, d). now < d) (co_inner p)) k \<noteq> None"
  then obtain d where "hm_get (filter (\<lambda>(_, d). now < d) (co_inner p)) k = Some d" by blast
  moreover have "hm_ok (co_inner p)" using assms by (simp add: pool_abs_def)
  ultimately have d: "hm_get (co_inner p) k = Some d" "now < d" by (simp_all add: swept_get)
  then obtain t where "(k, t) \<in> H" "d = t + window" using assms unfolding pool_abs_def by blast
  with d(2) show "recent window H k now" by (auto simp: recent_def)
next
  assume "recent window H k now"
  then obtain t where t: "(k, t) \<in> H" "now < t + window" unfolding recent_def by blast
  then have "t0 < t + window" using assms(2) by simp
  with t(1) have "hm_get (co_inner p) k = Some (t + window)"
    using assms(1) unfolding pool_abs_def by blast
  moreover note t(2)
  moreover have "hm_ok (co_inner p)" using assms by (simp add: pool_abs_def)
  ultimately have "hm_get (filter (\<lambda>(_, d). now < d) (co_inner p)) k = Some (t + window)"
    by (simp add: swept_get)
  then show "hm_get (filter (\<lambda>(_, d). now < d) (co_inner p)) k \<noteq> None" by simp
qed

lemma pool_abs_dropped:
  assumes "pool_abs window H t0 p" "t0 \<le> now"
  shows "pool_abs window H now (p\<lparr>co_inner := filter (\<lambda>(_, d). now < d) (co_inner p)\<rparr>)"
  using assms by (auto simp: pool_abs_def swept_get distinct_map_filter)

lemma pool_abs_admitted:
  assumes "pool_abs window H t0 p" "t0 \<le> now" "\<not> recent window H k now"
  shows "pool_abs window (insert (k, now) H) now
     (p\<lparr>co_inner := hm_insert k (now + window) (filter (\<lambda>(_, d). now < d) (co_inner p))\<rparr>)"
  using pool_abs_dropped [OF assms(1,2)] assms(3)
  by (auto simp: pool_abs_def recent_def hm_simps)

lemma pool_simulates:
  assumes "pool_abs window H t0 p" "sorted (map snd evs)" "\<forall>e\<in>set evs. t0 \<le> snd e"
  shows "pool_answers p evs = spec_answers window H evs"
  using assms
proof (induction window H evs arbitrary: t0 p rule: spec_answers.induct)
  case (1 window H)
  then show ?case by simp
next
  case (2 window H k now evs)
  obtain r sha where k: "k = (r, sha)" by (cases k)
  have now: "t0 \<le> now" "sorted (map snd evs)" "\<forall>e\<in>set evs. now \<le> snd e"
    using "2.prems" by auto
  have w: "co_window p = window" using "2.prems" by (simp add: pool_abs_def)
  note swept = swept_recent [OF "2.prems"(1) now(1), of k]
  show ?case
  proof (cases "recent window H k now")
    case True
    then show ?thesis
      using "2.IH"(1) [OF True pool_abs_dropped [OF "2.prems"(1) now(1)] now(2,3)] swept
      by (simp add: k admit_at_def Let_def)
  next
    case False
    then show ?thesis
      using "2.IH"(2) [OF False pool_abs_admitted [OF "2.prems"(1) now(1) False] now(2,3)] swept
      by (simp add: k admit_at_def Let_def w)
  qed
qed

text \<open>Two admitted events of the same key are at least a window apart.\<close>

lemma spec_answers_length [simp]: "length (spec_answers window H evs) = length evs"
  by (induction window H evs rule: spec_answers.induct) auto

lemma spec_old:
  assumes "(k, t) \<in> H" "j < length evs" "spec_answers window H evs ! j" "fst (evs ! j) = k"
  shows "t + window \<le> snd (evs ! j)"
  using assms
proof (induction window H evs arbitrary: j rule: spec_answers.induct)
  case (2 window H k' now evs)
  then show ?case
    by (cases j) (auto simp: recent_def not_less split: if_splits)
qed simp

lemma spec_spaced:
  assumes "i < j" "j < length evs" "fst (evs ! i) = fst (evs ! j)"
    "spec_answers window H evs ! i" "spec_answers window H evs ! j"
  shows "snd (evs ! i) + window \<le> snd (evs ! j)"
  using assms
proof (induction window H evs arbitrary: i j rule: spec_answers.induct)
  case (2 window H k now evs)
  obtain j' where j: "j = Suc j'" using "2.prems" by (cases j) auto
  show ?case
  proof (cases i)
    case 0
    then have "\<not> recent window H k now" using "2.prems" by (simp split: if_splits)
    then have "j' < length evs" "spec_answers window (insert (k, now) H) evs ! j'" "fst (evs ! j') = k"
      using "2.prems"(2,3,5) 0 j by simp_all
    from spec_old [OF insertI1 this] show ?thesis by (simp add: 0 j)
  next
    case (Suc i')
    show ?thesis
    proof (cases "recent window H k now")
      case True
      with "2.IH"(1) [OF True, of i' j'] "2.prems" Suc show ?thesis by (simp add: j)
    next
      case False
      with "2.IH"(2) [OF False, of i' j'] "2.prems" Suc show ?thesis by (simp add: j)
    qed
  qed
qed simp

text \<open>C14. The coalescing pool forgets expired entries on every call, and this cannot be observed: for
  events whose clock readings do not decrease it gives the same answers as a pool that keeps every
  admission for ever and drops an event exactly when an admitted one of the same repository and
  commit is less than a window old. So of two admitted events of a key the second comes at least a
  window after the first.\<close>

theorem coalesce_refines_history:
  assumes "sorted (map snd evs)"
  shows "pool_answers (coalesce_new window) evs = spec_answers window {} evs
    \<and> (\<forall>i j. i < j \<and> j < length evs \<and> fst (evs ! i) = fst (evs ! j)
         \<and> pool_answers (coalesce_new window) evs ! i \<and> pool_answers (coalesce_new window) evs ! j
         \<longrightarrow> snd (evs ! i) + window \<le> snd (evs ! j))"
proof -
  have "pool_abs window {} 0 (coalesce_new window)" by (simp add: pool_abs_def coalesce_new_def)
  from pool_simulates [OF this assms]
  have eq: "pool_answers (coalesce_new window) evs = spec_answers window {} evs" by simp
  show ?thesis unfolding eq using spec_spaced by blast
qed

theorem coalesce_refines_history_witness:
  "pool_answers (coalesce_new 5)
     [((RepoId 1, sample_sha), 0), ((RepoId 2, sample_sha), 1), ((RepoId 1, sample_sha), 4),
      ((RepoId 1, sample_sha), 5)] = [True, True, False, True]"
  using coalesce_refines_history [of "[((RepoId 1, sample_sha), 0), ((RepoId 2, sample_sha), 1),
      ((RepoId 1, sample_sha), 4), ((RepoId 1, sample_sha), 5)]" 5]
  by (simp add: recent_def)

section \<open>A webhook starts an evaluation only when it is authorised\<close>

text \<open>What the operator's configuration and the forge must say for an event to be built.\<close>

fun authorised :: "provider \<Rightarrow> repo_config \<Rightarrow> normalized_event \<Rightarrow> bool" where
  "authorised P repo (Push p) \<longleftrightarrow>
     (\<exists>b. pe_git_ref p = ''refs/heads/'' @ b
        \<and> (b \<in> set (rc_watched_branches repo) \<or> ''refs/heads/'' @ b \<in> set (rc_watched_branches repo)))"
| "authorised P repo (PullRequest p) \<longleftrightarrow>
     rc_build_prs repo \<and> pr_action_of p \<in> {Opened, Reopened, Synchronize}
     \<and> (pr_author p \<in> set (rc_pr_allowlist repo)
        \<or> query_user_permission P (pr_slug p) (pr_author p) \<in> Inr ` {PermWrite, PermMaintain, PermAdmin})"

lemma branch_matches_watched:
  assumes "branch_matches ref bs"
  shows "\<exists>b. ref = ''refs/heads/'' @ b \<and> (b \<in> set bs \<or> ''refs/heads/'' @ b \<in> set bs)"
proof -
  from assms obtain b where b: "b \<in> set bs"
    "(if starts_with ''refs/'' b then b else ''refs/heads/'' @ b) = ref" "starts_with ''refs/heads/'' ref"
    unfolding branch_matches_def list_ex_iff by blast
  obtain c where "ref = ''refs/heads/'' @ c" using b(3) unfolding starts_with_iff by blast
  with b(1,2) show ?thesis by (cases "starts_with ''refs/'' b") auto
qed

lemma policy_build_authorised:
  assumes "fst (policy_evaluate P repo event forge now pauses) = Build"
  shows "authorised P repo event"
proof (cases event)
  case (Push p)
  with assms have "branch_matches (pe_git_ref p) (rc_watched_branches repo)"
    by (simp add: policy_evaluate_def evaluate_push_def split: if_splits)
  then show ?thesis using branch_matches_watched Push by simp
next
  case (PullRequest p)
  show ?thesis
  proof (cases "query_user_permission P (pr_slug p) (pr_author p)")
    case (Inl e)
    then show ?thesis using assms PullRequest
      by (auto simp: policy_evaluate_def evaluate_pr_def should_evaluate_def author_in_allowlist_def
          list_ex_iff Let_def split: if_splits)
  next
    case (Inr perm)
    then show ?thesis using assms PullRequest
      by (auto simp: policy_evaluate_def evaluate_pr_def should_evaluate_def author_in_allowlist_def
          list_ex_iff can_trigger_ci_def Let_def split: if_splits)
  qed
qed

lemma identify_spec:
  assumes "identify decode kind body st = Inr (slug, repo, P, secret)"
  shows "repo \<in> set (cf_repos (sn_config (as_current st)))" "rc_slug repo = slug"
    "hm_get (sn_providers (as_current st)) (rc_forge repo) = Some P"
    "get_webhook_secret (rc_forge repo) slug (as_store st) = Some secret"
    "\<exists>f k. hm_get (cf_forges (sn_config (as_current st))) (rc_forge repo) = Some f \<and> kind_of_path kind = Some k
       \<and> fc_kind f = k"
  using assms
  by (auto simp: identify_def find_repo_config_def find_Some_iff split: option.splits sum.splits)

lemma refresh_keeps [simp]:
  "st_evals (refresh_repo_metadata r event s) = st_evals s"
  "st_jobs (refresh_repo_metadata r event s) = st_jobs s"
  "st_seq (refresh_repo_metadata r event s) = st_seq s"
  by (simp_all add: refresh_repo_metadata_def set_metadata_def Let_def)

lemma repo_upsert_evals [simp]: "st_evals (snd (repo_upsert f g s)) = st_evals s"
  by (simp add: repo_upsert_def Let_def split: option.splits)

text \<open>C4. No build without authority. If a webhook request changes the evaluations or hands one to the
  worker, then the payload names a repository configured on a forge of the kind in the URL, the
  forge's provider accepted the request's signature under the secret stored for that repository, the
  provider parsed an event from it, and the event is a push to a watched branch, or the opening,
  reopening or update of a pull request on a repository that builds them, by an author who is on the
  allowlist or has write permission or more.\<close>

theorem webhook_builds_only_authorised:
  assumes "handle decode now kind hs body st = (code, st')"
    and "st_evals (as_store st') \<noteq> st_evals (as_store st) \<or> as_work_dispatcher st' \<noteq> as_work_dispatcher st"
  shows "\<exists>repo f P secret event.
      repo \<in> set (cf_repos (sn_config (as_current st)))
    \<and> hm_get (cf_forges (sn_config (as_current st))) (rc_forge repo) = Some f
    \<and> kind_of_path kind = Some (fc_kind f)
    \<and> hm_get (sn_providers (as_current st)) (rc_forge repo) = Some P
    \<and> get_webhook_secret (rc_forge repo) (rc_slug repo) (as_store st) = Some secret
    \<and> verify_signature P hs body secret = None
    \<and> parse_event P hs body = Inr (Some event)
    \<and> authorised P repo event"
proof -
  obtain res where res: "handle_inner decode now kind hs body st = (res, st')"
    using assms(1) by (auto simp: handle_def split: prod.splits sum.splits)
  obtain slug repo P secret where id: "identify decode kind body st = Inr (slug, repo, P, secret)"
    using res assms(2) by (auto simp: handle_inner_def split: sum.splits)
  have sig: "verify_signature P hs body secret = None"
    using res assms(2) by (auto simp: handle_inner_def id split: option.splits)
  obtain event where ev: "parse_event P hs body = Inr (Some event)"
    using res assms(2) by (auto simp: handle_inner_def id sig split: option.splits sum.splits)
  obtain r s where r: "repo_upsert (rc_forge repo) slug (as_store st) = (r, s)" by fastforce
  have s: "st_evals s = st_evals (as_store st)" using repo_upsert_evals [of "rc_forge repo" slug "as_store st"] r by simp
  obtain v pauses where v: "policy_evaluate P repo event (rc_forge repo) now (as_pauses st) = (v, pauses)"
    by fastforce
  have "v = Build"
    using res assms(2) by (auto simp: handle_inner_def id sig ev r v s Let_def split: if_splits)
  then have "authorised P repo event" using policy_build_authorised v by (metis fst_conv)
  with identify_spec [OF id] sig ev show ?thesis by metis
qed

section \<open>A new push supersedes the running evaluations of its branch\<close>

text \<open>Every registered token is a token of the store, and no two evaluations share one.\<close>

definition cancel_ok :: "cancel_registry \<Rightarrow> bool" where
  "cancel_ok c \<longleftrightarrow> (\<forall>k t. hm_get (cr_inner c) k = Some t \<longrightarrow> t < length (cr_flags c))
     \<and> (\<forall>k k' t. hm_get (cr_inner c) k = Some t \<and> hm_get (cr_inner c) k' = Some t \<longrightarrow> k = k')"

lemma cancel_ok_new: "cancel_ok cancel_registry_new"
  by (simp add: cancel_ok_def cancel_registry_new_def)

lemma cancel_ok_register: "cancel_ok c \<Longrightarrow> cancel_ok (snd (cancel_register i c))"
  by (fastforce simp: cancel_ok_def cancel_register_def Let_def hm_simps split: if_splits)

lemma cancel_ok_deregister: "cancel_ok c \<Longrightarrow> cancel_ok (cancel_deregister i c)"
  by (auto simp: cancel_ok_def cancel_deregister_def hm_simps split: if_splits)

lemma registry_cancel_inner [simp]: "cr_inner (registry_cancel i c) = cr_inner c"
  by (simp add: registry_cancel_def token_cancel_def split: option.splits)

lemma cancel_ok_cancel: "cancel_ok c \<Longrightarrow> cancel_ok (registry_cancel i c)"
  by (simp add: cancel_ok_def registry_cancel_def token_cancel_def split: option.splits)

lemma cancel_hits:
  assumes "cancel_ok c" "hm_get (cr_inner c) k = Some t"
  shows "token_is_cancelled t (registry_cancel i c) \<longleftrightarrow> token_is_cancelled t c \<or> k = i"
proof (cases "hm_get (cr_inner c) i")
  case None
  with assms show ?thesis by (auto simp: registry_cancel_def)
next
  case (Some u)
  have "t < length (cr_flags c)" "u = t \<longleftrightarrow> k = i"
    using assms Some unfolding cancel_ok_def by (blast, fastforce)
  then show ?thesis
    by (auto simp: registry_cancel_def Some token_cancel_def token_is_cancelled_def nth_list_update)
qed

abbreviation cancelled_row :: "nat \<Rightarrow> eval_row \<Rightarrow> eval_row" where
  "cancelled_row now e \<equiv> e\<lparr>e_status := ''cancelled'', e_finished_at := Some now\<rparr>"

lemma supersede_all:
  fixes prevs :: "eval_record list"
  defines "gone \<equiv> \<lambda>e :: eval_row. EvalId (e_id e) \<in> er_id ` set prevs \<and> e_status e \<notin> set eval_terminal_statuses"
  shows "st_evals (as_store (fold (cancel_superseded now) prevs st)) =
      map (\<lambda>e. if gone e then cancelled_row now e else e) (st_evals (as_store st))" (is ?evals)
    and "as_store (fold (cancel_superseded now) prevs st) =
      (as_store st)\<lparr>st_evals := st_evals (as_store (fold (cancel_superseded now) prevs st))\<rparr>" (is ?store)
    and "fold (cancel_superseded now) prevs st =
      st\<lparr>as_store := as_store (fold (cancel_superseded now) prevs st),
         as_cancellations := as_cancellations (fold (cancel_superseded now) prevs st)\<rparr>" (is ?rest)
proof -
  have [simp]: "EvalId (e_id e) = i \<longleftrightarrow> e_id e = eval_get i" for i :: eval_id and e :: eval_row
    by (cases i) auto
  have "?evals \<and> ?store \<and> ?rest" unfolding gone_def
  proof (induction prevs arbitrary: st)
    case (Cons p prevs)
    show ?case
      using Cons.IH [of "cancel_superseded now p st"]
      by (auto simp: cancel_superseded_def eval_finish_def update_where_def eval_terminal_statuses_def)
  qed simp
  then show ?evals ?store ?rest by blast+
qed

lemma supersede_tokens:
  assumes "cancel_ok (as_cancellations st)" "hm_get (cr_inner (as_cancellations st)) k = Some t"
  shows "token_is_cancelled t (as_cancellations (fold (cancel_superseded now) prevs st)) \<longleftrightarrow>
    token_is_cancelled t (as_cancellations st) \<or> k \<in> er_id ` set prevs"
  using assms
  by (induction prevs arbitrary: st) (auto simp: cancel_superseded_def cancel_ok_cancel cancel_hits)

text \<open>The evaluations a push of \<open>sha\<close> to \<open>git_ref\<close> makes obsolete.\<close>

definition superseded :: "repo_id \<Rightarrow> string \<Rightarrow> sha \<Rightarrow> eval_row \<Rightarrow> bool" where
  "superseded r git_ref sha e \<longleftrightarrow> e_repo_id e = repo_get r
     \<and> e_status e \<in> {''queued'', ''evaluating'', ''building''}
     \<and> (e_git_ref e = branch_key git_ref
        \<or> sql_like (Some (char_of (92 :: nat))) (escape_backslashes (branch_key git_ref) @ '':%'') (e_git_ref e))
     \<and> sha_new (e_sha e) \<noteq> Inr sha"

lemma map_results_set:
  "map_results f rows = Inr rs \<Longrightarrow> r \<in> set rs \<longleftrightarrow> (\<exists>x\<in>set rows. f x = Inr r)"
proof (induction rows arbitrary: rs)
  case (Cons x rows)
  then obtain y rest where "f x = Inr y" "map_results f rows = Inr rest" "rs = y # rest"
    by (cases "f x") (auto simp: map_results_def map_sum_Inr)
  with Cons.IH show ?case by auto
qed (simp add: map_results_def)

lemma active_superseded:
  assumes "store_ok S s"
  obtains active where "list_active_by_branch_key r (branch_key git_ref) s = Inr active"
    and "\<And>e. e \<in> set (st_evals s) \<Longrightarrow>
      EvalId (e_id e) \<in> er_id ` set (filter (\<lambda>x. er_sha x \<noteq> sha) active) \<longleftrightarrow> superseded r git_ref sha e"
    and "er_id ` set (filter (\<lambda>x. er_sha x \<noteq> sha) active) \<subseteq> EvalId ` e_id ` set (st_evals s)"
proof -
  let ?rows = "sort_key e_id (filter (\<lambda>e. e_repo_id e = repo_get r
      \<and> e_status e \<in> set [''queued'', ''evaluating'', ''building'']
      \<and> (e_git_ref e = branch_key git_ref \<or> sql_like (Some (char_of (92 :: nat)))
            (escape_backslashes (branch_key git_ref) @ '':%'') (e_git_ref e))) (st_evals s))"
  obtain active where a: "map_results map_eval ?rows = Inr active"
    using map_results_ok [of ?rows map_eval] rows_decode(2) [OF assms] by auto
  have unique: "e = e'" if "e \<in> set (st_evals s)" "e' \<in> set (st_evals s)" "e_id e = e_id e'" for e e'
    using store_okD(2) [OF assms] that
    by (auto simp: evals_ok_def rows_ok_def distinct_map dest: inj_onD)
  have sha: "er_sha x \<noteq> sha \<longleftrightarrow> sha_new (e_sha e) \<noteq> Inr sha" "er_id x = EvalId (e_id e)"
    if "map_eval e = Inr x" for e x
    using that by (auto simp: map_eval_def bind_result_Inr to_sha_def map_sum_Inr)
  have "EvalId (e_id e) \<in> er_id ` set (filter (\<lambda>x. er_sha x \<noteq> sha) active) \<longleftrightarrow> superseded r git_ref sha e"
    if e: "e \<in> set (st_evals s)" for e
  proof
    assume "EvalId (e_id e) \<in> er_id ` set (filter (\<lambda>x. er_sha x \<noteq> sha) active)"
    then obtain x where x: "x \<in> set active" "er_sha x \<noteq> sha" "er_id x = EvalId (e_id e)" by force
    then obtain e' where e': "e' \<in> set ?rows" "map_eval e' = Inr x" using map_results_set [OF a] by blast
    then have "e' = e" using unique e sha(2) x(3) by simp
    with e' sha(1) [OF e'(2)] x(2) show "superseded r git_ref sha e" by (simp add: superseded_def)
  next
    assume sup: "superseded r git_ref sha e"
    obtain x where x: "map_eval e = Inr x" using rows_decode(2) [OF assms e] by (auto simp: decodes_def)
    have "e \<in> set ?rows" using e sup by (simp add: superseded_def)
    then have "x \<in> set active" using map_results_set [OF a] x by blast
    with sha [OF x] sup show "EvalId (e_id e) \<in> er_id ` set (filter (\<lambda>x. er_sha x \<noteq> sha) active)"
      by (force simp: superseded_def)
  qed
  moreover have "er_id ` set (filter (\<lambda>x. er_sha x \<noteq> sha) active) \<subseteq> EvalId ` e_id ` set (st_evals s)"
    using map_results_set [OF a] sha(2) by fastforce
  ultimately show thesis using a by (intro that) (simp_all add: list_active_by_branch_key_def Let_def)
qed

lemma supersede_branch:
  assumes "store_ok S (as_store st)" "cancel_ok (as_cancellations st)"
    and "list_active_by_branch_key r (branch_key git_ref) (as_store st) = Inr active"
    and st': "st' = fold (cancel_superseded now) (filter (\<lambda>x. er_sha x \<noteq> sha) active) st"
  shows "st_evals (as_store st') =
      map (\<lambda>e. if superseded r git_ref sha e then cancelled_row now e else e) (st_evals (as_store st))"
    and "as_work_dispatcher st' = as_work_dispatcher st"
    and "st_repos (as_store st') = st_repos (as_store st)" "st_jobs (as_store st') = st_jobs (as_store st)"
      "st_seq (as_store st') = st_seq (as_store st)"
    and "\<And>k t. hm_get (cr_inner (as_cancellations st)) k = Some t \<Longrightarrow>
      token_is_cancelled t (as_cancellations st') \<longleftrightarrow> token_is_cancelled t (as_cancellations st)
        \<or> (\<exists>i\<in>set (st_evals (as_store st)). k = EvalId (e_id i) \<and> superseded r git_ref sha i)"
proof -
  let ?prevs = "filter (\<lambda>x. er_sha x \<noteq> sha) active"
  have ids: "EvalId (e_id e) \<in> er_id ` set ?prevs \<longleftrightarrow> superseded r git_ref sha e"
    if "e \<in> set (st_evals (as_store st))" for e
    using active_superseded [OF assms(1), of r git_ref sha] assms(3) that by (metis Inr_inject)
  have known: "er_id ` set ?prevs \<subseteq> EvalId ` e_id ` set (st_evals (as_store st))"
    using active_superseded [OF assms(1), of r git_ref sha] assms(3) by (metis Inr_inject)
  have "e_status e \<notin> set eval_terminal_statuses" if "superseded r git_ref sha e" for e
    using that by (auto simp: superseded_def eval_terminal_statuses_def)
  then show "st_evals (as_store st') =
      map (\<lambda>e. if superseded r git_ref sha e then cancelled_row now e else e) (st_evals (as_store st))"
    unfolding st' supersede_all(1) using ids by (intro map_cong) auto
  have *: "as_work_dispatcher (st\<lparr>as_store := s, as_cancellations := c\<rparr>) = as_work_dispatcher st" for s c
    by simp
  show "as_work_dispatcher st' = as_work_dispatcher st"
    using arg_cong [OF supersede_all(3), of as_work_dispatcher now ?prevs st] unfolding st' * .
  show "st_repos (as_store st') = st_repos (as_store st)" "st_jobs (as_store st') = st_jobs (as_store st)"
    "st_seq (as_store st') = st_seq (as_store st)"
    using arg_cong [OF supersede_all(2) [of now ?prevs st], of st_repos]
      arg_cong [OF supersede_all(2) [of now ?prevs st], of st_jobs]
      arg_cong [OF supersede_all(2) [of now ?prevs st], of st_seq] unfolding st' by simp_all
  have "k \<in> er_id ` set ?prevs \<longleftrightarrow>
      (\<exists>i\<in>set (st_evals (as_store st)). k = EvalId (e_id i) \<and> superseded r git_ref sha i)" for k
  proof
    assume k: "k \<in> er_id ` set ?prevs"
    then obtain e where "e \<in> set (st_evals (as_store st))" "k = EvalId (e_id e)" using known by auto
    with k ids show "\<exists>i\<in>set (st_evals (as_store st)). k = EvalId (e_id i) \<and> superseded r git_ref sha i"
      by auto
  qed (use ids in auto)
  then show "token_is_cancelled t (as_cancellations st') \<longleftrightarrow> token_is_cancelled t (as_cancellations st)
      \<or> (\<exists>i\<in>set (st_evals (as_store st)). k = EvalId (e_id i) \<and> superseded r git_ref sha i)"
    if "hm_get (cr_inner (as_cancellations st)) k = Some t" for k t
    unfolding st' using supersede_tokens [OF assms(2) that] by simp
qed

text \<open>What \<open>persist\<close> leaves behind once the superseded evaluations are cancelled.\<close>

lemma persist_admitted:
  assumes "event_fields event = (slug, git_ref, sha, trigger, pr_no)"
    and "admit_at r sha now (as_coalesce st) = (True, pool)"
    and "list_active_by_branch_key r (branch_key git_ref) (as_store st) = Inr active"
    and st2: "st2 = fold (cancel_superseded now) (filter (\<lambda>x. er_sha x \<noteq> sha) active) (st\<lparr>as_coalesce := pool\<rparr>)"
    and "has_repo (repo_get r) (as_store st2)"
    and "persist now forge event r st = (res, st')"
    and i: "i = q_evals (st_seq (as_store st2)) + 1"
  shows "res = Inr ()" "as_cancellations st' = as_cancellations st2"
    "st_jobs (as_store st') = st_jobs (as_store st2)"
    "as_work_dispatcher st' = as_work_dispatcher st2 @ [EvalId i]"
    "st_evals (as_store st') = st_evals (as_store st2) @
       [\<lparr>e_id = i, e_repo_id = repo_get r, e_trigger = trigger, e_git_ref = git_ref, e_sha = sha_str sha,
         e_started_at = None, e_finished_at = None, e_status = ''queued'',
         e_pr_number = map_option int pr_no, e_building_started_at = None, e_failure_reason = None\<rparr>]"
  using assms(5,6)
  by (auto simp: persist_def assms(1-3) st2 i Let_def eval_create_def spawn_post_check_def)

text \<open>C10. A push replaces the builds it makes obsolete, and nothing else. For an event the pool admits,
  over a consistent database with the repository's row, \<open>persist\<close> succeeds; exactly the queued,
  evaluating or building evaluations of the repository on the event's branch with another commit are
  marked cancelled, and of the registered tokens exactly theirs are fired; one queued evaluation with
  a fresh id is added for the commit and is the one handed to the worker. No other evaluation, and no
  job, changes. This holds for every admitted event, pull request or not:
  \<open>docs/concepts/cancel-on-push.md\<close> exempts the watched branches (\<open>main\<close>, releases), but \<open>persist\<close> never looks at
  the kind of the event, so a push to \<open>main\<close> cancels the builds of the previous commit too.\<close>

theorem push_supersedes_branch:
  assumes "store_ok S (as_store st)" "has_repo (repo_get r) (as_store st)"
    and "cancel_ok (as_cancellations st)"
    and "event_fields event = (slug, git_ref, sha, trigger, pr_no)"
    and "fst (admit_at r sha now (as_coalesce st))"
    and "persist now forge event r st = (res, st')"
  shows "res = Inr () \<and> (\<exists>n.
      st_evals (as_store st') = map (\<lambda>e. if superseded r git_ref sha e then cancelled_row now e else e)
        (st_evals (as_store st)) @ [n]
    \<and> e_id n \<notin> e_id ` set (st_evals (as_store st)) \<and> e_repo_id n = repo_get r
    \<and> e_status n = ''queued'' \<and> e_sha n = sha_str sha \<and> e_git_ref n = git_ref
    \<and> as_work_dispatcher st' = as_work_dispatcher st @ [EvalId (e_id n)])
    \<and> st_jobs (as_store st') = st_jobs (as_store st)
    \<and> (\<forall>k t. hm_get (cr_inner (as_cancellations st)) k = Some t \<longrightarrow>
        (token_is_cancelled t (as_cancellations st') \<longleftrightarrow> token_is_cancelled t (as_cancellations st)
          \<or> (\<exists>i\<in>set (st_evals (as_store st)). k = EvalId (e_id i) \<and> superseded r git_ref sha i)))"
proof -
  obtain active where active: "list_active_by_branch_key r (branch_key git_ref) (as_store st) = Inr active"
    by (rule active_superseded [OF assms(1), of r git_ref sha])
  obtain pool where pool: "admit_at r sha now (as_coalesce st) = (True, pool)"
    using assms(5) by (cases "admit_at r sha now (as_coalesce st)") auto
  define st1 where "st1 = st\<lparr>as_coalesce := pool\<rparr>"
  define st2 where "st2 = fold (cancel_superseded now) (filter (\<lambda>x. er_sha x \<noteq> sha) active) st1"
  have [simp]: "as_store st1 = as_store st" "as_cancellations st1 = as_cancellations st"
    "as_work_dispatcher st1 = as_work_dispatcher st" by (simp_all add: st1_def)
  have sup: "store_ok S (as_store st1)" "cancel_ok (as_cancellations st1)"
    "list_active_by_branch_key r (branch_key git_ref) (as_store st1) = Inr active"
    using assms active by simp_all
  note gone = supersede_branch [OF sup st2_def, simplified]
  have "has_repo (repo_get r) (as_store st2)" using assms(2) gone(3) by (simp add: has_repo_def)
  note new = persist_admitted [OF assms(4) pool active st2_def [unfolded st1_def] this assms(6) refl]
  have "q_evals (st_seq (as_store st)) + 1 \<notin> e_id ` set (st_evals (as_store st))"
    using store_okD(2) [OF assms(1)] by (auto simp: evals_ok_def rows_ok_def)
  then have fresh: "q_evals (st_seq (as_store st2)) + 1 \<notin> e_id ` set (st_evals (as_store st))"
    by (simp add: gone(5))
  have "\<exists>n. st_evals (as_store st') =
        map (\<lambda>e. if superseded r git_ref sha e then cancelled_row now e else e) (st_evals (as_store st)) @ [n]
      \<and> e_id n \<notin> e_id ` set (st_evals (as_store st)) \<and> e_repo_id n = repo_get r
      \<and> e_status n = ''queued'' \<and> e_sha n = sha_str sha \<and> e_git_ref n = git_ref
      \<and> as_work_dispatcher st' = as_work_dispatcher st @ [EvalId (e_id n)]"
    unfolding new(4,5) gone(1,2) using fresh by simp
  with new(1) show ?thesis unfolding new(2,3) gone(4) using gone(6) by (intro conjI) blast+
qed

section \<open>The theorems at a concrete server\<close>

text \<open>A forge that signs with the secret itself, and one repository that watches \<open>main\<close>.\<close>

definition other_sha :: sha where
  "other_sha = Sha (replicate 40 CHR ''1'')"

definition sample_push :: normalized_event where
  "sample_push = Push \<lparr>pe_slug = Slug ''a/b'', pe_git_ref = ''refs/heads/main'', pe_sha = other_sha,
     pe_pusher = None, pe_display = \<lparr>rd_name = None, rd_description = None, rd_web_url = None,
       rd_default_branch = None\<rparr>\<rparr>"

definition sample_provider :: provider where
  "sample_provider = \<lparr>verify_signature = (\<lambda>hs body secret. if hs = [(''sig'', secret)] then None else Some BadSignature),
     parse_event = (\<lambda>hs body. Inr (Some sample_push)),
     query_user_permission = (\<lambda>slug user. Inl Unauthorised), post_check = (\<lambda>post. None)\<rparr>"

definition sample_snapshot :: config_snapshot where
  "sample_snapshot = \<lparr>sn_config = sample_config\<lparr>
       cf_forges := [(''github'', \<lparr>fc_kind = Github, fc_web_url = ''https://github.com/'', fc_token_path = None,
         fc_app_id = None, fc_app_private_key_path = None\<rparr>)],
       cf_repos := [\<lparr>rc_slug = Slug ''a/b'', rc_forge = ''github'', rc_watched_branches = [''main''],
         rc_build_prs = True, rc_pr_allowlist = [],
         rc_clone = \<lparr>cl_method = Https, cl_ssh_key_path = None, cl_persistent = False\<rparr>,
         rc_eval = \<lparr>eo_memory_max = None, eo_timeout_seconds = None, eo_non_flake_max_depth = None,
           eo_allow_network = None\<rparr>,
         rc_collapsed_check_threshold = None, rc_weight = 1, rc_max_age_days = None,
         rc_push_to_registries = []\<rparr>]\<rparr>,
     sn_providers = [(''github'', sample_provider)]\<rparr>"

definition sample_app :: "store \<Rightarrow> app_state" where
  "sample_app s = \<lparr>as_current = sample_snapshot, as_store = s, as_work_dispatcher = [],
     as_coalesce = coalesce_new 5, as_pauses = [],
     as_cancellations = snd (cancel_register (EvalId 1) cancel_registry_new), as_post_tasks = []\<rparr>"

lemma other_sha_ok: "sha_new (sha_str other_sha) = Inr other_sha" "sample_sha \<noteq> other_sha"
  by (simp_all add: sha_new_def other_sha_def sample_sha_def chars_ascii list_all_iff
      is_ascii_hexdigit_def is_ascii_digit_def to_ascii_lowercase_def)

lemma sample_push_fields:
  "event_fields sample_push = (Slug ''a/b'', ''main'', other_sha, ''push'', None)"
  by (simp add: event_fields_def sample_push_def strip_prefix_def starts_with_def)

lemma sample_store_repo: "has_repo 1 (sample_store S)"
  by (simp add: sample_store_def store_new_def sample_new_eval_def sample_new_job_def
      sample_new_builder_def store_defs find_repo_def has_repo_def has_eval_def find_builder_def)

theorem push_supersedes_branch_witness:
  "map e_status (st_evals (as_store
      (snd (persist 7 ''github'' sample_push (RepoId 1) (sample_app (sample_store sample_serde))))))
     = [''cancelled'', ''queued'']
   \<and> token_is_cancelled 0 (as_cancellations
      (snd (persist 7 ''github'' sample_push (RepoId 1) (sample_app (sample_store sample_serde)))))"
proof -
  let ?st = "sample_app (sample_store sample_serde)"
  let ?p = "persist 7 ''github'' sample_push (RepoId 1) ?st"
  have ok: "store_ok sample_serde (as_store ?st)"
    using fresh_store_ok [OF sample_serde_ok sample_ops_valid] by (simp add: sample_run_eq sample_app_def)
  have c: "cancel_ok (as_cancellations ?st)"
    by (simp add: sample_app_def cancel_ok_register cancel_ok_new)
  have adm: "fst (admit_at (RepoId 1) other_sha 7 (as_coalesce ?st))"
    by (simp add: admit_at_def sample_app_def coalesce_new_def Let_def)
  have repo: "has_repo (repo_get (RepoId 1)) (as_store ?st)"
    by (simp add: sample_app_def sample_store_repo)
  have sup: "superseded (RepoId 1) ''main'' other_sha (hd (st_evals (as_store ?st)))"
    by (simp add: superseded_def sample_app_def sample_evals branch_key_def sample_values other_sha_ok)
  have tok: "hm_get (cr_inner (as_cancellations ?st)) (EvalId 1) = Some 0"
    by (simp add: sample_app_def cancel_register_def cancel_registry_new_def)
  note T = push_supersedes_branch [OF ok repo c sample_push_fields adm prod.collapse [symmetric],
      of "''github''"]
  obtain e where e: "st_evals (as_store ?st) = [e]" "e_id e = 1"
    by (simp add: sample_app_def sample_evals)
  with sup have sup': "superseded (RepoId 1) ''main'' other_sha e" by simp
  from T e obtain n where n: "st_evals (as_store (snd ?p)) = [cancelled_row 7 e] @ [n]"
    "e_status n = ''queued''" using sup' by auto
  have "\<exists>i\<in>set (st_evals (as_store ?st)). EvalId 1 = EvalId (e_id i) \<and> superseded (RepoId 1) ''main'' other_sha i"
    using e sup' by simp
  with T tok have "token_is_cancelled 0 (as_cancellations (snd ?p))" by blast
  with n show ?thesis by simp
qed

text \<open>The same push as a signed request.\<close>

definition sample_decode :: "bytes \<Rightarrow> string + payload_preview" where
  "sample_decode body = Inr \<lparr>pp_full_name = Some ''a/b'', pp_path_with_namespace = None\<rparr>"

definition provisioned_store :: store where
  "provisioned_store = set_webhook (RepoId 1) ''key'' ''hook'' (sample_store sample_serde)"

lemma provisioned_repo: "\<exists>r. find_repo ''github'' (Slug ''a/b'') provisioned_store = Some r
    \<and> r_id r = 1 \<and> r_webhook_secret r = Some ''key'' \<and> st_repos provisioned_store = [r]"
  by (simp add: provisioned_store_def sample_store_def store_new_def sample_new_eval_def sample_new_job_def
      sample_new_builder_def store_defs find_repo_def has_repo_def has_eval_def find_builder_def
      update_where_def)

lemma sample_identify:
  "identify sample_decode ''github'' body (sample_app provisioned_store) =
     Inr (Slug ''a/b'', hd (cf_repos (sn_config sample_snapshot)), sample_provider, ''key'')"
  using provisioned_repo
  by (auto simp: identify_def kind_of_path_def sample_decode_def sample_values find_repo_config_def
      sample_app_def sample_snapshot_def get_webhook_secret_def)

lemma provisioned_evals: "st_evals provisioned_store = st_evals (sample_store sample_serde)"
  by (simp add: provisioned_store_def set_webhook_def)

lemma sample_active:
  assumes "st_evals s = st_evals (sample_store sample_serde)"
  shows "\<exists>active. list_active_by_branch_key (RepoId 1) (branch_key ''main'') s = Inr active"
  by (simp add: list_active_by_branch_key_def assms sample_evals branch_key_def Let_def map_results_def
      map_eval_def to_sha_def sample_values to_eval_status_def bind_result_def)

lemma sample_persist_dispatches:
  assumes "st_evals (as_store st) = st_evals (sample_store sample_serde)" "has_repo 1 (as_store st)"
    and "as_coalesce st = coalesce_new 5" "as_work_dispatcher st = []"
  shows "as_work_dispatcher (snd (persist 7 ''github'' sample_push (RepoId 1) st)) \<noteq> []"
proof -
  obtain active where active: "list_active_by_branch_key (RepoId 1) (branch_key ''main'') (as_store st) = Inr active"
    using sample_active [OF assms(1)] by blast
  obtain pool where pool: "admit_at (RepoId 1) other_sha 7 (as_coalesce st) = (True, pool)"
    by (simp add: admit_at_def assms(3) coalesce_new_def Let_def)
  let ?prevs = "filter (\<lambda>x. er_sha x \<noteq> other_sha) active"
  have "has_repo (repo_get (RepoId 1)) (as_store (fold (cancel_superseded 7) ?prevs (st\<lparr>as_coalesce := pool\<rparr>)))"
    using arg_cong [OF supersede_all(2) [of 7 ?prevs "st\<lparr>as_coalesce := pool\<rparr>"], of st_repos] assms(2)
    by (simp add: has_repo_def)
  from persist_admitted(4) [OF sample_push_fields pool active refl this prod.collapse [symmetric] refl]
  show ?thesis by simp
qed

theorem webhook_builds_only_authorised_witness:
  "\<exists>secret. get_webhook_secret ''github'' (Slug ''a/b'') provisioned_store = Some secret
     \<and> verify_signature sample_provider [(''sig'', ''key'')] ''body'' secret = None
     \<and> authorised sample_provider (hd (cf_repos (sn_config sample_snapshot))) sample_push"
proof -
  let ?st = "sample_app provisioned_store"
  let ?repo = "hd (cf_repos (sn_config sample_snapshot))"
  obtain s where s: "repo_upsert ''github'' (Slug ''a/b'') provisioned_store = (RepoId 1, s)"
    "st_evals s = st_evals provisioned_store" "has_repo 1 s"
    using provisioned_repo by (auto simp: repo_upsert_def has_repo_def update_where_def)
  have repo: "rc_forge ?repo = ''github''" "rc_watched_branches ?repo = [''main'']"
    by (simp_all add: sample_snapshot_def)
  have provider: "verify_signature sample_provider [(''sig'', ''key'')] ''body'' ''key'' = None"
    "parse_event sample_provider [(''sig'', ''key'')] ''body'' = Inr (Some sample_push)"
    by (simp_all add: sample_provider_def)
  have verdict: "policy_evaluate sample_provider ?repo sample_push ''github'' 7 p = (Build, p)" for p
    by (simp add: policy_evaluate_def sample_push_def evaluate_push_def branch_matches_def repo
        starts_with_def)
  let ?st2 = "?st\<lparr>as_store := refresh_repo_metadata (RepoId 1) sample_push s\<rparr>"
  obtain code where h: "handle sample_decode 7 ''github'' [(''sig'', ''key'')] ''body'' ?st
      = (code, snd (persist 7 ''github'' sample_push (RepoId 1) ?st2))"
  proof -
    have "as_store ?st = provisioned_store" by (simp add: sample_app_def)
    obtain res st3 where "persist 7 ''github'' sample_push (RepoId 1) ?st2 = (res, st3)" by fastforce
    with \<open>as_store ?st = provisioned_store\<close> show ?thesis
      by (cases res; intro that)
        (simp_all add: handle_def handle_inner_def sample_identify provider repo s Let_def verdict)
  qed
  have "as_work_dispatcher (snd (persist 7 ''github'' sample_push (RepoId 1) ?st2)) \<noteq> []"
  proof (rule sample_persist_dispatches)
    show "has_repo 1 (as_store ?st2)"
      using s(3)
      by (simp add: has_ids repo_ids_def refresh_repo_metadata_def set_metadata_def Let_def update_where_key_set)
  qed (simp_all add: s provisioned_evals sample_app_def)
  then have changed: "as_work_dispatcher (snd (persist 7 ''github'' sample_push (RepoId 1) ?st2)) \<noteq> as_work_dispatcher ?st"
    by (simp add: sample_app_def)
  from webhook_builds_only_authorised [OF h disjI2 [OF changed]] provider(2)
  show ?thesis by (simp add: sample_app_def sample_snapshot_def)
qed

end
