(* ===== verification/Evaluator.thy ===== *)
theory Evaluator
  imports Names Text
begin

text \<open>
  The crate \<open>argunix-eval\<close>: the job records of \<open>jobspec.rs\<close>, the runner of \<open>nix-eval-jobs\<close>
  (\<open>runner.rs\<close>) and the walk of derivation closures (\<open>closure.rs\<close>).

  The subprocesses are a parameter \<open>run\<close> from an argument vector to what became of the process, and
  \<open>serde_json\<close> is a parameter from text to a decoded record. Everything else (which
  processes are started, how their output and exit codes are interpreted, the graph search) is
  defined here.
\<close>

section \<open>JSON values and processes\<close>

datatype json = JsonNull | JsonBool bool | JsonNumber string | JsonString string
  | JsonArray "json list" | JsonObject "(string \<times> json) list"

fun json_get :: "string \<Rightarrow> json \<Rightarrow> json option" where
  "json_get k (JsonObject m) = map_of m k"
| "json_get k _ = None"

fun json_as_str :: "json \<Rightarrow> string option" where
  "json_as_str (JsonString s) = Some s"
| "json_as_str _ = None"

text \<open>What becomes of a child process: it cannot be started, reading its pipes fails or exceeds the
  wall clock, waiting for it fails or takes more than five seconds, or it exits. The exit code is
  \<open>None\<close> when a signal killed it.\<close>

datatype process = SpawnFailed string | ReadFailed string | ReadTimeout | WaitFailed string
  | WaitTimeout | Exited "int option" string string

section \<open>Job specifications\<close>

record raw_job =
  raw_attr :: string
  raw_drv_path :: "string option"
  raw_system :: "string option"
  raw_error :: "string option"
  raw_outputs :: "(string \<times> string) list"
  raw_meta :: json
  raw_is_cached :: bool
  raw_required_features :: "string list"

record job_spec =
  js_attr_path :: string
  js_drv_path :: "string option"
  js_system :: "string option"
  js_error :: "string option"
  js_outputs :: "(string \<times> string) list"
  js_meta :: json
  js_is_cached :: bool
  js_required_features :: "string list"
  js_image_format :: "image_format option"

definition primary_output :: "job_spec \<Rightarrow> string option" where
  "primary_output spec =
     (case map_of (js_outputs spec) ''out'' of
        Some p \<Rightarrow> Some p
      | None \<Rightarrow> (case js_outputs spec of [] \<Rightarrow> None | (_, p) # _ \<Rightarrow> Some p))"

definition meta_image_format :: "json \<Rightarrow> image_format option" where
  "meta_image_format meta =
     (case json_get ''image-format'' meta of
        None \<Rightarrow> None
      | Some raw \<Rightarrow>
          (case json_as_str raw of
             None \<Rightarrow> None
           | Some s \<Rightarrow> (case image_from_str s of Inr fmt \<Rightarrow> Some fmt | Inl _ \<Rightarrow> None)))"

datatype parse_error = ParseJson nat string

definition spec_of_raw :: "string \<Rightarrow> raw_job \<Rightarrow> job_spec" where
  "spec_of_raw prefix raw =
     \<lparr>js_attr_path = (if raw_attr raw = [] then prefix else prefix @ ''.'' @ raw_attr raw),
      js_drv_path = raw_drv_path raw, js_system = raw_system raw, js_error = raw_error raw,
      js_outputs = raw_outputs raw, js_meta = raw_meta raw, js_is_cached = raw_is_cached raw,
      js_required_features = raw_required_features raw,
      js_image_format = meta_image_format (raw_meta raw)\<rparr>"

fun parse_from :: "(string \<Rightarrow> string + raw_job) \<Rightarrow> string \<Rightarrow> nat \<Rightarrow> string list \<Rightarrow>
    parse_error + job_spec list" where
  "parse_from decode prefix idx [] = Inr []"
| "parse_from decode prefix idx (line # rest) =
     (let trimmed = trim line in
      if trimmed = [] then parse_from decode prefix (idx + 1) rest
      else case decode trimmed of
        Inl e \<Rightarrow> Inl (ParseJson (idx + 1) e)
      | Inr raw \<Rightarrow>
          (case parse_from decode prefix (idx + 1) rest of
             Inl e \<Rightarrow> Inl e
           | Inr specs \<Rightarrow> Inr (spec_of_raw prefix raw # specs)))"

definition parse_lines :: "(string \<Rightarrow> string + raw_job) \<Rightarrow> string \<Rightarrow> string \<Rightarrow>
    parse_error + job_spec list" where
  "parse_lines decode prefix body = parse_from decode prefix 0 (lines body)"

section \<open>Running nix-eval-jobs\<close>

datatype eval_error = MissingSource string | NotAFlake string | EvalSpawn string | EvalIo string
  | EvalSubprocess string "int option" string | EvalTimeout string nat | EvalParse string parse_error

datatype fragment_kind = PerSystem | Select string

record flake_output =
  fo_name :: string
  fo_kind :: fragment_kind

record eval_request =
  rq_source_path :: string
  rq_systems :: "string list"
  rq_outputs :: "flake_output list"
  rq_timeout :: nat
  rq_gc_roots_dir :: "string option"

definition default_flake_outputs :: "flake_output list" where
  "default_flake_outputs =
     [\<lparr>fo_name = ''packages'', fo_kind = PerSystem\<rparr>,
      \<lparr>fo_name = ''checks'', fo_kind = PerSystem\<rparr>,
      \<lparr>fo_name = ''devShells'', fo_kind = PerSystem\<rparr>,
      \<lparr>fo_name = ''nixosConfigurations'', fo_kind = Select ''c.config.system.build.toplevel''\<rparr>,
      \<lparr>fo_name = ''homeConfigurations'', fo_kind = Select ''c.activationPackage''\<rparr>]"

definition for_local_flake :: "string \<Rightarrow> string list \<Rightarrow> eval_request" where
  "for_local_flake source_path systems =
     \<lparr>rq_source_path = source_path, rq_systems = systems, rq_outputs = default_flake_outputs,
      rq_timeout = 600, rq_gc_roots_dir = None\<rparr>"

fun contains :: "string \<Rightarrow> string \<Rightarrow> bool" where
  "contains p [] = (p = [])"
| "contains p (c # s) = (starts_with p (c # s) \<or> contains p s)"

definition stderr_indicates_missing_fragment :: "string \<Rightarrow> int option \<Rightarrow> string \<Rightarrow> bool" where
  "stderr_indicates_missing_fragment fragment code stderr =
     (if trim stderr = [] then code \<noteq> None
      else contains (''does not provide attribute '' @ [CHR 0x27] @ fragment @ [CHR 0x27]) stderr)"

text \<open>The document \<open>nix derivation show --recursive\<close> prints, as \<open>closure.rs\<close> decodes it; the keys of
  \<open>inputs.drvs\<close> are all it keeps of the inputs.\<close>

record raw_drv =
  rd_system :: string
  rd_input_drvs :: "string list"
  rd_required_features :: "string option"

record show_doc =
  sd_version :: "nat option"
  sd_derivations :: "(string, raw_drv) hashmap"

text \<open>The world a request runs in: which paths exist, the error of creating a directory if there is
  one, the processes and the two decoders.\<close>

record eval_world =
  path_exists :: "string \<Rightarrow> bool"
  create_dir_all :: "string \<Rightarrow> string option"
  run_process :: "string list \<Rightarrow> process"
  decode_job :: "string \<Rightarrow> string + raw_job"
  decode_show :: "string \<Rightarrow> string + show_doc"

text \<open>One invocation: the flake fragment, the prefix of the attribute paths and the \<open>--select\<close>
  function.\<close>

type_synonym invocation = "string option \<times> string \<times> string option"

definition flake_uri :: "string \<Rightarrow> string option \<Rightarrow> string" where
  "flake_uri source suffix =
     (case suffix of Some f \<Rightarrow> source @ ''#'' @ f | None \<Rightarrow> source)"

definition eval_argv :: "eval_request \<Rightarrow> invocation \<Rightarrow> string list" where
  "eval_argv rq = (\<lambda>(suffix, _, select).
     [''nix-eval-jobs'', ''--extra-experimental-features'', ''nix-command flakes'', ''--flake'',
      flake_uri (rq_source_path rq) suffix, ''--meta'', ''--check-cache-status'']
     @ (case select of Some expr \<Rightarrow> [''--select'', expr] | None \<Rightarrow> [])
     @ (case rq_gc_roots_dir rq of Some dir \<Rightarrow> [''--gc-roots-dir'', dir] | None \<Rightarrow> []))"

definition run_one :: "eval_world \<Rightarrow> eval_request \<Rightarrow> invocation \<Rightarrow> eval_error + job_spec list" where
  "run_one w rq iv =
     (let attr_prefix = fst (snd iv) in
      case run_process w (eval_argv rq iv) of
        SpawnFailed e \<Rightarrow> Inl (EvalSpawn e)
      | ReadFailed e \<Rightarrow> Inl (EvalIo e)
      | ReadTimeout \<Rightarrow> Inl (EvalTimeout attr_prefix (rq_timeout rq))
      | WaitFailed e \<Rightarrow> Inl (EvalIo e)
      | WaitTimeout \<Rightarrow> Inl (EvalTimeout attr_prefix (rq_timeout rq))
      | Exited code stdout stderr \<Rightarrow>
          if code \<noteq> Some 0 then
            (if stderr_indicates_missing_fragment attr_prefix code stderr then Inr []
             else Inl (EvalSubprocess attr_prefix code stderr))
          else (case parse_lines (decode_job w) attr_prefix stdout of
                  Inl e \<Rightarrow> Inl (EvalParse attr_prefix e)
                | Inr specs \<Rightarrow> Inr specs))"

definition select_fn :: "string \<Rightarrow> string \<Rightarrow> string" where
  "select_fn value_expr name =
     ''f: builtins.mapAttrs (_: c: '' @ value_expr @ '') (f.outputs.'' @ name @ '' or {})''"

definition invocations_of :: "string list \<Rightarrow> flake_output \<Rightarrow> invocation list" where
  "invocations_of systems output =
     (case fo_kind output of
        PerSystem \<Rightarrow>
          map (\<lambda>system. let fragment = fo_name output @ ''.'' @ system
                         in (Some fragment, fragment, None)) systems
      | Select value_expr \<Rightarrow> [(None, fo_name output, Some (select_fn value_expr (fo_name output)))])"

fun run_all :: "eval_world \<Rightarrow> eval_request \<Rightarrow> invocation list \<Rightarrow> eval_error + job_spec list" where
  "run_all w rq [] = Inr []"
| "run_all w rq (iv # ivs) =
     (case run_one w rq iv of
        Inl e \<Rightarrow> Inl e
      | Inr produced \<Rightarrow>
          (case run_all w rq ivs of Inl e \<Rightarrow> Inl e | Inr jobs \<Rightarrow> Inr (produced @ jobs)))"

definition all_invocations :: "eval_request \<Rightarrow> invocation list" where
  "all_invocations rq =
     concat (map (invocations_of (rq_systems rq))
       (if rq_outputs rq = [] then default_flake_outputs else rq_outputs rq))"

definition evaluate :: "eval_world \<Rightarrow> eval_request \<Rightarrow> eval_error + job_spec list" where
  "evaluate w rq =
     (if \<not> path_exists w (rq_source_path rq) then Inl (MissingSource (rq_source_path rq))
      else if \<not> path_exists w (path_join (rq_source_path rq) ''flake.nix'')
        then Inl (NotAFlake (rq_source_path rq))
      else case (case rq_gc_roots_dir rq of None \<Rightarrow> None | Some dir \<Rightarrow> create_dir_all w dir) of
             Some e \<Rightarrow> Inl (EvalIo e)
           | None \<Rightarrow> run_all w rq (all_invocations rq))"

section \<open>Derivation closures\<close>

datatype closure_error = ClosureSpawn string | ClosureIo string | ClosureNonZero "int option" string
  | ClosureTimeout nat | ClosureParse string | UnsupportedVersion nat "nat list"

record closure_walk =
  cw_heads :: "string list"
  cw_derivations :: "(string, derivation_info) hashmap"

definition default_store_dir :: string where
  "default_store_dir = ''/nix/store''"

definition supported_versions :: "nat list" where
  "supported_versions = [3, 4]"

definition detect_store_dir :: "string list \<Rightarrow> string" where
  "detect_store_dir heads =
     (case heads of
        [] \<Rightarrow> default_store_dir
      | h # _ \<Rightarrow> (case path_parent h of Some p \<Rightarrow> p | None \<Rightarrow> default_store_dir))"

definition unsupported :: "nat option \<Rightarrow> nat option" where
  "unsupported version =
     (case version of
        None \<Rightarrow> None
      | Some v \<Rightarrow> if v \<in> set supported_versions then None else Some v)"

definition derivation_of :: "string \<Rightarrow> string \<Rightarrow> raw_drv \<Rightarrow> derivation_info" where
  "derivation_of store_dir basename raw =
     \<lparr>drv_path = store_dir @ ''/'' @ basename, drv_system = Some (rd_system raw),
      drv_required_features =
        (case rd_required_features raw of Some s \<Rightarrow> split_whitespace s | None \<Rightarrow> []),
      drv_input_drvs = map (\<lambda>k. store_dir @ ''/'' @ k) (rd_input_drvs raw)\<rparr>"

definition closure_parse :: "(string \<Rightarrow> string + show_doc) \<Rightarrow> string \<Rightarrow> string list \<Rightarrow>
    closure_error + closure_walk" where
  "closure_parse decode text heads =
     (let store_dir = detect_store_dir heads in
      case decode text of
        Inl e \<Rightarrow> Inl (ClosureParse e)
      | Inr doc \<Rightarrow>
          (case unsupported (sd_version doc) of
             Some v \<Rightarrow> Inl (UnsupportedVersion v supported_versions)
           | None \<Rightarrow> Inr \<lparr>cw_heads = heads, cw_derivations =
               fold (\<lambda>(basename, raw). hm_insert (store_dir @ ''/'' @ basename)
                   (derivation_of store_dir basename raw)) (sd_derivations doc) []\<rparr>))"

definition show_argv :: "string list \<Rightarrow> string list" where
  "show_argv heads =
     [''nix'', ''--extra-experimental-features'', ''nix-command'', ''derivation'', ''show'',
      ''--recursive''] @ heads"

definition walk_closures :: "eval_world \<Rightarrow> string list \<Rightarrow> nat \<Rightarrow> closure_error + closure_walk" where
  "walk_closures w heads wall_clock =
     (if heads = [] then Inr \<lparr>cw_heads = [], cw_derivations = []\<rparr>
      else case run_process w (show_argv heads) of
        SpawnFailed e \<Rightarrow> Inl (ClosureSpawn e)
      | ReadFailed e \<Rightarrow> Inl (ClosureIo e)
      | ReadTimeout \<Rightarrow> Inl (ClosureTimeout wall_clock)
      | WaitFailed e \<Rightarrow> Inl (ClosureIo e)
      | WaitTimeout \<Rightarrow> Inl (ClosureTimeout wall_clock)
      | Exited code stdout stderr \<Rightarrow>
          if code \<noteq> Some 0 then Inl (ClosureNonZero code stderr)
          else closure_parse (decode_show w) stdout heads)"

text \<open>The \<open>while let\<close> loop of \<open>closure_for\<close>: \<open>queue.pop\<close> takes the last element. Each turn visits a new
  node of the map or shortens the queue.\<close>

function closure_loop :: "(string, derivation_info) hashmap \<Rightarrow> string set \<Rightarrow> string list \<Rightarrow>
    derivation_info list \<Rightarrow> derivation_info list" where
  "closure_loop m visited queue out =
     (if queue = [] then out
      else let drv = last queue; rest = butlast queue in
        if drv \<in> visited then closure_loop m visited rest out
        else (case hm_get m drv of
                None \<Rightarrow> closure_loop m (insert drv visited) rest out
              | Some info \<Rightarrow>
                  closure_loop m (insert drv visited) (rest @ drv_input_drvs info) (out @ [info])))"
  by pat_completeness auto
termination
proof (relation "measures [\<lambda>(m, visited, _, _). card (set (map fst m) - visited),
    \<lambda>(_, _, queue, _). length queue]", goal_cases)
  case (3 m visited queue out drv rest)
  then have "set (map fst m) - insert drv visited = set (map fst m) - visited"
    by (auto simp: map_of_eq_None_iff)
  with 3 show ?case by simp
next
  case (4 m visited queue out drv rest info)
  then have "drv \<in> set (map fst m) - visited"
    by (metis DiffI map_of_eq_None_iff option.distinct(1) set_map)
  then have "set (map fst m) - insert drv visited \<subset> set (map fst m) - visited" by blast
  then show ?case by (simp add: psubset_card_mono)
qed auto

declare closure_loop.simps [simp del]

definition closure_for :: "closure_walk \<Rightarrow> string \<Rightarrow> derivation_info list" where
  "closure_for w head =
     closure_loop (cw_derivations w) {head}
       (case hm_get (cw_derivations w) head of Some d \<Rightarrow> drv_input_drvs d | None \<Rightarrow> []) []"

section \<open>Correctness of the closure search\<close>

text \<open>The graph the search runs on: an edge from a derivation of the map to each of its inputs.\<close>

definition dep_edges :: "(string, derivation_info) hashmap \<Rightarrow> (string \<times> string) set" where
  "dep_edges m = {(a, b). \<exists>i. hm_get m a = Some i \<and> b \<in> set (drv_input_drvs i)}"

definition infos :: "(string, derivation_info) hashmap \<Rightarrow> string set \<Rightarrow> derivation_info set" where
  "infos m ds = {i. \<exists>d\<in>ds. hm_get m d = Some i}"

lemma infos_insert [simp]:
  "infos m (insert d ds) = (case hm_get m d of None \<Rightarrow> infos m ds | Some i \<Rightarrow> insert i (infos m ds))"
  by (auto simp: infos_def split: option.splits)

lemma closed_contains_reachable:
  assumes "(h, d) \<in> E\<^sup>*" and "h \<in> V" and "E `` V \<subseteq> V"
  shows "d \<in> V"
  using assms by (induction rule: rtrancl_induct) auto

lemma snoc_set: "q \<noteq> [] \<Longrightarrow> set q = insert (last q) (set (butlast q))"
  by (cases q rule: rev_cases) auto

lemma closure_loop_reachable:
  assumes "h \<in> visited" and "visited \<union> set queue \<subseteq> (dep_edges m)\<^sup>* `` {h}"
    and "dep_edges m `` visited \<subseteq> visited \<union> set queue" and "set out = infos m (visited - {h})"
  shows "set (closure_loop m visited queue out) = infos m ((dep_edges m)\<^sup>* `` {h} - {h})"
  using assms
proof (induction m visited queue out rule: closure_loop.induct)
  case (1 m visited queue out)
  show ?case
  proof (cases "queue = []")
    case True
    then have "visited = (dep_edges m)\<^sup>* `` {h}"
      using "1.prems" closed_contains_reachable [of h _ "dep_edges m" visited] by auto
    with True "1.prems"(4) show ?thesis by (simp add: closure_loop.simps [of m _ "[]"])
  next
    case False
    note q = snoc_set [OF False] and step = closure_loop.simps [of m visited queue out]
    let ?d = "last queue"
    show ?thesis
    proof (cases "?d \<in> visited")
      case True
      then show ?thesis using 1(1) [OF False refl refl True] "1.prems" False q by (auto simp: step Let_def)
    next
      case new: False
      have ne: "?d \<noteq> h" using new "1.prems"(1) by blast
      show ?thesis
      proof (cases "hm_get m ?d")
        case None
        then have "dep_edges m `` {?d} = {}" by (auto simp: dep_edges_def)
        then show ?thesis
          using 1(2) [OF False refl refl new None] "1.prems" False new None q ne
          by (auto simp: step Let_def insert_Diff_if)
      next
        case (Some i)
        have "dep_edges m `` {?d} = set (drv_input_drvs i)" using Some by (auto simp: dep_edges_def)
        moreover have "(h, ?d) \<in> (dep_edges m)\<^sup>*" using "1.prems"(2) q by auto
        ultimately show ?thesis
          using 1(3) [OF False refl refl new Some] "1.prems" False new Some q ne
          by (auto simp: step Let_def insert_Diff_if intro: rtrancl_into_rtrancl)
      qed
    qed
  qed
qed

text \<open>Every walk that \<open>parse\<close> returns files a derivation under its own path.\<close>

definition self_keyed :: "(string, derivation_info) hashmap \<Rightarrow> bool" where
  "self_keyed m \<longleftrightarrow> (\<forall>d i. hm_get m d = Some i \<longrightarrow> drv_path i = d)"

lemma self_keyed_insert:
  "self_keyed m \<Longrightarrow> drv_path i = d \<Longrightarrow> self_keyed (hm_insert d i m)"
  by (simp add: self_keyed_def hm_simps)

lemma drv_path_derivation_of [simp]: "drv_path (derivation_of dir name raw) = dir @ ''/'' @ name"
  by (simp add: derivation_of_def)

lemma closure_parse_self_keyed:
  assumes "closure_parse decode text heads = Inr w"
  shows "self_keyed (cw_derivations w)"
proof -
  have "self_keyed m \<Longrightarrow> self_keyed (fold (\<lambda>(basename, raw). hm_insert (dir @ ''/'' @ basename)
      (derivation_of dir basename raw)) ds m)" for dir ds m
    by (induction ds arbitrary: m) (auto simp: self_keyed_insert)
  moreover have "self_keyed []" by (simp add: self_keyed_def)
  ultimately show ?thesis
    using assms by (auto simp: closure_parse_def Let_def split: sum.splits option.splits)
qed

lemma walk_closures_self_keyed:
  "walk_closures ew heads t = Inr w \<Longrightarrow> self_keyed (cw_derivations w)"
  by (auto simp: walk_closures_def self_keyed_def split: if_splits process.splits
      dest: closure_parse_self_keyed [unfolded self_keyed_def])

lemma closure_loop_distinct:
  assumes "self_keyed m" and "distinct (map drv_path out)" and "drv_path ` set out \<subseteq> visited"
  shows "distinct (map drv_path (closure_loop m visited queue out))"
  using assms
proof (induction m visited queue out rule: closure_loop.induct)
  case (1 m visited queue out)
  show ?case
  proof (cases "queue = [] \<or> last queue \<in> visited \<or> hm_get m (last queue) = None")
    case True
    then show ?thesis
      using 1(1) [OF _ refl refl] 1(2) [OF _ refl refl] "1.prems"
      by (subst closure_loop.simps) (auto simp: Let_def subset_insertI2)
  next
    case False
    then obtain i where i: "queue \<noteq> []" "last queue \<notin> visited" "hm_get m (last queue) = Some i"
      by auto
    with 1(4) have "drv_path i = last queue" by (simp add: self_keyed_def)
    with i "1.prems" have "distinct (map drv_path (out @ [i]))"
      "drv_path ` set (out @ [i]) \<subseteq> insert (last queue) visited"
      by auto
    with 1(3) [OF i(1) refl refl i(2,3) "1.prems"(1)] i show ?thesis
      by (subst closure_loop.simps) (simp add: Let_def)
  qed
qed

lemma dep_edges_head:
  "dep_edges m `` {h} = set (case hm_get m h of Some d \<Rightarrow> drv_input_drvs d | None \<Rightarrow> [])"
  by (cases "hm_get m h") (auto simp: dep_edges_def)

lemma closure_for_set:
  "set (closure_for w h) = infos (cw_derivations w) ((dep_edges (cw_derivations w))\<^sup>* `` {h} - {h})"
  unfolding closure_for_def
  by (rule closure_loop_reachable) (use dep_edges_head [of "cw_derivations w" h] in \<open>auto simp: infos_def\<close>)

text \<open>C13. The search of the closure of a head always ends, and on a walk read from
  \<open>nix derivation show\<close> it lists exactly the derivations of the walk, other than the head, that the head reaches
  through inputs, each once.\<close>

theorem closure_for_is_exact:
  assumes "walk_closures ew heads t = Inr w"
  shows "set (map drv_path (closure_for w h)) =
      {d. d \<noteq> h \<and> hm_get (cw_derivations w) d \<noteq> None \<and> (h, d) \<in> (dep_edges (cw_derivations w))\<^sup>*}
    \<and> distinct (map drv_path (closure_for w h))
    \<and> (\<forall>i\<in>set (closure_for w h). hm_get (cw_derivations w) (drv_path i) = Some i)"
proof -
  have keyed: "self_keyed (cw_derivations w)" by (rule walk_closures_self_keyed [OF assms])
  then have "distinct (map drv_path (closure_for w h))"
    unfolding closure_for_def by (rule closure_loop_distinct) simp_all
  with keyed show ?thesis
    unfolding set_map closure_for_set by (auto simp: infos_def self_keyed_def image_iff)
qed

section \<open>Correctness of the evaluation\<close>

lemma run_all_Inr_iff:
  "run_all w rq ivs = Inr jobs \<longleftrightarrow>
     (\<exists>ps. map (run_one w rq) ivs = map Inr ps \<and> jobs = concat ps)"
proof (induction ivs arbitrary: jobs)
  case (Cons iv ivs)
  show ?case
  proof (cases "run_one w rq iv")
    case (Inr p)
    then have "run_all w rq (iv # ivs) = Inr jobs \<longleftrightarrow> (\<exists>rest. run_all w rq ivs = Inr rest \<and> jobs = p @ rest)"
      by (auto split: sum.splits)
    also have "\<dots> \<longleftrightarrow> (\<exists>ps. map (run_one w rq) ivs = map Inr ps \<and> jobs = concat (p # ps))"
      by (auto simp: Cons.IH)
    also have "\<dots> \<longleftrightarrow> (\<exists>ps. map (run_one w rq) (iv # ivs) = map Inr ps \<and> jobs = concat ps)"
      using Inr by (auto simp: Cons_eq_map_conv)
    finally show ?thesis .
  qed auto
qed auto

lemma parse_from_prefix:
  "parse_from decode prefix idx ls = Inr specs \<Longrightarrow> s \<in> set specs \<Longrightarrow> starts_with prefix (js_attr_path s)"
  by (induction ls arbitrary: idx specs)
     (auto simp: Let_def spec_of_raw_def starts_with_def split: if_splits sum.splits)

text \<open>When a process counts as having answered: it exited with success and its output parsed, or it
  exited in the way that means the flake has no such output.\<close>

definition answered :: "eval_world \<Rightarrow> eval_request \<Rightarrow> invocation \<Rightarrow> job_spec list \<Rightarrow> bool" where
  "answered w rq iv specs \<longleftrightarrow>
     (\<exists>code out err. run_process w (eval_argv rq iv) = Exited code out err
        \<and> (code = Some 0 \<and> parse_lines (decode_job w) (fst (snd iv)) out = Inr specs
           \<or> code \<noteq> Some 0 \<and> specs = []
             \<and> stderr_indicates_missing_fragment (fst (snd iv)) code err))"

lemma run_one_Inr_iff: "run_one w rq iv = Inr specs \<longleftrightarrow> answered w rq iv specs"
  by (auto simp: run_one_def answered_def Let_def split: process.splits sum.splits)

lemma run_all_answered:
  "run_all w rq ivs = Inr jobs \<longleftrightarrow> (\<exists>ps. list_all2 (answered w rq) ivs ps \<and> jobs = concat ps)"
proof -
  have "map (run_one w rq) ivs = map Inr ps \<longleftrightarrow> list_all2 (answered w rq) ivs ps" for ps
    by (auto simp: run_one_Inr_iff [symmetric] list_all2_conv_all_nth list_eq_iff_nth_eq)
  then show ?thesis by (simp add: run_all_Inr_iff)
qed

lemma answered_prefix: "answered w rq iv specs \<Longrightarrow> s \<in> set specs \<Longrightarrow> starts_with (fst (snd iv)) (js_attr_path s)"
  by (auto simp: answered_def parse_lines_def dest: parse_from_prefix)

lemma killed_not_answered:
  "run_process w (eval_argv rq iv) = Exited None out err \<Longrightarrow> trim err = [] \<Longrightarrow> \<not> answered w rq iv specs"
  by (auto simp: answered_def stderr_indicates_missing_fragment_def)

text \<open>C38. An evaluation of an existing flake succeeds exactly when every \<open>nix-eval-jobs\<close>
  process it starts answered, and then its jobs are those of the processes in order, each under the prefix of its
  process. A process that a signal killed without a message fails the evaluation; it is
  never taken for an output the flake does not have.\<close>

theorem evaluate_is_all_or_error:
  assumes "path_exists w (rq_source_path rq)" and "path_exists w (path_join (rq_source_path rq) ''flake.nix'')"
    and "\<And>dir. rq_gc_roots_dir rq = Some dir \<Longrightarrow> create_dir_all w dir = None"
  shows "(evaluate w rq = Inr jobs \<longleftrightarrow>
        (\<exists>ps. list_all2 (answered w rq) (all_invocations rq) ps \<and> jobs = concat ps))
    \<and> (evaluate w rq = Inr jobs \<longrightarrow> (\<forall>s\<in>set jobs. \<exists>iv\<in>set (all_invocations rq).
         starts_with (fst (snd iv)) (js_attr_path s)))
    \<and> (iv \<in> set (all_invocations rq) \<and> run_process w (eval_argv rq iv) = Exited None out err
         \<and> trim err = [] \<longrightarrow> (\<exists>e. evaluate w rq = Inl e))"
proof -
  have ev: "evaluate w rq = run_all w rq (all_invocations rq)"
    using assms by (auto simp: evaluate_def split: option.splits)
  then have iff: "evaluate w rq = Inr js \<longleftrightarrow>
      (\<exists>ps. list_all2 (answered w rq) (all_invocations rq) ps \<and> js = concat ps)" for js
    by (simp add: run_all_answered)
  have "\<exists>e. evaluate w rq = Inl e" if killed: "iv \<in> set (all_invocations rq)"
    "run_process w (eval_argv rq iv) = Exited None out err" "trim err = []"
  proof (cases "evaluate w rq")
    case (Inr js)
    then obtain ps where ps: "list_all2 (answered w rq) (all_invocations rq) ps" using iff by blast
    obtain p where "answered w rq iv p" using list_all2_left [OF ps killed(1)] by blast
    with killed_not_answered [OF killed(2,3)] show ?thesis by blast
  qed blast
  moreover have "\<exists>iv\<in>set (all_invocations rq). starts_with (fst (snd iv)) (js_attr_path s)"
    if ok: "evaluate w rq = Inr jobs" and s: "s \<in> set jobs" for s
  proof -
    obtain ps where ps: "list_all2 (answered w rq) (all_invocations rq) ps" "jobs = concat ps"
      using ok iff by blast
    with s obtain p where p: "p \<in> set ps" "s \<in> set p" by auto
    obtain iv where "iv \<in> set (all_invocations rq)" "answered w rq iv p"
      using list_all2_right [OF ps(1) p(1)] by blast
    with p(2) show ?thesis using answered_prefix by blast
  qed
  ultimately show ?thesis using iff by blast
qed

section \<open>Concrete runs\<close>

text \<open>A world in which \<open>c\<close> depends on \<open>b\<close>, \<open>b\<close> on \<open>a\<close> and on \<open>ext\<close>, which is not in the walk; its
  evaluator prints one job for \<open>packages.x\<close> and is killed on \<open>checks.x\<close>.\<close>

definition sample_doc :: show_doc where
  "sample_doc = \<lparr>sd_version = Some 4, sd_derivations =
     [(''a'', \<lparr>rd_system = ''x'', rd_input_drvs = [], rd_required_features = None\<rparr>),
      (''b'', \<lparr>rd_system = ''x'', rd_input_drvs = [''a'', ''ext''], rd_required_features = None\<rparr>),
      (''c'', \<lparr>rd_system = ''x'', rd_input_drvs = [''b''], rd_required_features = None\<rparr>)]\<rparr>"

definition sample_raw :: raw_job where
  "sample_raw = \<lparr>raw_attr = ''hello'', raw_drv_path = Some ''/s/c'', raw_system = Some ''x'',
     raw_error = None, raw_outputs = [], raw_meta = JsonNull, raw_is_cached = False,
     raw_required_features = []\<rparr>"

definition sample_world :: eval_world where
  "sample_world = \<lparr>path_exists = (\<lambda>_. True), create_dir_all = (\<lambda>_. None),
     run_process = (\<lambda>argv. if hd argv = ''nix'' then Exited (Some 0) ''doc'' []
        else if ''src#packages.x'' \<in> set argv then Exited (Some 0) ''{}'' []
        else if ''src#checks.x'' \<in> set argv then Exited None [] []
        else Exited (Some 1) [] ''error: flake does not provide attribute''),
     decode_job = (\<lambda>_. Inr sample_raw), decode_show = (\<lambda>_. Inr sample_doc)\<rparr>"

definition sample_request :: "string list \<Rightarrow> eval_request" where
  "sample_request names = \<lparr>rq_source_path = ''src'', rq_systems = [''x''],
     rq_outputs = map (\<lambda>n. \<lparr>fo_name = n, fo_kind = PerSystem\<rparr>) names, rq_timeout = 600,
     rq_gc_roots_dir = None\<rparr>"

definition sample_walk :: closure_walk where
  "sample_walk = (case closure_parse (decode_show sample_world) ''doc'' [''/s/c''] of Inr w \<Rightarrow> w)"

lemma sample_walk: "walk_closures sample_world [''/s/c''] 9 = Inr sample_walk"
  by code_simp

theorem closure_for_is_exact_witness:
  "distinct (map drv_path (closure_for sample_walk ''/s/c''))
   \<and> map drv_path (closure_for sample_walk ''/s/c'') = [''/s/b'', ''/s/a'']"
proof
  show "distinct (map drv_path (closure_for sample_walk ''/s/c''))"
    using closure_for_is_exact [OF sample_walk] by blast
  show "map drv_path (closure_for sample_walk ''/s/c'') = [''/s/b'', ''/s/a'']" by code_simp
qed

lemma sample_line: "lines ''{}'' = [''{}'']" "trim ''{}'' = ''{}''"
  by (simp_all add: lines_def trim_def trim_start_def trim_end_def utf8_width_def
      span_is_whitespace_def is_whitespace_def)

lemmas sample_defs = sample_world_def sample_request_def all_invocations_def invocations_of_def
  eval_argv_def flake_uri_def

theorem evaluate_is_all_or_error_witness:
  "map_sum id (map js_attr_path) (evaluate sample_world (sample_request [''packages''])) = Inr [''packages.x.hello'']
   \<and> (\<exists>e. evaluate sample_world (sample_request [''packages'', ''checks'']) = Inl e)"
proof
  have "run_process sample_world (eval_argv (sample_request [''packages'', ''checks''])
      (Some ''checks.x'', ''checks.x'', None)) = Exited None [] []"
    "trim [] = []" "(Some ''checks.x'', ''checks.x'', None) \<in> set (all_invocations (sample_request [''packages'', ''checks'']))"
    by (simp_all add: sample_defs Let_def trim_def trim_start_def trim_end_def)
  moreover have "path_exists sample_world s" "create_dir_all sample_world s = None" for s
    by (simp_all add: sample_world_def)
  ultimately show "\<exists>e. evaluate sample_world (sample_request [''packages'', ''checks'']) = Inl e"
    using evaluate_is_all_or_error [of sample_world "sample_request [''packages'', ''checks'']"] by blast
  show "map_sum id (map js_attr_path) (evaluate sample_world (sample_request [''packages'']))
      = Inr [''packages.x.hello'']"
    by (simp add: evaluate_def sample_defs Let_def run_one_def parse_lines_def sample_line spec_of_raw_def
        sample_raw_def)
qed

end
