(* ===== verification/Worker.thy ===== *)
theory Worker
  imports Webhook Evaluator Dag_Props
begin

text \<open>
  The worker (\<open>argunix-daemon/src/worker.rs\<close>): persisting and resuming jobs, forge checks, and the
  build phase of one evaluation, which runs its jobs through its own \<open>DagStrategy\<close>.

  The database, the configuration and the registry of paused forges are those of the web server
  (\<open>app_state\<close>); others write them whenever the phase awaits. The tasks of the \<open>JoinSet\<close> are kept
  with their job, spec and token. The calls of \<open>tally.record\<close> are kept with their job in
  \<open>ph_verdicts\<close>; the checks handed to detached tasks are in \<open>ph_posts\<close>.
\<close>

section \<open>Jobs in the database\<close>

definition system_from_attr_path :: "string \<Rightarrow> string option" where
  "system_from_attr_path attr =
     (case splitn 3 CHR ''.'' attr of output # system # rest # _ \<Rightarrow> Some system | _ \<Rightarrow> None)"

definition job_log_path :: "string \<Rightarrow> repo_id \<Rightarrow> eval_id \<Rightarrow> job_id \<Rightarrow> string" where
  "job_log_path log_dir r e j =
     path_join (path_join (path_join log_dir (show_int (repo_get r))) (show_int (eval_get e)))
       (show_int (job_get j) @ ''.log.zst'')"

text \<open>\<open>serde_json\<close> on a whole spec; writing may fail.\<close>

record spec_codec =
  ser_spec :: "job_spec \<Rightarrow> string option"
  de_spec :: "string \<Rightarrow> job_spec option"

definition persist_job :: "serde \<Rightarrow> spec_codec \<Rightarrow> string \<Rightarrow> nat \<Rightarrow> repo_id \<Rightarrow> eval_id \<Rightarrow> job_spec \<Rightarrow>
    store \<Rightarrow> store_error + (job_id \<times> store)" where
  "persist_job S C log_dir now r e spec s =
     (let system = (case js_system spec of Some x \<Rightarrow> x | None \<Rightarrow>
            (case system_from_attr_path (js_attr_path spec) of Some x \<Rightarrow> x | None \<Rightarrow> ''unknown''));
          main_program = Option.bind (json_get ''mainProgram'' (js_meta spec)) json_as_str
      in case job_create S \<lparr>nj_eval_id = e, nj_attr_path = js_attr_path spec,
             nj_drv_path = js_drv_path spec, nj_system = system, nj_main_program = main_program,
             nj_outputs = js_outputs spec\<rparr> s of
           Inl err \<Rightarrow> Inl err
         | Inr (j, s1) \<Rightarrow>
             (let s2 = (case ser_spec C spec of Some json \<Rightarrow> set_spec_json j json s1 | None \<Rightarrow> s1)
              in Inr (j, if js_error spec = None then s2
                         else job_finish j JFailure now (Some (job_log_path log_dir r e j)) None
                                no_metrics s2)))"

fun persist_jobs :: "serde \<Rightarrow> spec_codec \<Rightarrow> string \<Rightarrow> nat \<Rightarrow> repo_id \<Rightarrow> eval_id \<Rightarrow> job_spec list \<Rightarrow>
    store \<Rightarrow> store_error + ((job_spec \<times> job_id) list \<times> store)" where
  "persist_jobs S C log_dir now r e [] s = Inr ([], s)"
| "persist_jobs S C log_dir now r e (spec # specs) s =
     (case persist_job S C log_dir now r e spec s of
        Inl err \<Rightarrow> Inl err
      | Inr (j, s1) \<Rightarrow>
          (case persist_jobs S C log_dir now r e specs s1 of
             Inl err \<Rightarrow> Inl err
           | Inr (rest, s2) \<Rightarrow> Inr ((spec, j) # rest, s2)))"

definition lossy_spec :: "job_record \<Rightarrow> job_spec" where
  "lossy_spec row = \<lparr>js_attr_path = jr_attr_path row, js_drv_path = jr_drv_path row,
     js_system = Some (jr_system row), js_error = None, js_outputs = [], js_meta = JsonNull,
     js_is_cached = False, js_required_features = [], js_image_format = None\<rparr>"

definition load_jobs_for_resume :: "serde \<Rightarrow> spec_codec \<Rightarrow> eval_id \<Rightarrow> store \<Rightarrow>
    store_error + (job_spec \<times> job_id) list" where
  "load_jobs_for_resume S C e s =
     (let by_id = List.map_filter (\<lambda>(j, json). map_option (\<lambda>spec. (j, spec)) (de_spec C json))
                    (resume_specs_for_eval e s)
      in bind_result (job_list_by_eval S e s) (\<lambda>rows.
           Inr (map (\<lambda>row. (case hm_get by_id (jr_id row) of Some spec \<Rightarrow> spec | None \<Rightarrow> lossy_spec row,
                            jr_id row))
                 (filter (\<lambda>row. jr_status row = JQueued) rows))))"

section \<open>What the forge is told\<close>

record job_tally =
  jt_success :: nat
  jt_cached :: nat
  jt_failure :: nat
  jt_interrupted :: nat
  jt_cancelled :: nat

definition tally_default :: job_tally where
  "tally_default = \<lparr>jt_success = 0, jt_cached = 0, jt_failure = 0, jt_interrupted = 0, jt_cancelled = 0\<rparr>"

fun tally_record :: "job_status \<Rightarrow> job_tally \<Rightarrow> job_tally" where
  "tally_record JSuccess t = t\<lparr>jt_success := Suc (jt_success t)\<rparr>"
| "tally_record JCached t = t\<lparr>jt_cached := Suc (jt_cached t)\<rparr>"
| "tally_record JFailure t = t\<lparr>jt_failure := Suc (jt_failure t)\<rparr>"
| "tally_record JInterrupted t = t\<lparr>jt_interrupted := Suc (jt_interrupted t)\<rparr>"
| "tally_record JCancelled t = t\<lparr>jt_cancelled := Suc (jt_cancelled t)\<rparr>"
| "tally_record _ t = t"

definition utf8_text :: "nat list \<Rightarrow> string" where
  "utf8_text bs = map char_of bs"

definition collapsed_progress :: "job_tally \<Rightarrow> nat \<Rightarrow> string" where
  "collapsed_progress t n =
     show_nat (jt_success t + jt_cached t + jt_failure t) @ ''/'' @ show_nat n @ '' done ''
     @ utf8_text [226, 128, 148] @ '' '' @ show_nat (jt_success t) @ '' ok, ''
     @ show_nat (jt_cached t) @ '' cached, '' @ show_nat (jt_failure t) @ '' failed''"

definition summarise_for_check :: "string \<Rightarrow> nat \<Rightarrow> string" where
  "summarise_for_check err max_chars =
     (let first = (case List.find (\<lambda>l. l \<noteq> []) (map trim (lines err)) of Some l \<Rightarrow> l | None \<Rightarrow> [])
      in if length (spans first) \<le> max_chars then first
         else concat (take (max_chars - 1) (spans first)) @ utf8_text [226, 128, 166])"

fun job_check_state :: "job_status \<Rightarrow> check_state option" where
  "job_check_state JSuccess = Some CheckSuccess"
| "job_check_state JCached = Some CheckSuccess"
| "job_check_state JFailure = Some CheckFailure"
| "job_check_state JCancelled = Some CheckError"
| "job_check_state JInterrupted = Some CheckError"
| "job_check_state _ = None"

definition job_check_text :: "job_status \<Rightarrow> bool \<Rightarrow> string" where
  "job_check_text status had_eval_error =
     (if status = JCached then ''cache hit'' else if status = JSuccess then ''build ok''
      else if status = JFailure then (if had_eval_error then ''evaluation failed'' else ''build failed'')
      else ''build error'')"

definition overall_state :: "job_tally \<Rightarrow> check_state" where
  "overall_state t =
     (if 0 < jt_failure t then CheckFailure else if 0 < jt_interrupted t then CheckError else CheckSuccess)"

definition overall_text :: "job_tally \<Rightarrow> string" where
  "overall_text t =
     show_nat (jt_success t) @ '' ok, '' @ show_nat (jt_cached t) @ '' cached, ''
     @ show_nat (jt_failure t) @ '' failed''
     @ (if 0 < jt_interrupted t then '', '' @ show_nat (jt_interrupted t) @ '' interrupted'' else [])
     @ (if 0 < jt_cancelled t then '', '' @ show_nat (jt_cancelled t) @ '' cancelled'' else [])"

fun is_transient_forge_error :: "forge_error \<Rightarrow> bool" where
  "is_transient_forge_error (ForgeHttp _) = True"
| "is_transient_forge_error (ForgeApi status _ _) = (status = 429 \<or> 500 \<le> status)"
| "is_transient_forge_error _ = False"

text \<open>The body of the worker's detached post: the answers the forge gives to the attempts, at most four,
  and what they leave in the registry of paused forges. The second result counts the attempts.\<close>

definition max_attempts :: nat where
  "max_attempts = 4"

function post_attempts :: "(nat \<Rightarrow> forge_error option) \<Rightarrow> nat \<Rightarrow> string \<Rightarrow> nat \<Rightarrow> pause_registry \<Rightarrow>
    pause_registry \<times> nat" where
  "post_attempts answer now forge attempt pauses =
     (if max_attempts < attempt then (pauses, attempt - 1)
      else case answer attempt of
             None \<Rightarrow> (mark_healthy forge pauses, attempt)
           | Some e \<Rightarrow>
               if e = Unauthorised then (pause now forge ''401 from post_check'' pauses, attempt)
               else if is_transient_forge_error e \<and> attempt < max_attempts
                 then post_attempts answer now forge (Suc attempt) pauses
               else (pauses, attempt))"
  by pat_completeness auto
termination
  by (relation "measure (\<lambda>(_, _, _, attempt, _). max_attempts - attempt)") auto

section \<open>The build phase\<close>

text \<open>What stays fixed during the phase.\<close>

record phase_ctx =
  px_serde :: serde
  px_log_dir :: string
  px_eval_id :: eval_id
  px_repo :: repo_record
  px_eval :: eval_record
  px_total :: nat
  px_collapsed :: bool
  px_specs :: "(job_id, job_spec) hashmap"

type_synonym task = "job_id \<times> job_spec \<times> token"

record phase =
  ph_app :: app_state
  ph_posts :: "(string \<times> check_post) list"
  ph_strategy :: dag
  ph_set :: "task list"
  ph_tally :: job_tally
  ph_verdicts :: "(job_id \<times> job_status) list"
  ph_last :: "nat option"

definition worker_post :: "phase_ctx \<Rightarrow> check_post \<Rightarrow> phase \<Rightarrow> phase" where
  "worker_post c post p =
     (if is_paused (rr_forge (px_repo c)) (as_pauses (ph_app p)) then p
      else p\<lparr>ph_posts := ph_posts p @ [(rr_forge (px_repo c), post)]\<rparr>)"

definition phase_url :: "phase \<Rightarrow> string" where
  "phase_url p = cf_external_url (sn_config (as_current (ph_app p)))"

definition post_per_job_check_pending :: "phase_ctx \<Rightarrow> string \<Rightarrow> phase \<Rightarrow> phase" where
  "post_per_job_check_pending c attr p =
     worker_post c \<lparr>cp_slug = rr_slug (px_repo c), cp_sha = er_sha (px_eval c),
       cp_context = ''argunix: '' @ attr, cp_state = CheckPending, cp_description = Some ''queued'',
       cp_target_url = Some (job_target_url (phase_url p) (rr_forge (px_repo c)) (rr_slug (px_repo c))
         (px_eval_id c) attr)\<rparr> p"

definition post_per_job_check :: "phase_ctx \<Rightarrow> eval_id \<Rightarrow> string \<Rightarrow> job_status \<Rightarrow> bool \<Rightarrow> phase \<Rightarrow> phase" where
  "post_per_job_check c e attr status had_eval_error p =
     (case job_check_state status of
        None \<Rightarrow> p
      | Some state \<Rightarrow>
          worker_post c \<lparr>cp_slug = rr_slug (px_repo c), cp_sha = er_sha (px_eval c),
            cp_context = ''argunix: '' @ attr, cp_state = state,
            cp_description = Some (job_check_text status had_eval_error),
            cp_target_url = Some (job_target_url (phase_url p) (rr_forge (px_repo c)) (rr_slug (px_repo c)) e attr)\<rparr> p)"

definition post_overall_check :: "phase_ctx \<Rightarrow> check_state \<Rightarrow> string \<Rightarrow> phase \<Rightarrow> phase" where
  "post_overall_check c state description p =
     worker_post c \<lparr>cp_slug = rr_slug (px_repo c), cp_sha = er_sha (px_eval c),
       cp_context = ''argunix: evaluation'', cp_state = state, cp_description = Some description,
       cp_target_url = Some (eval_target_url (phase_url p) (rr_forge (px_repo c)) (rr_slug (px_repo c))
         (px_eval_id c))\<rparr> p"

definition phase_record :: "job_id \<Rightarrow> job_status \<Rightarrow> phase \<Rightarrow> phase" where
  "phase_record j status p =
     p\<lparr>ph_tally := tally_record status (ph_tally p), ph_verdicts := ph_verdicts p @ [(j, status)]\<rparr>"

definition phase_job_finish :: "job_id \<Rightarrow> job_status \<Rightarrow> nat \<Rightarrow> string option \<Rightarrow> string option \<Rightarrow> phase \<Rightarrow> phase" where
  "phase_job_finish j status now log_path output_path p =
     p\<lparr>ph_app := (ph_app p)\<lparr>as_store :=
        job_finish j status now log_path output_path no_metrics (as_store (ph_app p))\<rparr>\<rparr>"

definition handle_cascade_skip :: "phase_ctx \<Rightarrow> nat \<Rightarrow> job_spec \<Rightarrow> cascaded_skip \<Rightarrow> phase \<Rightarrow> phase" where
  "handle_cascade_skip c now spec skip p =
     (let log_path = job_log_path (px_log_dir c) (skip_repo_id skip) (skip_eval_id skip) (skip_job_id skip);
          p1 = phase_job_finish (skip_job_id skip) JFailure now (Some log_path) None p;
          p2 = phase_record (skip_job_id skip) JFailure p1
      in if px_collapsed c then p2
         else post_per_job_check c (skip_eval_id skip) (js_attr_path spec) JFailure True p2)"

definition handle_alias_completion :: "phase_ctx \<Rightarrow> nat \<Rightarrow> job_spec \<Rightarrow> alias_completion \<Rightarrow> job_status \<Rightarrow>
    job_record option \<Rightarrow> phase \<Rightarrow> phase" where
  "handle_alias_completion c now spec al status row p =
     (let p1 = phase_job_finish (alias_job_id al) status now (Option.bind row jr_log_path)
                 (Option.bind row jr_output_path) p;
          p2 = phase_record (alias_job_id al) status p1
      in if px_collapsed c then p2
         else post_per_job_check c (alias_eval_id al) (js_attr_path spec) status (js_error spec \<noteq> None) p2)"

definition handle_skips :: "phase_ctx \<Rightarrow> nat \<Rightarrow> cascaded_skip list \<Rightarrow> phase \<Rightarrow> phase" where
  "handle_skips c now skips p =
     fold (\<lambda>k p. case hm_get (px_specs c) (skip_job_id k) of
        None \<Rightarrow> p | Some spec \<Rightarrow> handle_cascade_skip c now spec k p) skips p"

definition handle_aliases :: "phase_ctx \<Rightarrow> nat \<Rightarrow> job_status \<Rightarrow> job_record option \<Rightarrow> alias_completion list \<Rightarrow>
    phase \<Rightarrow> phase" where
  "handle_aliases c now status row als p =
     fold (\<lambda>a p. case hm_get (px_specs c) (alias_job_id a) of
        None \<Rightarrow> p | Some spec \<Rightarrow> handle_alias_completion c now spec a status row p) als p"

text \<open>Before the loop: failed evaluations are reported, the other jobs enter the strategy in order,
  each gated on the jobs of this evaluation in its closure.\<close>

definition worker_walk :: "eval_world \<Rightarrow> nat \<Rightarrow> (job_spec \<times> job_id) list \<Rightarrow> closure_walk" where
  "worker_walk w timeout persisted =
     (let heads = List.map_filter (js_drv_path \<circ> fst) persisted
      in case walk_closures w heads timeout of
           Inr walk \<Rightarrow> walk
         | Inl _ \<Rightarrow> \<lparr>cw_heads = heads, cw_derivations = []\<rparr>)"

definition report_eval_errors :: "phase_ctx \<Rightarrow> (job_spec \<times> job_id) list \<Rightarrow> phase \<Rightarrow> phase" where
  "report_eval_errors c persisted p =
     fold (\<lambda>(spec, j) p.
        if js_drv_path spec \<noteq> None then p
        else let p1 = phase_record j JFailure p
             in if px_collapsed c then p1
                else post_per_job_check c (px_eval_id c) (js_attr_path spec) JFailure
                       (js_error spec \<noteq> None) p1) persisted p"

definition job_item :: "phase_ctx \<Rightarrow> closure_walk \<Rightarrow> string list \<Rightarrow> job_spec \<Rightarrow> job_id \<Rightarrow> string \<Rightarrow> schedule_item" where
  "job_item c walk head_paths spec j drv =
     \<lparr>item_repo_id = rr_id (px_repo c), item_eval_id = px_eval_id c, item_job_id = j,
      head_drv = \<lparr>drv_path = drv, drv_system = js_system spec,
        drv_required_features = js_required_features spec,
        drv_input_drvs = map drv_path (filter (\<lambda>d. drv_path d \<in> set head_paths) (closure_for walk drv))\<rparr>,
      item_closure = []\<rparr>"

fun enqueue_jobs :: "phase_ctx \<Rightarrow> closure_walk \<Rightarrow> string list \<Rightarrow> (job_spec \<times> job_id) list \<Rightarrow> dag \<Rightarrow> dag option" where
  "enqueue_jobs c walk head_paths [] s = Some s"
| "enqueue_jobs c walk head_paths ((spec, j) # rest) s =
     (case js_drv_path spec of
        None \<Rightarrow> enqueue_jobs c walk head_paths rest s
      | Some drv \<Rightarrow>
          (case dag_enqueue (job_item c walk head_paths spec j drv) s of
             None \<Rightarrow> None
           | Some s' \<Rightarrow> enqueue_jobs c walk head_paths rest s'))"

definition phase_setup :: "phase_ctx \<Rightarrow> closure_walk \<Rightarrow> (job_spec \<times> job_id) list \<Rightarrow> app_state \<Rightarrow> phase option" where
  "phase_setup c walk persisted app =
     (case enqueue_jobs c walk (List.map_filter (js_drv_path \<circ> fst) persisted) persisted
             (dag_set_weight (rr_id (px_repo c)) 1 (dag_new None)) of
        None \<Rightarrow> None
      | Some s \<Rightarrow> Some (report_eval_errors c persisted
          \<lparr>ph_app = app, ph_posts = [], ph_strategy = s, ph_set = [], ph_tally = tally_default,
           ph_verdicts = [], ph_last = None\<rparr>))"

text \<open>
  One turn of the loop, for what the outside does meanwhile: how many permits of the semaphore the
  spawn pass gets, whether the cancel token has fired when the two reads of it come, how the
  \<open>select!\<close> ends, what others write while it waits, and the clock. A \<open>build_one\<close> that fails or
  panics is \<open>Outcome None\<close>. \<open>SelPermit\<close> is the wake-up by a free permit; when its guard is off this
  cannot happen, and the model then merely repeats a spawn pass that yields nothing.
\<close>

datatype join_result = JoinError | Outcome "job_status option"

datatype select_event = SelCancelled "token \<Rightarrow> bool" | SelJoined nat join_result | SelPermit

record phase_turn =
  pt_permits :: nat
  pt_cancel_spawn :: bool
  pt_cancel_exit :: bool
  pt_event :: select_event
  pt_world :: "app_state \<Rightarrow> app_state"
  pt_now :: nat

datatype phase_result = Looping phase | LoopDone phase | CancelDone phase | PhasePanic

text \<open>The spawn pass; the second result is \<open>strategy_drained_with_permit\<close>.\<close>

fun spawn_pass :: "phase_ctx \<Rightarrow> nat \<Rightarrow> phase \<Rightarrow> (phase \<times> bool) option" where
  "spawn_pass c 0 p = Some (p, False)"
| "spawn_pass c (Suc n) p =
     (case dag_dispatch (ph_strategy p) of
        None \<Rightarrow> None
      | Some (s, None) \<Rightarrow> Some (p\<lparr>ph_strategy := s\<rparr>, True)
      | Some (s, Some d) \<Rightarrow>
          (case head_job d of
             None \<Rightarrow> None
           | Some j \<Rightarrow>
               (case hm_get (px_specs c) j of
                  None \<Rightarrow> None
                | Some spec \<Rightarrow>
                    spawn_pass c n (p\<lparr>ph_strategy := s, ph_set := ph_set p @ [(j, spec, d_token d)]\<rparr>))))"

definition summary_debounce :: nat where
  "summary_debounce = 2000"

definition report_joined :: "phase_ctx \<Rightarrow> nat \<Rightarrow> job_spec \<Rightarrow> job_status \<Rightarrow> phase \<Rightarrow> phase" where
  "report_joined c now spec status p =
     (if px_collapsed c then
        (if (case ph_last p of None \<Rightarrow> True | Some t \<Rightarrow> summary_debounce \<le> now - t)
         then (post_overall_check c CheckPending (collapsed_progress (ph_tally p) (px_total c)) p)
                \<lparr>ph_last := Some now\<rparr>
         else p)
      else post_per_job_check c (px_eval_id c) (js_attr_path spec) status (js_error spec \<noteq> None) p)"

definition primary_row :: "phase_ctx \<Rightarrow> job_id \<Rightarrow> phase \<Rightarrow> job_record option" where
  "primary_row c j p =
     (case store_job_get (px_serde c) j (as_store (ph_app p)) of Inl _ \<Rightarrow> None | Inr row \<Rightarrow> row)"

definition handle_joined :: "phase_ctx \<Rightarrow> nat \<Rightarrow> task \<Rightarrow> join_result \<Rightarrow> phase \<Rightarrow> phase option" where
  "handle_joined c now t r p =
     (case t of (j, spec, tok) \<Rightarrow>
      case r of
        JoinError \<Rightarrow> Some (phase_record j JFailure p)
      | Outcome outcome \<Rightarrow>
          (let status = (case outcome of Some st \<Rightarrow> st | None \<Rightarrow> JFailure) in
           case dag_complete tok status (ph_strategy p) of
             None \<Rightarrow> None
           | Some (s, eff) \<Rightarrow>
               (let p1 = handle_skips c now (cascaded_skips eff) (p\<lparr>ph_strategy := s\<rparr>);
                    p2 = (if alias_completions eff = [] then p1
                          else handle_aliases c now status (primary_row c j p1) (alias_completions eff) p1);
                    p3 = phase_record j status p2
                in Some (report_joined c now spec status p3))))"

fun cancel_drain :: "(token \<Rightarrow> bool) \<Rightarrow> task list \<Rightarrow> dag \<Rightarrow> dag option" where
  "cancel_drain joins [] s = Some s"
| "cancel_drain joins ((j, spec, tok) # ts) s =
     (if joins tok then
        (case dag_complete tok JCancelled s of None \<Rightarrow> None | Some (s', _) \<Rightarrow> cancel_drain joins ts s')
      else cancel_drain joins ts s)"

definition handle_cancelled :: "phase_ctx \<Rightarrow> nat \<Rightarrow> (token \<Rightarrow> bool) \<Rightarrow> phase \<Rightarrow> phase_result" where
  "handle_cancelled c now joins p =
     (let (s, skips) = dag_cancel_eval (px_eval_id c) (ph_strategy p);
          p1 = handle_skips c now skips (p\<lparr>ph_strategy := s\<rparr>)
      in case cancel_drain joins (ph_set p1) (ph_strategy p1) of
           None \<Rightarrow> PhasePanic
         | Some s' \<Rightarrow> CancelDone (p1\<lparr>ph_strategy := s', ph_set := [],
             ph_app := (ph_app p1)\<lparr>as_store := eval_finish (px_eval_id c) ECancelled now (as_store (ph_app p1))\<rparr>\<rparr>))"

definition phase_await :: "phase_ctx \<Rightarrow> phase_turn \<Rightarrow> phase \<Rightarrow> phase_result" where
  "phase_await c t p0 =
     (let p = p0\<lparr>ph_app := pt_world t (ph_app p0)\<rparr> in
      case pt_event t of
        SelCancelled joins \<Rightarrow> handle_cancelled c (pt_now t) joins p
      | SelPermit \<Rightarrow> Looping p
      | SelJoined i r \<Rightarrow>
          (case join_next i (ph_set p) of
             None \<Rightarrow> Looping p
           | Some (task, rest) \<Rightarrow>
               (case handle_joined c (pt_now t) task r (p\<lparr>ph_set := rest\<rparr>) of
                  None \<Rightarrow> PhasePanic
                | Some p' \<Rightarrow> Looping p')))"

definition phase_step :: "phase_ctx \<Rightarrow> phase_turn \<Rightarrow> phase \<Rightarrow> phase_result" where
  "phase_step c t p0 =
     (case (if pt_cancel_spawn t then Some (p0, False) else spawn_pass c (pt_permits t) p0) of
        None \<Rightarrow> PhasePanic
      | Some (p, drained_with_permit) \<Rightarrow>
          if ph_set p = [] \<and> wfq_pending_count (g_wfq (ph_strategy p)) = 0 then LoopDone p
          else if pt_cancel_exit t \<and> ph_set p = [] then LoopDone p
          else if ph_set p = [] then
            (if drained_with_permit then LoopDone p
             else Looping (p\<lparr>ph_app := pt_world t (ph_app p)\<rparr>))
          else phase_await c t p)"

fun phase_loop :: "phase_ctx \<Rightarrow> phase_turn list \<Rightarrow> phase \<Rightarrow> phase_result" where
  "phase_loop c [] p = Looping p"
| "phase_loop c (t # ts) p =
     (case phase_step c t p of Looping p' \<Rightarrow> phase_loop c ts p' | res \<Rightarrow> res)"

definition reconcile_forge_checks :: "phase_ctx \<Rightarrow> phase \<Rightarrow> phase" where
  "reconcile_forge_checks c p =
     (case job_list_by_eval (px_serde c) (px_eval_id c) (as_store (ph_app p)) of
        Inl _ \<Rightarrow> p
      | Inr rows \<Rightarrow>
          fold (\<lambda>row p. if \<not> job_is_terminal (jr_status row) then p
             else post_per_job_check c (px_eval_id c) (jr_attr_path row) (jr_status row)
                    (jr_drv_path row = None) p) rows p)"

text \<open>After the loop. \<open>fan_in\<close> is what is written while the multi-arch fan-in runs.\<close>

definition phase_finish :: "phase_ctx \<Rightarrow> nat \<Rightarrow> (app_state \<Rightarrow> app_state) \<Rightarrow> phase \<Rightarrow> phase" where
  "phase_finish c now fan_in p =
     (let app = (ph_app p)\<lparr>as_store := eval_finish (px_eval_id c) EDone now (as_store (ph_app p))\<rparr>;
          p1 = p\<lparr>ph_app := fan_in app\<rparr>;
          p2 = post_overall_check c (overall_state (ph_tally p1)) (overall_text (ph_tally p1)) p1
      in if px_collapsed c then p2 else reconcile_forge_checks c p2)"

definition run_build_phase :: "phase_ctx \<Rightarrow> closure_walk \<Rightarrow> (job_spec \<times> job_id) list \<Rightarrow> phase_turn list \<Rightarrow> nat \<Rightarrow>
    (app_state \<Rightarrow> app_state) \<Rightarrow> app_state \<Rightarrow> phase_result" where
  "run_build_phase c walk persisted ts now fan_in app =
     (case phase_setup c walk persisted app of
        None \<Rightarrow> PhasePanic
      | Some p \<Rightarrow>
          (case phase_loop c ts p of
             LoopDone p' \<Rightarrow> LoopDone (phase_finish c now fan_in p')
           | res \<Rightarrow> res))"

end
