(* ===== verification/Dag_Account.thy ===== *)
theory Dag_Account
  imports Dag_Props
begin

text \<open>
  What a run of a \<open>DagStrategy\<close> leaves behind when every item is enqueued before the first completion
  and no evaluation is cancelled, which is how the build phase uses it: edges only lead to steps that
  are younger, so the graph has no cycle; a step that fails takes its dependents with it; so when
  nothing is pending or running every step has ended, and each job was given a verdict once.
\<close>

section \<open>The graph the build phase builds\<close>

definition graph_order :: "dag \<Rightarrow> bool" where
  "graph_order s \<longleftrightarrow> (\<exists>pos :: string \<Rightarrow> nat. \<forall>d y r.
     hm_get (by_drv s) d = Some y \<and> r \<in> set (rdeps y) \<longrightarrow> pos d < pos r)"

definition settled_graph :: "dag \<Rightarrow> bool" where
  "settled_graph s \<longleftrightarrow> (\<forall>d y r z. hm_get (by_drv s) d = Some y \<and> st_is_terminal (s_state y)
     \<and> \<not> st_is_successful (s_state y) \<and> r \<in> set (rdeps y) \<and> hm_get (by_drv s) r = Some z
     \<longrightarrow> st_is_terminal (s_state z))"

lemma drained_all_terminal:
  assumes ok: "dag_ok s" "promoted s" and order: "graph_order s" and settled: "settled_graph s"
    and drained: "wfq_pending_count (g_wfq s) = 0" "dag_live s = {}"
  shows "hm_get (by_drv s) d = Some x \<Longrightarrow> st_is_terminal (s_state x)"
proof -
  obtain pos :: "string \<Rightarrow> nat" where pos:
    "\<And>d y r. hm_get (by_drv s) d = Some y \<Longrightarrow> r \<in> set (rdeps y) \<Longrightarrow> pos d < pos r"
    using order unfolding graph_order_def by blast
  have tok: "tok_ok s" and gr: "graph_ok (by_drv s)" using ok by (simp_all add: dag_ok_def)
  show "hm_get (by_drv s) d = Some x \<Longrightarrow> st_is_terminal (s_state x)"
  proof (induction "pos d" arbitrary: d x rule: less_induct)
    case less
    have t: "tok_step s d x" by (rule tok_okD(4) [OF tok less.prems])
    have "pending_tags (g_wfq s) = {#}" using drained(1) by (simp add: pending_tags_count)
    then have nr: "s_state x \<noteq> StReady" using t by (auto simp: tok_step_def split: option.splits)
    have "hm_get (in_flight (g_wfq s)) t = None" for t
      using drained(2) unfolding dag_live_def by (metis domIff empty_iff)
    then have nrun: "s_state x \<noteq> StRunning" using t nr by (auto simp: tok_step_def split: option.splits)
    show ?case
    proof (cases "s_state x = StPending")
      case True
      then have "deps_unfinished x \<noteq> 0" using ok(2) less.prems by (auto simp: promoted_def promotable_def)
      moreover have "deps_unfinished x = waits (by_drv s) d"
        using gr less.prems by (simp add: graph_ok_def step_ok_def)
      ultimately obtain k y where y: "hm_get (by_drv s) k = Some y" "\<not> st_is_successful (s_state y)"
        "d \<in> set (rdeps y)"
        using blocked_waits [of "by_drv s" d] gr unfolding blocked_def graph_ok_def by auto
      then have "st_is_terminal (s_state y)" using less.hyps [OF pos [OF y(1,3)] y(1)] by simp
      with y less.prems settled show ?thesis unfolding settled_graph_def by blast
    next
      case False
      with nr nrun show ?thesis by (cases "s_state x") auto
    qed
  qed
qed

section \<open>Enqueueing an item without a closure\<close>

lemma add_edges_rdeps:
  "add_edges d is m = Some m' \<Longrightarrow> hm_get m' k = Some y \<Longrightarrow> r \<in> set (rdeps y) \<Longrightarrow>
   (\<exists>x. hm_get m k = Some x \<and> r \<in> set (rdeps x)) \<or> (r = d \<and> k \<in> set is)"
proof (induction "is" arbitrary: m)
  case (Cons i "is")
  then obtain m1 where m1: "add_edge d i m = Some m1" "add_edges d is m1 = Some m'"
    by (auto split: option.splits)
  from Cons.IH [OF m1(2) Cons.prems(2,3)] show ?case
  proof (elim disjE exE conjE)
    fix x assume "hm_get m1 k = Some x" "r \<in> set (rdeps x)"
    then show ?thesis using m1(1)
      by (auto simp: add_edge_def hm_simps split: option.splits if_splits)
  qed simp
qed simp

lemma promote_all_rdeps:
  "promote_all ps s = Some s' \<Longrightarrow>
   map_option rdeps (hm_get (by_drv s') k) = map_option rdeps (hm_get (by_drv s) k)"
proof (induction ps arbitrary: s)
  case (Cons p ps)
  obtain d r where p: "p = (d, r)" by (cases p)
  with Cons.prems obtain s1 where s1: "promote_one d r s = Some s1" "promote_all ps s1 = Some s'"
    by (auto split: option.splits)
  have "map_option rdeps (hm_get (by_drv s1) k) = map_option rdeps (hm_get (by_drv s) k)"
    using s1(1)
    by (cases "hm_get (by_drv s) k")
      (auto simp: promote_one_def dag_mint_token_def Let_def hm_simps split: if_splits)
  with Cons.IH [OF s1(2)] show ?case by simp
qed simp

lemma dag_enqueue_rdeps:
  assumes e: "dag_enqueue it s = Some s'" and c: "item_closure it = []"
    and y: "hm_get (by_drv s') k = Some y" "r \<in> set (rdeps y)"
  shows "(\<exists>x. hm_get (by_drv s) k = Some x \<and> r \<in> set (rdeps x))
    \<or> (r = drv_path (head_drv it) \<and> hm_get (by_drv s) r = None \<and> k \<in> set (drv_input_drvs (head_drv it)))"
proof -
  let ?hd = "drv_path (head_drv it)"
  obtain m3 hnew where h: "upsert_step (head_drv it) (item_repo_id it) (item_eval_id it) (by_drv s) = (m3, hnew)"
    by fastforce
  have hnew: "hnew \<longleftrightarrow> hm_get (by_drv s) ?hd = None"
    using h by (auto simp: upsert_step_def split: if_splits)
  have in_of: "inputs_of it = [(?hd, drv_input_drvs (head_drv it))]" by (simp add: inputs_of_def c)
  obtain m4 jm where m4: "build_edges_for (if hnew then [?hd] else []) (inputs_of it) (link_job it m3) = Some m4"
    "promote_ready_steps (s\<lparr>job_meta := jm, by_drv := m4\<rparr>) = Some s'"
    using e h by (auto simp: dag_enqueue_def c Let_def link_job_def split: option.splits if_splits)
  have "map_option rdeps (hm_get (by_drv s') k) = map_option rdeps (hm_get m4 k)"
    using promote_all_rdeps [OF m4(2) [unfolded promote_ready_steps_def]] by simp
  then obtain y4 where y4: "hm_get m4 k = Some y4" "r \<in> set (rdeps y4)"
    using y by (cases "hm_get m4 k") auto
  have old: "\<exists>x. hm_get (by_drv s) k = Some x \<and> r \<in> set (rdeps x)"
    if "hm_get (link_job it m3) k = Some x" "r \<in> set (rdeps x)" for x
  proof -
    from that obtain z where z: "hm_get m3 k = Some z" "r \<in> set (rdeps z)"
      by (auto simp: link_job_get split: if_splits)
    have "hm_get m3 k = (if k = ?hd \<and> hm_get (by_drv s) k = None then
        Some (new_step (head_drv it) (item_repo_id it) (item_eval_id it)) else hm_get (by_drv s) k)"
      using upsert_step_get [of "head_drv it" "item_repo_id it" "item_eval_id it" "by_drv s" k] h by simp
    with z show ?thesis by (auto simp: new_step_def split: if_splits)
  qed
  show ?thesis
  proof (cases hnew)
    case True
    with m4(1) in_of have "add_edges ?hd (drv_input_drvs (head_drv it)) (link_job it m3) = Some m4"
      by (auto split: option.splits)
    from add_edges_rdeps [OF this y4] old True hnew show ?thesis by auto
  next
    case False
    with m4(1) have "m4 = link_job it m3" by simp
    with old y4 show ?thesis by blast
  qed
qed

definition run_graph :: "dag \<Rightarrow> bool" where
  "run_graph s \<longleftrightarrow> dag_good s \<and> concurrency_cap (g_wfq s) = None \<and> graph_order s \<and> settled_graph s"

definition unstarted :: "dag \<Rightarrow> bool" where
  "unstarted s \<longleftrightarrow> dag_live s = {} \<and>
     (\<forall>d x. hm_get (by_drv s) d = Some x \<longrightarrow> \<not> st_is_terminal (s_state x))"

lemma run_graph_new: "run_graph (dag_set_weight r w (dag_new None))" "unstarted (dag_set_weight r w (dag_new None))"
proof -
  have "history dag_vtable dag_reorder (dag_new None) [] (dag_set_weight r w (dag_new None))"
    using history.set_weight [OF history.start, of dag_vtable dag_reorder "dag_new None" r w]
    by (simp add: dag_vtable_simps)
  from dag_history [OF this] have "dag_ok (dag_set_weight r w (dag_new None))" "promoted (dag_set_weight r w (dag_new None))"
    by simp_all
  then show "run_graph (dag_set_weight r w (dag_new None))" "unstarted (dag_set_weight r w (dag_new None))"
    by (simp_all add: run_graph_def unstarted_def dag_good_def graph_order_def settled_graph_def
        dag_set_weight_def dag_new_def dag_live_def wfq_set_weight_def wfq_new_def)
qed

lemma graph_order_enqueue:
  assumes ok: "dag_ok s" and order: "graph_order s"
    and e: "dag_enqueue it s = Some s'" "item_closure it = []"
    and self: "drv_path (head_drv it) \<notin> set (drv_input_drvs (head_drv it))"
    and old: "\<And>k. k \<in> dom (hm_get (by_drv s')) \<Longrightarrow> k \<noteq> drv_path (head_drv it) \<Longrightarrow> k \<in> dom (hm_get (by_drv s))"
  shows "graph_order s'"
proof -
  let ?hd = "drv_path (head_drv it)"
  obtain pos :: "string \<Rightarrow> nat" where pos:
    "\<And>d y r. hm_get (by_drv s) d = Some y \<Longrightarrow> r \<in> set (rdeps y) \<Longrightarrow> pos d < pos r"
    using order unfolding graph_order_def by blast
  let ?top = "Suc (Max (insert 0 (pos ` dom (hm_get (by_drv s)))))"
  have fin: "finite (insert 0 (pos ` dom (hm_get (by_drv s))))" by (simp add: finite_dom_map_of)
  have top: "pos k < ?top" if "k \<in> dom (hm_get (by_drv s))" for k
    using Max_ge [OF fin, of "pos k"] that by auto
  have known: "r \<in> dom (hm_get (by_drv s))" if "hm_get (by_drv s) k = Some x" "r \<in> set (rdeps x)" for k x r
    using ok that unfolding dag_ok_def graph_ok_def step_ok_def by blast
  let ?pos = "if hm_get (by_drv s) ?hd = None then pos(?hd := ?top) else pos"
  have "?pos k < ?pos r" if "hm_get (by_drv s') k = Some y" "r \<in> set (rdeps y)" for k y r
    using dag_enqueue_rdeps [OF e that]
  proof (elim disjE exE conjE)
    fix x assume x: "hm_get (by_drv s) k = Some x" "r \<in> set (rdeps x)"
    then have "pos k < pos r" "r \<in> dom (hm_get (by_drv s))" "k \<in> dom (hm_get (by_drv s))"
      using pos known by blast+
    then show ?thesis by auto
  next
    assume r: "r = ?hd" "hm_get (by_drv s) r = None" "k \<in> set (drv_input_drvs (head_drv it))"
    then have "k \<noteq> ?hd" using self by auto
    with old that(1) have "k \<in> dom (hm_get (by_drv s))" by blast
    with top r \<open>k \<noteq> ?hd\<close> show ?thesis by simp
  qed
  then show ?thesis unfolding graph_order_def by blast
qed

lemma run_graph_enqueue:
  assumes s: "run_graph s" "unstarted s" and c: "item_closure it = []"
    and self: "drv_path (head_drv it) \<notin> set (drv_input_drvs (head_drv it))"
  obtains s' where "dag_enqueue it s = Some s'" "run_graph s'" "unstarted s'" "enqueued_as it s s'"
proof -
  have ok: "dag_ok s" "promoted s" using s by (simp_all add: run_graph_def dag_good_def)
  obtain s' where s': "dag_enqueue it s = Some s'" "dag_ok s'" "promoted s'" "evolves s s'" "enqueued_as it s s'"
    by (rule dag_enqueue_ok [OF ok])
  have dom: "dom (hm_get (by_drv s')) = insert (drv_path (head_drv it)) (dom (hm_get (by_drv s)))"
    using s'(5) c by (auto simp: enqueued_as_def item_paths_def)
  have fresh: "\<not> st_is_terminal (s_state y)" if y: "hm_get (by_drv s') k = Some y" for k y
  proof (cases "hm_get (by_drv s) k")
    case None
    then have "s_state y = StPending \<or> s_state y = StReady" using s'(5) y unfolding enqueued_as_def by blast
    then show ?thesis by auto
  next
    case (Some x)
    then have "s_state y = s_state x" using s'(5) y unfolding enqueued_as_def by blast
    then show ?thesis using s(2) Some by (simp add: unstarted_def)
  qed
  have "graph_order s'"
    by (rule graph_order_enqueue [OF ok(1) _ s'(1) c self]) (use s(1) dom in \<open>auto simp: run_graph_def\<close>)
  moreover have "settled_graph s'" using fresh unfolding settled_graph_def by blast
  moreover have "dag_good s'" "concurrency_cap (g_wfq s') = None"
    using s'(2,3,5) s(1) by (simp_all add: dag_good_def run_graph_def enqueued_as_def)
  moreover have "dag_live s' = {}" using s'(5) s(2) by (simp add: dag_live_def unstarted_def enqueued_as_def)
  ultimately show thesis using that [OF s'(1)] s'(5) fresh by (auto simp: run_graph_def unstarted_def)
qed

section \<open>Completing a step\<close>

text \<open>The steps a completion ends: the step itself and, when it fails, its open dependents.\<close>

definition ends :: "dag \<Rightarrow> string \<Rightarrow> step \<Rightarrow> job_status \<Rightarrow> string \<Rightarrow> bool" where
  "ends s d x st k \<longleftrightarrow> k = d \<or> (\<not> st_is_successful (st_from_status st) \<and> reaches (by_drv s) (set (rdeps x)) k)"

lemma completed_step:
  assumes ok: "dag_ok s" and x: "hm_get (by_drv s) d = Some x" "in_flight_token x = Some t"
    and c: "completed_as d x (st_from_status st) t s s'"
    and y: "hm_get (by_drv s) k = Some y"
  shows "\<exists>z. hm_get (by_drv s') k = Some z \<and> head_jobs z = head_jobs y \<and> rdeps z = rdeps y
    \<and> (st_is_terminal (s_state z) \<longleftrightarrow> st_is_terminal (s_state y) \<or> ends s d x st k)
    \<and> (st_is_terminal (s_state y) \<and> k \<noteq> d \<longrightarrow> s_state z = s_state y)
    \<and> (k = d \<longrightarrow> s_state z = st_from_status st)
    \<and> (s_state y = StRunning \<and> k \<noteq> d \<longrightarrow> s_state z = StRunning \<and> in_flight_token z = in_flight_token y)"
proof -
  let ?st = "st_from_status st" and ?s1 = "finish_step d (st_from_status st) t s"
  have tok: "tok_ok s" and gr: "graph_ok (by_drv s)" using ok by (simp_all add: dag_ok_def)
  have run: "runnable (s_state x)" "\<not> st_is_successful (s_state x)"
    using token_state [OF tok x] by (auto simp: runnable_def st_is_successful_def)
  note get = finish_step_get [OF x(1), of ?st t]
  show ?thesis
  proof (cases "st_is_successful ?st")
    case True
    let ?m = "fold decrement (rdeps x) (by_drv ?s1)"
    let ?P = "{k. \<exists>y. hm_get ?m k = Some y \<and> promotable y}"
    have p: "promotes ?P (?s1\<lparr>by_drv := ?m\<rparr>) s'" using c True by (simp add: completed_as_def)
    obtain u where u: "hm_get ?m k = Some u" "head_jobs u = head_jobs y" "rdeps u = rdeps y"
      "s_state u = (if k = d then ?st else s_state y)" "in_flight_token u = (if k = d then None else in_flight_token y)"
      using y x(1) by (cases "k = d") (simp_all add: fold_decrement_get get)
    have st: "?st \<noteq> StPending" using True by (auto simp: st_is_successful_def)
    show ?thesis
    proof (cases "promotable u")
      case True
      then obtain tk where "hm_get (by_drv s') k = Some (u\<lparr>s_state := StReady, in_flight_token := tk\<rparr>)"
        using p u(1) unfolding promotes_def by fastforce
      with True u st show ?thesis by (auto simp: promotable_def ends_def \<open>st_is_successful ?st\<close> split: if_splits)
    next
      case False
      then have "hm_get (by_drv s') k = Some u" using p u(1) unfolding promotes_def by fastforce
      with u show ?thesis by (auto simp: ends_def \<open>st_is_successful ?st\<close>)
    qed
  next
    case False
    have r: "reaches (by_drv ?s1) (set (rdeps x)) = reaches (by_drv s) (set (rdeps x))"
      and nd: "\<not> reaches (by_drv s) (set (rdeps x)) d"
      by (rule failure_cascade [OF ok x False])+
    have nrun: "\<not> reaches (by_drv s) (set (rdeps x)) k" if "s_state y = StRunning"
    proof
      assume "reaches (by_drv s) (set (rdeps x)) k"
      moreover have "\<forall>k\<in>set (rdeps x). blocked (by_drv s) k" using x(1) run(2) unfolding blocked_def by blast
      ultimately have "blocked (by_drv s) k" by (rule reaches_blocked)
      with blocked_not_runnable [OF gr y] that show False by (simp add: runnable_def)
    qed
    have nt: "\<not> reaches (by_drv s) (set (rdeps x)) k" if "st_is_terminal (s_state y)"
      using reaches_nonterminal [OF _ y] that by blast
    have "cascaded (reaches (by_drv s) (set (rdeps x))) ?s1 s'"
      using c False by (simp add: completed_as_def r)
    then have s': "hm_get (by_drv s') k = map_option (\<lambda>x'. if reaches (by_drv s) (set (rdeps x)) k
        then x'\<lparr>s_state := StSkipped, in_flight_token := None\<rparr> else x') (hm_get (by_drv ?s1) k)"
      by (simp add: cascaded_def)
    show ?thesis
    proof (cases "k = d")
      case True
      with s' nd y x(1) show ?thesis by (simp add: get ends_def)
    next
      case kd: False
      show ?thesis
      proof (cases "reaches (by_drv s) (set (rdeps x)) k")
        case True
        with s' y kd nrun nt False show ?thesis by (auto simp: get ends_def)
      next
        case False
        with s' y kd show ?thesis by (auto simp: get ends_def)
      qed
    qed
  qed
qed

lemma completed_run_graph:
  assumes s: "run_graph s" and x: "hm_get (by_drv s) d = Some x" "in_flight_token x = Some t"
    and c: "completed_as d x (st_from_status st) t s s'"
    and s': "dag_good s'" "concurrency_cap (g_wfq s') = None"
  shows "run_graph s'"
proof -
  have ok: "dag_ok s" using s by (simp add: run_graph_def dag_good_def)
  have dom: "dom (hm_get (by_drv s')) = dom (hm_get (by_drv s))" by (rule completed_dom [OF x(1) c])
  note view = completed_step [OF ok x c]
  have prior: "\<exists>y. hm_get (by_drv s) k = Some y \<and> rdeps z = rdeps y
      \<and> (st_is_terminal (s_state z) \<longleftrightarrow> st_is_terminal (s_state y) \<or> ends s d x st k)
      \<and> (st_is_terminal (s_state y) \<and> k \<noteq> d \<longrightarrow> s_state z = s_state y) \<and> (k = d \<longrightarrow> s_state z = st_from_status st)"
    if z: "hm_get (by_drv s') k = Some z" for k z
  proof -
    from z dom obtain y where y: "hm_get (by_drv s) k = Some y" by blast
    with view [OF y] z show ?thesis by auto
  qed
  have order: "graph_order s'"
    using s prior unfolding run_graph_def graph_order_def by metis
  have "st_is_terminal (s_state w)"
    if z: "hm_get (by_drv s') k = Some z" "st_is_terminal (s_state z)" "\<not> st_is_successful (s_state z)"
      "r \<in> set (rdeps z)" and w: "hm_get (by_drv s') r = Some w" for k z r w
  proof -
    obtain y where y: "hm_get (by_drv s) k = Some y" "rdeps z = rdeps y"
      "st_is_terminal (s_state y) \<or> ends s d x st k"
      "st_is_terminal (s_state y) \<and> k \<noteq> d \<longrightarrow> s_state z = s_state y" "k = d \<longrightarrow> s_state z = st_from_status st"
      using prior [OF z(1)] z(2) by blast
    obtain v where v: "hm_get (by_drv s) r = Some v"
      "st_is_terminal (s_state w) \<longleftrightarrow> st_is_terminal (s_state v) \<or> ends s d x st r"
      using prior [OF w] by blast
    show ?thesis
    proof (cases "st_is_terminal (s_state v)")
      case False
      show ?thesis
      proof (cases "st_is_terminal (s_state y) \<and> k \<noteq> d")
        case True
        then have "st_is_terminal (s_state v)"
          using s y z(3,4) v(1) unfolding run_graph_def settled_graph_def by metis
        with False show ?thesis by simp
      next
        case kd: False
        have "ends s d x st r"
        proof (cases "k = d")
          case True
          with y x(1) z(3,4) v(1) False show ?thesis
            by (auto simp: ends_def intro: reaches.from_queue)
        next
          case False
          then have "\<not> st_is_successful (st_from_status st)" "reaches (by_drv s) (set (rdeps x)) k"
            using kd y(3) by (auto simp: ends_def)
          then show ?thesis
            using reaches.from_rdep [OF _ y(1) _ v(1) \<open>\<not> st_is_terminal (s_state v)\<close>] z(4) y(2)
            by (simp add: ends_def)
        qed
        with v(2) show ?thesis by simp
      qed
    qed (simp add: v(2))
  qed
  then have "settled_graph s'" unfolding settled_graph_def by blast
  with order s' show ?thesis by (simp add: run_graph_def)
qed

text \<open>The jobs of the steps that have ended.\<close>

definition done_jobs :: "dag \<Rightarrow> job_id \<Rightarrow> nat" where
  "done_jobs s j = hm_sum (\<lambda>_ x. if st_is_terminal (s_state x) then count_list (head_jobs x) j else 0) (by_drv s)"

definition all_jobs :: "dag \<Rightarrow> job_id \<Rightarrow> nat" where
  "all_jobs s j = hm_sum (\<lambda>_ x. count_list (head_jobs x) j) (by_drv s)"

lemma done_all:
  assumes "dag_ok s" "\<And>d x. hm_get (by_drv s) d = Some x \<Longrightarrow> st_is_terminal (s_state x)"
  shows "done_jobs s j = all_jobs s j"
  unfolding done_jobs_def all_jobs_def
  by (rule hm_sum_cong) (use assms in \<open>auto simp: dag_ok_def graph_ok_def\<close>)

lemma completed_done:
  assumes ok: "dag_ok s" "dag_ok s'" and x: "hm_get (by_drv s) d = Some x" "in_flight_token x = Some t"
    and c: "completed_as d x (st_from_status st) t s s'"
  shows "done_jobs s' j = done_jobs s j + count_list (head_jobs x) j
      + (if st_is_successful (st_from_status st) then 0 else jobs_in (reaches (by_drv s) (set (rdeps x))) (by_drv s) j)"
    and "all_jobs s' j = all_jobs s j"
proof -
  let ?D = "dom (hm_get (by_drv s))" and ?R = "reaches (by_drv s) (set (rdeps x))"
  have dom: "dom (hm_get (by_drv s')) = ?D" by (rule completed_dom [OF x(1) c])
  have hm: "hm_ok (by_drv s)" "hm_ok (by_drv s')" using ok by (simp_all add: dag_ok_def graph_ok_def)
  have tok: "tok_ok s" and gr: "graph_ok (by_drv s)" using ok by (simp_all add: dag_ok_def)
  have run: "runnable (s_state x)" "\<not> st_is_successful (s_state x)" "\<not> st_is_terminal (s_state x)"
    using token_state [OF tok x] by (auto simp: runnable_def st_is_successful_def)
  have nd: "\<not> ?R d" by (rule not_reaches_runnable [OF gr x(1) run(1,2)])
  let ?c = "\<lambda>k. count_list (head_jobs (the (hm_get (by_drv s) k))) j"
  let ?bad = "\<not> st_is_successful (st_from_status st)"
  have view: "head_jobs (the (hm_get (by_drv s') k)) = head_jobs (the (hm_get (by_drv s) k))
      \<and> (st_is_terminal (s_state (the (hm_get (by_drv s') k))) \<longleftrightarrow>
         st_is_terminal (s_state (the (hm_get (by_drv s) k))) \<or> k = d \<or> ?bad \<and> ?R k)" if "k \<in> ?D" for k
  proof -
    from that obtain y where y: "hm_get (by_drv s) k = Some y" by blast
    from completed_step [OF ok(1) x c y] y show ?thesis by (auto simp only: ends_def option.sel)
  qed
  have nt: "\<not> (st_is_terminal (s_state (the (hm_get (by_drv s) k))) \<and> ?R k)" for k
    using reaches_step [of "by_drv s" "set (rdeps x)" k] by auto
  have "done_jobs s' j = (\<Sum>k\<in>?D. if st_is_terminal (s_state (the (hm_get (by_drv s') k)))
      then count_list (head_jobs (the (hm_get (by_drv s') k))) j else 0)"
    unfolding done_jobs_def hm_sum_dom [OF hm(2)] dom ..
  also have "\<dots> = (\<Sum>k\<in>?D. (if st_is_terminal (s_state (the (hm_get (by_drv s) k))) then ?c k else 0)
      + (if k = d then ?c k else 0) + (if ?bad \<and> ?R k then ?c k else 0))"
    by (rule sum.cong [OF refl]) (use view nt nd x(1) run(3) in auto)
  also have "\<dots> = done_jobs s j + count_list (head_jobs x) j + (\<Sum>k\<in>?D. if ?bad \<and> ?R k then ?c k else 0)"
    using x(1) unfolding done_jobs_def hm_sum_dom [OF hm(1)]
    by (simp add: sum.distrib sum.delta finite_dom_map_of domI)
  also have "(\<Sum>k\<in>?D. if ?bad \<and> ?R k then ?c k else 0) =
      (if st_is_successful (st_from_status st) then 0 else jobs_in ?R (by_drv s) j)"
    unfolding jobs_in_def hm_sum_dom [OF hm(1)] by simp
  finally show "done_jobs s' j = done_jobs s j + count_list (head_jobs x) j
      + (if st_is_successful (st_from_status st) then 0 else jobs_in ?R (by_drv s) j)" .
  show "all_jobs s' j = all_jobs s j"
    unfolding all_jobs_def hm_sum_dom [OF hm(1)] hm_sum_dom [OF hm(2)] dom
    by (rule sum.cong [OF refl]) (use view in auto)
qed

definition jobs_known :: "dag \<Rightarrow> bool" where
  "jobs_known s \<longleftrightarrow> (\<forall>d x. hm_get (by_drv s) d = Some x \<longrightarrow>
     head_jobs x \<noteq> [] \<and> (\<forall>j\<in>set (head_jobs x). hm_get (job_meta s) j \<noteq> None))"

lemma alias_count:
  assumes "\<forall>j\<in>set js. hm_get (job_meta s) j \<noteq> None"
  shows "map alias_job_id (alias_completions_for js s) = tl js"
proof -
  have "map alias_job_id (List.map_filter (\<lambda>j. map_option (\<lambda>(r, e). \<lparr>alias_job_id = j, alias_eval_id = e,
      alias_repo_id = r\<rparr>) (hm_get (job_meta s) j)) ks) = ks" if "\<forall>j\<in>set ks. hm_get (job_meta s) j \<noteq> None" for ks
    using that by (induction ks) (auto simp: List.map_filter_def)
  then show ?thesis using assms unfolding alias_completions_for_def drop_Suc by (cases js) auto
qed

text \<open>A completion ends the jobs it reports, each once: the primary, its aliases and the skips.\<close>

lemma run_complete:
  assumes s: "run_graph s" "jobs_known s"
    and x: "hm_get (by_drv s) d = Some x" "in_flight_token x = Some t"
  obtains s' eff where "dag_complete t st s = Some (s', eff)" "run_graph s'" "jobs_known s'"
    "dag_live s' = dag_live s - {t}" "dag_work s' \<le> dag_work s"
    "\<forall>j. all_jobs s' j = all_jobs s j"
    "\<forall>j. done_jobs s' j = done_jobs s j + count_list (head_jobs x) j
       + count_list (map skip_job_id (cascaded_skips eff)) j"
    "map alias_job_id (alias_completions eff) = tl (head_jobs x)"
    "\<forall>k y. hm_get (by_drv s) k = Some y \<and> s_state y = StRunning \<and> k \<noteq> d \<longrightarrow>
       (\<exists>z. hm_get (by_drv s') k = Some z \<and> s_state z = StRunning
         \<and> in_flight_token z = in_flight_token y \<and> head_jobs z = head_jobs y)"
proof -
  let ?st = "st_from_status st"
  have ok: "dag_ok s" "promoted s" "concurrency_cap (g_wfq s) \<noteq> Some 0"
    using s(1) by (simp_all add: run_graph_def dag_good_def)
  have "tok_step s d x" using ok(1) x(1) by (auto simp: dag_ok_def intro: tok_okD(4))
  then have tok: "hm_get (token_to_drv s) t = Some d" using x(2) by (simp add: tok_step_def)
  obtain x' s' eff where c: "hm_get (by_drv s) d = Some x'" "dag_complete t st s = Some (s', eff)" "dag_ok s'"
    "promoted s'" "evolves s s'" "completed_as d x' ?st t s s'"
    "cascaded_skips eff = (if st_is_successful ?st then [] else snd (cascade_skip d (finish_step d ?st t s)))"
    "alias_completions eff = alias_completions_for (head_jobs x') s" "job_meta s' = job_meta s"
    "concurrency_cap (g_wfq s') = concurrency_cap (g_wfq s)"
    "in_flight (g_wfq s') = hm_remove t (in_flight (g_wfq s))"
    using dag_complete_known [OF ok(1,2) tok, of st] by metis
  have x': "x' = x" using c(1) x(1) by simp
  note comp = c(6) [unfolded x']
  have dom: "dom (hm_get (by_drv s')) = dom (hm_get (by_drv s))" by (rule completed_dom [OF x(1) comp])
  note view = completed_step [OF ok(1) x comp]
  have good: "dag_good s'" "concurrency_cap (g_wfq s') = None"
    using c ok(3) s(1) by (simp_all add: dag_good_def run_graph_def)
  have known: "jobs_known s'"
  proof -
    have "head_jobs z \<noteq> [] \<and> (\<forall>j\<in>set (head_jobs z). hm_get (job_meta s') j \<noteq> None)"
      if z: "hm_get (by_drv s') k = Some z" for k z
    proof -
      obtain y where y: "hm_get (by_drv s) k = Some y" using z dom by blast
      with view [OF y] z have "head_jobs z = head_jobs y" by auto
      with s(2) y c(9) show ?thesis by (simp add: jobs_known_def)
    qed
    then show ?thesis unfolding jobs_known_def by blast
  qed
  have skips: "count_list (map skip_job_id (cascaded_skips eff)) j =
      (if st_is_successful ?st then 0 else jobs_in (reaches (by_drv s) (set (rdeps x))) (by_drv s) j)" for j
  proof (cases "st_is_successful ?st")
    case False
    have "jobs_in (reaches (by_drv s) (set (rdeps x))) (by_drv s) j = 0" if "hm_get (job_meta s) j = None"
    proof -
      have "count_list (head_jobs y) j = 0" if "hm_get (by_drv s) k = Some y" for k y
        using s(2) that \<open>hm_get (job_meta s) j = None\<close> unfolding jobs_known_def count_list_0_iff by metis
      then show ?thesis
        using ok(1) unfolding jobs_in_def by (subst hm_sum_eq_0_iff) (auto simp: dag_ok_def graph_ok_def)
    qed
    with failure_cascade(3) [OF ok(1) x False, of j] c(7) False show ?thesis by auto
  qed (simp add: c(7))
  have "map alias_job_id (alias_completions eff) = tl (head_jobs x)"
    unfolding c(8) x' by (rule alias_count) (use s(2) x(1) in \<open>simp add: jobs_known_def\<close>)
  moreover have "dag_live s' = dag_live s - {t}"
    by (auto simp: dag_live_def c(11) hm_simps dom_def split: if_splits)
  moreover have "run_graph s'" by (rule completed_run_graph [OF s(1) x comp good])
  moreover have "dag_work s' \<le> dag_work s" by (rule dag_work_evolves [OF ok(1) c(3,5) dom])
  moreover have "\<exists>z. hm_get (by_drv s') k = Some z \<and> s_state z = StRunning
      \<and> in_flight_token z = in_flight_token y \<and> head_jobs z = head_jobs y"
    if "hm_get (by_drv s) k = Some y" "s_state y = StRunning" "k \<noteq> d" for k y
    using view [OF that(1)] that(2,3) by auto
  ultimately show thesis
    using that [OF c(2)] known completed_done [OF ok(1) c(3) x comp] skips by simp
qed

section \<open>The jobs of an enqueued graph\<close>

lemma enqueued_jobs_known:
  assumes "jobs_known s" "enqueued_as it s s'" "item_closure it = []"
  shows "jobs_known s'"
proof -
  have meta: "job_meta s' = hm_insert (item_job_id it) (item_repo_id it, item_eval_id it) (job_meta s)"
    using assms(2) by (simp add: enqueued_as_def)
  have "head_jobs y \<noteq> [] \<and> (\<forall>j\<in>set (head_jobs y). hm_get (job_meta s') j \<noteq> None)"
    if y: "hm_get (by_drv s') k = Some y" for k y
  proof (cases "hm_get (by_drv s) k")
    case None
    then have "k \<in> item_paths it" using assms(2) y unfolding enqueued_as_def by blast
    then have "head_jobs y = [item_job_id it]"
      using assms(2,3) y None unfolding enqueued_as_def item_paths_def by auto
    then show ?thesis by (simp add: meta hm_simps)
  next
    case (Some x)
    then have "head_jobs y = head_jobs x @ (if k = drv_path (head_drv it) then [item_job_id it] else [])"
      using assms(2) y unfolding enqueued_as_def by blast
    with assms(1) Some show ?thesis by (auto simp: jobs_known_def meta hm_simps)
  qed
  then show ?thesis unfolding jobs_known_def by blast
qed

lemma enqueued_all_jobs:
  assumes ok: "dag_ok s" "dag_ok s'" and e: "enqueued_as it s s'" "item_closure it = []"
  shows "all_jobs s' j = all_jobs s j + count_list [item_job_id it] j"
proof -
  let ?hd = "drv_path (head_drv it)" and ?D = "dom (hm_get (by_drv s))" and ?D' = "dom (hm_get (by_drv s'))"
  have dom: "?D' = insert ?hd ?D" using e by (auto simp: enqueued_as_def item_paths_def)
  let ?c = "\<lambda>k. if k \<in> ?D then count_list (head_jobs (the (hm_get (by_drv s) k))) j else 0"
  have c: "count_list (head_jobs (the (hm_get (by_drv s') k))) j = ?c k + (if k = ?hd then count_list [item_job_id it] j else 0)"
    if "k \<in> ?D'" for k
  proof -
    from that obtain y where y: "hm_get (by_drv s') k = Some y" by blast
    show ?thesis
    proof (cases "hm_get (by_drv s) k")
      case None
      then have "k = ?hd" "head_jobs y = (if k = ?hd then [item_job_id it] else [])"
        using e(1) y dom unfolding enqueued_as_def by blast+
      with None y show ?thesis by (simp add: domIff)
    next
      case (Some x)
      then have "head_jobs y = head_jobs x @ (if k = ?hd then [item_job_id it] else [])"
        using e(1) y unfolding enqueued_as_def by blast
      with Some y show ?thesis by (simp add: domIff)
    qed
  qed
  have hm: "hm_ok (by_drv s)" "hm_ok (by_drv s')" using ok by (simp_all add: dag_ok_def graph_ok_def)
  have fin: "finite ?D'" by (simp add: finite_dom_map_of)
  have "all_jobs s' j = (\<Sum>k\<in>?D'. ?c k + (if k = ?hd then count_list [item_job_id it] j else 0))"
    unfolding all_jobs_def hm_sum_dom [OF hm(2)] by (rule sum.cong [OF refl c])
  also have "\<dots> = (\<Sum>k\<in>?D'. ?c k) + count_list [item_job_id it] j"
    using fin dom by (simp add: sum.distrib sum.delta)
  also have "(\<Sum>k\<in>?D'. ?c k) = (\<Sum>k\<in>?D. count_list (head_jobs (the (hm_get (by_drv s) k))) j)"
    using fin dom by (intro sum.mono_neutral_cong_right) auto
  finally show ?thesis unfolding all_jobs_def hm_sum_dom [OF hm(1)] .
qed

lemma unstarted_done: "dag_ok s \<Longrightarrow> unstarted s \<Longrightarrow> done_jobs s j = 0"
  unfolding done_jobs_def by (subst hm_sum_eq_0_iff) (auto simp: dag_ok_def graph_ok_def unstarted_def)

lemma dag_work_bound:
  assumes "dag_ok s"
  shows "dag_work s \<le> card (dom (hm_get (by_drv s)))"
proof -
  have hm: "hm_ok (by_drv s)" using assms by (simp add: dag_ok_def graph_ok_def)
  have "dag_work s \<le> (\<Sum>k\<in>dom (hm_get (by_drv s)). 1)"
    unfolding dag_work_def hm_sum_dom [OF hm] by (rule sum_mono) simp
  then show ?thesis by simp
qed

section \<open>Dispatching\<close>

lemma run_dispatch:
  assumes s: "run_graph s" "jobs_known s"
  obtains s' res where "dag_dispatch s = Some (s', res)" "run_graph s'" "jobs_known s'"
    "\<forall>j. all_jobs s' j = all_jobs s j" "\<forall>j. done_jobs s' j = done_jobs s j"
    "case res of
       None \<Rightarrow> by_drv s' = by_drv s \<and> dag_live s' = dag_live s \<and> dag_work s' \<le> dag_work s
         \<and> wfq_pending_count (g_wfq s') = 0
     | Some o1 \<Rightarrow> \<exists>x. hm_get (by_drv s) (d_drv_path o1) = Some x \<and> s_state x = StReady
         \<and> in_flight_token x = Some (d_token o1) \<and> head_job o1 = Some (hd (head_jobs x))
         \<and> by_drv s' = hm_modify (d_drv_path o1) (\<lambda>x. x\<lparr>s_state := StRunning\<rparr>) (by_drv s)
         \<and> d_token o1 \<notin> dag_live s \<and> dag_live s' = insert (d_token o1) (dag_live s) \<and> dag_work s' < dag_work s"
proof -
  have ok: "dag_ok s" "promoted s" "concurrency_cap (g_wfq s) = None"
    using s(1) by (simp_all add: run_graph_def dag_good_def)
  obtain s' res where d: "dag_dispatch s = Some (s', res)" "dag_ok s'" "dispatched_as s s' res"
    "job_meta s' = job_meta s" "concurrency_cap (g_wfq s') = concurrency_cap (g_wfq s)"
    using dag_dispatch_ok [OF ok(1)] by blast
  have good: "dag_good s'" "concurrency_cap (g_wfq s') = None"
    using d ok promoted_dispatched [OF d(3) ok(2)] by (simp_all add: dag_good_def)
  show thesis
  proof (cases res)
    case None
    then have n: "by_drv s' = by_drv s" "hm_get (in_flight (g_wfq s')) = hm_get (in_flight (g_wfq s))"
      "wfq_pending_count (g_wfq s') = 0"
      using d(3) good(2) by (simp_all add: dispatched_as_def cap_full_def)
    show thesis
      by (rule that [OF d(1)])
        (use n good s d(4) None in \<open>simp_all add: run_graph_def graph_order_def settled_graph_def jobs_known_def
          all_jobs_def done_jobs_def dag_live_def dag_work_def\<close>)
  next
    case (Some o1)
    let ?d = "d_drv_path o1" and ?f = "\<lambda>x. x\<lparr>s_state := StRunning\<rparr>"
    obtain x where x: "hm_get (by_drv s) ?d = Some x" "s_state x = StReady"
      "in_flight_token x = Some (d_token o1)"
      "head_job o1 = (case head_jobs x of [] \<Rightarrow> None | j # _ \<Rightarrow> Some j)"
      "by_drv s' = hm_modify ?d ?f (by_drv s)" "hm_get (in_flight (g_wfq s)) (d_token o1) = None"
      "dom (hm_get (in_flight (g_wfq s'))) = insert (d_token o1) (dom (hm_get (in_flight (g_wfq s))))"
      using d(3) Some by (auto simp: dispatched_as_def)
    have get: "hm_get (by_drv s') k = (if k = ?d then Some (?f x) else hm_get (by_drv s) k)" for k
      by (simp add: x(1,5) hm_simps)
    have "graph_order s'"
      using s(1) x(1) unfolding run_graph_def graph_order_def get by (auto split: if_splits)
    moreover have "settled_graph s'"
      using s(1) x(1,2) unfolding run_graph_def settled_graph_def get
      by (auto split: if_splits) (metis st_is_terminal.simps(7))
    ultimately have run: "run_graph s'" using good by (simp add: run_graph_def)
    have known: "jobs_known s'"
      using s(2) x(1) unfolding jobs_known_def get d(4) by (auto split: if_splits)
    have "head_job o1 = Some (hd (head_jobs x))"
      using s(2) x(1,4) unfolding jobs_known_def by (cases "head_jobs x") auto
    moreover have "dag_work s' < dag_work s" using dag_work_dispatch [OF ok(1)] d(3) Some by simp
    moreover have "all_jobs s' j = all_jobs s j" for j
      unfolding all_jobs_def x(5) by (rule hm_sum_modify_same) simp
    moreover have "done_jobs s' j = done_jobs s j" for j
      using hm_sum_modify [OF _ x(1), of "\<lambda>_ x. if st_is_terminal (s_state x) then count_list (head_jobs x) j else 0" ?f]
        ok(1) x(2) unfolding done_jobs_def x(5) by (simp add: dag_ok_def graph_ok_def)
    ultimately show thesis
      using that [OF d(1) run known] x Some by (auto simp: dag_live_def)
  qed
qed

end
