(* ===== verification/Worker_Props.thy ===== *)
theory Worker_Props
  imports Worker Dag_Account
begin

text \<open>
  What is shown of the worker: the build phase ends and gives every job of the evaluation one verdict,
  the overall check is green only when nothing failed or was interrupted, and a crashed evaluation
  resumes with the specs it was created with.
\<close>

section \<open>Reports\<close>

text \<open>A step of the phase that records verdicts and leaves the strategy and the tasks alone.\<close>

definition reports :: "phase \<Rightarrow> (job_id \<times> job_status) list \<Rightarrow> phase \<Rightarrow> bool" where
  "reports p vs p' \<longleftrightarrow> ph_strategy p' = ph_strategy p \<and> ph_set p' = ph_set p
     \<and> ph_verdicts p' = ph_verdicts p @ vs \<and> ph_tally p' = fold tally_record (map snd vs) (ph_tally p)"

lemma reports_refl [simp]: "reports p [] p"
  by (simp add: reports_def)

lemma reports_trans: "reports p vs p' \<Longrightarrow> reports p' ws p'' \<Longrightarrow> reports p (vs @ ws) p''"
  by (simp add: reports_def)

lemma reports_post [simp]: "reports p [] (worker_post c post p)"
  by (simp add: reports_def worker_post_def)

lemma reports_checks [simp]:
  "reports p [] (post_per_job_check c e attr st err p)"
  "reports p [] (post_overall_check c state d p)"
  "reports p [] (phase_job_finish j st now lp op p)"
  "reports p [] (report_joined c now spec st p)"
proof -
  show job: "reports p [] (post_per_job_check c e attr st err p)" for e attr st err
    by (simp add: post_per_job_check_def split: option.splits)
  show all: "reports p [] (post_overall_check c state d p)" for state d
    by (simp add: post_overall_check_def)
  show "reports p [] (phase_job_finish j st now lp op p)"
    by (simp add: reports_def phase_job_finish_def)
  show "reports p [] (report_joined c now spec st p)"
    using job all [of CheckPending "collapsed_progress (ph_tally p) (px_total c)"]
    by (simp add: report_joined_def) (simp add: reports_def)
qed

lemma reports_record: "reports p [(j, st)] (phase_record j st p)"
  by (simp add: reports_def phase_record_def)

lemma reports_then: "reports p vs q \<Longrightarrow> reports q [] r \<Longrightarrow> reports p vs r"
  using reports_trans [of p vs q "[]" r] by simp

lemma reports_finished: "reports p [(j, st)] (phase_record j st (phase_job_finish j st' now lp op p))"
  using reports_trans [OF reports_checks(3) reports_record] by simp

lemma reports_skip: "reports p [(skip_job_id k, JFailure)] (handle_cascade_skip c now spec k p)"
  unfolding handle_cascade_skip_def Let_def
  by (simp add: reports_finished) (blast intro: reports_then reports_finished reports_checks)

lemma reports_alias: "reports p [(alias_job_id a, st)] (handle_alias_completion c now spec a st row p)"
  unfolding handle_alias_completion_def Let_def
  by (simp add: reports_finished) (blast intro: reports_then reports_finished reports_checks)

lemma reports_skips:
  assumes "\<forall>k\<in>set skips. hm_get (px_specs c) (skip_job_id k) \<noteq> None"
  shows "reports p (map (\<lambda>k. (skip_job_id k, JFailure)) skips) (handle_skips c now skips p)"
  using assms unfolding handle_skips_def
proof (induction skips arbitrary: p)
  case (Cons k skips)
  then obtain spec where spec: "hm_get (px_specs c) (skip_job_id k) = Some spec" by auto
  show ?case
    using reports_trans [OF reports_skip Cons.IH] Cons.prems by (simp add: spec)
qed simp

lemma reports_aliases:
  assumes "\<forall>a\<in>set als. hm_get (px_specs c) (alias_job_id a) \<noteq> None"
  shows "reports p (map (\<lambda>a. (alias_job_id a, st)) als) (handle_aliases c now st row als p)"
  using assms unfolding handle_aliases_def
proof (induction als arbitrary: p)
  case (Cons a als)
  then obtain spec where spec: "hm_get (px_specs c) (alias_job_id a) = Some spec" by auto
  show ?case
    using reports_trans [OF reports_alias Cons.IH] Cons.prems by (simp add: spec)
qed simp

section \<open>The invariant of the loop\<close>

text \<open>\<open>js\<close> are the jobs that were enqueued, \<open>fs\<close> those reported before the loop.\<close>

definition task_runs :: "dag \<Rightarrow> task \<Rightarrow> bool" where
  "task_runs s t \<longleftrightarrow> (\<exists>d x. hm_get (by_drv s) d = Some x \<and> s_state x = StRunning
     \<and> in_flight_token x = Some (snd (snd t)) \<and> hd (head_jobs x) = fst t)"

definition phase_inv :: "phase_ctx \<Rightarrow> job_id list \<Rightarrow> job_id list \<Rightarrow> phase \<Rightarrow> bool" where
  "phase_inv c js fs p \<longleftrightarrow> run_graph (ph_strategy p) \<and> jobs_known (ph_strategy p)
     \<and> dag_live (ph_strategy p) = (snd \<circ> snd) ` set (ph_set p) \<and> distinct (map (snd \<circ> snd) (ph_set p))
     \<and> (\<forall>t\<in>set (ph_set p). task_runs (ph_strategy p) t)
     \<and> (\<forall>j. all_jobs (ph_strategy p) j = count_list js j) \<and> set js \<subseteq> dom (hm_get (px_specs c))
     \<and> (\<forall>j. count_list (map fst (ph_verdicts p)) j = count_list fs j + done_jobs (ph_strategy p) j)
     \<and> ph_tally p = fold tally_record (map snd (ph_verdicts p)) tally_default"

definition phase_load :: "phase \<Rightarrow> nat" where
  "phase_load p = dag_work (ph_strategy p) + length (ph_set p)"

lemma job_has_spec:
  assumes "phase_inv c js fs p" "hm_get (by_drv (ph_strategy p)) d = Some x" "j \<in> set (head_jobs x)"
  shows "hm_get (px_specs c) j \<noteq> None"
proof -
  have "hm_ok (by_drv (ph_strategy p))"
    using assms(1) by (simp add: phase_inv_def run_graph_def dag_good_def dag_ok_def graph_ok_def)
  then have "count_list (head_jobs x) j \<le> all_jobs (ph_strategy p) j"
    unfolding all_jobs_def using hm_sum_mono_le [OF assms(2), of "\<lambda>_ x. count_list (head_jobs x) j"] by simp
  moreover have "0 < count_list (head_jobs x) j" using assms(3) by (metis count_list_0_iff neq0_conv)
  ultimately have "0 < count_list js j" using assms(1) by (auto simp: phase_inv_def)
  then have "j \<in> set js" by (metis count_list_0_iff less_irrefl)
  with assms(1) show ?thesis by (auto simp: phase_inv_def)
qed

lemma phase_inv_cong:
  "phase_inv c js fs p \<Longrightarrow> ph_strategy p' = ph_strategy p \<Longrightarrow> ph_set p' = ph_set p \<Longrightarrow>
   ph_verdicts p' = ph_verdicts p \<Longrightarrow> ph_tally p' = ph_tally p \<Longrightarrow> phase_inv c js fs p'"
  by (simp add: phase_inv_def)

lemma spawn_pass_ok:
  assumes "phase_inv c js fs p"
  shows "\<exists>p' b. spawn_pass c n p = Some (p', b) \<and> phase_inv c js fs p' \<and> phase_load p' \<le> phase_load p
    \<and> (b \<longrightarrow> wfq_pending_count (g_wfq (ph_strategy p')) = 0) \<and> (0 < n \<and> ph_set p' = [] \<longrightarrow> b)"
  using assms
proof (induction n arbitrary: p)
  case 0
  then show ?case by (intro exI [of _ p] exI [of _ False]) simp
next
  case (Suc n)
  let ?s = "ph_strategy p"
  have inv: "run_graph ?s" "jobs_known ?s" using Suc.prems by (simp_all add: phase_inv_def)
  obtain s' res where d: "dag_dispatch ?s = Some (s', res)" "run_graph s'" "jobs_known s'"
    "\<forall>j. all_jobs s' j = all_jobs ?s j" "\<forall>j. done_jobs s' j = done_jobs ?s j"
    "case res of
       None \<Rightarrow> by_drv s' = by_drv ?s \<and> dag_live s' = dag_live ?s \<and> dag_work s' \<le> dag_work ?s
         \<and> wfq_pending_count (g_wfq s') = 0
     | Some o1 \<Rightarrow> \<exists>x. hm_get (by_drv ?s) (d_drv_path o1) = Some x \<and> s_state x = StReady
         \<and> in_flight_token x = Some (d_token o1) \<and> head_job o1 = Some (hd (head_jobs x))
         \<and> by_drv s' = hm_modify (d_drv_path o1) (\<lambda>x. x\<lparr>s_state := StRunning\<rparr>) (by_drv ?s)
         \<and> d_token o1 \<notin> dag_live ?s \<and> dag_live s' = insert (d_token o1) (dag_live ?s) \<and> dag_work s' < dag_work ?s"
    by (rule run_dispatch [OF inv]) (rule that)
  show ?case
  proof (cases res)
    case None
    then have "phase_inv c js fs (p\<lparr>ph_strategy := s'\<rparr>)"
      using Suc.prems d(2-6) by (simp add: phase_inv_def task_runs_def)
    with d(1,6) None show ?thesis by (auto simp: phase_load_def)
  next
    case (Some o1)
    with d(6) obtain x where x: "hm_get (by_drv ?s) (d_drv_path o1) = Some x" "s_state x = StReady"
      "in_flight_token x = Some (d_token o1)" "head_job o1 = Some (hd (head_jobs x))"
      "by_drv s' = hm_modify (d_drv_path o1) (\<lambda>x. x\<lparr>s_state := StRunning\<rparr>) (by_drv ?s)"
      "d_token o1 \<notin> dag_live ?s" "dag_live s' = insert (d_token o1) (dag_live ?s)" "dag_work s' < dag_work ?s"
      by auto
    let ?j = "hd (head_jobs x)"
    have "?j \<in> set (head_jobs x)" using inv(2) x(1) by (auto simp: jobs_known_def)
    then obtain spec where spec: "hm_get (px_specs c) ?j = Some spec"
      using job_has_spec [OF Suc.prems x(1)] by blast
    let ?p = "p\<lparr>ph_strategy := s', ph_set := ph_set p @ [(?j, spec, d_token o1)]\<rparr>"
    have runs: "task_runs s' t" if "t = (?j, spec, d_token o1) \<or> t \<in> set (ph_set p)" for t
    proof (cases "t \<in> set (ph_set p)")
      case True
      then obtain k y where y: "hm_get (by_drv ?s) k = Some y" "s_state y = StRunning"
        "in_flight_token y = Some (snd (snd t))" "hd (head_jobs y) = fst t"
        using Suc.prems unfolding phase_inv_def task_runs_def by blast
      moreover have "k \<noteq> d_drv_path o1" using x(1,2) y(1,2) by auto
      ultimately show ?thesis unfolding task_runs_def x(5) by (intro exI [of _ k]) (simp add: hm_simps)
    next
      case False
      with that x(1,3) show ?thesis unfolding task_runs_def x(5)
        by (intro exI [of _ "d_drv_path o1"]) (simp add: hm_simps)
    qed
    have "phase_inv c js fs ?p"
      using Suc.prems d(2-5) x(6,7) runs by (auto simp: phase_inv_def)
    from Suc.IH [OF this] d(1) Some x(4,8) spec show ?thesis
      by (fastforce simp: phase_load_def)
  qed
qed

lemma removed_task:
  assumes "join_next i ts = Some (t, rest)" "distinct (map f ts)"
  shows "t \<in> set ts" "set rest \<subseteq> set ts" "distinct (map f rest)" "f ` set rest = f ` set ts - {f t}"
    "Suc (length rest) = length ts"
proof -
  let ?k = "i mod length ts"
  have t: "t = ts ! ?k" and rest: "rest = take ?k ts @ drop (Suc ?k) ts" and k: "?k < length ts"
    using assms(1) by (auto simp: join_next_def Let_def split: if_splits)
  obtain xs ys where "ts = xs @ t # ys" "rest = xs @ ys"
    using id_take_nth_drop [OF k] t rest by metis
  moreover from this assms(2) have "f t \<notin> f ` set xs" "f t \<notin> f ` set ys" by simp_all
  ultimately show "t \<in> set ts" "set rest \<subseteq> set ts" "distinct (map f rest)" "f ` set rest = f ` set ts - {f t}"
    "Suc (length rest) = length ts"
    using assms(2) by (auto simp: image_Un)
qed

lemma handle_joined_ok:
  assumes inv: "phase_inv c js fs p" and j: "join_next i (ph_set p) = Some (t, rest)"
  shows "\<exists>p'. handle_joined c now t (Outcome o1) (p\<lparr>ph_set := rest\<rparr>) = Some p' \<and> phase_inv c js fs p'
    \<and> phase_load p' < phase_load p"
proof -
  let ?s = "ph_strategy p" and ?st = "case o1 of Some st \<Rightarrow> st | None \<Rightarrow> JFailure"
  obtain k spec tok where t: "t = (k, spec, tok)" by (cases t)
  have run: "run_graph ?s" "jobs_known ?s" and dist: "distinct (map (snd \<circ> snd) (ph_set p))"
    using inv by (simp_all add: phase_inv_def)
  note rem = removed_task [OF j dist]
  have "task_runs ?s t" using inv rem(1) by (simp add: phase_inv_def)
  then obtain d x where x: "hm_get (by_drv ?s) d = Some x" "in_flight_token x = Some tok" "hd (head_jobs x) = k"
    by (auto simp: task_runs_def t)
  obtain s' eff where c: "dag_complete tok ?st ?s = Some (s', eff)" "run_graph s'" "jobs_known s'"
    "dag_live s' = dag_live ?s - {tok}" "dag_work s' \<le> dag_work ?s" "\<forall>j. all_jobs s' j = all_jobs ?s j"
    "\<forall>j. done_jobs s' j = done_jobs ?s j + count_list (head_jobs x) j
       + count_list (map skip_job_id (cascaded_skips eff)) j"
    "map alias_job_id (alias_completions eff) = tl (head_jobs x)"
    "\<forall>k y. hm_get (by_drv ?s) k = Some y \<and> s_state y = StRunning \<and> k \<noteq> d \<longrightarrow>
       (\<exists>z. hm_get (by_drv s') k = Some z \<and> s_state z = StRunning
         \<and> in_flight_token z = in_flight_token y \<and> head_jobs z = head_jobs y)"
    by (rule run_complete [OF run x(1,2), of ?st]) (rule that)
  have "hm_get (px_specs c) (skip_job_id k) \<noteq> None" if "k \<in> set (cascaded_skips eff)" for k
  proof -
    have "done_jobs s' (skip_job_id k) \<le> all_jobs s' (skip_job_id k)"
      unfolding done_jobs_def all_jobs_def hm_sum_def by (rule sum_list_mono) auto
    moreover have "0 < count_list (map skip_job_id (cascaded_skips eff)) (skip_job_id k)"
      using that by (metis count_list_0_iff image_eqI list.set_map neq0_conv)
    ultimately have "0 < count_list js (skip_job_id k)" using c(6,7) inv by (simp add: phase_inv_def)
    then have "skip_job_id k \<in> set js" by (metis count_list_0_iff less_irrefl)
    with inv show ?thesis by (auto simp: phase_inv_def)
  qed
  moreover have "hm_get (px_specs c) (alias_job_id a) \<noteq> None" if "a \<in> set (alias_completions eff)" for a
  proof -
    have "alias_job_id a \<in> set (tl (head_jobs x))" using that c(8) by (metis image_eqI list.set_map)
    then have "alias_job_id a \<in> set (head_jobs x)" by (cases "head_jobs x") auto
    then show ?thesis by (rule job_has_spec [OF inv x(1)])
  qed
  ultimately have specs: "\<forall>k\<in>set (cascaded_skips eff). hm_get (px_specs c) (skip_job_id k) \<noteq> None"
    "\<forall>a\<in>set (alias_completions eff). hm_get (px_specs c) (alias_job_id a) \<noteq> None" by blast+
  let ?init = "p\<lparr>ph_set := rest, ph_strategy := s'\<rparr>"
  let ?vs = "map (\<lambda>k. (skip_job_id k, JFailure)) (cascaded_skips eff)
     @ map (\<lambda>a. (alias_job_id a, ?st)) (alias_completions eff) @ [(k, ?st)]"
  obtain p' where p': "handle_joined c now t (Outcome o1) (p\<lparr>ph_set := rest\<rparr>) = Some p'" "reports ?init ?vs p'"
  proof -
    define p1 where "p1 = handle_skips c now (cascaded_skips eff) ?init"
    define p2 where "p2 = (if alias_completions eff = [] then p1
      else handle_aliases c now ?st (primary_row c k p1) (alias_completions eff) p1)"
    have "reports ?init (map (\<lambda>k. (skip_job_id k, JFailure)) (cascaded_skips eff)) p1"
      unfolding p1_def by (rule reports_skips [OF specs(1)])
    moreover have "reports p1 (map (\<lambda>a. (alias_job_id a, ?st)) (alias_completions eff)) p2"
      unfolding p2_def using reports_aliases [OF specs(2)] by simp
    moreover have "reports p2 [(k, ?st)] (report_joined c now spec ?st (phase_record k ?st p2))"
      by (rule reports_then [OF reports_record reports_checks(4)])
    ultimately have "reports ?init ?vs (report_joined c now spec ?st (phase_record k ?st p2))"
      by (blast intro: reports_trans)
    moreover have "handle_joined c now t (Outcome o1) (p\<lparr>ph_set := rest\<rparr>) =
        Some (report_joined c now spec ?st (phase_record k ?st p2))"
      using c(1) by (simp add: handle_joined_def t Let_def p1_def p2_def)
    ultimately show thesis using that by blast
  qed
  have st: "ph_strategy p' = s'" "ph_set p' = rest" "ph_verdicts p' = ph_verdicts p @ ?vs"
    "ph_tally p' = fold tally_record (map snd ?vs) (ph_tally p)"
    using p'(2) by (simp_all add: reports_def)
  have runs: "task_runs s' u" if u: "u \<in> set rest" for u
  proof -
    have "u \<in> set (ph_set p)" using rem(2) u by blast
    then obtain e y where y: "hm_get (by_drv ?s) e = Some y" "s_state y = StRunning"
      "in_flight_token y = Some (snd (snd u))" "hd (head_jobs y) = fst u"
      using inv unfolding phase_inv_def task_runs_def by blast
    have "snd (snd u) \<noteq> tok" using rem(4) u by (force simp: t)
    then have "e \<noteq> d" using x(1,2) y(1,3) by auto
    with c(9) y obtain z where "hm_get (by_drv s') e = Some z" "s_state z = StRunning"
      "in_flight_token z = in_flight_token y" "head_jobs z = head_jobs y" by blast
    with y show ?thesis unfolding task_runs_def by (intro exI [of _ e] exI [of _ z]) simp
  qed
  have "head_jobs x = k # tl (head_jobs x)"
    using run(2) x(1,3) unfolding jobs_known_def by (metis list.collapse)
  then have "count_list (head_jobs x) j = count_list (k # map alias_job_id (alias_completions eff)) j" for j
    unfolding c(8) by simp
  then have "count_list (map fst ?vs) j =
      count_list (head_jobs x) j + count_list (map skip_job_id (cascaded_skips eff)) j" for j
    by (simp add: comp_def)
  then have "count_list (map fst (ph_verdicts p')) j = count_list fs j + done_jobs s' j" for j
    using inv c(7) unfolding st phase_inv_def by simp
  moreover have "ph_tally p' = fold tally_record (map snd (ph_verdicts p')) tally_default"
    using inv unfolding st by (simp add: phase_inv_def)
  moreover have "dag_live s' = (snd \<circ> snd) ` set rest" using inv rem(4) c(4) by (simp add: phase_inv_def t)
  ultimately have "phase_inv c js fs p'"
    using inv c(2,3,6) runs rem(3) unfolding phase_inv_def st(1,2) by simp
  with p'(1) rem(5) c(5) show ?thesis by (auto simp: phase_load_def st)
qed

section \<open>The loop\<close>

text \<open>A turn without cancellation and without a lost task; it is productive when it gets a permit and
  its wait ends with a finished build.\<close>

definition quiet_turn :: "phase_turn \<Rightarrow> bool" where
  "quiet_turn t \<longleftrightarrow> \<not> pt_cancel_spawn t \<and> \<not> pt_cancel_exit t
     \<and> (case pt_event t of SelCancelled _ \<Rightarrow> False | SelJoined _ r \<Rightarrow> r \<noteq> JoinError | SelPermit \<Rightarrow> True)"

definition productive :: "phase_turn \<Rightarrow> bool" where
  "productive t \<longleftrightarrow> 0 < pt_permits t \<and> pt_event t \<noteq> SelPermit"

lemma phase_await_ok:
  assumes inv: "phase_inv c js fs p" and q: "quiet_turn t" and ne: "ph_set p \<noteq> []"
  shows "\<exists>p'. phase_await c t p = Looping p' \<and> phase_inv c js fs p' \<and> phase_load p' \<le> phase_load p
    \<and> (pt_event t \<noteq> SelPermit \<longrightarrow> phase_load p' < phase_load p)"
proof -
  let ?p = "p\<lparr>ph_app := pt_world t (ph_app p)\<rparr>"
  have inv': "phase_inv c js fs ?p" by (rule phase_inv_cong [OF inv]) simp_all
  show ?thesis
  proof (cases "pt_event t")
    case (SelCancelled joins)
    with q show ?thesis by (simp add: quiet_turn_def)
  next
    case (SelJoined i r)
    with q obtain o1 where r: "r = Outcome o1" by (cases r) (auto simp: quiet_turn_def)
    obtain u rest where j: "join_next i (ph_set ?p) = Some (u, rest)"
      using ne by (auto simp: join_next_def Let_def)
    from handle_joined_ok [OF inv' j, of "pt_now t" o1] obtain p' where
      "handle_joined c (pt_now t) u (Outcome o1) (?p\<lparr>ph_set := rest\<rparr>) = Some p'" "phase_inv c js fs p'"
      "phase_load p' < phase_load ?p" by blast
    with j show ?thesis by (auto simp: phase_await_def SelJoined r Let_def phase_load_def)
  next
    case SelPermit
    with inv' show ?thesis by (simp add: phase_await_def phase_load_def)
  qed
qed

lemma phase_step_ok:
  assumes inv: "phase_inv c js fs p" and q: "quiet_turn t"
  shows "(\<exists>p'. phase_step c t p = LoopDone p' \<and> phase_inv c js fs p' \<and> ph_set p' = []
      \<and> wfq_pending_count (g_wfq (ph_strategy p')) = 0)
    \<or> (\<exists>p'. phase_step c t p = Looping p' \<and> phase_inv c js fs p' \<and> phase_load p' \<le> phase_load p
      \<and> (productive t \<longrightarrow> phase_load p' < phase_load p))"
proof -
  obtain p1 b where p1: "spawn_pass c (pt_permits t) p = Some (p1, b)" "phase_inv c js fs p1"
    "phase_load p1 \<le> phase_load p" "b \<longrightarrow> wfq_pending_count (g_wfq (ph_strategy p1)) = 0"
    "0 < pt_permits t \<and> ph_set p1 = [] \<longrightarrow> b"
    using spawn_pass_ok [OF inv] by blast
  have nc: "\<not> pt_cancel_spawn t" "\<not> pt_cancel_exit t" using q by (simp_all add: quiet_turn_def)
  show ?thesis
  proof (cases "ph_set p1 = []")
    case True
    show ?thesis
    proof (cases "wfq_pending_count (g_wfq (ph_strategy p1)) = 0")
      case True
      with p1 nc \<open>ph_set p1 = []\<close> show ?thesis by (simp add: phase_step_def)
    next
      case False
      with p1(4,5) True have "\<not> b" "\<not> productive t" by (auto simp: productive_def)
      moreover have "phase_inv c js fs (p1\<lparr>ph_app := pt_world t (ph_app p1)\<rparr>)"
        by (rule phase_inv_cong [OF p1(2)]) simp_all
      ultimately show ?thesis using p1(1,3) nc True False by (simp add: phase_step_def phase_load_def)
    qed
  next
    case False
    from phase_await_ok [OF p1(2) q False] obtain p' where "phase_await c t p1 = Looping p'" "phase_inv c js fs p'"
      "phase_load p' \<le> phase_load p1" "pt_event t \<noteq> SelPermit \<longrightarrow> phase_load p' < phase_load p1" by blast
    with p1(1,3) nc False show ?thesis by (auto simp: phase_step_def productive_def)
  qed
qed

lemma phase_loop_ok:
  assumes "phase_inv c js fs p" "\<forall>t\<in>set ts. quiet_turn t" "phase_load p < length (filter productive ts)"
  shows "\<exists>p'. phase_loop c ts p = LoopDone p' \<and> phase_inv c js fs p' \<and> ph_set p' = []
    \<and> wfq_pending_count (g_wfq (ph_strategy p')) = 0"
  using assms
proof (induction ts arbitrary: p)
  case (Cons t ts)
  then have q: "quiet_turn t" "\<forall>t\<in>set ts. quiet_turn t" by simp_all
  from phase_step_ok [OF Cons.prems(1) q(1)] show ?case
  proof (elim disjE exE conjE)
    fix p' assume p': "phase_step c t p = Looping p'" "phase_inv c js fs p'" "phase_load p' \<le> phase_load p"
      "productive t \<longrightarrow> phase_load p' < phase_load p"
    have "phase_load p' < length (filter productive ts)" using p'(3,4) Cons.prems(3) by (cases "productive t") auto
    from Cons.IH [OF p'(2) q(2) this] p'(1) show ?thesis by simp
  qed auto
qed simp

lemma phase_done:
  assumes inv: "phase_inv c js fs p" and e: "ph_set p = []" "wfq_pending_count (g_wfq (ph_strategy p)) = 0"
  shows "mset (map fst (ph_verdicts p)) = mset (fs @ js)"
proof -
  let ?s = "ph_strategy p"
  have ok: "dag_ok ?s" "promoted ?s" "graph_order ?s" "settled_graph ?s" "dag_live ?s = {}"
    using inv e by (simp_all add: phase_inv_def run_graph_def dag_good_def)
  have "done_jobs ?s j = all_jobs ?s j" for j
    by (rule done_all [OF ok(1)]) (rule drained_all_terminal [OF ok(1-4) e(2) ok(5)])
  then have "count_list (map fst (ph_verdicts p)) j = count_list (fs @ js) j" for j
    using inv by (simp add: phase_inv_def)
  then show ?thesis by (intro multiset_eqI) (simp only: count_mset)
qed

section \<open>The start\<close>

definition drv_jobs :: "(job_spec \<times> job_id) list \<Rightarrow> job_id list" where
  "drv_jobs persisted = map snd (filter (\<lambda>(spec, _). js_drv_path spec \<noteq> None) persisted)"

definition error_jobs :: "(job_spec \<times> job_id) list \<Rightarrow> job_id list" where
  "error_jobs persisted = map snd (filter (\<lambda>(spec, _). js_drv_path spec = None) persisted)"

lemma persisted_split: "mset (error_jobs persisted @ drv_jobs persisted) = mset (map snd persisted)"
  by (induction persisted) (auto simp: error_jobs_def drv_jobs_def)

lemma closure_without_head:
  assumes "self_keyed (cw_derivations walk)" "i \<in> set (closure_for walk h)"
  shows "drv_path i \<noteq> h"
  using assms unfolding closure_for_set by (auto simp: infos_def self_keyed_def)

lemma enqueue_jobs_ok:
  assumes "run_graph s" "unstarted s" "jobs_known s" "self_keyed (cw_derivations walk)"
  shows "\<exists>s'. enqueue_jobs c walk hp persisted s = Some s' \<and> run_graph s' \<and> unstarted s' \<and> jobs_known s'
    \<and> (\<forall>j. all_jobs s' j = all_jobs s j + count_list (drv_jobs persisted) j)
    \<and> card (dom (hm_get (by_drv s'))) \<le> card (dom (hm_get (by_drv s))) + length (drv_jobs persisted)"
  using assms
proof (induction persisted arbitrary: s)
  case Nil
  then show ?case by (simp add: drv_jobs_def)
next
  case (Cons sj rest)
  obtain spec j where sj: "sj = (spec, j)" by (cases sj)
  show ?case
  proof (cases "js_drv_path spec")
    case None
    with Cons.IH [OF Cons.prems] show ?thesis by (simp add: sj drv_jobs_def)
  next
    case (Some drv)
    let ?it = "job_item c walk hp spec j drv"
    have c: "item_closure ?it = []" and self: "drv_path (head_drv ?it) \<notin> set (drv_input_drvs (head_drv ?it))"
      using closure_without_head [OF Cons.prems(4)] by (auto simp: job_item_def)
    obtain s1 where s1: "dag_enqueue ?it s = Some s1" "run_graph s1" "unstarted s1" "enqueued_as ?it s s1"
      by (rule run_graph_enqueue [OF Cons.prems(1,2) c self])
    have k1: "jobs_known s1" by (rule enqueued_jobs_known [OF Cons.prems(3) s1(4) c])
    have ok: "dag_ok s" "dag_ok s1" using Cons.prems(1) s1(2) by (simp_all add: run_graph_def dag_good_def)
    note all = enqueued_all_jobs [OF ok s1(4) c]
    have "dom (hm_get (by_drv s1)) = insert drv (dom (hm_get (by_drv s)))"
      using s1(4) by (auto simp: enqueued_as_def item_paths_def job_item_def)
    then have card: "card (dom (hm_get (by_drv s1))) \<le> Suc (card (dom (hm_get (by_drv s))))"
      by (simp add: card_insert_le_m1 card_insert_if finite_dom_map_of)
    from Cons.IH [OF s1(2,3) k1 Cons.prems(4)] obtain s' where s': "enqueue_jobs c walk hp rest s1 = Some s'"
      "run_graph s'" "unstarted s'" "jobs_known s'" "\<forall>j. all_jobs s' j = all_jobs s1 j + count_list (drv_jobs rest) j"
      "card (dom (hm_get (by_drv s'))) \<le> card (dom (hm_get (by_drv s1))) + length (drv_jobs rest)" by blast
    have "drv_jobs (sj # rest) = j # drv_jobs rest" by (simp add: drv_jobs_def sj Some)
    moreover have "item_job_id ?it = j" by (simp add: job_item_def)
    ultimately show ?thesis using s' s1(1) card all by (simp add: sj Some)
  qed
qed

lemma reports_eval_errors:
  "reports p (map (\<lambda>j. (j, JFailure)) (error_jobs persisted)) (report_eval_errors c persisted p)"
proof (induction persisted arbitrary: p)
  case (Cons sj rest)
  obtain spec j where sj: "sj = (spec, j)" by (cases sj)
  show ?case
  proof (cases "js_drv_path spec")
    case None
    let ?p1 = "if px_collapsed c then phase_record j JFailure p
      else post_per_job_check c (px_eval_id c) (js_attr_path spec) JFailure (js_error spec \<noteq> None)
             (phase_record j JFailure p)"
    have "reports p [(j, JFailure)] ?p1"
      by (simp add: reports_record) (blast intro: reports_then reports_record reports_checks)
    from reports_trans [OF this Cons.IH] show ?thesis
      using None by (simp add: sj report_eval_errors_def error_jobs_def Let_def)
  next
    case (Some drv)
    with Cons.IH show ?thesis by (simp add: sj report_eval_errors_def error_jobs_def)
  qed
qed (simp add: report_eval_errors_def error_jobs_def)

lemma worker_walk_keyed: "self_keyed (cw_derivations (worker_walk w t persisted))"
  using walk_closures_self_keyed by (auto simp: worker_walk_def Let_def self_keyed_def split: sum.splits)

lemma phase_setup_ok:
  assumes "self_keyed (cw_derivations walk)" "px_specs c = map (\<lambda>(s, j). (j, s)) persisted"
  shows "\<exists>p. phase_setup c walk persisted app = Some p
    \<and> phase_inv c (drv_jobs persisted) (error_jobs persisted) p \<and> phase_load p \<le> length persisted"
proof -
  let ?s0 = "dag_set_weight (rr_id (px_repo c)) 1 (dag_new None)"
  let ?hp = "List.map_filter (js_drv_path \<circ> fst) persisted"
  have empty: "by_drv ?s0 = []" by (simp add: dag_set_weight_def dag_new_def)
  then have known: "jobs_known ?s0" by (simp add: jobs_known_def)
  from enqueue_jobs_ok [OF run_graph_new known assms(1), of c ?hp persisted] empty
  obtain s where s: "enqueue_jobs c walk ?hp persisted ?s0 = Some s" "run_graph s" "unstarted s" "jobs_known s"
    "\<forall>j. all_jobs s j = count_list (drv_jobs persisted) j"
    "card (dom (hm_get (by_drv s))) \<le> length (drv_jobs persisted)"
    by (auto simp: all_jobs_def)
  let ?init = "\<lparr>ph_app = app, ph_posts = [], ph_strategy = s, ph_set = [], ph_tally = tally_default,
       ph_verdicts = [], ph_last = None\<rparr>"
  let ?p = "report_eval_errors c persisted ?init"
  have start: "phase_setup c walk persisted app = Some ?p" unfolding phase_setup_def s(1) by simp
  have r: "ph_strategy ?p = s" "ph_set ?p = []" "ph_verdicts ?p = map (\<lambda>j. (j, JFailure)) (error_jobs persisted)"
    "ph_tally ?p = fold tally_record (map snd (map (\<lambda>j. (j, JFailure)) (error_jobs persisted))) tally_default"
    using reports_eval_errors [of ?init persisted c] by (simp_all add: reports_def)
  have ok: "dag_ok s" using s(2) by (simp add: run_graph_def dag_good_def)
  have "set (drv_jobs persisted) \<subseteq> dom (hm_get (px_specs c))"
    unfolding assms(2) dom_map_of_conv_image_fst drv_jobs_def by (auto simp: image_image case_prod_unfold)
  moreover have "dag_live s = {}" using s(3) by (simp add: unstarted_def)
  moreover have "dag_work s \<le> length persisted"
    using dag_work_bound [OF ok] s(6) by (simp add: drv_jobs_def) (meson le_trans length_filter_le)
  ultimately have "phase_inv c (drv_jobs persisted) (error_jobs persisted) ?p" "phase_load ?p \<le> length persisted"
    using s(2,4,5) unstarted_done [OF ok s(3)] unfolding phase_inv_def phase_load_def r
    by (simp_all add: comp_def)
  with start show ?thesis by blast
qed

section \<open>The end\<close>

lemma reports_reconcile: "reports p [] (reconcile_forge_checks c p)"
proof -
  have "reports p [] (fold (\<lambda>row p. if \<not> job_is_terminal (jr_status row) then p
      else post_per_job_check c e (jr_attr_path row) (jr_status row) (jr_drv_path row = None) p) rows p)" for e and rows :: "job_record list"
    by (induction rows arbitrary: p) (auto intro: reports_trans [where vs = "[]" and ws = "[]", simplified] reports_checks)
  then show ?thesis by (simp add: reconcile_forge_checks_def split: sum.splits)
qed

lemma posts_grow:
  "set (ph_posts p) \<subseteq> set (ph_posts (post_per_job_check c e attr st err p)) \<and> ph_app (post_per_job_check c e attr st err p) = ph_app p"
  by (auto simp: post_per_job_check_def worker_post_def split: option.splits)

lemma reconcile_grow:
  "set (ph_posts p) \<subseteq> set (ph_posts (reconcile_forge_checks c p)) \<and> ph_app (reconcile_forge_checks c p) = ph_app p"
proof -
  have "set (ph_posts p) \<subseteq> set (ph_posts (fold (\<lambda>row p. if \<not> job_is_terminal (jr_status row) then p
      else post_per_job_check c e (jr_attr_path row) (jr_status row) (jr_drv_path row = None) p) rows p))
    \<and> ph_app (fold (\<lambda>row p. if \<not> job_is_terminal (jr_status row) then p
      else post_per_job_check c e (jr_attr_path row) (jr_status row) (jr_drv_path row = None) p) rows p) = ph_app p"
    for e and rows :: "job_record list"
  proof (induction rows arbitrary: p)
    case (Cons row rows)
    show ?case
      using Cons.IH [of p] Cons.IH [of "post_per_job_check c e (jr_attr_path row) (jr_status row) (jr_drv_path row = None) p"]
        posts_grow [of p c e "jr_attr_path row" "jr_status row" "jr_drv_path row = None"]
      by auto
  qed simp
  then show ?thesis by (simp add: reconcile_forge_checks_def split: sum.splits)
qed

lemma phase_finish_ok:
  shows "ph_verdicts (phase_finish c now fan_in p) = ph_verdicts p" "ph_tally (phase_finish c now fan_in p) = ph_tally p"
    and "\<not> is_paused (rr_forge (px_repo c)) (as_pauses (ph_app (phase_finish c now fan_in p))) \<Longrightarrow>
      \<exists>post. (rr_forge (px_repo c), post) \<in> set (ph_posts (phase_finish c now fan_in p))
        \<and> cp_context post = ''argunix: evaluation'' \<and> cp_sha post = er_sha (px_eval c)
        \<and> cp_state post = overall_state (ph_tally p)"
proof -
  let ?app = "(ph_app p)\<lparr>as_store := eval_finish (px_eval_id c) EDone now (as_store (ph_app p))\<rparr>"
  let ?p1 = "p\<lparr>ph_app := fan_in ?app\<rparr>"
  let ?p2 = "post_overall_check c (overall_state (ph_tally ?p1)) (overall_text (ph_tally ?p1)) ?p1"
  have fin: "phase_finish c now fan_in p = (if px_collapsed c then ?p2 else reconcile_forge_checks c ?p2)"
    by (simp add: phase_finish_def Let_def)
  have "reports ?p1 [] (phase_finish c now fan_in p)"
    unfolding fin using reports_then [OF reports_checks(2) reports_reconcile] by simp
  then show "ph_verdicts (phase_finish c now fan_in p) = ph_verdicts p" "ph_tally (phase_finish c now fan_in p) = ph_tally p"
    by (simp_all add: reports_def)
  have app: "ph_app (phase_finish c now fan_in p) = ph_app ?p2" "set (ph_posts ?p2) \<subseteq> set (ph_posts (phase_finish c now fan_in p))"
    unfolding fin using reconcile_grow [of ?p2 c] by simp_all
  show "\<exists>post. (rr_forge (px_repo c), post) \<in> set (ph_posts (phase_finish c now fan_in p))
      \<and> cp_context post = ''argunix: evaluation'' \<and> cp_sha post = er_sha (px_eval c)
      \<and> cp_state post = overall_state (ph_tally p)"
    if "\<not> is_paused (rr_forge (px_repo c)) (as_pauses (ph_app (phase_finish c now fan_in p)))"
  proof -
    have "\<not> is_paused (rr_forge (px_repo c)) (as_pauses (fan_in ?app))"
      using that unfolding app by (simp add: post_overall_check_def worker_post_def split: if_splits)
    then have "\<exists>post. (rr_forge (px_repo c), post) \<in> set (ph_posts ?p2)
        \<and> cp_context post = ''argunix: evaluation'' \<and> cp_sha post = er_sha (px_eval c)
        \<and> cp_state post = overall_state (ph_tally p)"
      by (simp add: post_overall_check_def worker_post_def) (rule exI, rule conjI, rule disjI1, rule refl, simp)
    with app(2) show ?thesis by blast
  qed
qed

text \<open>The counters are the numbers of recorded verdicts.\<close>

lemma tally_counts:
  "jt_failure (fold tally_record sts t) = jt_failure t + count_list sts JFailure"
  "jt_interrupted (fold tally_record sts t) = jt_interrupted t + count_list sts JInterrupted"
  "jt_success (fold tally_record sts t) = jt_success t + count_list sts JSuccess"
  "jt_cached (fold tally_record sts t) = jt_cached t + count_list sts JCached"
  "jt_cancelled (fold tally_record sts t) = jt_cancelled t + count_list sts JCancelled"
proof (induction sts arbitrary: t)
  case (Cons st sts)
  { case 1 show ?case using Cons(1) by (cases st) auto next
    case 2 show ?case using Cons(2) by (cases st) auto next
    case 3 show ?case using Cons(3) by (cases st) auto next
    case 4 show ?case using Cons(4) by (cases st) auto next
    case 5 show ?case using Cons(5) by (cases st) auto }
qed simp_all

text \<open>C2. Every job of an evaluation gets one verdict. When no cancel arrives, no wrapper task is lost,
  and at least as many turns of the loop as there are jobs, plus one, get a permit and end with a
  finished build, whatever the builds' results, the order in which they finish, the permits free at
  each turn and the writes of others, the build phase ends (it neither panics nor spins), the tally
  has recorded exactly the persisted jobs, each as often as it is listed, whether it was built, is an alias
  of a built job, was skipped because a dependency failed, or already failed to evaluate; and unless
  the forge is paused the overall check of the commit is posted: failed when some job failed, error
  when some was interrupted, and success only when none was.\<close>

theorem build_phase_reports_every_job:
  assumes "px_specs c = map (\<lambda>(s, j). (j, s)) persisted"
    and "\<forall>t\<in>set ts. quiet_turn t" and "length persisted < length (filter productive ts)"
  shows "\<exists>p. run_build_phase c (worker_walk w timeout persisted) persisted ts now fan_in app = LoopDone p
    \<and> mset (map fst (ph_verdicts p)) = mset (map snd persisted)
    \<and> (\<not> is_paused (rr_forge (px_repo c)) (as_pauses (ph_app p)) \<longrightarrow>
        (\<exists>post. (rr_forge (px_repo c), post) \<in> set (ph_posts p) \<and> cp_context post = ''argunix: evaluation''
          \<and> cp_sha post = er_sha (px_eval c)
          \<and> cp_state post = (if JFailure \<in> snd ` set (ph_verdicts p) then CheckFailure
              else if JInterrupted \<in> snd ` set (ph_verdicts p) then CheckError else CheckSuccess)))"
proof -
  let ?walk = "worker_walk w timeout persisted"
  obtain p0 where p0: "phase_setup c ?walk persisted app = Some p0"
    "phase_inv c (drv_jobs persisted) (error_jobs persisted) p0" "phase_load p0 \<le> length persisted"
    using phase_setup_ok [OF worker_walk_keyed assms(1)] by blast
  then obtain p1 where p1: "phase_loop c ts p0 = LoopDone p1"
    "phase_inv c (drv_jobs persisted) (error_jobs persisted) p1" "ph_set p1 = []"
    "wfq_pending_count (g_wfq (ph_strategy p1)) = 0"
    using phase_loop_ok [OF p0(2) assms(2)] assms(3) by (meson le_less_trans)
  let ?p = "phase_finish c now fan_in p1"
  have run: "run_build_phase c ?walk persisted ts now fan_in app = LoopDone ?p"
    by (simp add: run_build_phase_def p0(1) p1(1))
  have verdicts: "mset (map fst (ph_verdicts ?p)) = mset (map snd persisted)"
    unfolding phase_finish_ok(1) phase_done [OF p1(2-4)] by (rule persisted_split)
  have tally: "ph_tally p1 = fold tally_record (map snd (ph_verdicts p1)) tally_default"
    using p1(2) by (simp add: phase_inv_def)
  have "0 < count_list (map snd (ph_verdicts p1)) st \<longleftrightarrow> st \<in> snd ` set (ph_verdicts ?p)" for st
    unfolding phase_finish_ok(1) by (metis count_list_0_iff list.set_map neq0_conv)
  then have "overall_state (ph_tally p1) = (if JFailure \<in> snd ` set (ph_verdicts ?p) then CheckFailure
      else if JInterrupted \<in> snd ` set (ph_verdicts ?p) then CheckError else CheckSuccess)"
    unfolding tally by (simp add: overall_state_def tally_counts tally_default_def)
  with run verdicts phase_finish_ok(3) [of c now fan_in p1] show ?thesis by auto
qed

section \<open>Cancelling before anything is built\<close>

lemma no_eval_errors: "\<forall>x\<in>set persisted. js_drv_path (fst x) \<noteq> None \<Longrightarrow> report_eval_errors c persisted p = p"
  unfolding report_eval_errors_def by (induction persisted arbitrary: p) auto

text \<open>A cancel that is seen while nothing runs leaves the loop like a finished evaluation, not by the
  cancelled path: no job has a verdict, and the commit gets a successful overall check.\<close>

lemma cancel_before_first_build_is_green:
  assumes "px_specs c = map (\<lambda>(s, j). (j, s)) persisted" "\<forall>x\<in>set persisted. js_drv_path (fst x) \<noteq> None"
    and "pt_cancel_spawn t" "pt_cancel_exit t"
    and res: "res = run_build_phase c (worker_walk w timeout persisted) persisted (t # ts) now fan_in app"
  shows "\<exists>p. res = LoopDone p \<and> ph_verdicts p = []
    \<and> (\<not> is_paused (rr_forge (px_repo c)) (as_pauses (ph_app p)) \<longrightarrow>
        (\<exists>post. (rr_forge (px_repo c), post) \<in> set (ph_posts p) \<and> cp_context post = ''argunix: evaluation''
          \<and> cp_state post = CheckSuccess))"
proof -
  obtain p0 where p0: "phase_setup c (worker_walk w timeout persisted) persisted app = Some p0"
    using phase_setup_ok [OF worker_walk_keyed assms(1)] by blast
  then have "ph_set p0 = []" "ph_verdicts p0 = []" "ph_tally p0 = tally_default"
    by (auto simp: phase_setup_def no_eval_errors [OF assms(2)] split: option.splits)
  moreover from this have "phase_loop c (t # ts) p0 = LoopDone p0"
    using assms(3,4) by (simp add: phase_step_def)
  ultimately show ?thesis
    using phase_finish_ok(3) [of c now fan_in p0]
    by (auto simp: res run_build_phase_def p0 phase_finish_ok(1) overall_state_def tally_default_def)
qed

section \<open>The theorem at a concrete evaluation\<close>

text \<open>One job that builds and one that failed to evaluate.\<close>

definition sample_spec :: "string \<Rightarrow> job_spec" where
  "sample_spec attr = \<lparr>js_attr_path = attr, js_drv_path = Some (''/nix/store/'' @ attr), js_system = Some ''x86_64-linux'',
     js_error = None, js_outputs = [(''out'', attr)], js_meta = JsonNull, js_is_cached = False,
     js_required_features = [''kvm''], js_image_format = None\<rparr>"

definition sample_persisted :: "(job_spec \<times> job_id) list" where
  "sample_persisted = [(sample_spec ''a'', JobId 1),
     ((sample_spec ''b'')\<lparr>js_drv_path := None, js_error := Some ''attribute missing''\<rparr>, JobId 2)]"

definition sample_ctx :: phase_ctx where
  "sample_ctx = \<lparr>px_serde = sample_serde, px_log_dir = ''log'', px_eval_id = EvalId 1,
     px_repo = \<lparr>rr_id = RepoId 1, rr_forge = ''github'', rr_slug = Slug ''a/b'', rr_name = None, rr_description = None,
       rr_web_url = None, rr_default_branch = None\<rparr>,
     px_eval = \<lparr>er_id = EvalId 1, er_repo_id = RepoId 1, er_trigger = ''push'', er_git_ref = ''main'',
       er_sha = sample_sha, er_started_at = None, er_finished_at = None, er_status = EBuilding,
       er_pr_number = None, er_building_started_at = None, er_failure_reason = None\<rparr>,
     px_total = 2, px_collapsed = False, px_specs = map (\<lambda>(s, j). (j, s)) sample_persisted\<rparr>"

definition sample_turn :: phase_turn where
  "sample_turn = \<lparr>pt_permits = 1, pt_cancel_spawn = False, pt_cancel_exit = False,
     pt_event = SelJoined 0 (Outcome (Some JSuccess)), pt_world = (\<lambda>a. a), pt_now = 5\<rparr>"

theorem build_phase_reports_every_job_witness:
  "\<exists>p. run_build_phase sample_ctx (worker_walk sample_world 9 sample_persisted) sample_persisted
      (replicate 3 sample_turn) 6 (\<lambda>a. a) (sample_app (sample_store sample_serde)) = LoopDone p
    \<and> mset (map fst (ph_verdicts p)) = {#JobId 1, JobId 2#}"
proof -
  have "px_specs sample_ctx = map (\<lambda>(s, j). (j, s)) sample_persisted" by (simp add: sample_ctx_def)
  moreover have "\<forall>t\<in>set (replicate 3 sample_turn). quiet_turn t"
    by (simp add: quiet_turn_def sample_turn_def)
  moreover have "length sample_persisted < length (filter productive (replicate 3 sample_turn))"
    by (simp add: sample_persisted_def productive_def sample_turn_def)
  ultimately show ?thesis
    using build_phase_reports_every_job [of sample_ctx sample_persisted "replicate 3 sample_turn" sample_world 9 6
        "\<lambda>a. a" "sample_app (sample_store sample_serde)"]
    by (auto simp: sample_persisted_def)
qed

end
