(* ===== verification/Worker_Resume.thy ===== *)
theory Worker_Resume
  imports Worker_Props
begin

text \<open>
  Crash recovery: the specs \<open>persist_job\<close> stores are the ones \<open>load_jobs_for_resume\<close> returns, after
  whatever the build phase and the restart did to the jobs' statuses.
\<close>

text \<open>What the worker relies on of \<open>serde_json\<close>: the specs can be written, and reading one back gives it.\<close>

definition codec_ok :: "spec_codec \<Rightarrow> job_spec list \<Rightarrow> bool" where
  "codec_ok C specs \<longleftrightarrow> (\<forall>spec\<in>set specs. \<exists>json. ser_spec C spec = Some json \<and> de_spec C json = Some spec)"

text \<open>The calls that create or delete no job and store no spec.\<close>

fun keeps_specs :: "store_op \<Rightarrow> bool" where
  "keeps_specs (JobCreate _) = False"
| "keeps_specs (SetSpecJson _ _) = False"
| "keeps_specs (PruneRepos _) = False"
| "keeps_specs (DeleteEval _) = False"
| "keeps_specs _ = True"

abbreviation job_key :: "job_row \<Rightarrow> int \<times> int \<times> string option" where
  "job_key j \<equiv> (j_id j, j_eval_id j, j_spec_json j)"

lemma keeps_specs_step:
  "keeps_specs op \<Longrightarrow> map job_key (st_jobs (store_step S op s)) = map job_key (st_jobs s)"
proof (cases op)
  case (JobDispatch i b t)
  then show ?thesis
    by (cases "job_dispatch i b t s") (auto simp: kept_def job_dispatch_def Let_def update_where_def split: if_splits)
qed (auto simp: store_defs kept_def Let_def update_where_def bind_result_def map_sum_Inr
      split: option.splits if_splits sum.splits)

lemma keeps_specs_run:
  "list_all keeps_specs ops \<Longrightarrow> map job_key (st_jobs (store_run S ops s)) = map job_key (st_jobs s)"
  by (induction ops arbitrary: s) (simp_all add: keeps_specs_step)

section \<open>Persisting\<close>

lemma update_where_fresh:
  "\<forall>r\<in>set rows. \<not> p r \<Longrightarrow> update_where p f (rows @ [x]) = rows @ [if p x then f x else x]"
  by (simp add: update_where_def map_idI)

lemma persist_job_row:
  assumes "store_ok S s" "serde_ok S" "persist_job S C log_dir now r e spec s = Inr (j, s')"
  shows "store_ok S s'"
    and "\<exists>row. st_jobs s' = st_jobs s @ [row] \<and> j = JobId (j_id row) \<and> j_eval_id row = eval_get e
      \<and> j_spec_json row = ser_spec C spec \<and> q_jobs (st_seq s) < j_id row"
proof -
  obtain new s1 where c: "job_create S new s = Inr (j, s1)" "nj_eval_id new = e"
    "s' = (let s2 = (case ser_spec C spec of Some json \<Rightarrow> set_spec_json j json s1 | None \<Rightarrow> s1)
           in if js_error spec = None then s2
              else job_finish j JFailure now (Some (job_log_path log_dir r e j)) None no_metrics s2)"
    using assms(3) by (auto simp: persist_job_def Let_def split: sum.splits)
  then obtain row where row: "st_jobs s1 = st_jobs s @ [row]" "j = JobId (j_id row)"
    "j_id row = q_jobs (st_seq s) + 1" "j_eval_id row = eval_get e" "j_spec_json row = None"
    by (auto simp: job_create_def Let_def split: if_splits)
  have ok1: "store_ok S s1" using store_ok_step [OF assms(1,2), of "JobCreate new"] c(1) by (simp add: kept_def)
  let ?ops = "(case ser_spec C spec of Some json \<Rightarrow> [SetSpecJson j json] | None \<Rightarrow> [])
     @ (if js_error spec = None then []
        else [JobFinish j JFailure now (Some (job_log_path log_dir r e j)) None no_metrics])"
  have s': "s' = store_run S ?ops s1" unfolding c(3) by (auto simp: Let_def split: option.splits)
  have "list_all op_valid ?ops" by (simp split: option.splits)
  from store_ok_run [OF ok1 assms(2) this] show "store_ok S s'" unfolding s' .
  have fresh: "\<forall>q\<in>set (st_jobs s). j_id q \<noteq> j_id row"
    using store_okD(3) [OF assms(1)] row(3) by (auto simp: jobs_ok_def rows_ok_def)
  have upd: "update_where (\<lambda>q. j_id q = j_id row \<and> c q) f (st_jobs s @ [x]) = st_jobs s @ [if j_id x = j_id row \<and> c x then f x else x]"
    for c f x using fresh by (intro update_where_fresh) blast
  show "\<exists>row. st_jobs s' = st_jobs s @ [row] \<and> j = JobId (j_id row) \<and> j_eval_id row = eval_get e
      \<and> j_spec_json row = ser_spec C spec \<and> q_jobs (st_seq s) < j_id row"
    using row(3,4,5) upd [of "\<lambda>_. True", simplified] upd
    unfolding c(3) by (simp add: Let_def set_spec_json_def job_finish_def row(1,2) split: option.splits)
qed

lemma persist_jobs_rows:
  assumes "store_ok S s" "serde_ok S" "persist_jobs S C log_dir now r e specs s = Inr (persisted, s')"
  shows "store_ok S s' \<and> map fst persisted = specs \<and> (\<exists>rows. st_jobs s' = st_jobs s @ rows
    \<and> list_all2 (\<lambda>(spec, j) row. j = JobId (j_id row) \<and> j_eval_id row = eval_get e
        \<and> j_spec_json row = ser_spec C spec) persisted rows
    \<and> sorted_wrt (<) (map j_id rows) \<and> (\<forall>row\<in>set rows. q_jobs (st_seq s) < j_id row))"
  using assms
proof (induction specs arbitrary: s persisted)
  case Nil
  then show ?case by simp
next
  case (Cons spec specs)
  obtain j s1 rest where p: "persist_job S C log_dir now r e spec s = Inr (j, s1)"
    "persist_jobs S C log_dir now r e specs s1 = Inr (rest, s')" "persisted = (spec, j) # rest"
    using Cons.prems(3) by (auto split: sum.splits)
  have ok1: "store_ok S s1" by (rule persist_job_row(1) [OF Cons.prems(1,2) p(1)])
  obtain row where row: "st_jobs s1 = st_jobs s @ [row]" "j = JobId (j_id row)" "j_eval_id row = eval_get e"
    "j_spec_json row = ser_spec C spec" "q_jobs (st_seq s) < j_id row"
    using persist_job_row(2) [OF Cons.prems(1,2) p(1)] by blast
  have "j_id row \<le> q_jobs (st_seq s1)"
    using store_okD(3) [OF ok1] row(1) by (auto simp: jobs_ok_def rows_ok_def)
  moreover obtain rows where "store_ok S s'" "map fst rest = specs" "st_jobs s' = st_jobs s1 @ rows"
    "list_all2 (\<lambda>(spec, j) row. j = JobId (j_id row) \<and> j_eval_id row = eval_get e
        \<and> j_spec_json row = ser_spec C spec) rest rows"
    "sorted_wrt (<) (map j_id rows)" "\<forall>row\<in>set rows. q_jobs (st_seq s1) < j_id row"
    using Cons.IH [OF ok1 Cons.prems(2) p(2)] by blast
  ultimately show ?case
    using row p(3) by (intro conjI exI [of _ "row # rows"]) (auto simp: less_trans)
qed

section \<open>Resuming\<close>

lemma list_all2_same_image: "map f xs = map f ys \<Longrightarrow> list_all2 (\<lambda>x y. f x = f y) xs ys"
  by (induction xs arbitrary: ys) (auto simp: Cons_eq_map_conv)

lemma job_from_str_queued: "job_from_str st = Inr JQueued \<longleftrightarrow> st = ''queued''"
  by (auto simp: job_from_str_def split: if_splits)

lemma map_job_fields:
  "map_job S row = Inr rec \<Longrightarrow> jr_id rec = JobId (j_id row) \<and> (jr_status rec = JQueued \<longleftrightarrow> j_status row = ''queued'')"
  by (auto simp: map_job_def bind_result_def to_job_status_def map_sum_Inr job_from_str_queued split: sum.splits)

lemma map_job_results:
  assumes "map_results (map_job S) rows = Inr recs"
  shows "list_all2 (\<lambda>row rec. jr_id rec = JobId (j_id row) \<and> (jr_status rec = JQueued \<longleftrightarrow> j_status row = ''queued'')) rows recs"
  using assms
proof (induction rows arbitrary: recs)
  case (Cons row rows)
  then obtain rec rest where "map_job S row = Inr rec" "map_results (map_job S) rows = Inr rest" "recs = rec # rest"
    by (cases "map_job S row") (auto simp: map_results_def map_sum_Inr)
  with Cons.IH map_job_fields show ?case by simp
qed (simp add: map_results_def)

lemma resume_lists:
  fixes g :: "job_row \<Rightarrow> job_spec" and rows :: "job_row list" and recs :: "job_record list"
  assumes "list_all2 (\<lambda>(spec, j) row. j = JobId (j_id row) \<and> spec = g row) persisted rows"
    and "list_all2 (\<lambda>row rec. jr_id rec = JobId (j_id row) \<and> (jr_status rec = JQueued \<longleftrightarrow> j_status row = ''queued'')) rows recs"
    and "\<forall>row\<in>set rows. j_status row = ''queued'' \<longrightarrow> f (JobId (j_id row)) = Some (g row)"
  shows "map (\<lambda>rec. (case f (jr_id rec) of Some spec \<Rightarrow> spec | None \<Rightarrow> lossy_spec rec, jr_id rec))
      (filter (\<lambda>rec. jr_status rec = JQueued) recs)
    = map fst (filter (\<lambda>(p, row). j_status row = ''queued'') (zip persisted rows))"
  using assms
proof (induction persisted arbitrary: rows recs)
  case (Cons p persisted)
  then obtain row rows' rec recs' where "rows = row # rows'" "recs = rec # recs'" 
    by (auto simp: list_all2_Cons1 list_all2_Cons2)
  with Cons show ?case by auto
qed simp

text \<open>The rows of an evaluation whose specs were stored, read back.\<close>

lemma load_rows:
  assumes ok: "store_ok S s" and rows: "filter (\<lambda>j. j_eval_id j = eval_get e) (st_jobs s) = rows"
    and pair: "list_all2 (\<lambda>(spec, j) row. j = JobId (j_id row) \<and> (\<exists>json. j_spec_json row = Some json
        \<and> de_spec C json = Some spec)) persisted rows"
    and ids: "sorted_wrt (<) (map j_id rows)"
  shows "load_jobs_for_resume S C e s = Inr (map fst (filter (\<lambda>(p, row). j_status row = ''queued'') (zip persisted rows)))"
proof -
  have sorted: "sort_key j_id rows = rows"
    using ids by (intro sort_key_id_if_sorted) (simp add: strict_sorted_imp_sorted)
  have dist: "distinct (map j_id rows)" using ids by (simp add: strict_sorted_iff)
  have decode: "\<forall>row\<in>set rows. decodes (map_job S) row"
    using rows_decode(3) [OF ok] rows by auto
  then obtain recs where recs: "map_results (map_job S) rows = Inr recs" using map_results_ok by blast
  have queued: "filter (\<lambda>j. j_eval_id j = eval_get e \<and> j_status j = ''queued'' \<and> j_spec_json j \<noteq> None) (st_jobs s)
      = filter (\<lambda>j. j_status j = ''queued'' \<and> j_spec_json j \<noteq> None) rows"
    unfolding rows [symmetric] filter_filter by (rule filter_cong) auto
  let ?by_id = "List.map_filter (\<lambda>(j, json). map_option (\<lambda>spec. (j, spec)) (de_spec C json))
      (map (\<lambda>j. (JobId (j_id j), the (j_spec_json j))) (filter (\<lambda>j. j_status j = ''queued'' \<and> j_spec_json j \<noteq> None) rows))"
  have "resume_specs_for_eval e s = map (\<lambda>j. (JobId (j_id j), the (j_spec_json j)))
      (filter (\<lambda>j. j_status j = ''queued'' \<and> j_spec_json j \<noteq> None) rows)"
    unfolding resume_specs_for_eval_def queued
    using ids by (subst sort_key_id_if_sorted) (auto simp: strict_sorted_imp_sorted sorted_filter)
  moreover have "job_list_by_eval S e s = Inr recs" by (simp add: job_list_by_eval_def rows sorted recs)
  ultimately have load: "load_jobs_for_resume S C e s = Inr (map (\<lambda>row. (case hm_get ?by_id (jr_id row) of Some spec \<Rightarrow> spec
      | None \<Rightarrow> lossy_spec row, jr_id row)) (filter (\<lambda>row. jr_status row = JQueued) recs))"
    by (simp add: load_jobs_for_resume_def Let_def bind_result_def)
  define g :: "job_row \<Rightarrow> job_spec" where "g row = the (de_spec C (the (j_spec_json row)))" for row
  have pair': "list_all2 (\<lambda>(spec, j) row. j = JobId (j_id row) \<and> spec = g row) persisted rows"
    by (rule list_all2_mono [OF pair]) (auto simp: g_def)
  have some: "\<exists>json spec. j_spec_json row = Some json \<and> de_spec C json = Some spec" if "row \<in> set rows" for row
    using list_all2_right [OF pair that] by auto
  have "List.map_filter (\<lambda>(j, json). map_option (\<lambda>spec. (j, spec)) (de_spec C json))
      (map (\<lambda>j. (JobId (j_id j), the (j_spec_json j))) (filter (\<lambda>j. j_status j = ''queued'' \<and> j_spec_json j \<noteq> None) R))
      = map (\<lambda>row. (JobId (j_id row), g row)) (filter (\<lambda>j. j_status j = ''queued'') R)" if "set R \<subseteq> set rows" for R
    using that some by (induction R) (force simp: List.map_filter_def g_def)+
  then have by_id: "?by_id = map (\<lambda>row. (JobId (j_id row), g row)) (filter (\<lambda>j. j_status j = ''queued'') rows)"
    by simp
  have "hm_get ?by_id (JobId (j_id row)) = Some (g row)" if "row \<in> set rows" "j_status row = ''queued''" for row
  proof (rule map_of_is_SomeI)
    have "distinct (map JobId (map j_id rows))" using dist by (simp add: distinct_map inj_on_def)
    then show "distinct (map fst ?by_id)"
      unfolding by_id by (simp add: comp_def distinct_map_filter)
    show "(JobId (j_id row), g row) \<in> set ?by_id" using that unfolding by_id by force
  qed
  then show ?thesis unfolding load using resume_lists [OF pair' map_job_results [OF recs]] by simp
qed

lemma filter_by_row:
  fixes rows :: "job_row list"
  assumes "list_all2 (\<lambda>(spec, j) row. j = JobId (j_id row)) persisted rows" "distinct (map j_id rows)"
  shows "map fst (filter (\<lambda>(p, row). q row) (zip persisted rows)) =
    filter (\<lambda>(spec, j). \<exists>row\<in>set rows. JobId (j_id row) = j \<and> q row) persisted"
  using assms
proof (induction persisted rows rule: list_all2_induct)
  case (Cons p persisted row rows)
  obtain spec j where p: "p = (spec, j)" by (cases p)
  have j: "j = JobId (j_id row)" using Cons.hyps(1) by (simp add: p)
  have tail: "(\<exists>x\<in>set (row # rows). JobId (j_id x) = j' \<and> q x) \<longleftrightarrow> (\<exists>x\<in>set rows. JobId (j_id x) = j' \<and> q x)"
    if mem: "(spec', j') \<in> set persisted" for spec' j'
  proof -
    obtain r where "r \<in> set rows" "j' = JobId (j_id r)"
      using list_all2_left [OF Cons.hyps(2), of "(spec', j')"] mem by auto
    with Cons.prems show ?thesis by auto
  qed
  have "filter (\<lambda>(spec, j). \<exists>x\<in>set (row # rows). JobId (j_id x) = j \<and> q x) persisted
      = filter (\<lambda>(spec, j). \<exists>x\<in>set rows. JobId (j_id x) = j \<and> q x) persisted"
    using tail by (intro filter_cong) auto
  moreover have "(\<exists>x\<in>set (row # rows). JobId (j_id x) = j \<and> q x) \<longleftrightarrow> q row"
    using Cons.prems by (simp add: j) (metis imageI)
  ultimately show ?case
    using Cons.IH Cons.prems by (simp add: p del: list.set bex_simps)
qed simp

text \<open>C7. A crashed evaluation resumes with the specs it was created with. When a fresh evaluation's jobs
  have been persisted, then whatever calls follow that create and delete no job and store no other
  spec (builds starting, finishing, being interrupted, the restart's sweeps), resuming it gives
  exactly the jobs that are queued by then, in the order in which they were persisted, each with the
  full spec the evaluation produced: features, outputs, metadata and image format included. Relies on
  \<open>serde_json\<close> reading back what it wrote.\<close>

theorem resume_restores_specs:
  assumes "store_ok S s" "serde_ok S" "codec_ok C specs"
    and "\<forall>j\<in>set (st_jobs s). j_eval_id j \<noteq> eval_get e"
    and "persist_jobs S C log_dir now r e specs s = Inr (persisted, s1)"
    and "list_all op_valid ops" "list_all keeps_specs ops"
  shows "map fst persisted = specs \<and> load_jobs_for_resume S C e (store_run S ops s1) =
    Inr (filter (\<lambda>(spec, j). \<exists>row\<in>set (st_jobs (store_run S ops s1)).
      JobId (j_id row) = j \<and> j_status row = ''queued'') persisted)"
proof -
  let ?s = "store_run S ops s1"
  obtain rows where rows: "store_ok S s1" "map fst persisted = specs" "st_jobs s1 = st_jobs s @ rows"
    "list_all2 (\<lambda>(spec, j) row. j = JobId (j_id row) \<and> j_eval_id row = eval_get e
        \<and> j_spec_json row = ser_spec C spec) persisted rows" "sorted_wrt (<) (map j_id rows)"
    using persist_jobs_rows [OF assms(1,2,5)] by blast
  have ok: "store_ok S ?s" by (rule store_ok_run [OF rows(1) assms(2,6)])
  have keys: "map job_key (st_jobs ?s) = map job_key (st_jobs s1)" by (rule keeps_specs_run [OF assms(7)])
  let ?own = "\<lambda>j. j_eval_id j = eval_get e"
  define R where "R = filter ?own (st_jobs ?s)"
  have own: "map job_key (filter ?own js) = filter (\<lambda>(_, v, _). v = eval_get e) (map job_key js)" for js
    by (simp add: filter_map comp_def)
  have "\<forall>row\<in>set rows. ?own row" using list_all2_right [OF rows(4)] by fastforce
  then have "filter ?own (st_jobs s1) = rows" using assms(4) by (simp add: rows(3))
  then have R: "map job_key R = map job_key rows" unfolding R_def own keys by (simp flip: own)
  have R_ids: "map j_id R = map j_id rows" using arg_cong [OF R, of "map fst"] by (simp add: comp_def)
  have same: "list_all2 (\<lambda>x y. job_key x = job_key y) rows R" by (rule list_all2_same_image [OF R [symmetric]])
  have "list_all2 (\<lambda>(spec, j) row. j = JobId (j_id row) \<and> (\<exists>json. j_spec_json row = Some json
      \<and> de_spec C json = Some spec)) persisted rows"
    using rows(4) by (rule list.rel_mono_strong) (use assms(3) rows(2) in \<open>force simp: codec_ok_def\<close>)
  then have pair: "list_all2 (\<lambda>(spec, j) row. j = JobId (j_id row) \<and> (\<exists>json. j_spec_json row = Some json
      \<and> de_spec C json = Some spec)) persisted R"
    by (rule list_all2_trans [rotated, OF _ same]) auto
  have ids: "sorted_wrt (<) (map j_id R)" using rows(5) R_ids by simp
  have "load_jobs_for_resume S C e ?s = Inr (map fst (filter (\<lambda>(p, row). j_status row = ''queued'') (zip persisted R)))"
    by (rule load_rows [OF ok R_def [symmetric] pair ids])
  also have "\<dots> = Inr (filter (\<lambda>(spec, j). \<exists>row\<in>set R. JobId (j_id row) = j \<and> j_status row = ''queued'') persisted)"
    using ids list_all2_mono [OF pair] by (subst filter_by_row) (auto simp: strict_sorted_iff)
  also have "\<dots> = Inr (filter (\<lambda>(spec, j). \<exists>row\<in>set (st_jobs ?s). JobId (j_id row) = j \<and> j_status row = ''queued'') persisted)"
  proof -
    have "(\<exists>row\<in>set R. JobId (j_id row) = j \<and> j_status row = ''queued'')
        \<longleftrightarrow> (\<exists>row\<in>set (st_jobs ?s). JobId (j_id row) = j \<and> j_status row = ''queued'')" if mem: "(spec, j) \<in> set persisted" for spec j
    proof -
      obtain x where x: "x \<in> set R" "j = JobId (j_id x)" using list_all2_left [OF pair, of "(spec, j)"] mem by auto
      have "distinct (map j_id (st_jobs ?s))"
        using store_okD(3) [OF ok] by (simp add: jobs_ok_def rows_ok_def)
      then have "row = x" if "row \<in> set (st_jobs ?s)" "j_id row = j_id x" for row
        using that x(1) unfolding R_def by (auto simp: distinct_map dest: inj_onD)
      with x show ?thesis by (auto simp: R_def)
    qed
    then have "filter (\<lambda>(spec, j). \<exists>row\<in>set R. JobId (j_id row) = j \<and> j_status row = ''queued'') persisted
        = filter (\<lambda>(spec, j). \<exists>row\<in>set (st_jobs ?s). JobId (j_id row) = j \<and> j_status row = ''queued'') persisted"
      by (intro filter_cong [OF refl]) (simp only: split_paired_all prod.case)
    then show ?thesis by (rule arg_cong)
  qed
  finally show ?thesis using rows(2) by simp
qed

text \<open>Two jobs that need \<open>kvm\<close>; the first is built before the crash.\<close>

definition sample_codec :: spec_codec where
  "sample_codec = \<lparr>ser_spec = (\<lambda>spec. Some (js_attr_path spec)), de_spec = (\<lambda>json. Some (sample_spec json))\<rparr>"

definition resume_ops :: "store_op list" where
  "resume_ops = [RepoUpsert ''github'' (Slug ''a/b''), EvalCreate sample_new_eval]"

definition resume_store :: store where
  "resume_store = store_run sample_serde resume_ops store_new"

lemma resume_store_fields: "st_jobs resume_store = []" "has_eval 1 resume_store" "q_jobs (st_seq resume_store) = 0"
  by (simp_all add: resume_store_def resume_ops_def store_new_def sample_new_eval_def store_defs find_repo_def
      has_repo_def has_eval_def)

theorem resume_restores_specs_witness:
  "\<exists>persisted s1. persist_jobs sample_serde sample_codec ''log'' 3 (RepoId 1) (EvalId 1)
      [sample_spec ''a'', sample_spec ''b''] resume_store = Inr (persisted, s1)
    \<and> load_jobs_for_resume sample_serde sample_codec (EvalId 1)
        (store_run sample_serde [JobFinish (JobId 1) JSuccess 5 None None no_metrics] s1)
      = Inr [(sample_spec ''b'', JobId 2)]"
proof -
  let ?ops = "[JobFinish (JobId 1) JSuccess 5 None None no_metrics]"
  obtain s1 where p: "persist_jobs sample_serde sample_codec ''log'' 3 (RepoId 1) (EvalId 1)
      [sample_spec ''a'', sample_spec ''b''] resume_store = Inr ([(sample_spec ''a'', JobId 1), (sample_spec ''b'', JobId 2)], s1)"
    "map (\<lambda>j. (j_id j, j_status j)) (st_jobs s1) = [(1, ''queued''), (2, ''queued'')]"
    using resume_store_fields
    by (simp add: persist_job_def sample_codec_def sample_spec_def job_create_def set_spec_json_def Let_def
        has_eval_def update_where_def)
  have "list_all op_valid resume_ops" by (simp add: resume_ops_def sample_new_eval_def sample_values)
  then have ok: "store_ok sample_serde resume_store"
    unfolding resume_store_def using fresh_store_ok [OF sample_serde_ok] by blast
  have codec: "codec_ok sample_codec [sample_spec ''a'', sample_spec ''b'']"
    by (simp add: codec_ok_def sample_codec_def sample_spec_def)
  have status: "map (\<lambda>j. (j_id j, j_status j)) (st_jobs (store_run sample_serde ?ops s1)) = [(1, ''success''), (2, ''queued'')]"
  proof -
    obtain x y where "st_jobs s1 = [x, y]" "j_id x = 1" "j_status x = ''queued''" "j_id y = 2" "j_status y = ''queued''"
      using p(2) by (auto simp: map_eq_Cons_conv)
    then show ?thesis by (simp add: job_finish_def update_where_def job_terminal_statuses_def)
  qed
  then have queued: "(\<exists>row\<in>set (st_jobs (store_run sample_serde ?ops s1)). JobId (j_id row) = j \<and> j_status row = ''queued'')
      \<longleftrightarrow> j = JobId 2" for j
    by (auto simp: map_eq_Cons_conv)
  have fresh: "\<forall>j\<in>set (st_jobs resume_store). j_eval_id j \<noteq> eval_get (EvalId 1)"
    by (simp add: resume_store_fields)
  have ops: "list_all op_valid ?ops" "list_all keeps_specs ?ops" by simp_all
  note T = resume_restores_specs [OF ok sample_serde_ok codec fresh p(1) ops, THEN conjunct2, unfolded queued]
  show ?thesis by (intro exI conjI, rule p(1), rule trans [OF T]) simp
qed

end
