(* ===== verification/Pool.thy ===== *)
theory Pool
  imports Registry_Props Store_Samples
begin

text \<open>
  One build on one builder of the pool: \<open>dispatch_pool_build\<close> of \<open>argunix-daemon/src/worker.rs\<close> with the
  parts of \<open>argunix-builders/src/dispatcher.rs\<close> it calls. The derivation's closure is pushed, the builder
  is told to build, the lifecycle channel is drained, and the outputs are pulled.

  Other tasks run whenever this one awaits: what they do to the registry are the functions of type
  \<open>registry \<Rightarrow> registry\<close> in the script of a run, which also says how each \<open>select!\<close> finds the cancel
  token, the clock and the copy. The log text, the live-log taps and the garbage-collection root are
  left out; the write of the log file may fail.
\<close>

section \<open>Transfers\<close>

record copy_metrics =
  cm_to_builder :: nat
  cm_from_builder :: nat
  cm_elapsed :: nat

datatype copy_phase_outcome = CopyDone "string + copy_metrics" | CopyCancelled | CopyBuilderGone

text \<open>What the biased \<open>select!\<close> of a transfer finds: the cancel token, the timer that looks for the
  builder in the registry, and otherwise what the copy returned; and the time the transfer took.\<close>

record copy_race =
  cr_cancelled :: bool
  cr_polled :: bool
  cr_copy :: "string + copy_metrics"
  cr_took :: nat

definition nix_copy_phase :: "builder_name \<Rightarrow> copy_race \<Rightarrow> registry \<Rightarrow> copy_phase_outcome" where
  "nix_copy_phase name c r =
     (if cr_cancelled c then CopyCancelled
      else if cr_polled c \<and> snapshot r name = None then CopyBuilderGone
      else CopyDone (cr_copy c))"

section \<open>The dispatcher\<close>

datatype dispatch_error = NoEligibleBuilder string | AllOpensFailed string | NotRegistered string
  | NoSession string | OpenFailed string

text \<open>\<open>sent\<close> says whether the control message could be written; \<open>world\<close> runs meanwhile.\<close>

definition dispatch_build :: "builder_name \<Rightarrow> int \<Rightarrow> bool \<Rightarrow> (registry \<Rightarrow> registry) \<Rightarrow> registry \<Rightarrow>
    (dispatch_error + nat) \<times> registry" where
  "dispatch_build name build_id sent world r =
     (case session r name of
        None \<Rightarrow> (Inl (NotRegistered (bname_str name)), r)
      | Some _ \<Rightarrow>
          (let (ch, r1) = register_in_flight_build name build_id r;
               r2 = world r1
           in if sent then (Inr ch, r2)
              else (Inl (OpenFailed (bname_str name)),
                    drop_receiver ch (unregister_in_flight_build name build_id r2))))"

datatype control_message = CmAbort int

definition abort_build :: "builder_name \<Rightarrow> int \<Rightarrow> registry \<Rightarrow> (builder_name \<times> control_message) list \<Rightarrow>
    (builder_name \<times> control_message) list" where
  "abort_build name build_id r sent =
     (case session r name of None \<Rightarrow> sent | Some _ \<Rightarrow> sent @ [(name, CmAbort build_id)])"

section \<open>Draining the lifecycle channel\<close>

text \<open>The local variables of the loop. \<open>dn_seen\<close> keeps what the channel delivered and
  \<open>dn_sent\<close> the messages sent.\<close>

record drain =
  dn_status :: "build_outcome_status option"
  dn_exit_code :: "int option"
  dn_outputs :: "string list"
  dn_aborted :: bool
  dn_timed_out :: bool
  dn_transport_failed :: bool
  dn_started :: "nat option"
  dn_build_ms :: "nat option"
  dn_seen :: "build_lifecycle list"
  dn_sent :: "(builder_name \<times> control_message) list"

definition drain_init :: drain where
  "drain_init = \<lparr>dn_status = None, dn_exit_code = None, dn_outputs = [], dn_aborted = False,
     dn_timed_out = False, dn_transport_failed = False, dn_started = None, dn_build_ms = None,
     dn_seen = [], dn_sent = []\<rparr>"

text \<open>The grace period after a timeout: what others do before each look at the channel; the list ends
  when the period does.\<close>

fun drain_grace :: "nat \<Rightarrow> (registry \<Rightarrow> registry) list \<Rightarrow> drain \<Rightarrow> registry \<Rightarrow> drain \<times> registry" where
  "drain_grace ch [] d r = (d\<lparr>dn_status := Some OutKilled\<rparr>, r)"
| "drain_grace ch (world # ws) d r =
     (case recv ch (world r) of
        (RecvEvent (Finished status code outs t), r') \<Rightarrow>
          (d\<lparr>dn_status := Some status, dn_exit_code := code, dn_outputs := outs,
             dn_seen := dn_seen d @ [Finished status code outs t]\<rparr>, r')
      | (RecvEvent e, r') \<Rightarrow> drain_grace ch ws (d\<lparr>dn_seen := dn_seen d @ [e]\<rparr>) r'
      | (RecvClosed, r') \<Rightarrow> (d\<lparr>dn_status := Some OutKilled\<rparr>, r')
      | (RecvWait, r') \<Rightarrow> drain_grace ch ws d r')"

record drain_turn =
  dt_world :: "registry \<Rightarrow> registry"
  dt_now :: nat
  dt_cancelled :: bool
  dt_deadline :: bool
  dt_grace :: "(registry \<Rightarrow> registry) list"

datatype drain_result = Draining drain registry | Drained drain registry

text \<open>One pass of the biased \<open>select!\<close>: the channel first, then the cancel token, then the wall clock,
  each arm with its guard.\<close>

definition drain_event :: "nat \<Rightarrow> build_lifecycle \<Rightarrow> drain \<Rightarrow> registry \<Rightarrow> drain_result" where
  "drain_event now e d r =
     (let d1 = d\<lparr>dn_seen := dn_seen d @ [e]\<rparr> in
      case e of
        Started pid \<Rightarrow> Draining (d1\<lparr>dn_started := Some now\<rparr>) r
      | LogChunk bytes \<Rightarrow> Draining d1 r
      | Finished status code outs t \<Rightarrow>
          Drained (d1\<lparr>dn_status := Some status, dn_exit_code := code, dn_outputs := outs,
            dn_build_ms := (case dn_started d of Some s \<Rightarrow> Some (now - s) | None \<Rightarrow> dn_build_ms d)\<rparr>) r)"

definition drain_step :: "builder_name \<Rightarrow> int \<Rightarrow> nat \<Rightarrow> drain_turn \<Rightarrow> drain \<Rightarrow> registry \<Rightarrow> drain_result" where
  "drain_step name build_id ch t d r =
     (case recv ch (dt_world t r) of
        (RecvEvent e, r') \<Rightarrow> drain_event (dt_now t) e d r'
      | (RecvClosed, r') \<Rightarrow> Drained (d\<lparr>dn_status := Some OutFailure, dn_transport_failed := True\<rparr>) r'
      | (RecvWait, r') \<Rightarrow>
          if dt_cancelled t \<and> \<not> dn_aborted d then
            Draining (d\<lparr>dn_aborted := True, dn_sent := abort_build name build_id r' (dn_sent d)\<rparr>) r'
          else if dt_deadline t \<and> \<not> dn_aborted d \<and> \<not> dn_timed_out d then
            (case drain_grace ch (dt_grace t)
                    (d\<lparr>dn_timed_out := True, dn_sent := abort_build name build_id r' (dn_sent d)\<rparr>) r' of
               (d', r'') \<Rightarrow> Drained d' r'')
          else Draining d r')"

fun drain_loop :: "builder_name \<Rightarrow> int \<Rightarrow> nat \<Rightarrow> drain_turn list \<Rightarrow> drain \<Rightarrow> registry \<Rightarrow> drain_result" where
  "drain_loop name build_id ch [] d r = Draining d r"
| "drain_loop name build_id ch (t # ts) d r =
     (case drain_step name build_id ch t d r of
        Draining d' r' \<Rightarrow> drain_loop name build_id ch ts d' r'
      | Drained d' r' \<Rightarrow> Drained d' r')"

section \<open>One attempt\<close>

datatype build_status = BuildSuccess | BuildFailure

record build_outcome =
  bo_status :: build_status
  bo_exit_code :: "int option"
  bo_output_paths :: "string list"

datatype pool_result =
    PoolOutcome build_outcome phase_metrics
  | PoolCancelled
  | PoolTransportFailure phase_metrics
  | PoolLogError
  | PoolPending

record pool_script =
  pl_push_world :: "registry \<Rightarrow> registry"
  pl_push :: copy_race
  pl_send_world :: "registry \<Rightarrow> registry"
  pl_sent :: bool
  pl_turns :: "drain_turn list"
  pl_slot_world :: "registry \<Rightarrow> registry"
  pl_slot :: bool
  pl_pull_world :: "registry \<Rightarrow> registry"
  pl_pull :: copy_race
  pl_log_written :: bool

text \<open>Every way out writes the log and drops the phase guard; the second result is the transfer slot.\<close>

definition pool_leave :: "builder_name \<Rightarrow> int \<Rightarrow> pool_script \<Rightarrow> pool_result \<Rightarrow> bool \<Rightarrow> registry \<Rightarrow>
    pool_result \<times> bool \<times> registry" where
  "pool_leave name build_id sc res permit r =
     (if pl_log_written sc then res else PoolLogError, permit, phase_guard_drop (PhaseGuard name build_id) r)"

definition pool_outcome :: "drain \<Rightarrow> phase_metrics \<Rightarrow> pool_result" where
  "pool_outcome d m =
     PoolOutcome \<lparr>bo_status = (if dn_status d = Some OutSuccess then BuildSuccess else BuildFailure),
       bo_exit_code = dn_exit_code d, bo_output_paths = dn_outputs d\<rparr> m"

definition pool_pull :: "builder_name \<Rightarrow> int \<Rightarrow> pool_script \<Rightarrow> drain \<Rightarrow> phase_metrics \<Rightarrow> registry \<Rightarrow>
    pool_result \<times> bool \<times> registry" where
  "pool_pull name build_id sc d m r =
     (if \<not> pl_slot sc then pool_leave name build_id sc PoolCancelled False (pl_slot_world sc r)
      else let r1 = pl_pull_world sc (phase_guard_set (PhaseGuard name build_id) Pull (pl_slot_world sc r));
               failed = m\<lparr>pm_pull_ms := Some (cr_took (pl_pull sc)), pm_pull_bytes := Some 0\<rparr>
           in case nix_copy_phase name (pl_pull sc) r1 of
                CopyDone (Inr c) \<Rightarrow> pool_leave name build_id sc
                  (pool_outcome d (m\<lparr>pm_pull_bytes := Some (cm_from_builder c),
                     pm_pull_ms := Some (cm_elapsed c)\<rparr>)) True r1
              | CopyDone (Inl e) \<Rightarrow> pool_leave name build_id sc (PoolTransportFailure failed) True r1
              | CopyBuilderGone \<Rightarrow> pool_leave name build_id sc (PoolTransportFailure failed) True r1
              | CopyCancelled \<Rightarrow> pool_leave name build_id sc PoolCancelled True r1)"

definition pool_verdict :: "builder_name \<Rightarrow> int \<Rightarrow> pool_script \<Rightarrow> drain \<Rightarrow> phase_metrics \<Rightarrow> registry \<Rightarrow>
    pool_result \<times> bool \<times> registry" where
  "pool_verdict name build_id sc d m0 r =
     (let m = m0\<lparr>pm_build_ms := dn_build_ms d\<rparr> in
      if dn_aborted d \<or> (dn_status d = Some OutKilled \<and> \<not> dn_timed_out d)
      then pool_leave name build_id sc PoolCancelled False r
      else if dn_timed_out d
      then pool_leave name build_id sc
             (PoolOutcome \<lparr>bo_status = BuildFailure, bo_exit_code = dn_exit_code d, bo_output_paths = []\<rparr> m) False r
      else if dn_status d = Some OutSuccess \<and> dn_outputs d \<noteq> [] then pool_pull name build_id sc d m r
      else if dn_transport_failed d then pool_leave name build_id sc (PoolTransportFailure m) False r
      else pool_leave name build_id sc (pool_outcome d m) False r)"

definition dispatch_pool_build :: "builder_name \<Rightarrow> int \<Rightarrow> pool_script \<Rightarrow> bool \<Rightarrow> registry \<Rightarrow>
    pool_result \<times> bool \<times> registry" where
  "dispatch_pool_build name build_id sc permit r =
     (let guard = PhaseGuard name build_id;
          r1 = pl_push_world sc (phase_guard_set guard Push r);
          failed = no_metrics\<lparr>pm_push_ms := Some (cr_took (pl_push sc)), pm_push_bytes := Some 0\<rparr>
      in case nix_copy_phase name (pl_push sc) r1 of
           CopyDone (Inl e) \<Rightarrow> pool_leave name build_id sc (PoolTransportFailure failed) permit r1
         | CopyBuilderGone \<Rightarrow> pool_leave name build_id sc (PoolTransportFailure failed) permit r1
         | CopyCancelled \<Rightarrow> pool_leave name build_id sc PoolCancelled permit r1
         | CopyDone (Inr c) \<Rightarrow>
             (let m = no_metrics\<lparr>pm_push_bytes := Some (cm_to_builder c), pm_push_ms := Some (cm_elapsed c)\<rparr>;
                  r2 = phase_guard_set guard Build r1
              in case dispatch_build name build_id (pl_sent sc) (pl_send_world sc) r2 of
                   (Inl e, r3) \<Rightarrow> pool_leave name build_id sc (PoolTransportFailure m) False r3
                 | (Inr ch, r3) \<Rightarrow>
                     (case drain_loop name build_id ch (pl_turns sc) drain_init r3 of
                        Draining d r4 \<Rightarrow> (PoolPending, False, r4)
                      | Drained d r4 \<Rightarrow>
                          (let (res, permit', r5) = pool_verdict name build_id sc d m
                                 (unregister_in_flight_build name build_id r4)
                           in (res, permit', drop_receiver ch r5)))))"

section \<open>How a drain ends\<close>











section \<open>What an attempt reports\<close>

text \<open>The registry after the push, and the local variables of the attempt when its loop has ended.\<close>

definition pushed_registry :: "builder_name \<Rightarrow> int \<Rightarrow> pool_script \<Rightarrow> registry \<Rightarrow> registry" where
  "pushed_registry name i sc r = pl_push_world sc (set_phase name i Push r)"













section \<open>What an attempt leaves behind\<close>

text \<open>What the attempt relies on: nobody else registers this build.\<close>

definition leaves_build :: "builder_name \<Rightarrow> int \<Rightarrow> (registry \<Rightarrow> registry) \<Rightarrow> bool" where
  "leaves_build name i world \<longleftrightarrow> (\<forall>r. hm_get (rg_in_flight_builds r) (name, i) = None \<longrightarrow>
     hm_get (rg_in_flight_builds (world r)) (name, i) = None)"

lemmas attempt_fields = pool_leave_def set_phase_def clear_phase_def unregister_in_flight_build_def drop_receiver_def
  hm_get_remove

lemma pool_verdict_clean:
  assumes "pool_verdict name i sc d m r = (res, permit, r')"
    and "hm_get (rg_in_flight_builds r) (name, i) = None"
    and "leaves_build name i (pl_slot_world sc)" "leaves_build name i (pl_pull_world sc)"
  shows "hm_get (rg_phases r') (name, i) = None \<and> hm_get (rg_in_flight_builds r') (name, i) = None"
  using assms
  by (auto simp: pool_verdict_def pool_pull_def attempt_fields leaves_build_def Let_def
      split: if_splits copy_phase_outcome.splits sum.splits)

text \<open>C40. Whatever happens to an attempt (a failed push, a lost connection, a cancel, a timeout, a failed
  pull, a log that cannot be written), when it returns its build is no longer registered and its live phase
  is gone, so that neither the status page nor a later attempt sees it.\<close>

theorem pool_attempt_leaves_no_trace:
  assumes "dispatch_pool_build name i sc permit r = (res, permit', r')" "res \<noteq> PoolPending"
    and "hm_get (rg_in_flight_builds r) (name, i) = None"
    and "leaves_build name i (pl_push_world sc)" "leaves_build name i (pl_slot_world sc)"
      "leaves_build name i (pl_pull_world sc)"
  shows "hm_get (rg_phases r') (name, i) = None \<and> hm_get (rg_in_flight_builds r') (name, i) = None"
proof -
  have r1: "hm_get (rg_in_flight_builds (pushed_registry name i sc r)) (name, i) = None"
    using assms(3,4) by (simp add: pushed_registry_def leaves_build_def set_phase_def)
  obtain disp r3 where disp: "dispatch_build name i (pl_sent sc) (pl_send_world sc)
      (set_phase name i Build (pushed_registry name i sc r)) = (disp, r3)" by fastforce
  have early: "hm_get (rg_in_flight_builds r3) (name, i) = None" if "disp = Inl e" for e
    using disp r1 that by (auto simp: dispatch_build_def attempt_fields Let_def split: option.splits prod.splits if_splits)
  have late: "hm_get (rg_phases (drop_receiver ch r5)) (name, i) = None
      \<and> hm_get (rg_in_flight_builds (drop_receiver ch r5)) (name, i) = None"
    if "pool_verdict name i sc d m (unregister_in_flight_build name i r4) = (res', permit5, r5)"
    for ch d m r4 res' permit5 r5
    using pool_verdict_clean [OF that _ assms(5,6)] by (simp add: attempt_fields)
  note run = assms(1) [unfolded dispatch_pool_build_def Let_def phase_guard_set.simps, folded pushed_registry_def, unfolded disp]
  show ?thesis
    using run assms(2) r1 early late
    by (cases disp) (auto simp: attempt_fields
        split: copy_phase_outcome.splits sum.splits drain_result.splits prod.splits if_splits)
qed

text \<open>After a cancel the wall clock no longer ends the wait: a builder that stays connected and never
  answers the abort keeps the attempt waiting, whatever deadline passes.\<close>

lemma cancelled_drain_ignores_deadline:
  assumes "dn_aborted d" "recv ch r = (RecvWait, r)" "\<forall>t\<in>set ts. dt_world t r = r"
  shows "drain_loop name i ch ts d r = Draining d r"
  using assms(3) by (induction ts) (simp_all add: drain_step_def assms(1,2))

section \<open>The theorems at a concrete attempt\<close>

text \<open>The builder \<open>arm\<close> starts, reports success and one output, and the output is pulled.\<close>

definition answer :: "int \<Rightarrow> build_lifecycle \<Rightarrow> drain_turn" where
  "answer i e = \<lparr>dt_world = (\<lambda>r. snd (try_forward_build_event (BuilderName ''arm'') i e r)), dt_now = 4,
     dt_cancelled = False, dt_deadline = False, dt_grace = []\<rparr>"

definition sample_copy :: copy_race where
  "sample_copy = \<lparr>cr_cancelled = False, cr_polled = False,
     cr_copy = Inr \<lparr>cm_to_builder = 10, cm_from_builder = 20, cm_elapsed = 3\<rparr>, cr_took = 3\<rparr>"

definition sample_script :: "int \<Rightarrow> build_outcome_status \<Rightarrow> pool_script" where
  "sample_script i status = \<lparr>pl_push_world = (\<lambda>r. r), pl_push = sample_copy, pl_send_world = (\<lambda>r. r), pl_sent = True,
     pl_turns = map (answer i) [Started None, Finished status (Some 0) [''/nix/store/out''] False],
     pl_slot_world = (\<lambda>r. r), pl_slot = True, pl_pull_world = (\<lambda>r. r), pl_pull = sample_copy,
     pl_log_written = True\<rparr>"

definition sample_attempt :: "pool_result \<times> bool \<times> registry" where
  "sample_attempt = dispatch_pool_build (BuilderName ''arm'') 9 (sample_script 9 OutSuccess) True (reg_run sample_run registry_new)"

lemmas attempt_eval = dispatch_pool_build_def sample_script_def sample_copy_def nix_copy_phase_def
  dispatch_build_def session_def drain_step_def drain_event_def answer_def pool_verdict_def pool_pull_def
  pool_leave_def pool_outcome_def drain_init_def no_metrics_def try_forward_build_event_def
  try_send_def lifecycle_capacity_def unregister_in_flight_build_def reg_eval

lemma sample_attempt_result:
  "fst sample_attempt = PoolOutcome \<lparr>bo_status = BuildSuccess, bo_exit_code = Some 0,
     bo_output_paths = [''/nix/store/out'']\<rparr> \<lparr>pm_push_bytes = Some 10, pm_push_ms = Some 3, pm_build_ms = Some 0,
       pm_pull_bytes = Some 20, pm_pull_ms = Some 3, pm_cache_push_ms = None\<rparr>"
  by (simp add: sample_attempt_def attempt_eval)




theorem pool_attempt_leaves_no_trace_witness:
  "hm_get (rg_phases (snd (snd sample_attempt))) (BuilderName ''arm'', 9) = None
   \<and> hm_get (rg_in_flight_builds (snd (snd sample_attempt))) (BuilderName ''arm'', 9) = None"
proof -
  have run: "dispatch_pool_build (BuilderName ''arm'') 9 (sample_script 9 OutSuccess) True (reg_run sample_run registry_new)
      = (fst sample_attempt, fst (snd sample_attempt), snd (snd sample_attempt))"
    by (simp add: sample_attempt_def)
  have "hm_get (rg_in_flight_builds (reg_run sample_run registry_new)) (BuilderName ''arm'', 9) = None"
    by (simp add: reg_eval)
  from pool_attempt_leaves_no_trace [OF run _ this] show ?thesis
    by (simp add: sample_attempt_result leaves_build_def sample_script_def)
qed

end
