(* ===== verification/Build_One.thy ===== *)
theory Build_One
  imports Pool Worker_Props
begin

text \<open>
  The build of one job: \<open>build_one\<close> of \<open>argunix-daemon/src/worker.rs\<close>. A job whose output is cached is
  finished at once, a job no connected builder can ever take fails fast, and every other job goes
  through the dispatch loop, which picks builders from the registry until one of them gives a verdict.

  The state is the database, the builder registry and the job's hold on a transfer permit; other
  tasks change the first two whenever the loop awaits. Image publishing and the log files
  are left out; the effects that a successful build spawns are in the theory \<open>Effects\<close>.
\<close>

section \<open>State and environment\<close>

record build_state =
  bs_store :: store
  bs_registry :: registry
  bs_permit :: bool
  bs_excluded :: "nat list"
  bs_wait_used :: bool
  bs_attempts :: "nat list"

text \<open>\<open>bs_excluded\<close> and \<open>bs_wait_used\<close> are the loop's \<open>excluded\<close> and \<open>builder_wait_used\<close>; \<open>bs_attempts\<close>
  keeps the connections the job was sent to.\<close>

record build_ctx =
  bc_job :: job_id
  bc_spec :: job_spec
  bc_log_path :: string
  bc_builder_wait :: nat

record wait_tick =
  wt_world :: "build_state \<Rightarrow> build_state"
  wt_cancelled :: bool
  wt_now :: nat

record loop_turn =
  bt_world :: "build_state \<Rightarrow> build_state"
  bt_cancelled :: bool
  bt_now :: nat
  bt_script :: pool_script
  bt_during :: "build_state \<Rightarrow> build_state"
  bt_end :: nat
  bt_ticks :: "wait_tick list"

section \<open>The steps of the loop\<close>

text \<open>\<open>TransferSlot::acquire\<close>: whether the permit is held afterwards, given that the cancel token fires
  before one is free.\<close>

definition transfer_acquire :: "bool \<Rightarrow> bool \<Rightarrow> bool" where
  "transfer_acquire cancelled permit = (if permit then True else \<not> cancelled)"

definition pick_builder_for_spec :: "nat \<Rightarrow> registry \<Rightarrow> job_spec \<Rightarrow> nat list \<Rightarrow> snapshot option" where
  "pick_builder_for_spec now r spec exclude =
     (case js_system spec of
        None \<Rightarrow> None
      | Some system \<Rightarrow>
          (case eligible now r system (js_required_features spec) (set exclude) of
             [] \<Rightarrow> None
           | b # _ \<Rightarrow> Some b))"

definition spec_system :: "job_spec \<Rightarrow> string" where
  "spec_system spec = (case js_system spec of Some system \<Rightarrow> system | None \<Rightarrow> [])"

definition has_match :: "build_ctx \<Rightarrow> nat \<Rightarrow> build_state \<Rightarrow> bool" where
  "has_match c now s = any_matching_builder now (bs_registry s) (spec_system (bc_spec c))
     (js_required_features (bc_spec c)) (set (bs_excluded s))"

definition has_slot :: "build_ctx \<Rightarrow> nat \<Rightarrow> build_state \<Rightarrow> bool" where
  "has_slot c now s = (eligible now (bs_registry s) (spec_system (bc_spec c))
     (js_required_features (bc_spec c)) (set (bs_excluded s)) \<noteq> [])"

definition finish_job :: "build_ctx \<Rightarrow> job_status \<Rightarrow> nat \<Rightarrow> string option \<Rightarrow> string option \<Rightarrow> phase_metrics \<Rightarrow>
    build_state \<Rightarrow> build_state" where
  "finish_job c status now log_path output m s =
     s\<lparr>bs_store := job_finish (bc_job c) status now log_path output m (bs_store s)\<rparr>"

datatype wait_result = WaitPending build_state | WaitCancelled nat build_state | WaitOver bool build_state

text \<open>Waiting for a matching builder that is at its \<open>max_jobs\<close>: a look every half second.\<close>

fun capacity_wait :: "build_ctx \<Rightarrow> wait_tick list \<Rightarrow> build_state \<Rightarrow> wait_result" where
  "capacity_wait c [] s = WaitPending s"
| "capacity_wait c (t # ts) s =
     (let s1 = wt_world t s in
      if wt_cancelled t then WaitCancelled (wt_now t) s1
      else if has_slot c (wt_now t) s1 then WaitOver True s1
      else if \<not> has_match c (wt_now t) s1 then WaitOver True s1
      else capacity_wait c ts s1)"

text \<open>Waiting for a builder to enrol, until the deadline.\<close>

fun enrol_wait :: "build_ctx \<Rightarrow> nat \<Rightarrow> nat \<Rightarrow> wait_tick list \<Rightarrow> build_state \<Rightarrow> wait_result" where
  "enrol_wait c deadline now [] s =
     (if has_match c now s then WaitOver True s
      else if deadline \<le> now then WaitOver False s
      else WaitPending s)"
| "enrol_wait c deadline now (t # ts) s =
     (if has_match c now s then WaitOver True s
      else if deadline \<le> now then WaitOver False s
      else let s1 = wt_world t s in
           if wt_cancelled t then WaitCancelled (wt_now t) s1
           else enrol_wait c deadline (wt_now t) ts s1)"

datatype build_result = BuildPending | BuildErr | BuildOk job_status

datatype turn_result = TurnNext build_state | TurnVerdict build_outcome phase_metrics build_state
  | TurnDone build_result build_state

datatype pool_attempt = AttemptVerdict build_outcome phase_metrics | AttemptTransportFailure | AttemptErr
  | AttemptPending

text \<open>A cancelled attempt cancels the row and is an error for the caller.\<close>

definition dispatch_build_via_pool :: "build_ctx \<Rightarrow> nat \<Rightarrow> pool_result \<Rightarrow> build_state \<Rightarrow> pool_attempt \<times> build_state" where
  "dispatch_build_via_pool c now res s =
     (case res of
        PoolOutcome out m \<Rightarrow> (AttemptVerdict out m, s)
      | PoolTransportFailure m \<Rightarrow> (AttemptTransportFailure, s)
      | PoolCancelled \<Rightarrow> (AttemptErr, finish_job c JCancelled now (Some (bc_log_path c)) None no_metrics s)
      | PoolLogError \<Rightarrow> (AttemptErr, s)
      | PoolPending \<Rightarrow> (AttemptPending, s))"

text \<open>A builder was picked: a slot of it is reserved, the row becomes \<open>running\<close>, and the attempt runs.\<close>

definition dispatch_turn :: "build_ctx \<Rightarrow> loop_turn \<Rightarrow> snapshot \<Rightarrow> build_state \<Rightarrow> turn_result" where
  "dispatch_turn c t b s =
     (let (slot, r1) = slot_reserve (sn_name b) (bs_registry s);
          s0 = s\<lparr>bs_attempts := bs_attempts s @ [sn_connection_id b]\<rparr>
      in case job_dispatch (bc_job c) (sn_builder_id b) (bt_now t) (bs_store s) of
           Inl e \<Rightarrow> TurnDone BuildErr (s\<lparr>bs_registry := slot_drop slot r1\<rparr>)
         | Inr st \<Rightarrow>
             (let (res, permit, r2) = dispatch_pool_build (sn_name b) (job_get (bc_job c)) (bt_script t)
                    (bs_permit s) r1;
                  (attempt, s1) = dispatch_build_via_pool c (bt_end t) res
                    (bt_during t (s0\<lparr>bs_store := st, bs_registry := r2, bs_permit := permit\<rparr>));
                  s2 = s1\<lparr>bs_registry := slot_drop slot (bs_registry s1)\<rparr>
              in case attempt of
                   AttemptPending \<Rightarrow> TurnDone BuildPending s1
                 | AttemptErr \<Rightarrow> TurnDone BuildErr s2
                 | AttemptTransportFailure \<Rightarrow>
                     TurnNext (s2\<lparr>bs_excluded := bs_excluded s2 @ [sn_connection_id b]\<rparr>)
                 | AttemptVerdict out m \<Rightarrow> TurnVerdict out m s2))"

definition cancelled_turn :: "build_ctx \<Rightarrow> nat \<Rightarrow> build_state \<Rightarrow> turn_result" where
  "cancelled_turn c now s = TurnDone (BuildOk JCancelled) (finish_job c JCancelled now None None no_metrics s)"

definition interrupted_turn :: "build_ctx \<Rightarrow> nat \<Rightarrow> build_state \<Rightarrow> turn_result" where
  "interrupted_turn c now s = TurnDone (BuildOk JInterrupted) (finish_job c JInterrupted now None None no_metrics s)"

text \<open>No builder could be picked.\<close>

definition no_builder_turn :: "build_ctx \<Rightarrow> loop_turn \<Rightarrow> build_state \<Rightarrow> turn_result" where
  "no_builder_turn c t s =
     (if has_match c (bt_now t) s then
        (case capacity_wait c (bt_ticks t) (s\<lparr>bs_permit := False\<rparr>) of
           WaitPending s1 \<Rightarrow> TurnDone BuildPending s1
         | WaitCancelled now s1 \<Rightarrow> cancelled_turn c now s1
         | WaitOver _ s1 \<Rightarrow> TurnNext s1)
      else if \<not> bs_wait_used s \<and> bc_builder_wait c \<noteq> 0 then
        (case enrol_wait c (bt_now t + bc_builder_wait c) (bt_now t) (bt_ticks t)
                (s\<lparr>bs_wait_used := True, bs_permit := False\<rparr>) of
           WaitPending s1 \<Rightarrow> TurnDone BuildPending s1
         | WaitCancelled now s1 \<Rightarrow> cancelled_turn c now s1
         | WaitOver arrived s1 \<Rightarrow> if arrived then TurnNext s1 else interrupted_turn c (bt_end t) s1)
      else interrupted_turn c (bt_end t) s)"

definition build_turn :: "build_ctx \<Rightarrow> loop_turn \<Rightarrow> build_state \<Rightarrow> turn_result" where
  "build_turn c t s0 =
     (let s = bt_world t s0 in
      if \<not> transfer_acquire (bt_cancelled t) (bs_permit s) then cancelled_turn c (bt_now t) s
      else let s1 = s\<lparr>bs_permit := True\<rparr> in
           case pick_builder_for_spec (bt_now t) (bs_registry s1) (bc_spec c) (bs_excluded s1) of
             Some b \<Rightarrow> dispatch_turn c t b s1
           | None \<Rightarrow> no_builder_turn c t s1)"

section \<open>The build\<close>

definition finish_verdict :: "build_ctx \<Rightarrow> nat \<Rightarrow> build_outcome \<Rightarrow> phase_metrics \<Rightarrow> build_state \<Rightarrow>
    build_result \<times> build_state" where
  "finish_verdict c now out m s =
     (case bo_status out of
        BuildSuccess \<Rightarrow>
          (let primary = (case bo_output_paths out of p # _ \<Rightarrow> Some p | [] \<Rightarrow> primary_output (bc_spec c))
           in (BuildOk JSuccess, finish_job c JSuccess now (Some (bc_log_path c)) primary m s))
      | BuildFailure \<Rightarrow> (BuildOk JFailure, finish_job c JFailure now (Some (bc_log_path c)) None m s))"

fun build_loop :: "build_ctx \<Rightarrow> loop_turn list \<Rightarrow> build_state \<Rightarrow> build_result \<times> build_state" where
  "build_loop c [] s = (BuildPending, s)"
| "build_loop c (t # ts) s =
     (case build_turn c t s of
        TurnNext s' \<Rightarrow> build_loop c ts s'
      | TurnVerdict out m s' \<Rightarrow> finish_verdict c (bt_end t) out m s'
      | TurnDone res s' \<Rightarrow> (res, s'))"

text \<open>\<open>RunningJobGuard\<close>: when the build returns, its drop interrupts a row that is still \<open>running\<close>. The source
  spawns a task for the write, which runs some time after the drop; here the drop and the write are one step.\<close>

definition running_guard_drop :: "job_id \<Rightarrow> build_state \<Rightarrow> build_state" where
  "running_guard_drop j s = s\<lparr>bs_store := snd (interrupt_if_running j (bs_store s))\<rparr>"

definition preflight_fails :: "build_ctx \<Rightarrow> nat \<Rightarrow> build_state \<Rightarrow> bool" where
  "preflight_fails c now s =
     (js_required_features (bc_spec c) \<noteq> [] \<and>
      (case js_system (bc_spec c) of
         None \<Rightarrow> False
       | Some system \<Rightarrow> \<not> any_matching_builder now (bs_registry s) system (js_required_features (bc_spec c)) {}))"

definition build_one :: "build_ctx \<Rightarrow> nat \<Rightarrow> loop_turn list \<Rightarrow> build_state \<Rightarrow> build_result \<times> build_state" where
  "build_one c now ts s =
     (let spec = bc_spec c in
      if js_error spec \<noteq> None \<or> js_drv_path spec = None then (BuildOk JFailure, s)
      else case (if js_is_cached spec then primary_output spec else None) of
             Some output \<Rightarrow> (BuildOk JCached, finish_job c JCached now None (Some output) no_metrics s)
           | None \<Rightarrow>
               if preflight_fails c now s
               then (BuildOk JFailure, finish_job c JFailure now (Some (bc_log_path c)) None no_metrics s)
               else (case build_loop c ts (s\<lparr>bs_excluded := [], bs_wait_used := False\<rparr>) of
                       (BuildPending, s') \<Rightarrow> (BuildPending, s')
                     | (res, s') \<Rightarrow> (res, running_guard_drop (bc_job c) s')))"

section \<open>The row of the job\<close>

definition job_status_of :: "job_id \<Rightarrow> build_state \<Rightarrow> string option" where
  "job_status_of j s = map_option j_status (List.find (\<lambda>r. j_id r = job_get j) (st_jobs (bs_store s)))"

lemma status_locals [simp]:
  "job_status_of j (s\<lparr>bs_registry := r\<rparr>) = job_status_of j s" "job_status_of j (s\<lparr>bs_permit := b\<rparr>) = job_status_of j s"
  "job_status_of j (s\<lparr>bs_excluded := e\<rparr>) = job_status_of j s" "job_status_of j (s\<lparr>bs_wait_used := b\<rparr>) = job_status_of j s"
  "job_status_of j (s\<lparr>bs_attempts := a\<rparr>) = job_status_of j s"
  by (simp_all add: job_status_of_def)

lemma status_finish:
  "job_status_of (bc_job c) (finish_job c status now log_path output m s) =
     map_option (\<lambda>x. if x \<in> set job_terminal_statuses then x else job_as_str status) (job_status_of (bc_job c) s)"
proof -
  have "List.find (\<lambda>r. j_id r = job_get (bc_job c)) (st_jobs (bs_store s)) = Some row \<Longrightarrow> j_id row = job_get (bc_job c)" for row
    by (rule found_key)
  then show ?thesis
    by (cases "List.find (\<lambda>r. j_id r = job_get (bc_job c)) (st_jobs (bs_store s))")
      (auto simp: job_status_of_def finish_job_def job_finish_def find_update_where)
qed

interpretation job_cell: status_cell "job_status_of (bc_job c)" "\<lambda>x. x \<in> set job_terminal_statuses" job_as_str
  "\<lambda>v. finish_job c v now log_path out_path m" for c now log_path out_path m
  by unfold_locales (rule status_finish)

lemma status_dispatch:
  assumes "job_dispatch j b now (bs_store s) = Inr st"
  shows "job_status_of j (s\<lparr>bs_store := st\<rparr>) =
     map_option (\<lambda>x. if x \<in> set job_terminal_statuses then x else ''running'') (job_status_of j s)"
proof -
  have "List.find (\<lambda>r. j_id r = job_get j) (st_jobs (bs_store s)) = Some row \<Longrightarrow> j_id row = job_get j" for row
    by (rule found_key)
  then show ?thesis
    using assms by (cases "List.find (\<lambda>r. j_id r = job_get j) (st_jobs (bs_store s))")
      (auto simp: job_status_of_def job_dispatch_def Let_def find_update_where split: if_splits)
qed

lemma status_guard:
  "job_status_of j (running_guard_drop j s) =
     map_option (\<lambda>x. if x = ''running'' then ''interrupted'' else x) (job_status_of j s)"
proof -
  have "List.find (\<lambda>r. j_id r = job_get j) (st_jobs (bs_store s)) = Some row \<Longrightarrow> j_id row = job_get j" for row
    by (rule found_key)
  then show ?thesis
    by (cases "List.find (\<lambda>r. j_id r = job_get j) (st_jobs (bs_store s))")
      (auto simp: job_status_of_def running_guard_drop_def interrupt_if_running_def Let_def find_update_where)
qed

section \<open>The loop keeps the row and the attempts\<close>

text \<open>What a build relies on: others leave its row and its local variables alone.\<close>

definition rely :: "job_id \<Rightarrow> (build_state \<Rightarrow> build_state) \<Rightarrow> bool" where
  "rely j world \<longleftrightarrow> (\<forall>s. job_status_of j (world s) = job_status_of j s \<and> bs_excluded (world s) = bs_excluded s
     \<and> bs_attempts (world s) = bs_attempts s)"

definition turn_rely :: "job_id \<Rightarrow> loop_turn \<Rightarrow> bool" where
  "turn_rely j t \<longleftrightarrow> rely j (bt_world t) \<and> rely j (bt_during t) \<and> list_all (\<lambda>k. rely j (wt_world k)) (bt_ticks t)"

text \<open>The row is not terminal yet, and the job was sent to the excluded connections, once each.\<close>

definition unsettled :: "build_ctx \<Rightarrow> build_state \<Rightarrow> bool" where
  "unsettled c s \<longleftrightarrow> (\<exists>x. job_status_of (bc_job c) s = Some x \<and> x \<notin> set job_terminal_statuses)
     \<and> bs_attempts s = bs_excluded s \<and> distinct (bs_excluded s)"

definition settled :: "build_ctx \<Rightarrow> build_result \<Rightarrow> build_state \<Rightarrow> bool" where
  "settled c res s \<longleftrightarrow> distinct (bs_attempts s) \<and>
     (\<forall>v. res = BuildOk v \<longrightarrow> v \<noteq> JRunning \<and> job_status_of (bc_job c) s = Some (job_as_str v))"

lemma unsettled_rely: "rely (bc_job c) world \<Longrightarrow> unsettled c s \<Longrightarrow> unsettled c (world s)"
  by (simp add: rely_def unsettled_def)

lemma unsettled_locals [simp]:
  "unsettled c (s\<lparr>bs_registry := r\<rparr>) = unsettled c s" "unsettled c (s\<lparr>bs_permit := b\<rparr>) = unsettled c s"
  "unsettled c (s\<lparr>bs_wait_used := b\<rparr>) = unsettled c s"
  by (simp_all add: unsettled_def)

lemma settled_finish:
  "unsettled c s \<Longrightarrow> v \<noteq> JRunning \<Longrightarrow> settled c (BuildOk v) (finish_job c v now log_path output m s)"
  by (auto simp: unsettled_def settled_def intro: job_cell.write_open) (simp_all add: finish_job_def)

lemma capacity_wait_unsettled:
  assumes "list_all (\<lambda>k. rely (bc_job c) (wt_world k)) ts" "unsettled c s"
  shows "case capacity_wait c ts s of WaitPending s' \<Rightarrow> unsettled c s' | WaitCancelled now s' \<Rightarrow> unsettled c s'
    | WaitOver b s' \<Rightarrow> unsettled c s'"
  using assms by (induction ts arbitrary: s) (auto simp: Let_def unsettled_rely)

lemma enrol_wait_unsettled:
  assumes "list_all (\<lambda>k. rely (bc_job c) (wt_world k)) ts" "unsettled c s"
  shows "case enrol_wait c deadline now ts s of WaitPending s' \<Rightarrow> unsettled c s' | WaitCancelled now s' \<Rightarrow> unsettled c s'
    | WaitOver b s' \<Rightarrow> unsettled c s'"
  using assms by (induction ts arbitrary: s now) (auto simp: Let_def unsettled_rely)

definition turn_ok :: "build_ctx \<Rightarrow> turn_result \<Rightarrow> bool" where
  "turn_ok c res = (case res of
      TurnNext s \<Rightarrow> unsettled c s
    | TurnVerdict out m s \<Rightarrow> distinct (bs_attempts s)
        \<and> (\<exists>x. job_status_of (bc_job c) s = Some x \<and> x \<notin> set job_terminal_statuses)
    | TurnDone r s \<Rightarrow> settled c r s)"

lemma cancelled_turn_ok: "unsettled c s \<Longrightarrow> turn_ok c (cancelled_turn c now s)"
  by (simp add: turn_ok_def cancelled_turn_def settled_finish)

lemma interrupted_turn_ok: "unsettled c s \<Longrightarrow> turn_ok c (interrupted_turn c now s)"
  by (simp add: turn_ok_def interrupted_turn_def settled_finish)

lemma pending_turn_ok: "unsettled c s \<Longrightarrow> turn_ok c (TurnDone BuildPending s)"
  by (simp add: turn_ok_def settled_def unsettled_def)

lemma no_builder_turn_ok:
  assumes "turn_rely (bc_job c) t" "unsettled c s"
  shows "turn_ok c (no_builder_turn c t s)"
proof -
  have ticks: "list_all (\<lambda>k. rely (bc_job c) (wt_world k)) (bt_ticks t)" using assms(1) by (simp add: turn_rely_def)
  note waits = capacity_wait_unsettled [OF ticks, of "s\<lparr>bs_permit := False\<rparr>"]
    enrol_wait_unsettled [OF ticks, of "s\<lparr>bs_wait_used := True, bs_permit := False\<rparr>"
      "bt_now t + bc_builder_wait c" "bt_now t"]
  show ?thesis
    using waits assms(2)
    by (auto simp: no_builder_turn_def cancelled_turn_ok interrupted_turn_ok pending_turn_ok turn_ok_def [of c "TurnNext _"]
        split: wait_result.splits)
qed

lemma picked_fresh:
  "pick_builder_for_spec now r spec excl = Some b \<Longrightarrow> sn_connection_id b \<notin> set excl"
proof -
  assume "pick_builder_for_spec now r spec excl = Some b"
  then obtain system rest where "eligible now r system (js_required_features spec) (set excl) = b # rest"
    by (auto simp: pick_builder_for_spec_def split: option.splits list.splits)
  then have "b \<in> set (eligible now r system (js_required_features spec) (set excl))" by simp
  then show ?thesis
    by (auto simp: eligible_def system_candidates_def Let_def split: if_splits)
qed

lemma dispatch_turn_ok:
  assumes "turn_rely (bc_job c) t" "unsettled c s" "sn_connection_id b \<notin> set (bs_excluded s)"
  shows "turn_ok c (dispatch_turn c t b s)"
proof -
  obtain slot r1 where slot: "slot_reserve (sn_name b) (bs_registry s) = (slot, r1)" by fastforce
  show ?thesis
  proof (cases "job_dispatch (bc_job c) (sn_builder_id b) (bt_now t) (bs_store s)")
    case (Inl e)
    with assms(2) show ?thesis
      by (simp add: dispatch_turn_def slot turn_ok_def settled_def unsettled_def)
  next
    case (Inr st)
    obtain res permit r2 where pool: "dispatch_pool_build (sn_name b) (job_get (bc_job c)) (bt_script t)
        (bs_permit s) r1 = (res, permit, r2)" by (metis prod_cases3)
    let ?s0 = "s\<lparr>bs_attempts := bs_attempts s @ [sn_connection_id b], bs_store := st, bs_registry := r2, bs_permit := permit\<rparr>"
    let ?s1 = "bt_during t ?s0"
    let ?s2 = "?s1\<lparr>bs_registry := slot_drop slot (bs_registry ?s1)\<rparr>"
    have same: "job_status_of (bc_job c) ?s0 = job_status_of (bc_job c) (s\<lparr>bs_store := st\<rparr>)" by (simp add: job_status_of_def)
    have keep: "job_status_of (bc_job c) ?s1 = job_status_of (bc_job c) ?s0" "bs_excluded ?s1 = bs_excluded s"
      "bs_attempts ?s1 = bs_attempts s @ [sn_connection_id b]"
      using assms(1) by (simp_all add: turn_rely_def rely_def)
    have run: "job_status_of (bc_job c) ?s1 = Some ''running''"
      unfolding keep(1) same status_dispatch [OF Inr] using assms(2) by (auto simp: unsettled_def)
    have fresh: "distinct (bs_attempts ?s1)" using assms(2,3) keep by (auto simp: unsettled_def)
    have next_ok: "unsettled c (?s2\<lparr>bs_excluded := bs_excluded ?s2 @ [sn_connection_id b]\<rparr>)"
      using run fresh keep assms(2) by (simp add: unsettled_def job_terminal_statuses_def)
    show ?thesis
      using run fresh next_ok
      by (cases res) (simp_all add: dispatch_turn_def dispatch_build_via_pool_def slot Inr pool Let_def turn_ok_def settled_def finish_job_def
          job_terminal_statuses_def)
  qed
qed

lemma build_turn_ok:
  assumes "turn_rely (bc_job c) t" "unsettled c s"
  shows "turn_ok c (build_turn c t s)"
proof -
  have s: "unsettled c (bt_world t s)" using assms unsettled_rely by (simp add: turn_rely_def)
  show ?thesis
    using s assms(1) picked_fresh
    by (auto simp: build_turn_def Let_def cancelled_turn_ok no_builder_turn_ok dispatch_turn_ok split: option.splits)
qed

lemma build_loop_settled:
  assumes "list_all (turn_rely (bc_job c)) ts" "unsettled c s" "build_loop c ts s = (res, s')"
  shows "settled c res s'"
  using assms
proof (induction ts arbitrary: s)
  case Nil
  then show ?case by (auto simp: settled_def unsettled_def)
next
  case (Cons t ts)
  have "turn_ok c (build_turn c t s)" using Cons.prems by (intro build_turn_ok) simp_all
  with Cons show ?case
    by (auto simp: turn_ok_def finish_verdict_def settled_def status_finish finish_job_def [of c _ _ _ _ _ s']
        split: turn_result.splits build_status.splits) (simp_all add: finish_job_def)
qed

text \<open>An attempt that ends cancelled, be it that the builder's process was killed without any cancel, cancels
  the row but is an error for the build phase, which counts and reports an error as a failed build.\<close>

lemma cancelled_attempt_is_an_error:
  assumes "turn_rely (bc_job c) t" "unsettled c s"
    and "job_dispatch (bc_job c) (sn_builder_id b) (bt_now t) (bs_store s) = Inr st"
    and "dispatch_pool_build (sn_name b) (job_get (bc_job c)) (bt_script t) (bs_permit s)
      (inc_in_flight (sn_name b) (bs_registry s)) = (PoolCancelled, permit, r2)"
  shows "\<exists>s'. dispatch_turn c t b s = TurnDone BuildErr s' \<and> job_status_of (bc_job c) s' = Some ''cancelled''"
proof -
  let ?s0 = "s\<lparr>bs_attempts := bs_attempts s @ [sn_connection_id b], bs_store := st, bs_registry := r2, bs_permit := permit\<rparr>"
  have "job_status_of (bc_job c) ?s0 = job_status_of (bc_job c) (s\<lparr>bs_store := st\<rparr>)" by (simp add: job_status_of_def)
  then have "job_status_of (bc_job c) (bt_during t ?s0) = Some ''running''"
    using assms(1,2) by (auto simp: turn_rely_def rely_def status_dispatch [OF assms(3)] unsettled_def)
  then show ?thesis
    by (simp add: dispatch_turn_def dispatch_build_via_pool_def slot_reserve_def assms(3,4) Let_def status_finish job_terminal_statuses_def)
qed

text \<open>C16. The verdict of a build is the one in the database. For a job with a derivation whose row is
  not yet terminal, whatever the builders answer, however connections come and go, and whenever the
  evaluation is cancelled, as long as nobody else writes the job's row: when the build returns a
  status, the row has exactly that status; when it returns at all, the row is not left \<open>running\<close>; and the
  job was never sent twice over the same connection.\<close>

theorem build_one_records_verdict:
  assumes "js_error (bc_spec c) = None" "js_drv_path (bc_spec c) \<noteq> None"
    and "job_status_of (bc_job c) s = Some x" "x \<notin> set job_terminal_statuses" "bs_attempts s = []"
    and "list_all (turn_rely (bc_job c)) ts"
    and "build_one c now ts s = (res, s')"
  shows "(\<forall>v. res = BuildOk v \<longrightarrow> job_status_of (bc_job c) s' = Some (job_as_str v))
    \<and> (res \<noteq> BuildPending \<longrightarrow> job_status_of (bc_job c) s' \<noteq> Some ''running'')
    \<and> distinct (bs_attempts s')"
proof -
  let ?s = "s\<lparr>bs_excluded := [], bs_wait_used := False\<rparr>"
  have start: "unsettled c ?s" using assms(3-5) by (simp add: unsettled_def)
  have finished: "settled c (BuildOk v) (finish_job c v now log_path out_path m s)" if "v \<noteq> JRunning" for v log_path out_path m
    using settled_finish [OF start that, of now log_path out_path m] by (simp add: settled_def finish_job_def job_status_of_def)
  have running: "job_as_str v = ''running'' \<longleftrightarrow> v = JRunning" for v by (cases v) simp_all
  show ?thesis
  proof (cases "(if js_is_cached (bc_spec c) then primary_output (bc_spec c) else None) \<noteq> None \<or> preflight_fails c now s")
    case True
    with assms(7) finished [of JCached] finished [of JFailure] show ?thesis
      by (auto simp: build_one_def Let_def assms(1,2) settled_def split: option.splits if_splits)
  next
    case False
    obtain r0 s0 where loop: "build_loop c ts ?s = (r0, s0)" by fastforce
    have ok: "settled c r0 s0" by (rule build_loop_settled [OF assms(6) start loop])
    have "res = r0 \<and> s' = (if r0 = BuildPending then s0 else running_guard_drop (bc_job c) s0)"
      using assms(7) False loop
      by (cases r0) (auto simp: build_one_def Let_def assms(1,2) split: option.splits if_splits)
    with ok show ?thesis
      by (auto simp: settled_def status_guard running) (simp_all add: running_guard_drop_def)
  qed
qed

section \<open>The theorem at a concrete build\<close>

text \<open>The queued job of the sample database on the builder \<open>arm\<close>, whose build ends with the given status.\<close>

definition sample_build :: "build_outcome_status \<Rightarrow> build_result \<times> build_state" where
  "sample_build status =
     build_one \<lparr>bc_job = JobId 1, bc_spec = (sample_spec ''a'')\<lparr>js_system := Some ''arm''\<rparr>, bc_log_path = ''log'', bc_builder_wait = 0\<rparr> 3
       [\<lparr>bt_world = (\<lambda>s. s), bt_cancelled = False, bt_now = 4, bt_script = sample_script 1 status, bt_during = (\<lambda>s. s),
         bt_end = 5, bt_ticks = []\<rparr>]
       \<lparr>bs_store = sample_store sample_serde, bs_registry = reg_run sample_run registry_new, bs_permit = True,
         bs_excluded = [], bs_wait_used = False, bs_attempts = []\<rparr>"

lemma sample_job: "job_status_of (JobId 1) \<lparr>bs_store = sample_store sample_serde, bs_registry = r, bs_permit = p,
    bs_excluded = e, bs_wait_used = w, bs_attempts = a\<rparr> = Some ''queued''"
  "\<exists>st. job_dispatch (JobId 1) (BuilderId 1) 4 (sample_store sample_serde) = Inr st"
  by (simp_all add: job_status_of_def job_dispatch_def has_builder_def sample_store_def store_new_def sample_new_eval_def
      sample_new_job_def sample_new_builder_def store_defs find_repo_def has_repo_def has_eval_def find_builder_def)

lemma sample_build_result: "fst (sample_build OutSuccess) = BuildOk JSuccess"
proof -
  obtain st where "job_dispatch (JobId 1) (BuilderId 1) 4 (sample_store sample_serde) = Inr st"
    using sample_job(2) by blast
  then show ?thesis
    by (simp add: sample_build_def build_one_def sample_spec_def preflight_fails_def build_turn_def transfer_acquire_def
      pick_builder_for_spec_def dispatch_turn_def dispatch_build_via_pool_def slot_reserve_def inc_in_flight_def finish_verdict_def attempt_eval)
qed

theorem build_one_records_verdict_witness:
  "job_status_of (JobId 1) (snd (sample_build OutSuccess)) = Some ''success''
   \<and> distinct (bs_attempts (snd (sample_build OutSuccess)))"
proof -
  have run: "sample_build OutSuccess = (BuildOk JSuccess, snd (sample_build OutSuccess))"
    by (simp add: sample_build_result prod_eq_iff)
  show ?thesis
    using build_one_records_verdict [OF _ _ _ _ _ _ run [unfolded sample_build_def]]
    by (simp add: sample_build_def sample_job sample_spec_def job_terminal_statuses_def turn_rely_def rely_def)
qed

end
