(* ===== verification/Process.thy ===== *)
theory Process
  imports Worker_Props
begin

text \<open>
  What the worker does with an evaluation it takes from its channel (\<open>process\<close> and \<open>spawn\<close> of
  \<open>argunix-daemon/src/worker.rs\<close>): register a cancel token, read the row, clone and evaluate or resume,
  persist the jobs, announce them, and start the build phase; an error is written on the row.

  The state is a \<open>phase\<close>, of which only the server state and the posted checks are used here. Others
  write the server state at the awaits; the script of a run says what they do and how the clone, the
  evaluation and the file system behave.
\<close>

section \<open>Errors\<close>

definition show_parse_error :: "parse_error \<Rightarrow> string" where
  "show_parse_error e = (case e of ParseJson line source \<Rightarrow> ''malformed JSON line '' @ show_nat line @ '': '' @ source)"

definition debug_status :: "int option \<Rightarrow> string" where
  "debug_status st = (case st of None \<Rightarrow> ''None'' | Some i \<Rightarrow> ''Some('' @ show_int i @ '')'')"

fun show_eval_error :: "eval_error \<Rightarrow> string" where
  "show_eval_error (MissingSource p) = ''source path `'' @ p @ ''` does not exist''"
| "show_eval_error (NotAFlake p) =
     ''source path `'' @ p @ ''` is not a flake (no flake.nix); non-flake mode not yet implemented''"
| "show_eval_error (EvalSpawn e) = ''spawning nix-eval-jobs: '' @ e"
| "show_eval_error (EvalIo e) = ''reading nix-eval-jobs output: '' @ e"
| "show_eval_error (EvalSubprocess fragment status stderr) =
     ''nix-eval-jobs ('' @ fragment @ '') exited with status '' @ debug_status status @ [CHR 0x0A] @ ''stderr:''
     @ [CHR 0x0A] @ stderr"
| "show_eval_error (EvalTimeout fragment seconds) =
     ''nix-eval-jobs ('' @ fragment @ '') timed out after '' @ show_nat seconds @ ''s''"
| "show_eval_error (EvalParse fragment source) =
     ''parsing nix-eval-jobs output for '' @ fragment @ '': '' @ show_parse_error source"

datatype process_error = PeStore store_error | PeNoEval | PeNoRepo | PeNoProvider string | PeWorkdir string
  | PeClone string | PeEval eval_error

section \<open>Context and script\<close>

text \<open>\<open>pr_render\<close> is the one-line form \<open>anyhow\<close> gives an error with its context.\<close>

record process_ctx =
  pr_serde :: serde
  pr_codec :: spec_codec
  pr_world :: eval_world
  pr_work_dir :: string
  pr_log_dir :: string
  pr_systems :: "string list"
  pr_eval_timeout :: nat
  pr_render :: "process_error \<Rightarrow> string"

datatype clone_event = CloneOk | CloneErr string | CloneCancelled

record process_script =
  ps_pickup :: "app_state \<Rightarrow> app_state"
  ps_now :: nat
  ps_stale_workdir :: "string option"
  ps_clone_world :: "app_state \<Rightarrow> app_state"
  ps_clone :: clone_event
  ps_eval_world :: "app_state \<Rightarrow> app_state"
  ps_eval_cancelled :: bool
  ps_walk_world :: "app_state \<Rightarrow> app_state"

definition blank_phase :: "app_state \<Rightarrow> phase" where
  "blank_phase app = \<lparr>ph_app = app, ph_posts = [], ph_strategy = dag_new None, ph_set = [],
     ph_tally = tally_default, ph_verdicts = [], ph_last = None\<rparr>"

definition on_app :: "(app_state \<Rightarrow> app_state) \<Rightarrow> phase \<Rightarrow> phase" where
  "on_app f p = p\<lparr>ph_app := f (ph_app p)\<rparr>"

definition on_store :: "(store \<Rightarrow> store) \<Rightarrow> phase \<Rightarrow> phase" where
  "on_store f = on_app (\<lambda>app. app\<lparr>as_store := f (as_store app)\<rparr>)"

definition token_fired :: "nat \<Rightarrow> phase \<Rightarrow> bool" where
  "token_fired tok p = token_is_cancelled tok (as_cancellations (ph_app p))"

definition post_ctx :: "process_ctx \<Rightarrow> repo_record \<Rightarrow> eval_record \<Rightarrow> nat \<Rightarrow> bool \<Rightarrow> (job_spec \<times> job_id) list \<Rightarrow> phase_ctx" where
  "post_ctx c repo eval n collapsed persisted =
     \<lparr>px_serde = pr_serde c, px_log_dir = pr_log_dir c, px_eval_id = er_id eval, px_repo = repo, px_eval = eval,
      px_total = n, px_collapsed = collapsed, px_specs = map (\<lambda>(s, j). (j, s)) persisted\<rparr>"

section \<open>The evaluation phase\<close>

datatype jobs_result = JobsReady "(job_spec \<times> job_id) list" | JobsCancelled | JobsErr process_error

definition eval_request_for :: "process_ctx \<Rightarrow> eval_id \<Rightarrow> eval_request" where
  "eval_request_for c e =
     (let work_dir = path_join (pr_work_dir c) (show_int (eval_get e))
      in \<lparr>rq_source_path = work_dir, rq_systems = pr_systems c, rq_outputs = default_flake_outputs,
          rq_timeout = pr_eval_timeout c, rq_gc_roots_dir = Some (path_join work_dir ''.eval-drvs'')\<rparr>)"

definition finish_cancelled :: "eval_id \<Rightarrow> nat \<Rightarrow> phase \<Rightarrow> phase" where
  "finish_cancelled e now = on_store (eval_finish e ECancelled now)"

text \<open>After \<open>nix-eval-jobs\<close>: the error is posted, or the jobs are written.\<close>

definition persist_evaluated :: "process_ctx \<Rightarrow> process_script \<Rightarrow> repo_record \<Rightarrow> eval_record \<Rightarrow>
    eval_error + job_spec list \<Rightarrow> phase \<Rightarrow> jobs_result \<times> phase" where
  "persist_evaluated c sc repo eval jobs p =
     (case jobs of
        Inl e \<Rightarrow> (JobsErr (PeEval e),
          post_overall_check (post_ctx c repo eval 0 False []) CheckFailure
            (''evaluation failed: '' @ summarise_for_check (show_eval_error e) 130) p)
      | Inr specs \<Rightarrow>
          (let p1 = on_store (mark_building (er_id eval) (ps_now sc)) p in
           case persist_jobs (pr_serde c) (pr_codec c) (pr_log_dir c) (ps_now sc) (rr_id repo) (er_id eval) specs
                  (as_store (ph_app p1)) of
             Inl err \<Rightarrow> (JobsErr (PeStore err), p1)
           | Inr (persisted, s) \<Rightarrow> (JobsReady persisted, on_store (\<lambda>_. s) p1)))"

definition evaluate_fresh :: "process_ctx \<Rightarrow> process_script \<Rightarrow> nat \<Rightarrow> repo_record \<Rightarrow> eval_record \<Rightarrow> phase \<Rightarrow>
    jobs_result \<times> phase" where
  "evaluate_fresh c sc tok repo eval p =
     (let e = er_id eval; p1 = on_store (eval_start e (ps_now sc) EEvaluating) p in
      case ps_stale_workdir sc of
        Some err \<Rightarrow> (JobsErr (PeWorkdir err), p1)
      | None \<Rightarrow>
          (let p2 = on_app (ps_clone_world sc) p1 in
           case ps_clone sc of
             CloneErr err \<Rightarrow> (JobsErr (PeClone err), p2)
           | CloneCancelled \<Rightarrow> (JobsCancelled, finish_cancelled e (ps_now sc) p2)
           | CloneOk \<Rightarrow>
               if token_fired tok p2 then (JobsCancelled, finish_cancelled e (ps_now sc) p2)
               else let p3 = on_app (ps_eval_world sc) p2 in
                    if ps_eval_cancelled sc then (JobsCancelled, finish_cancelled e (ps_now sc) p3)
                    else persist_evaluated c sc repo eval (evaluate (pr_world c) (eval_request_for c e)) p3))"

section \<open>The whole of it\<close>

datatype process_result = ProcIdle | ProcErr process_error
  | ProcBuild phase_ctx closure_walk "(job_spec \<times> job_id) list" nat

definition check_threshold :: "config \<Rightarrow> repo_record \<Rightarrow> nat" where
  "check_threshold config repo =
     (case Option.bind (List.find (\<lambda>r. rc_forge r = rr_forge repo \<and> rc_slug r = rr_slug repo) (cf_repos config))
             rc_collapsed_check_threshold of
        Some n \<Rightarrow> n
      | None \<Rightarrow> sc_collapsed_check_threshold (cf_schedule config))"

text \<open>The announcements before the build phase starts. The number of jobs is cut to 32 bits for the
  comparison.\<close>

definition announce :: "process_ctx \<Rightarrow> process_script \<Rightarrow> config \<Rightarrow> bool \<Rightarrow> nat \<Rightarrow> repo_record \<Rightarrow> eval_record \<Rightarrow>
    (job_spec \<times> job_id) list \<Rightarrow> phase \<Rightarrow> process_result \<times> phase" where
  "announce c sc config is_resume tok repo eval persisted p =
     (let n = length persisted;
          collapsed = check_threshold config repo < n mod 2 ^ 32;
          px = post_ctx c repo eval n collapsed persisted;
          walk = worker_walk (pr_world c) (pr_eval_timeout c) persisted;
          p1 = post_overall_check px CheckPending (''building '' @ show_nat n @ '' jobs'') (on_app (ps_walk_world sc) p);
          p2 = (if \<not> collapsed \<and> \<not> is_resume
                then fold (\<lambda>(spec, j). post_per_job_check_pending px (js_attr_path spec)) persisted p1 else p1)
      in (ProcBuild px walk persisted tok, p2))"

definition load_or_evaluate :: "process_ctx \<Rightarrow> process_script \<Rightarrow> nat \<Rightarrow> repo_record \<Rightarrow> eval_record \<Rightarrow> phase \<Rightarrow>
    jobs_result \<times> phase" where
  "load_or_evaluate c sc tok repo eval p =
     (if er_status eval = EBuilding
      then (case load_jobs_for_resume (pr_serde c) (pr_codec c) (er_id eval) (as_store (ph_app p)) of
              Inl err \<Rightarrow> (JobsErr (PeStore err), p)
            | Inr persisted \<Rightarrow> (JobsReady persisted, p))
      else evaluate_fresh c sc tok repo eval p)"

definition process_jobs :: "process_ctx \<Rightarrow> process_script \<Rightarrow> nat \<Rightarrow> config_snapshot \<Rightarrow> repo_record \<Rightarrow> eval_record \<Rightarrow>
    phase \<Rightarrow> process_result \<times> phase" where
  "process_jobs c sc tok snap repo eval p =
     (case load_or_evaluate c sc tok repo eval p of
        (JobsCancelled, p1) \<Rightarrow> (ProcIdle, p1)
      | (JobsErr err, p1) \<Rightarrow> (ProcErr err, p1)
      | (JobsReady persisted, p1) \<Rightarrow>
          announce c sc (sn_config snap) (er_status eval = EBuilding) tok repo eval persisted p1)"

definition process_row :: "process_ctx \<Rightarrow> process_script \<Rightarrow> nat \<Rightarrow> config_snapshot \<Rightarrow> eval_id \<Rightarrow> phase \<Rightarrow>
    process_result \<times> phase" where
  "process_row c sc tok snap e p =
     (case store_eval_get e (as_store (ph_app p)) of
        Inl err \<Rightarrow> (ProcErr (PeStore err), p)
      | Inr None \<Rightarrow> (ProcErr PeNoEval, p)
      | Inr (Some eval) \<Rightarrow>
          if er_status eval = ECancelled \<or> token_fired tok p then (ProcIdle, p)
          else case store_repo_get (er_repo_id eval) (as_store (ph_app p)) of
                 Inl err \<Rightarrow> (ProcErr (PeStore err), p)
               | Inr None \<Rightarrow> (ProcErr PeNoRepo, p)
               | Inr (Some repo) \<Rightarrow>
                   (case hm_get (sn_providers snap) (rr_forge repo) of
                      None \<Rightarrow> (ProcErr (PeNoProvider (rr_forge repo)), p)
                    | Some provider \<Rightarrow> process_jobs c sc tok snap repo eval p))"

text \<open>The guard of the cancel token moves into the build task; every other way out drops it.\<close>

definition cancel_guard_drop :: "eval_id \<Rightarrow> phase \<Rightarrow> phase" where
  "cancel_guard_drop e = on_app (\<lambda>app. app\<lparr>as_cancellations := cancel_deregister e (as_cancellations app)\<rparr>)"

definition process :: "process_ctx \<Rightarrow> process_script \<Rightarrow> eval_id \<Rightarrow> app_state \<Rightarrow> process_result \<times> phase" where
  "process c sc e app =
     (let (tok, cancellations) = cancel_register e (as_cancellations app);
          snap = as_current app;
          p = on_app (ps_pickup sc) (blank_phase (app\<lparr>as_cancellations := cancellations\<rparr>))
      in case process_row c sc tok snap e p of
           (ProcBuild px walk persisted t, p1) \<Rightarrow> (ProcBuild px walk persisted t, p1)
         | (res, p1) \<Rightarrow> (res, cancel_guard_drop e p1))"

text \<open>One turn of the worker's loop, up to the start of the build task.\<close>

definition worker_turn :: "process_ctx \<Rightarrow> process_script \<Rightarrow> eval_id \<Rightarrow> app_state \<Rightarrow> process_result \<times> phase" where
  "worker_turn c sc e app =
     (case process c sc e app of
        (ProcErr err, p) \<Rightarrow> (ProcErr err, on_store (fail_with_reason e (pr_render c err) (ps_now sc)) p)
      | (res, p) \<Rightarrow> (res, p))"

text \<open>The build task: the build phase, after which the token's guard is dropped.\<close>

definition build_task :: "phase_ctx \<Rightarrow> closure_walk \<Rightarrow> (job_spec \<times> job_id) list \<Rightarrow> phase_turn list \<Rightarrow> nat \<Rightarrow>
    (app_state \<Rightarrow> app_state) \<Rightarrow> app_state \<Rightarrow> phase_result" where
  "build_task px walk persisted ts now fan_in app =
     (case run_build_phase px walk persisted ts now fan_in app of
        Looping p \<Rightarrow> Looping p
      | LoopDone p \<Rightarrow> LoopDone (cancel_guard_drop (px_eval_id px) p)
      | CancelDone p \<Rightarrow> CancelDone (cancel_guard_drop (px_eval_id px) p)
      | PhasePanic \<Rightarrow> PhasePanic)"

section \<open>The row of the evaluation\<close>

definition eval_state :: "eval_id \<Rightarrow> app_state \<Rightarrow> string option" where
  "eval_state e app = map_option e_status (eval_get_row e (as_store app))"

abbreviation row_state :: "eval_id \<Rightarrow> phase \<Rightarrow> string option" where
  "row_state e p \<equiv> eval_state e (ph_app p)"

abbreviation ended :: "string \<Rightarrow> bool" where
  "ended x \<equiv> x \<in> set eval_terminal_statuses"

text \<open>The four calls that set the status of an evaluation leave a verdict alone.\<close>

lemma row_state_write:
  assumes "\<forall>r. e_id (f r) = e_id r \<and> e_status (f r) = st"
  shows "row_state e (on_store (\<lambda>s. s\<lparr>st_evals := update_where
      (\<lambda>r. e_id r = eval_get e \<and> e_status r \<notin> set eval_terminal_statuses) f (st_evals s)\<rparr>) p)
    = map_option (\<lambda>x. if ended x then x else st) (row_state e p)"
  using assms by (cases "List.find (\<lambda>r. e_id r = eval_get e) (st_evals (as_store (ph_app p)))")
    (auto simp: eval_state_def eval_get_row_def on_store_def on_app_def find_update_where dest: found_key)

interpretation start_cell: status_cell "row_state e" ended eval_as_str "\<lambda>v. on_store (eval_start e now v)" for e now
  unfolding eval_start_def by unfold_locales (rule row_state_write, simp)

interpretation finish_cell: status_cell "row_state e" ended eval_as_str "\<lambda>v. on_store (eval_finish e v now)" for e now
  unfolding eval_finish_def by unfold_locales (rule row_state_write, simp)

interpretation fail_cell: status_cell "row_state e" ended "\<lambda>_. ''evaluation_failed''"
  "\<lambda>reason. on_store (fail_with_reason e reason now)" for e now
  unfolding fail_with_reason_def by unfold_locales (rule row_state_write, simp)

interpretation building_cell: status_cell "row_state e" ended "\<lambda>_. ''building''"
  "\<lambda>now. on_store (mark_building e now)" for e
  unfolding mark_building_def by unfold_locales (rule row_state_write, simp)

lemma finish_cancelled_ends:
  "row_state e p = Some x \<Longrightarrow> \<exists>y. row_state e (finish_cancelled e now p) = Some y \<and> ended y"
  unfolding finish_cancelled_def by (rule finish_cell.write_settles) (simp_all add: eval_terminal_statuses_def)

lemma row_state_posts [simp]:
  "ph_app (post_overall_check px st d p) = ph_app p" "ph_app (post_per_job_check_pending px a p) = ph_app p"
  "ph_app (fold (\<lambda>(spec, j). post_per_job_check_pending px (js_attr_path spec)) persisted p) = ph_app p"
proof -
  show one: "ph_app (post_per_job_check_pending px a p) = ph_app p" for a p
    by (simp add: post_per_job_check_pending_def worker_post_def)
  show "ph_app (post_overall_check px st d p) = ph_app p" by (simp add: post_overall_check_def worker_post_def)
  show "ph_app (fold (\<lambda>(spec, j). post_per_job_check_pending px (js_attr_path spec)) persisted p) = ph_app p"
    by (induction persisted arbitrary: p) (auto simp: one)
qed

lemma persist_job_evals: "persist_job S C log_dir now r e spec s = Inr (j, s') \<Longrightarrow> st_evals s' = st_evals s"
  by (auto simp: persist_job_def job_create_def set_spec_json_def job_finish_def Let_def
      split: sum.splits option.splits if_splits)

lemma persist_jobs_evals: "persist_jobs S C log_dir now r e specs s = Inr (ps, s') \<Longrightarrow> st_evals s' = st_evals s"
proof (induction specs arbitrary: s ps)
  case (Cons spec specs)
  then show ?case by (auto dest!: persist_job_evals split: sum.splits)
qed simp

section \<open>No evaluation is left behind\<close>

text \<open>What the worker relies on: others keep the row, change its status only to end the evaluation, and
  fire the cancel token only after the row has ended, as \<open>cancel_superseded\<close> does.\<close>

definition keeps_eval :: "eval_id \<Rightarrow> nat \<Rightarrow> (app_state \<Rightarrow> app_state) \<Rightarrow> bool" where
  "keeps_eval e tok world \<longleftrightarrow> (\<forall>app x. eval_state e app = Some x \<longrightarrow>
     (\<exists>y. eval_state e (world app) = Some y \<and> (y = x \<or> \<not> ended x \<and> ended y)
       \<and> (token_is_cancelled tok (as_cancellations (world app)) \<longrightarrow>
            token_is_cancelled tok (as_cancellations app) \<or> ended y)))"

lemma keeps_evalD:
  assumes "keeps_eval e tok world" "row_state e p = Some x"
  obtains y where "row_state e (on_app world p) = Some y" "y = x \<or> \<not> ended x \<and> ended y"
    "token_fired tok (on_app world p) \<Longrightarrow> token_fired tok p \<or> ended y"
  using assms(1) [unfolded keeps_eval_def, rule_format, OF assms(2)]
  by (auto simp: on_app_def token_fired_def)

definition evaluated_ok :: "eval_id \<Rightarrow> jobs_result \<times> phase \<Rightarrow> bool" where
  "evaluated_ok e out = (case out of (res, p) \<Rightarrow> \<exists>y. row_state e p = Some y \<and>
     (case res of JobsReady _ \<Rightarrow> ended y \<or> y = ''building'' | JobsCancelled \<Rightarrow> ended y | JobsErr _ \<Rightarrow> True))"

lemma persist_evaluated_ok:
  assumes "row_state (er_id eval) p = Some x"
  shows "evaluated_ok (er_id eval) (persist_evaluated c sc repo eval jobs p)"
proof (cases jobs)
  case (Inl err)
  with assms show ?thesis by (simp add: persist_evaluated_def evaluated_ok_def)
next
  case (Inr specs)
  let ?p = "on_store (mark_building (er_id eval) (ps_now sc)) p"
  have st: "row_state (er_id eval) ?p = Some (if ended x then x else ''building'')"
    using assms by (simp add: building_cell.status_write)
  have kept: "row_state (er_id eval) (on_store (\<lambda>_. s) ?p) = row_state (er_id eval) ?p"
    if "persist_jobs S C log_dir now r e specs (as_store (ph_app ?p)) = Inr (ps, s)" for S C log_dir now r e ps s
    using persist_jobs_evals [OF that] by (simp add: eval_state_def eval_get_row_def on_store_def on_app_def)
  show ?thesis
    using st kept by (auto simp: persist_evaluated_def Inr evaluated_ok_def Let_def split: sum.splits prod.splits)
qed

lemma evaluate_fresh_ok:
  assumes "row_state (er_id eval) p = Some x" "keeps_eval (er_id eval) tok (ps_clone_world sc)"
    and "keeps_eval (er_id eval) tok (ps_eval_world sc)"
  shows "evaluated_ok (er_id eval) (evaluate_fresh c sc tok repo eval p)"
proof -
  let ?p1 = "on_store (eval_start (er_id eval) (ps_now sc) EEvaluating) p"
  obtain x1 where x1: "row_state (er_id eval) ?p1 = Some x1" using start_cell.write_present [OF assms(1)] by blast
  let ?p2 = "on_app (ps_clone_world sc) ?p1"
  obtain x2 where x2: "row_state (er_id eval) ?p2 = Some x2" using keeps_evalD [OF assms(2) x1] by blast
  let ?p3 = "on_app (ps_eval_world sc) ?p2"
  obtain x3 where x3: "row_state (er_id eval) ?p3 = Some x3" using keeps_evalD [OF assms(3) x2] by blast
  have gone: "evaluated_ok (er_id eval) (JobsCancelled, finish_cancelled (er_id eval) now q)"
    if "row_state (er_id eval) q = Some y" for now q y
    using finish_cancelled_ends [OF that] by (simp add: evaluated_ok_def)
  show ?thesis
    using x1 x2 gone [OF x2] gone [OF x3] persist_evaluated_ok [OF x3]
    by (auto simp: evaluate_fresh_def Let_def evaluated_ok_def [of _ "(JobsErr _, _)"]
        split: option.splits clone_event.splits)
qed

definition pickup_ok :: "eval_id \<Rightarrow> process_result \<times> phase \<Rightarrow> bool" where
  "pickup_ok e out = (case out of (res, p) \<Rightarrow> \<exists>y. row_state e p = Some y \<and>
     (case res of ProcIdle \<Rightarrow> ended y | ProcErr _ \<Rightarrow> True
      | ProcBuild px _ _ _ \<Rightarrow> px_eval_id px = e \<and> (ended y \<or> y = ''building'')))"

lemma announce_ok:
  assumes "row_state (er_id eval) p = Some y" "ended y \<or> y = ''building''" "keeps_eval (er_id eval) tok (ps_walk_world sc)"
  shows "pickup_ok (er_id eval) (announce c sc config is_resume t repo eval persisted p)"
proof -
  obtain z where z: "row_state (er_id eval) (on_app (ps_walk_world sc) p) = Some z" "z = y \<or> ended z"
    using keeps_evalD [OF assms(3,1)] by blast
  then show ?thesis
    using assms(2) by (auto simp: announce_def pickup_ok_def Let_def post_ctx_def)
qed

lemma eval_record_status:
  assumes "store_eval_get e (as_store app) = Inr (Some eval)"
  shows "er_id eval = e" "eval_state e app = Some (eval_as_str (er_status eval))"
proof -
  obtain row where row: "eval_get_row e (as_store app) = Some row" "map_eval row = Inr eval"
    using assms by (cases "eval_get_row e (as_store app)") (auto simp: store_eval_get_def elim: transpose_result.elims)
  have "e_id row = eval_get e" using row(1) by (auto simp: eval_get_row_def find_Some_iff)
  with row(2) show "er_id eval = e"
    by (auto simp: map_eval_def bind_result_def split: sum.splits)
  have "e_status row = eval_as_str (er_status eval)"
    using row(2) by (auto simp: map_eval_def bind_result_def to_eval_status_def map_sum_Inr eval_from_str_def
        split: sum.splits if_splits)
  with row(1) show "eval_state e app = Some (eval_as_str (er_status eval))" by (simp add: eval_state_def)
qed

lemma process_jobs_ok:
  assumes "row_state (er_id eval) p = Some (eval_as_str (er_status eval))"
    and "keeps_eval (er_id eval) tok (ps_clone_world sc)" "keeps_eval (er_id eval) tok (ps_eval_world sc)"
      "keeps_eval (er_id eval) tok (ps_walk_world sc)"
  shows "pickup_ok (er_id eval) (process_jobs c sc tok snap repo eval p)"
proof -
  have "evaluated_ok (er_id eval) (load_or_evaluate c sc tok repo eval p)"
    using evaluate_fresh_ok [OF assms(1-3)] assms(1)
    by (auto simp: load_or_evaluate_def evaluated_ok_def [of _ "(JobsErr _, _)"] evaluated_ok_def [of _ "(JobsReady _, _)"]
        split: sum.splits)
  then show ?thesis
    using announce_ok [OF _ _ assms(4)]
    by (auto simp: process_jobs_def evaluated_ok_def pickup_ok_def [of _ "(ProcIdle, _)"] pickup_ok_def [of _ "(ProcErr _, _)"]
        split: jobs_result.splits prod.splits)
qed

lemma process_row_ok:
  assumes "row_state e p = Some x" "token_fired tok p \<Longrightarrow> ended x"
    and "keeps_eval e tok (ps_clone_world sc)" "keeps_eval e tok (ps_eval_world sc)" "keeps_eval e tok (ps_walk_world sc)"
  shows "pickup_ok e (process_row c sc tok snap e p)"
proof (cases "\<exists>eval. store_eval_get e (as_store (ph_app p)) = Inr (Some eval)")
  case False
  with assms(1) show ?thesis
    by (auto simp: process_row_def pickup_ok_def split: sum.splits option.splits)
next
  case True
  then obtain eval where get: "store_eval_get e (as_store (ph_app p)) = Inr (Some eval)" by blast
  note row = eval_record_status [OF get]
  have x: "x = eval_as_str (er_status eval)" using row(2) assms(1) by simp
  have "pickup_ok e (process_jobs c sc tok snap repo eval p)" for repo
    using process_jobs_ok [of eval p tok sc c snap repo] assms row by simp
  moreover have "ended x" if "er_status eval = ECancelled \<or> token_fired tok p"
    using that assms(2) x by (auto simp: eval_terminal_statuses_def)
  ultimately show ?thesis
    using assms(1) by (auto simp: process_row_def get pickup_ok_def [of _ "(ProcIdle, _)"] pickup_ok_def [of _ "(ProcErr _, _)"]
        split: sum.splits option.splits)
qed

lemma cancelled_row_stops:
  assumes "row_state e p = Some ''cancelled''"
  shows "process_row c sc tok snap e p = (ProcIdle, p) \<or> (\<exists>err. process_row c sc tok snap e p = (ProcErr err, p))"
proof (cases "\<exists>eval. store_eval_get e (as_store (ph_app p)) = Inr (Some eval)")
  case False
  then show ?thesis by (auto simp: process_row_def split: sum.splits option.splits)
next
  case True
  then obtain eval where get: "store_eval_get e (as_store (ph_app p)) = Inr (Some eval)" by blast
  have "er_status eval = ECancelled"
    using eval_record_status(2) [OF get] assms by (cases "er_status eval") auto
  then show ?thesis by (simp add: process_row_def get)
qed

lemma guard_drop:
  "row_state e (cancel_guard_drop i p) = row_state e p"
  "hm_get (cr_inner (as_cancellations (ph_app (cancel_guard_drop e p)))) e = None"
  "ph_posts (cancel_guard_drop i p) = ph_posts p"
  by (simp_all add: eval_state_def cancel_guard_drop_def on_app_def cancel_deregister_def hm_get_remove)

lemma on_store_fields:
  "as_cancellations (ph_app (on_store f p)) = as_cancellations (ph_app p)" "ph_posts (on_store f p) = ph_posts p"
  by (simp_all add: on_store_def on_app_def)

text \<open>C17. An evaluation that the worker takes from its channel is never left queued or evaluating. Whatever
  fails (the row or its repository cannot be read, the forge has no provider, the work directory, the
  clone, the evaluation, the writing of the jobs), when the worker goes on to the next evaluation either the
  build phase of this one has been started, with its row \<open>building\<close> or ended by a cancel, or the row
  has ended and its cancel token is deregistered. A row that was cancelled before is not touched, and nothing
  is posted for it. Relies on others to end the row before they fire its cancel token.\<close>

theorem worker_leaves_no_eval_behind:
  assumes "eval_state e app = Some x" "tok = length (cr_flags (as_cancellations app))"
    and "keeps_eval e tok (ps_pickup sc)" "keeps_eval e tok (ps_clone_world sc)" "keeps_eval e tok (ps_eval_world sc)"
      "keeps_eval e tok (ps_walk_world sc)"
    and "worker_turn c sc e app = (res, p)"
  shows "(\<exists>y. row_state e p = Some y \<and>
      (case res of
         ProcBuild px walk persisted t \<Rightarrow> px_eval_id px = e \<and> (ended y \<or> y = ''building'')
       | _ \<Rightarrow> ended y \<and> hm_get (cr_inner (as_cancellations (ph_app p))) e = None))
    \<and> (x = ''cancelled'' \<longrightarrow> row_state e p = Some ''cancelled'' \<and> ph_posts p = []
        \<and> (\<forall>px walk persisted t. res \<noteq> ProcBuild px walk persisted t))"
proof -
  obtain cs where reg: "cancel_register e (as_cancellations app) = (tok, cs)" "cr_flags cs = cr_flags (as_cancellations app) @ [False]"
    by (simp add: cancel_register_def Let_def assms(2))
  let ?app = "app\<lparr>as_cancellations := cs\<rparr>"
  let ?p = "on_app (ps_pickup sc) (blank_phase ?app)"
  have start: "row_state e (blank_phase ?app) = Some x" using assms(1) by (simp add: eval_state_def blank_phase_def)
  have fresh: "\<not> token_fired tok (blank_phase ?app)"
    by (simp add: token_fired_def blank_phase_def token_is_cancelled_def reg(2) assms(2))
  obtain y where y: "row_state e ?p = Some y" "y = x \<or> \<not> ended x \<and> ended y" "token_fired tok ?p \<Longrightarrow> ended y"
    using keeps_evalD [OF assms(3) start] fresh by blast
  obtain r0 p0 where row: "process_row c sc tok (as_current app) e ?p = (r0, p0)" by fastforce
  have ok: "pickup_ok e (r0, p0)" using process_row_ok [OF y(1,3) assms(4-6)] row by metis
  then obtain z where z: "row_state e p0 = Some z" by (auto simp: pickup_ok_def)
  have turn: "worker_turn c sc e app = (case r0 of
      ProcIdle \<Rightarrow> (r0, cancel_guard_drop e p0)
    | ProcErr err \<Rightarrow> (r0, on_store (fail_with_reason e (pr_render c err) (ps_now sc)) (cancel_guard_drop e p0))
    | ProcBuild px walk persisted t \<Rightarrow> (r0, p0))"
  proof -
    have "process c sc e app = (case r0 of ProcBuild px walk persisted t \<Rightarrow> (r0, p0) | _ \<Rightarrow> (r0, cancel_guard_drop e p0))"
      unfolding process_def by (simp add: reg(1) row Let_def split: process_result.splits)
    then show ?thesis by (simp add: worker_turn_def split: process_result.splits)
  qed
  have failed: "row_state e (on_store (fail_with_reason e reason now) (cancel_guard_drop e p0))
      = Some (if ended z then z else ''evaluation_failed'')" for reason now
    using z by (simp add: fail_cell.status_write guard_drop)
  have settled: "\<exists>y. row_state e p = Some y \<and> (case res of
         ProcBuild px walk persisted t \<Rightarrow> px_eval_id px = e \<and> (ended y \<or> y = ''building'')
       | _ \<Rightarrow> ended y \<and> hm_get (cr_inner (as_cancellations (ph_app p))) e = None)"
    using assms(7) ok z failed unfolding turn
    by (cases r0) (auto simp: pickup_ok_def guard_drop on_store_fields eval_terminal_statuses_def)
  have stopped: "row_state e p = Some ''cancelled'' \<and> ph_posts p = [] \<and> (\<forall>px walk persisted t. res \<noteq> ProcBuild px walk persisted t)"
    if "x = ''cancelled''"
  proof -
    have c: "row_state e ?p = Some ''cancelled''" using y(1,2) that by (auto simp: eval_terminal_statuses_def)
    have same: "p0 = ?p" "\<forall>px walk persisted t. r0 \<noteq> ProcBuild px walk persisted t"
      using cancelled_row_stops [OF c, of c sc tok "as_current app"] row by auto
    then have "z = ''cancelled''" "ph_posts p0 = []" using c z by (simp_all add: on_app_def blank_phase_def)
    then show ?thesis
      using assms(7) same(2) z failed unfolding turn
      by (cases r0) (auto simp: guard_drop on_store_fields eval_terminal_statuses_def)
  qed
  from settled stopped show ?thesis by blast
qed

text \<open>A clone that fails.\<close>

definition sample_process :: process_ctx where
  "sample_process = \<lparr>pr_serde = sample_serde, pr_codec = \<lparr>ser_spec = (\<lambda>_. None), de_spec = (\<lambda>_. None)\<rparr>, pr_world = sample_world,
     pr_work_dir = ''work'', pr_log_dir = ''log'', pr_systems = [''x''], pr_eval_timeout = 600, pr_render = (\<lambda>_. ''error'')\<rparr>"

definition failing_clone :: process_script where
  "failing_clone = \<lparr>ps_pickup = (\<lambda>a. a), ps_now = 8, ps_stale_workdir = None, ps_clone_world = (\<lambda>a. a),
     ps_clone = CloneErr ''no route to host'', ps_eval_world = (\<lambda>a. a), ps_eval_cancelled = False, ps_walk_world = (\<lambda>a. a)\<rparr>"

theorem worker_leaves_no_eval_behind_witness:
  "\<exists>y. row_state (EvalId 1) (snd (worker_turn sample_process failing_clone (EvalId 1) (sample_app (sample_store sample_serde)))) = Some y
     \<and> y \<in> {''evaluation_failed'', ''done'', ''cancelled'', ''building''}"
proof -
  let ?app = "sample_app (sample_store sample_serde)"
  let ?w = "worker_turn sample_process failing_clone (EvalId 1) ?app"
  have row: "eval_state (EvalId 1) ?app = Some ''queued''"
    by (simp add: eval_state_def eval_get_row_def sample_app_def sample_evals)
  have keeps: "keeps_eval e tok (\<lambda>a. a)" for e tok by (simp add: keeps_eval_def)
  have "\<exists>y. row_state (EvalId 1) (snd ?w) = Some y \<and> (case fst ?w of
         ProcBuild px walk persisted t \<Rightarrow> px_eval_id px = EvalId 1 \<and> (ended y \<or> y = ''building'')
       | _ \<Rightarrow> ended y \<and> hm_get (cr_inner (as_cancellations (ph_app (snd ?w)))) (EvalId 1) = None)"
    using worker_leaves_no_eval_behind [OF row refl, of failing_clone sample_process "fst ?w" "snd ?w"] keeps
    by (simp add: failing_clone_def)
  then show ?thesis by (cases "fst ?w") (auto simp: eval_terminal_statuses_def)
qed

end
