(* ===== verification/Startup.thy ===== *)
theory Startup
  imports Process
begin

text \<open>
  Crash recovery at start-up (\<open>main.rs\<close> of \<open>argunix-daemon\<close>): the jobs and effects that a dead daemon left
  running are marked, the repositories that are no longer configured are deleted with all that belongs to
  them, and the evaluations left unfinished are handed to the worker again.

  Between the deletion and the first pass the daemon installs webhooks. This writes rows of repositories only
  and is part of what may change the database before a call (\<open>bv_world\<close>).

  The worker is already running when the evaluations are sent, so at every database call it may have
  changed the database; what it does is a parameter that depends on the evaluations sent so far.
  Every send is kept with the database at that moment. The channel is unbounded and its receiver lives as long as
  the worker, so a send does not fail.
\<close>

section \<open>Recovery\<close>

record boot_env =
  bv_world :: "nat \<Rightarrow> eval_id list \<Rightarrow> store \<Rightarrow> store"
  bv_fails :: "nat \<Rightarrow> bool"
  bv_now :: nat
  bv_config :: config
  bv_prune_stops :: "nat option"

record boot =
  bo_store :: store
  bo_sent :: "(eval_id \<times> store) list"
  bo_calls :: nat
  bo_removed :: "repo_id list"

text \<open>The state in which the next database call finds the database.\<close>

definition boot_await :: "boot_env \<Rightarrow> boot \<Rightarrow> boot" where
  "boot_await env b =
     b\<lparr>bo_store := bv_world env (bo_calls b) (map fst (bo_sent b)) (bo_store b), bo_calls := Suc (bo_calls b)\<rparr>"

definition boot_send :: "eval_id \<Rightarrow> boot \<Rightarrow> boot" where
  "boot_send e b = b\<lparr>bo_sent := bo_sent b @ [(e, bo_store b)]\<rparr>"

definition requeue_evaluating :: "boot_env \<Rightarrow> eval_id \<Rightarrow> boot \<Rightarrow> boot" where
  "requeue_evaluating env e b =
     (let b1 = boot_await env b in
      if bv_fails env (bo_calls b) then b1
      else boot_send e (b1\<lparr>bo_store := eval_set_status e EQueued (bo_store b1)\<rparr>))"

definition recover_evaluating :: "boot_env \<Rightarrow> boot \<Rightarrow> boot" where
  "recover_evaluating env b =
     (let b1 = boot_await env b in
      if bv_fails env (bo_calls b) then b1
      else fold (requeue_evaluating env) (list_evaluating_ids (bo_store b1)) b1)"

definition redrive_queued :: "boot_env \<Rightarrow> boot \<Rightarrow> boot" where
  "redrive_queued env b =
     (let b1 = boot_await env b in
      if bv_fails env (bo_calls b) then b1
      else fold boot_send (list_queued_ids (bo_store b1)) b1)"

definition resume_building :: "boot_env \<Rightarrow> eval_id \<Rightarrow> boot \<Rightarrow> boot" where
  "resume_building env e b =
     (let b1 = boot_await env b;
          b2 = (if bv_fails env (bo_calls b) then b1
                else b1\<lparr>bo_store := snd (requeue_interrupted_for_eval e (bo_store b1))\<rparr>)
      in boot_send e b2)"

definition recover_building :: "boot_env \<Rightarrow> boot \<Rightarrow> boot" where
  "recover_building env b =
     (let b1 = boot_await env b in
      if bv_fails env (bo_calls b) then b1
      else fold (resume_building env) (list_building_ids (bo_store b1)) b1)"

text \<open>\<open>None\<close>: the first call fails and the daemon does not start.\<close>

definition mark_interrupted :: "boot_env \<Rightarrow> store \<Rightarrow> store option" where
  "mark_interrupted env s =
     (if bv_fails env 0 then None
      else let s1 = snd (mark_running_interrupted s)
           in Some (if bv_fails env 1 then s1 else snd (mark_running_effects_interrupted (bv_now env) s1)))"

text \<open>Each deletion of a repository is a statement of its own. \<open>Some k\<close>: the database fails after \<open>k\<close> of them
  (also the listing, with \<open>k = 0\<close>); the directories are then left alone. The second component are the
  repositories whose log and GC-root directories are removed; a removal that fails is only logged.\<close>

definition prune_orphan_state :: "config \<Rightarrow> nat option \<Rightarrow> store \<Rightarrow> store \<times> repo_id list" where
  "prune_orphan_state config stops s =
     (case prune_repos_not_in (map (\<lambda>r. (rc_forge r, rc_slug r)) (cf_repos config)) s of
        Inl _ \<Rightarrow> (s, [])
      | Inr (orphans, s') \<Rightarrow>
          (case stops of
             None \<Rightarrow> (s', map rr_id orphans)
           | Some k \<Rightarrow>
               if k < length orphans then (fold (\<lambda>r. delete_repo (repo_get (rr_id r))) (take k orphans) s, [])
               else (s', map rr_id orphans)))"

definition startup_recovery :: "boot_env \<Rightarrow> store \<Rightarrow> boot option" where
  "startup_recovery env s =
     map_option (\<lambda>s1. let (s2, removed) = prune_orphan_state (bv_config env) (bv_prune_stops env) s1
        in recover_building env (redrive_queued env (recover_evaluating env
             \<lparr>bo_store = s2, bo_sent = [], bo_calls = 2, bo_removed = removed\<rparr>))) (mark_interrupted env s)"

section \<open>The rows of one evaluation\<close>

definition evals_of :: "eval_id \<Rightarrow> store \<Rightarrow> eval_row list" where
  "evals_of e s = filter (\<lambda>r. e_id r = eval_get e) (st_evals s)"

definition jobs_of :: "eval_id \<Rightarrow> store \<Rightarrow> job_row list" where
  "jobs_of e s = filter (\<lambda>j. j_eval_id j = eval_get e) (st_jobs s)"

text \<open>What the recovery relies on: before the server listens, an evaluation that was not sent is
  changed by nobody.\<close>

definition spares_unsent :: "boot_env \<Rightarrow> bool" where
  "spares_unsent env \<longleftrightarrow> (\<forall>n sent s e. e \<notin> set sent \<longrightarrow>
     evals_of e (bv_world env n sent s) = evals_of e s \<and> jobs_of e (bv_world env n sent s) = jobs_of e s)"

definition unsent :: "eval_id \<Rightarrow> store \<Rightarrow> boot \<Rightarrow> bool" where
  "unsent e s b \<longleftrightarrow> e \<notin> fst ` set (bo_sent b) \<and> evals_of e (bo_store b) = evals_of e s \<and> jobs_of e (bo_store b) = jobs_of e s"

definition sent_as :: "eval_id \<Rightarrow> (store \<Rightarrow> bool) \<Rightarrow> boot \<Rightarrow> bool" where
  "sent_as e Q b \<longleftrightarrow> (\<exists>s. (e, s) \<in> set (bo_sent b) \<and> Q s)"

lemma await_unsent: "spares_unsent env \<Longrightarrow> unsent e s b \<Longrightarrow> unsent e s (boot_await env b)"
  by (auto simp: unsent_def boot_await_def spares_unsent_def)

lemma sent_as_send [simp]: "sent_as e Q (boot_send e' b) \<longleftrightarrow> sent_as e Q b \<or> e' = e \<and> Q (bo_store b)"
  by (auto simp: sent_as_def boot_send_def)

lemma sent_as_frame [simp]:
  "sent_as e Q (boot_await env b) = sent_as e Q b" "sent_as e Q (b\<lparr>bo_store := s\<rparr>) = sent_as e Q b"
  by (simp_all add: sent_as_def boot_await_def)

lemma rows_of_set_status:
  "evals_of e (eval_set_status e' st s) = (if e = e' then map (\<lambda>r. r\<lparr>e_status := eval_as_str st\<rparr>) (evals_of e s) else evals_of e s)"
  "jobs_of e (eval_set_status e' st s) = jobs_of e s"
proof -
  show "jobs_of e (eval_set_status e' st s) = jobs_of e s" by (simp add: jobs_of_def eval_set_status_def)
  have "filter (\<lambda>r. e_id r = eval_get e) (update_where (\<lambda>r. e_id r = eval_get e') (\<lambda>r. r\<lparr>e_status := x\<rparr>) rows) =
      (if e = e' then map (\<lambda>r. r\<lparr>e_status := x\<rparr>) (filter (\<lambda>r. e_id r = eval_get e) rows)
       else filter (\<lambda>r. e_id r = eval_get e) rows)" for x rows
    by (cases e; cases e'; induction rows) (simp_all add: update_where_def)
  from this [of "eval_as_str st" "st_evals s"] show "evals_of e (eval_set_status e' st s) =
      (if e = e' then map (\<lambda>r. r\<lparr>e_status := eval_as_str st\<rparr>) (evals_of e s) else evals_of e s)"
    by (cases "e = e'") (simp_all add: evals_of_def eval_set_status_def)
qed

definition requeued :: "job_row \<Rightarrow> job_row" where
  "requeued j = (if j_status j = ''interrupted'' then j\<lparr>j_status := ''queued'', j_started_at := None, j_builder_id := None\<rparr> else j)"

lemma rows_of_requeue:
  "evals_of e (snd (requeue_interrupted_for_eval e' s)) = evals_of e s"
  "jobs_of e (snd (requeue_interrupted_for_eval e' s)) = (if e = e' then map requeued (jobs_of e s) else jobs_of e s)"
proof -
  show "evals_of e (snd (requeue_interrupted_for_eval e' s)) = evals_of e s"
    by (simp add: evals_of_def requeue_interrupted_for_eval_def Let_def)
  have "filter (\<lambda>j. j_eval_id j = eval_get e) (update_where (\<lambda>j. j_eval_id j = eval_get e' \<and> j_status j = ''interrupted'')
      (\<lambda>j. j\<lparr>j_status := ''queued'', j_started_at := None, j_builder_id := None\<rparr>) rows) =
      (if e = e' then map requeued (filter (\<lambda>j. j_eval_id j = eval_get e) rows)
       else filter (\<lambda>j. j_eval_id j = eval_get e) rows)" for rows
    by (cases e; cases e'; induction rows) (simp_all add: update_where_def requeued_def)
  then show "jobs_of e (snd (requeue_interrupted_for_eval e' s)) = (if e = e' then map requeued (jobs_of e s) else jobs_of e s)"
    by (simp add: jobs_of_def requeue_interrupted_for_eval_def Let_def)
qed

lemma listed_iff: "e \<in> set (ids_with_status x s) \<longleftrightarrow> x \<in> e_status ` set (evals_of e s)"
  by (cases e) (auto simp: ids_with_status_def evals_of_def)

section \<open>Every unfinished evaluation is handed on\<close>

text \<open>A pass over a list of ids: an evaluation in the list is sent, one that is not in it stays as it was.\<close>

lemma pass_over:
  assumes hit: "\<And>b. unsent e s b \<Longrightarrow> sent_as e Q (f e b)"
    and other: "\<And>e' b. e' \<noteq> e \<Longrightarrow> unsent e s b \<Longrightarrow> unsent e s (f e' b)"
    and keep: "\<And>e' b. sent_as e Q b \<Longrightarrow> sent_as e Q (f e' b)"
    and b: "unsent e s b"
  shows "if e \<in> set ids then sent_as e Q (fold f ids b) else unsent e s (fold f ids b)"
  using b
proof (induction ids arbitrary: b)
  case (Cons x ids)
  have kept: "sent_as e Q b \<Longrightarrow> sent_as e Q (fold f ids b)" for b
    by (induction ids arbitrary: b) (auto intro: keep)
  show ?case
  proof (cases "x = e")
    case True
    then show ?thesis using kept hit Cons.prems by simp
  next
    case False
    then show ?thesis using Cons.IH [OF other [OF False Cons.prems]] by auto
  qed
qed simp

lemma sent_as_requeue: "sent_as e Q b \<Longrightarrow> sent_as e Q (requeue_evaluating env e' b)"
  by (simp add: requeue_evaluating_def Let_def)

lemma sent_as_resume: "sent_as e Q b \<Longrightarrow> sent_as e Q (resume_building env e' b)"
  by (simp add: resume_building_def Let_def)

lemma fold_keeps: "(\<And>x b. sent_as e Q b \<Longrightarrow> sent_as e Q (f x b)) \<Longrightarrow> sent_as e Q b \<Longrightarrow> sent_as e Q (fold f ids b)"
  by (induction ids arbitrary: b) auto

lemma passes_keep:
  assumes "sent_as e Q b"
  shows "sent_as e Q (recover_evaluating env b)" "sent_as e Q (redrive_queued env b)" "sent_as e Q (recover_building env b)"
  using assms by (auto simp: recover_evaluating_def redrive_queued_def recover_building_def Let_def
      intro!: fold_keeps sent_as_requeue sent_as_resume)

lemma evaluating_pass:
  assumes live: "\<And>n. \<not> bv_fails env n" and spares: "spares_unsent env" and b: "unsent e s b"
  shows "if ''evaluating'' \<in> e_status ` set (evals_of e s)
    then sent_as e (\<lambda>s'. evals_of e s' = map (\<lambda>r. r\<lparr>e_status := ''queued''\<rparr>) (evals_of e s) \<and> jobs_of e s' = jobs_of e s) (recover_evaluating env b)
    else unsent e s (recover_evaluating env b)"
proof -
  let ?Q = "\<lambda>s'. evals_of e s' = map (\<lambda>r. r\<lparr>e_status := ''queued''\<rparr>) (evals_of e s) \<and> jobs_of e s' = jobs_of e s"
  let ?b = "boot_await env b"
  have b1: "unsent e s ?b" by (rule await_unsent [OF spares b])
  have "if e \<in> set (list_evaluating_ids (bo_store ?b))
      then sent_as e ?Q (fold (requeue_evaluating env) (list_evaluating_ids (bo_store ?b)) ?b)
      else unsent e s (fold (requeue_evaluating env) (list_evaluating_ids (bo_store ?b)) ?b)"
  proof (rule pass_over [OF _ _ _ b1])
    show "sent_as e ?Q (requeue_evaluating env e b)" if "unsent e s b" for b
      using await_unsent [OF spares that] live
      by (simp add: requeue_evaluating_def Let_def rows_of_set_status unsent_def)
    show "unsent e s (requeue_evaluating env e' b)" if "e' \<noteq> e" "unsent e s b" for e' b
      using await_unsent [OF spares that(2)] that(1) live
      by (auto simp: requeue_evaluating_def Let_def rows_of_set_status unsent_def boot_send_def)
  qed (rule sent_as_requeue)
  moreover have "e \<in> set (list_evaluating_ids (bo_store ?b)) \<longleftrightarrow> ''evaluating'' \<in> e_status ` set (evals_of e s)"
    using b1 by (auto simp: list_evaluating_ids_def listed_iff unsent_def)
  ultimately show ?thesis using live by (simp add: recover_evaluating_def Let_def)
qed

lemma queued_pass:
  assumes live: "\<And>n. \<not> bv_fails env n" and spares: "spares_unsent env" and b: "unsent e s b"
  shows "if ''queued'' \<in> e_status ` set (evals_of e s)
    then sent_as e (\<lambda>s'. evals_of e s' = evals_of e s \<and> jobs_of e s' = jobs_of e s) (redrive_queued env b)
    else unsent e s (redrive_queued env b)"
proof -
  let ?Q = "\<lambda>s'. evals_of e s' = evals_of e s \<and> jobs_of e s' = jobs_of e s" and ?b = "boot_await env b"
  have b1: "unsent e s ?b" by (rule await_unsent [OF spares b])
  have "if e \<in> set (list_queued_ids (bo_store ?b)) then sent_as e ?Q (fold boot_send (list_queued_ids (bo_store ?b)) ?b)
      else unsent e s (fold boot_send (list_queued_ids (bo_store ?b)) ?b)"
    by (rule pass_over [OF _ _ _ b1]) (auto simp: unsent_def boot_send_def sent_as_def)
  moreover have "e \<in> set (list_queued_ids (bo_store ?b)) \<longleftrightarrow> ''queued'' \<in> e_status ` set (evals_of e s)"
    using b1 by (auto simp: list_queued_ids_def listed_iff unsent_def)
  ultimately show ?thesis using live by (simp add: redrive_queued_def Let_def)
qed

lemma building_pass:
  assumes live: "\<And>n. \<not> bv_fails env n" and spares: "spares_unsent env" and b: "unsent e s b"
  shows "if ''building'' \<in> e_status ` set (evals_of e s)
    then sent_as e (\<lambda>s'. evals_of e s' = evals_of e s \<and> jobs_of e s' = map requeued (jobs_of e s)) (recover_building env b)
    else unsent e s (recover_building env b)"
proof -
  let ?Q = "\<lambda>s'. evals_of e s' = evals_of e s \<and> jobs_of e s' = map requeued (jobs_of e s)" and ?b = "boot_await env b"
  have b1: "unsent e s ?b" by (rule await_unsent [OF spares b])
  have "if e \<in> set (list_building_ids (bo_store ?b))
      then sent_as e ?Q (fold (resume_building env) (list_building_ids (bo_store ?b)) ?b)
      else unsent e s (fold (resume_building env) (list_building_ids (bo_store ?b)) ?b)"
  proof (rule pass_over [OF _ _ _ b1])
    show "sent_as e ?Q (resume_building env e b)" if "unsent e s b" for b
      using await_unsent [OF spares that] live
      by (simp add: resume_building_def Let_def rows_of_requeue unsent_def)
    show "unsent e s (resume_building env e' b)" if "e' \<noteq> e" "unsent e s b" for e' b
      using await_unsent [OF spares that(2)] that(1) live
      by (auto simp: resume_building_def Let_def rows_of_requeue unsent_def boot_send_def)
  qed (rule sent_as_resume)
  moreover have "e \<in> set (list_building_ids (bo_store ?b)) \<longleftrightarrow> ''building'' \<in> e_status ` set (evals_of e s)"
    using b1 by (auto simp: list_building_ids_def listed_iff unsent_def)
  ultimately show ?thesis using live by (simp add: recover_building_def Let_def)
qed

lemma marked_rows:
  assumes "mark_interrupted env s = Some s1"
  shows "evals_of e s1 = evals_of e s"
    and "jobs_of e s1 = map (\<lambda>j. if j_status j = ''running'' then j\<lparr>j_status := ''interrupted''\<rparr> else j) (jobs_of e s)"
proof -
  have "filter (\<lambda>j. j_eval_id j = i) (update_where (\<lambda>j. j_status j = ''running'') (\<lambda>j. j\<lparr>j_status := ''interrupted''\<rparr>) rows) =
      map (\<lambda>j. if j_status j = ''running'' then j\<lparr>j_status := ''interrupted''\<rparr> else j) (filter (\<lambda>j. j_eval_id j = i) rows)" for i rows
    by (induction rows) (simp_all add: update_where_def)
  then show "jobs_of e s1 = map (\<lambda>j. if j_status j = ''running'' then j\<lparr>j_status := ''interrupted''\<rparr> else j) (jobs_of e s)"
    using assms by (auto simp: mark_interrupted_def mark_running_interrupted_def mark_running_effects_interrupted_def jobs_of_def Let_def split: if_splits)
  show "evals_of e s1 = evals_of e s"
    using assms by (auto simp: mark_interrupted_def mark_running_interrupted_def mark_running_effects_interrupted_def evals_of_def Let_def split: if_splits)
qed

section \<open>Repositories that are no longer configured\<close>

text \<open>The evaluation belongs to a repository of the configuration.\<close>

definition configured :: "config \<Rightarrow> store \<Rightarrow> eval_row \<Rightarrow> bool" where
  "configured config s r \<longleftrightarrow> list_ex (\<lambda>q. r_id q = e_repo_id r
     \<and> (r_forge q, r_slug q) \<in> set (map (\<lambda>c. (rc_forge c, slug_str (rc_slug c))) (cf_repos config))) (st_repos s)"

lemma rows_of_delete_repo:
  "evals_of e (delete_repo i s) = filter (\<lambda>r. e_repo_id r \<noteq> i) (evals_of e s)"
  "jobs_of e (delete_repo i s) = (if \<exists>r\<in>set (evals_of e s). e_repo_id r = i then [] else jobs_of e s)"
  by (auto simp: evals_of_def jobs_of_def delete_repo_def delete_evals_def delete_jobs_def Let_def filter_filter conj_commute
      filter_empty_conv intro!: filter_cong) force

lemma rows_of_delete_repos:
  assumes "evals_of e s = [r]"
  shows "(if e_repo_id r \<in> (repo_get \<circ> rr_id) ` set rs then evals_of e (fold (\<lambda>r. delete_repo (repo_get (rr_id r))) rs s) = []
      \<and> jobs_of e (fold (\<lambda>r. delete_repo (repo_get (rr_id r))) rs s) = []
    else evals_of e (fold (\<lambda>r. delete_repo (repo_get (rr_id r))) rs s) = [r]
      \<and> jobs_of e (fold (\<lambda>r. delete_repo (repo_get (rr_id r))) rs s) = jobs_of e s)"
  using assms
proof (induction rs arbitrary: s)
  case (Cons x rs)
  have gone: "evals_of e s = [] \<Longrightarrow> jobs_of e s = [] \<Longrightarrow> evals_of e (fold (\<lambda>r. delete_repo (repo_get (rr_id r))) rs s) = []
      \<and> jobs_of e (fold (\<lambda>r. delete_repo (repo_get (rr_id r))) rs s) = []" for s
    by (induction rs arbitrary: s) (simp_all add: rows_of_delete_repo)
  show ?case
  proof (cases "e_repo_id r = repo_get (rr_id x)")
    case True
    then show ?thesis using Cons.prems by (simp add: gone rows_of_delete_repo)
  next
    case False
    then show ?thesis using Cons.IH [of "delete_repo (repo_get (rr_id x)) s"] Cons.prems
      by (auto simp: rows_of_delete_repo)
  qed
qed simp

lemma map_repo_Inr: "map_repo q = Inr x \<Longrightarrow> rr_id x = RepoId (r_id q) \<and> rr_forge x = r_forge q \<and> slug_str (rr_slug x) = r_slug q"
  by (cases "slug_new (r_slug q)") (auto simp: map_repo_def to_slug_def bind_result_Inr dest: slug_new_Inr)

lemma map_results_repos:
  "map_results map_repo rows = Inr xs \<Longrightarrow>
    map (\<lambda>x. (repo_get (rr_id x), rr_forge x, slug_str (rr_slug x))) xs = map (\<lambda>q. (r_id q, r_forge q, r_slug q)) rows"
proof (induction rows arbitrary: xs)
  case (Cons q rows)
  then obtain x rest where "map_repo q = Inr x" "map_results map_repo rows = Inr rest" "xs = x # rest"
    by (cases "map_repo q") (auto simp: map_results_def map_sum_Inr)
  with Cons.IH show ?case by (auto dest: map_repo_Inr)
qed (simp add: map_results_def)

lemma pruned_rows:
  assumes ok: "repos_ok n (st_repos s)" "evals_ok (repo_ids s) m (st_evals s)" and row: "evals_of e s = [r]"
    and s': "fst (prune_orphan_state config None s) = s'"
  shows "if configured config s r then evals_of e s' = [r] \<and> jobs_of e s' = jobs_of e s
    else evals_of e s' = [] \<and> jobs_of e s' = []"
proof -
  let ?kept = "set (map (\<lambda>c. (rc_forge c, slug_str (rc_slug c))) (cf_repos config))"
  have repos: "rows_ok r_id n (decodes map_repo) (st_repos s)"
    using ok(1) by (simp add: repos_ok_def)
  then obtain all where all: "map_results map_repo (st_repos s) = Inr all"
    using map_results_ok [of "st_repos s" map_repo] by (auto simp: rows_ok_def)
  let ?orphans = "filter (\<lambda>x. (rr_forge x, slug_str (rr_slug x)) \<notin> ?kept) all"
  have "r \<in> set (st_evals s)" using row by (auto simp: evals_of_def filter_eq_Cons_iff)
  then have "e_repo_id r \<in> repo_ids s"
    using ok(2) by (auto simp: evals_ok_def rows_ok_def)
  then obtain q where q: "q \<in> set (st_repos s)" "r_id q = e_repo_id r" by (auto simp: repo_ids_def)
  have one: "q' = q" if "q' \<in> set (st_repos s)" "r_id q' = e_repo_id r" for q'
    using repos q that by (auto simp: rows_ok_def distinct_map inj_on_def)
  have owner: "(\<exists>t\<in>(\<lambda>q. (r_id q, r_forge q, r_slug q)) ` set (st_repos s). fst t = e_repo_id r \<and> snd t \<notin> K) \<longleftrightarrow>
      \<not> (\<exists>q\<in>set (st_repos s). r_id q = e_repo_id r \<and> (r_forge q, r_slug q) \<in> K)" for K
    using q one by (metis (no_types, lifting) fst_conv image_iff snd_conv)
  have triples: "(\<lambda>x. (repo_get (rr_id x), rr_forge x, slug_str (rr_slug x))) ` set all = (\<lambda>q. (r_id q, r_forge q, r_slug q)) ` set (st_repos s)"
    using arg_cong [OF map_results_repos [OF all], of set] by (simp only: set_map)
  have "e_repo_id r \<in> (repo_get \<circ> rr_id) ` set ?orphans \<longleftrightarrow>
      (\<exists>t\<in>(\<lambda>x. (repo_get (rr_id x), rr_forge x, slug_str (rr_slug x))) ` set all. fst t = e_repo_id r \<and> snd t \<notin> ?kept)"
    by force
  also have "\<dots> \<longleftrightarrow> \<not> configured config s r"
    unfolding triples configured_def list_ex_iff by (rule owner)
  finally have orphan: "e_repo_id r \<in> (repo_get \<circ> rr_id) ` set ?orphans \<longleftrightarrow> \<not> configured config s r" .
  have "fst (prune_orphan_state config None s) = fold (\<lambda>r. delete_repo (repo_get (rr_id r))) ?orphans s"
    by (simp add: prune_orphan_state_def prune_repos_not_in_def all bind_result_def Let_def comp_def)
  then show ?thesis using rows_of_delete_repos [OF row, of ?orphans] unfolding orphan s' by auto
qed

lemma prune_none:
  assumes "map_results map_repo (st_repos s) = Inr all"
    and "\<And>x. x \<in> set all \<Longrightarrow> (rr_forge x, slug_str (rr_slug x)) \<in> set (map (\<lambda>c. (rc_forge c, slug_str (rc_slug c))) (cf_repos config))"
  shows "prune_orphan_state config stops s = (s, [])"
proof -
  have "filter (\<lambda>x. (rr_forge x, slug_str (rr_slug x)) \<notin> set (map (\<lambda>c. (rc_forge c, slug_str (rc_slug c))) (cf_repos config))) all = []"
    using assms(2) unfolding filter_empty_conv by blast
  then show ?thesis
    using assms(1) by (simp add: prune_orphan_state_def prune_repos_not_in_def bind_result_def Let_def comp_def split: option.splits)
qed

lemma marked_tables:
  assumes "mark_interrupted env s = Some s1"
  shows "st_repos s1 = st_repos s" "st_evals s1 = st_evals s"
  using assms by (auto simp: mark_interrupted_def mark_running_interrupted_def mark_running_effects_interrupted_def Let_def split: if_splits)

text \<open>The row of a job after a restart, when its evaluation is resumed.\<close>

definition resumed :: "job_row \<Rightarrow> job_row" where
  "resumed j = (if j_status j \<in> {''running'', ''interrupted''}
     then j\<lparr>j_status := ''queued'', j_started_at := None, j_builder_id := None\<rparr> else j)"

text \<open>C18. A restart hands every unfinished evaluation to the worker again. When the calls to the database
  succeed and nobody changes an evaluation before it is sent, the start-up completes; an
  evaluation is sent exactly if its row is queued, evaluating or building and its repository is still
  configured; at one of its sends its row is queued again
  (or still building), and the jobs of a resumed evaluation are those from before the crash with the
  running and interrupted ones queued, without builder and start time, and all others unchanged. An evaluation
  of a repository that is no longer configured is deleted with its jobs.\<close>

theorem startup_redrives_unfinished:
  assumes live: "\<And>n. \<not> bv_fails env n" "bv_prune_stops env = None" and spares: "spares_unsent env"
    and ok: "store_ok S s" and row: "evals_of e s = [r]"
  shows "\<exists>b. startup_recovery env s = Some b
    \<and> (e \<in> fst ` set (bo_sent b) \<longleftrightarrow>
         configured (bv_config env) s r \<and> e_status r \<in> {''queued'', ''evaluating'', ''building''})
    \<and> (configured (bv_config env) s r \<and> e_status r \<in> {''queued'', ''evaluating''} \<longrightarrow>
         (\<exists>s'. (e, s') \<in> set (bo_sent b) \<and> evals_of e s' = [r\<lparr>e_status := ''queued''\<rparr>]))
    \<and> (configured (bv_config env) s r \<and> e_status r = ''building'' \<longrightarrow>
         (\<exists>s'. (e, s') \<in> set (bo_sent b) \<and> evals_of e s' = [r] \<and> jobs_of e s' = map resumed (jobs_of e s)))
    \<and> (\<not> configured (bv_config env) s r \<longrightarrow> evals_of e (bo_store b) = [] \<and> jobs_of e (bo_store b) = [])"
proof -
  obtain s1 where s1: "mark_interrupted env s = Some s1" using live(1) by (auto simp: mark_interrupted_def)
  obtain s2 removed where s2: "prune_orphan_state (bv_config env) None s1 = (s2, removed)" by fastforce
  note rows = marked_rows [OF s1, of e]
  have row1: "evals_of e s1 = [r]" using rows(1) row by simp
  have conf: "configured (bv_config env) s1 r = configured (bv_config env) s r"
    using marked_tables(1) [OF s1] by (simp add: configured_def)
  have tables: "repos_ok (q_repos (st_seq s)) (st_repos s1)" "evals_ok (repo_ids s1) (q_evals (st_seq s)) (st_evals s1)"
    using store_okD(1,2) [OF ok] marked_tables [OF s1] by (simp_all add: repo_ids_def)
  note kept = pruned_rows [OF tables row1 refl, of "bv_config env", unfolded s2 conf fst_conv]
  let ?b0 = "\<lparr>bo_store = s2, bo_sent = [], bo_calls = 2, bo_removed = removed\<rparr>"
  let ?b1 = "recover_evaluating env ?b0"
  let ?b2 = "redrive_queued env ?b1"
  let ?b3 = "recover_building env ?b2"
  have jobs: "map requeued (jobs_of e s1) = map resumed (jobs_of e s)"
    unfolding rows(2) by (simp add: requeued_def resumed_def)
  have start: "unsent e s2 ?b0" by (simp add: unsent_def)
  note p1 = evaluating_pass [OF live(1) spares start] and p2 = queued_pass [OF live(1) spares]
    and p3 = building_pass [OF live(1) spares]
  have named: "sent_as e Q b \<Longrightarrow> e \<in> fst ` set (bo_sent b)" for Q b by (force simp: sent_as_def)
  have b: "startup_recovery env s = Some ?b3" by (simp add: startup_recovery_def s1 s2 live(2))
  consider "\<not> configured (bv_config env) s r" | "configured (bv_config env) s r" "e_status r = ''evaluating''"
    | "configured (bv_config env) s r" "e_status r = ''queued''" | "configured (bv_config env) s r" "e_status r = ''building''"
    | "configured (bv_config env) s r" "e_status r \<notin> {''queued'', ''evaluating'', ''building''}" by blast
  then show ?thesis
  proof cases
    case 1
    then have "unsent e s2 ?b3" using p1 p2 [of e s2 ?b1] p3 [of e s2 ?b2] kept by simp
    then show ?thesis using 1 b kept by (auto simp: unsent_def)
  next
    case 2
    then have "sent_as e (\<lambda>s'. evals_of e s' = [r\<lparr>e_status := ''queued''\<rparr>] \<and> jobs_of e s' = jobs_of e s2) ?b3"
      using p1 kept by (simp add: passes_keep)
    then show ?thesis using 2 b named by (fastforce simp: sent_as_def)
  next
    case 3
    then have "sent_as e (\<lambda>s'. evals_of e s' = [r] \<and> jobs_of e s' = jobs_of e s2) ?b3"
      using p1 p2 [of e s2 ?b1] kept by (simp add: passes_keep)
    moreover have "r\<lparr>e_status := ''queued''\<rparr> = r" using 3 by simp
    ultimately show ?thesis using 3 b named by (fastforce simp: sent_as_def)
  next
    case 4
    then have "sent_as e (\<lambda>s'. evals_of e s' = [r] \<and> jobs_of e s' = map requeued (jobs_of e s1)) ?b3"
      using p1 p2 [of e s2 ?b1] p3 [of e s2 ?b2] kept by simp
    then show ?thesis using 4 b named unfolding jobs by (fastforce simp: sent_as_def)
  next
    case 5
    then have "''evaluating'' \<noteq> e_status r" "''queued'' \<noteq> e_status r" "''building'' \<noteq> e_status r" by auto
    then have "unsent e s2 ?b3" using 5(1) p1 p2 [of e s2 ?b1] p3 [of e s2 ?b2] kept by simp
    then show ?thesis using 5 b by (auto simp: unsent_def)
  qed
qed

section \<open>The theorem at a concrete database\<close>

text \<open>The worker has not run yet; the dead daemon left a job running in an evaluation that was building.\<close>

definition idle_boot :: "config \<Rightarrow> boot_env" where
  "idle_boot config = \<lparr>bv_world = (\<lambda>_ _ s. s), bv_fails = (\<lambda>_. False), bv_now = 9, bv_config = config,
     bv_prune_stops = None\<rparr>"

lemma idle_boot_ok: "\<not> bv_fails (idle_boot config) n" "bv_prune_stops (idle_boot config) = None"
  "spares_unsent (idle_boot config)"
  by (simp_all add: idle_boot_def spares_unsent_def)

definition crashed_ops :: "store_op list" where
  "crashed_ops = sample_ops @ [MarkBuilding (EvalId 1) 2, JobStart (JobId 1) 3]"

definition crashed_store :: store where
  "crashed_store = store_run sample_serde crashed_ops store_new"

lemma crashed_ok: "store_ok sample_serde crashed_store"
  using fresh_store_ok [OF sample_serde_ok, of crashed_ops] sample_ops_valid
  by (simp add: crashed_store_def crashed_ops_def)

lemma crashed_rows:
  "map e_status (evals_of (EvalId 1) crashed_store) = [''building'']"
  "map e_repo_id (evals_of (EvalId 1) crashed_store) = [1]"
  "map j_status (jobs_of (EvalId 1) crashed_store) = [''running'']"
  "map (\<lambda>q. (r_id q, r_forge q, r_slug q)) (st_repos crashed_store) = [(1, ''github'', ''a/b'')]"
  unfolding crashed_store_def crashed_ops_def store_run_append sample_run_eq
  by (simp_all add: evals_of_def jobs_of_def sample_store_def store_new_def
      sample_new_eval_def sample_new_job_def sample_new_builder_def store_defs find_repo_def has_repo_def has_eval_def
      find_builder_def update_where_def eval_terminal_statuses_def job_terminal_statuses_def)

lemma sample_repos:
  "\<exists>x. map_results map_repo (st_repos (sample_store sample_serde)) = Inr [x] \<and> rr_forge x = ''github'' \<and> rr_slug x = Slug ''a/b''"
  by (simp add: sample_store_def store_new_def sample_new_eval_def sample_new_job_def sample_new_builder_def store_defs
      find_repo_def has_repo_def has_eval_def find_builder_def map_results_def map_repo_def bind_result_def to_slug_def
      sample_values)

lemma crashed_row:
  obtains r where "evals_of (EvalId 1) crashed_store = [r]" "e_status r = ''building''"
    "configured (sn_config sample_snapshot) crashed_store r" "\<not> configured (config\<lparr>cf_repos := []\<rparr>) crashed_store r"
proof -
  obtain r where r: "evals_of (EvalId 1) crashed_store = [r]" "e_status r = ''building''" "e_repo_id r = 1"
    using crashed_rows(1,2) by (auto simp: map_eq_Cons_conv)
  obtain q where q: "st_repos crashed_store = [q]" "r_id q = 1" "r_forge q = ''github''" "r_slug q = ''a/b''"
    using crashed_rows(4) by (auto simp: map_eq_Cons_conv)
  show ?thesis by (rule that [OF r(1,2)]) (simp_all add: configured_def q r(3) sample_snapshot_def)
qed

theorem startup_redrives_unfinished_witness:
  "(\<exists>b s'. startup_recovery (idle_boot (sn_config sample_snapshot)) crashed_store = Some b \<and> (EvalId 1, s') \<in> set (bo_sent b)
      \<and> map j_status (jobs_of (EvalId 1) s') = [''queued''])
   \<and> (\<exists>b. startup_recovery (idle_boot ((sn_config sample_snapshot)\<lparr>cf_repos := []\<rparr>)) crashed_store = Some b
      \<and> EvalId 1 \<notin> fst ` set (bo_sent b) \<and> evals_of (EvalId 1) (bo_store b) = [])"
proof -
  obtain r where r: "evals_of (EvalId 1) crashed_store = [r]" "e_status r = ''building''"
    "configured (sn_config sample_snapshot) crashed_store r"
    "\<not> configured ((sn_config sample_snapshot)\<lparr>cf_repos := []\<rparr>) crashed_store r"
    by (rule crashed_row)
  obtain j where j: "jobs_of (EvalId 1) crashed_store = [j]" "j_status j = ''running''"
    using crashed_rows(3) by (auto simp: map_eq_Cons_conv)
  have "map j_status (map resumed (jobs_of (EvalId 1) crashed_store)) = [''queued'']"
    using j by (simp add: resumed_def)
  moreover have "bv_config (idle_boot config) = config" for config by (simp add: idle_boot_def)
  ultimately show ?thesis
    using startup_redrives_unfinished [OF idle_boot_ok crashed_ok r(1), of "sn_config sample_snapshot"] r(2,3)
      startup_redrives_unfinished [OF idle_boot_ok crashed_ok r(1), of "(sn_config sample_snapshot)\<lparr>cf_repos := []\<rparr>"] r(4)
    by (metis (no_types, lifting))
qed

text \<open>An evaluation stranded in \<open>evaluating\<close> is sent by the first pass and, as it is queued then, again by the
  second.\<close>

lemma stranded_evaluation_is_sent_twice:
  "map_option (\<lambda>b. map fst (bo_sent b)) (startup_recovery (idle_boot (sn_config sample_snapshot))
     (eval_set_status (EvalId 1) EEvaluating (sample_store sample_serde))) = Some [EvalId 1, EvalId 1]"
proof -
  obtain r where r: "st_evals (sample_store sample_serde) = [r]" "e_id r = 1"
    using sample_evals by (auto simp: map_eq_Cons_conv)
  obtain x where x: "map_results map_repo (st_repos (sample_store sample_serde)) = Inr [x]"
      "rr_forge x = ''github''" "rr_slug x = Slug ''a/b''"
    using sample_repos by blast
  let ?s = "eval_set_status (EvalId 1) EEvaluating (sample_store sample_serde)"
  obtain s1 where s1: "mark_interrupted (idle_boot (sn_config sample_snapshot)) ?s = Some s1"
    "st_repos s1 = st_repos (sample_store sample_serde)" "st_evals s1 = [r\<lparr>e_status := ''evaluating''\<rparr>]"
    using r by (simp add: mark_interrupted_def idle_boot_def mark_running_interrupted_def mark_running_effects_interrupted_def
        eval_set_status_def update_where_def Let_def)
  have "prune_orphan_state (sn_config sample_snapshot) None s1 = (s1, [])"
    by (rule prune_none) (auto simp: s1(2) x sample_snapshot_def)
  then show ?thesis
    using s1(1) by (simp add: startup_recovery_def s1(3) idle_boot_def recover_evaluating_def redrive_queued_def
        recover_building_def boot_await_def boot_send_def requeue_evaluating_def eval_set_status_def list_evaluating_ids_def
        list_queued_ids_def list_building_ids_def ids_with_status_def update_where_def Let_def r)
qed

text \<open>The second of two sends finds the row \<open>building\<close> once the first was picked up, and starts a build
  phase of its own over the jobs that are still queued.\<close>

lemma building_row_starts_another_phase:
  assumes "store_eval_get e (as_store (ph_app p)) = Inr (Some ev)" and "er_status ev = EBuilding" and "\<not> token_fired tok p"
    and "store_repo_get (er_repo_id ev) (as_store (ph_app p)) = Inr (Some repo)"
    and "hm_get (sn_providers snap) (rr_forge repo) = Some provider"
    and "load_jobs_for_resume (pr_serde c) (pr_codec c) (er_id ev) (as_store (ph_app p)) = Inr persisted"
  shows "\<exists>px walk. fst (process_row c sc tok snap e p) = ProcBuild px walk persisted tok"
  using assms by (simp add: process_row_def process_jobs_def load_or_evaluate_def announce_def Let_def)

end
