(* ===== verification/Effects.thy ===== *)
theory Effects
  imports Worker_Props
begin

text \<open>
  The post-build effects: the crate \<open>argunix-effects\<close> (image names, tags, the registry push, the SBOM
  and its attachment), the binary-cache push of \<open>argunix-build/src/push.rs\<close>, and their orchestration
  in \<open>argunix-daemon/src/effects.rs\<close> and \<open>spawn_post_build_effects\<close> of \<open>worker.rs\<close>.

  The command-line tools are a parameter from the commands run so far and the next command to what
  becomes of the process; every command is kept in a log. The file system, the scan of an image
  archive and the JSON writer are parameters too. The three structs with the coordinates of a
  registry (\<open>RegistryPush\<close>, \<open>SbomAttach\<close>, \<open>MultiArchTarget\<close>) are one record.
\<close>

section \<open>The build output\<close>

record output_context =
  oc_forge :: string
  oc_repo_slug :: string
  oc_attr_path :: string
  oc_system :: string
  oc_git_ref :: string
  oc_default_branch :: "string option"
  oc_sha :: string
  oc_image_format :: "image_format option"
  oc_output_paths :: "string list"
  oc_sbom_runtime_roots :: "string list"

definition output_branch :: "output_context \<Rightarrow> string option" where
  "output_branch ctx =
     (case strip_prefix ''refs/heads/'' (oc_git_ref ctx) of
        Some b \<Rightarrow> Some b
      | None \<Rightarrow>
          if oc_git_ref ctx = [] \<or> starts_with ''refs/'' (oc_git_ref ctx) then None
          else Some (oc_git_ref ctx))"

definition is_default_branch :: "output_context \<Rightarrow> bool" where
  "is_default_branch ctx =
     (case (output_branch ctx, oc_default_branch ctx) of (Some b, Some d) \<Rightarrow> b = d | _ \<Rightarrow> False)"

text \<open>\<open>str::get(..n)\<close>: there is no such prefix when the text is shorter or a character straddles the cut.\<close>

definition str_prefix :: "nat \<Rightarrow> string \<Rightarrow> string option" where
  "str_prefix n s = (if \<exists>k\<le>length (spans s). length (concat (take k (spans s))) = n then Some (take n s) else None)"

definition short_sha :: "string \<Rightarrow> string" where
  "short_sha sha = (case str_prefix 12 sha of Some p \<Rightarrow> p | None \<Rightarrow> sha)"

definition output_primary :: "output_context \<Rightarrow> string option" where
  "output_primary ctx = (case oc_output_paths ctx of [] \<Rightarrow> None | p # _ \<Rightarrow> Some p)"

datatype severity = Advisory | Reported

datatype effect_status = EffectSuccess | EffectFailure | EffectSkipped

fun effect_as_str :: "effect_status \<Rightarrow> string" where
  "effect_as_str EffectSuccess = ''success''"
| "effect_as_str EffectFailure = ''failure''"
| "effect_as_str EffectSkipped = ''skipped''"

record effect_outcome =
  eo_status :: effect_status
  eo_detail :: string

definition outcome_success :: "string \<Rightarrow> effect_outcome" where
  "outcome_success detail = \<lparr>eo_status = EffectSuccess, eo_detail = detail\<rparr>"

definition outcome_failure :: "string \<Rightarrow> effect_outcome" where
  "outcome_failure detail = \<lparr>eo_status = EffectFailure, eo_detail = detail\<rparr>"

definition outcome_skipped :: "string \<Rightarrow> effect_outcome" where
  "outcome_skipped detail = \<lparr>eo_status = EffectSkipped, eo_detail = detail\<rparr>"

definition image_segment :: "string \<Rightarrow> string" where
  "image_segment attr_path =
     (let parts = splitn 3 CHR ''.'' attr_path;
          leaf = (if 2 < length parts then parts ! 2 else attr_path)
      in map (\<lambda>c. if c = CHR ''.'' then CHR ''-'' else c) (to_ascii_lowercase leaf))"

section \<open>Text\<close>

text \<open>\<open>str::replace\<close> for a non-empty pattern, \<open>trim_matches('/')\<close> and \<open>[String]::join(", ")\<close>.\<close>

fun replace_from :: "nat \<Rightarrow> string \<Rightarrow> string \<Rightarrow> string \<Rightarrow> string" where
  "replace_from skip p r [] = []"
| "replace_from (Suc k) p r (c # s) = replace_from k p r s"
| "replace_from 0 p r (c # s) =
     (if starts_with p (c # s) then r @ replace_from (length p - 1) p r s else c # replace_from 0 p r s)"

definition replace_all :: "string \<Rightarrow> string \<Rightarrow> string \<Rightarrow> string" where
  "replace_all p r s = replace_from 0 p r s"

definition trim_slashes :: "string \<Rightarrow> string" where
  "trim_slashes s = trim_end_slash (dropWhile (\<lambda>c. c = CHR ''/'') s)"

fun join_text :: "string \<Rightarrow> string list \<Rightarrow> string" where
  "join_text sep [] = []"
| "join_text sep [s] = s"
| "join_text sep (s # ss) = s @ sep @ join_text sep ss"

section \<open>Names and tags on a registry\<close>

record registry_target =
  tg_target :: string
  tg_registry_url :: string
  tg_namespace :: string
  tg_auth_path :: "string option"
  tg_insecure :: bool

definition resolve_namespace :: "registry_target \<Rightarrow> string \<Rightarrow> string" where
  "resolve_namespace tg repo_slug = replace_all ''{slug}'' repo_slug (tg_namespace tg)"

definition dest_base :: "registry_target \<Rightarrow> string \<Rightarrow> string \<Rightarrow> string" where
  "dest_base tg namespace img =
     ''docker://'' @ trim_end_slash (tg_registry_url tg) @ ''/'' @ trim_slashes namespace @ ''/'' @ img"

text \<open>A tag of at most 128 letters, digits, \<open>_\<close>, \<open>.\<close> and \<open>-\<close>.\<close>

definition tag_char :: "string \<Rightarrow> string" where
  "tag_char p =
     (if list_all (\<lambda>c. is_ascii_alphanumeric c \<or> c = 95 \<or> c = 46 \<or> c = 45) (chars p) then p else ''-'')"

definition sanitize_tag :: "string \<Rightarrow> string" where
  "sanitize_tag raw =
     (let cut = take 128 (concat (map tag_char (spans raw)))
      in if cut = [] then ''latest'' else cut)"

definition push_tags :: "output_context \<Rightarrow> string list" where
  "push_tags ctx =
     (let tags0 = (case output_branch ctx of Some b \<Rightarrow> [sanitize_tag b] | None \<Rightarrow> []);
          tags1 = (if is_default_branch ctx \<and> ''latest'' \<notin> set tags0 then tags0 @ [''latest''] else tags0);
          sha_tag = ''sha-'' @ short_sha (oc_sha ctx)
      in if sha_tag \<notin> set tags1 then tags1 @ [sha_tag] else tags1)"

definition redact_dest :: "string \<Rightarrow> string" where
  "redact_dest dest = (case strip_prefix ''docker://'' dest of Some d \<Rightarrow> d | None \<Rightarrow> dest)"

section \<open>Tools\<close>

datatype tool_cmd =
    SkopeoCopy image_format string string bool "string option"
  | SkopeoSlice string bool "string option" string string
  | OrasAttach string bool "(string \<times> string) option" string string
  | OrasIndex bool "(string \<times> string) option" string "string list"
  | NixRequisites "string list"
  | NixCopy string "string list"

text \<open>The argument vector of a command.\<close>

fun argv :: "tool_cmd \<Rightarrow> string list" where
  "argv (SkopeoCopy fmt archive dest insecure creds) =
     [''skopeo'', ''--insecure-policy'', ''copy'', skopeo_transport fmt @ '':'' @ archive, dest]
     @ (if fmt = Oci then [''--multi-arch'', ''all''] else [])
     @ (if insecure then [''--dest-tls-verify=false''] else [])
     @ (case creds of Some c \<Rightarrow> [''--dest-creds'', c] | None \<Rightarrow> [])"
| "argv (SkopeoSlice digestfile insecure creds archive dest) =
     [''skopeo'', ''--insecure-policy'', ''copy'', ''--format'', ''oci'', ''--digestfile'', digestfile]
     @ (if insecure then [''--dest-tls-verify=false''] else [])
     @ (case creds of Some c \<Rightarrow> [''--dest-creds'', c] | None \<Rightarrow> [])
     @ [''docker-archive:'' @ archive, dest]"
| "argv (OrasAttach media_type insecure login reference name) =
     [''oras'', ''attach'', ''--artifact-type'', media_type]
     @ (if insecure then [''--plain-http''] else [])
     @ (case login of Some (u, p) \<Rightarrow> [''--username'', u, ''--password'', p] | None \<Rightarrow> [])
     @ [reference, name @ '':'' @ media_type]"
| "argv (OrasIndex insecure login reference entries) =
     [''oras'', ''manifest'', ''index'', ''create'']
     @ (if insecure then [''--plain-http''] else [])
     @ (case login of Some (u, p) \<Rightarrow> [''--username'', u, ''--password'', p] | None \<Rightarrow> [])
     @ reference # entries"
| "argv (NixRequisites roots) = [''nix-store'', ''--query'', ''--requisites''] @ roots"
| "argv (NixCopy store_uri paths) =
     [''nix'', ''--extra-experimental-features'', ''nix-command'', ''copy'', ''--to'', store_uri] @ paths"

text \<open>The reference on a registry that a command writes.\<close>

fun written_ref :: "tool_cmd \<Rightarrow> string option" where
  "written_ref (SkopeoCopy fmt archive dest insecure creds) = Some (redact_dest dest)"
| "written_ref (SkopeoSlice digestfile insecure creds archive dest) = Some (redact_dest dest)"
| "written_ref (OrasIndex insecure login reference entries) = Some reference"
| "written_ref _ = None"

text \<open>Files are read at a moment of the log: \<open>skopeo\<close> writes the digest file. \<open>tl_scan\<close> lists the store
  paths inside an image archive, \<open>tl_json\<close> writes a JSON value, and \<open>tl_db_fails n\<close> says whether the
  n-th statement fails for a reason of the database.\<close>

record tools =
  tl_run :: "tool_cmd list \<Rightarrow> tool_cmd \<Rightarrow> process"
  tl_read :: "tool_cmd list \<Rightarrow> string \<Rightarrow> string + string"
  tl_stat :: "string \<Rightarrow> string + nat"
  tl_write :: "string \<Rightarrow> string + unit"
  tl_scan :: "string \<Rightarrow> string + string list"
  tl_json :: "json \<Rightarrow> string + string"
  tl_temp_dir :: string
  tl_db_fails :: "nat \<Rightarrow> bool"
  tl_clock :: "nat \<Rightarrow> nat"

definition debug_code :: "int option \<Rightarrow> string" where
  "debug_code code = (case code of None \<Rightarrow> ''None'' | Some i \<Rightarrow> ''Some('' @ show_int i @ '')'')"

definition process_result :: "string \<Rightarrow> nat \<Rightarrow> process \<Rightarrow> string + string" where
  "process_result what limit p =
     (case p of
        SpawnFailed e \<Rightarrow> Inl (''spawning '' @ what @ '': '' @ e)
      | ReadFailed e \<Rightarrow> Inl (''waiting for '' @ what @ '': '' @ e)
      | WaitFailed e \<Rightarrow> Inl (''waiting for '' @ what @ '': '' @ e)
      | ReadTimeout \<Rightarrow> Inl (what @ '' timed out after '' @ show_nat limit @ ''s'')
      | WaitTimeout \<Rightarrow> Inl (what @ '' timed out after '' @ show_nat limit @ ''s'')
      | process.Exited code out err \<Rightarrow>
          if code = Some 0 then Inr out
          else Inl (what @ '' exited '' @ debug_code code @ '': '' @ trim err))"

definition run_capture :: "tools \<Rightarrow> tool_cmd \<Rightarrow> string \<Rightarrow> nat \<Rightarrow> tool_cmd list \<Rightarrow>
    (string + string) \<times> tool_cmd list" where
  "run_capture tk cmd what limit trace = (process_result what limit (tl_run tk trace cmd), trace @ [cmd])"

definition split_login :: "string option \<Rightarrow> string + (string \<times> string) option" where
  "split_login creds =
     (case creds of
        None \<Rightarrow> Inr None
      | Some c \<Rightarrow>
          (case split_once CHR '':'' c of
             None \<Rightarrow> Inl ''credentials file is not in `user:password` form''
           | Some up \<Rightarrow> Inr (Some up)))"

text \<open>The credentials of a target, read when they are needed.\<close>

definition read_creds :: "tools \<Rightarrow> registry_target \<Rightarrow> tool_cmd list \<Rightarrow> string + string option" where
  "read_creds tk tg trace =
     (case tg_auth_path tg of
        None \<Rightarrow> Inr None
      | Some path \<Rightarrow>
          (case tl_read tk trace path of
             Inr s \<Rightarrow> Inr (Some (trim s))
           | Inl e \<Rightarrow> Inl (''reading registry credentials '' @ path @ '': '' @ e)))"

section \<open>The registry push\<close>

definition skopeo_result :: "process \<Rightarrow> string option" where
  "skopeo_result p =
     (case p of
        SpawnFailed e \<Rightarrow> Some (''spawning skopeo: '' @ e)
      | ReadFailed e \<Rightarrow> Some (''waiting for skopeo: '' @ e)
      | WaitFailed e \<Rightarrow> Some (''waiting for skopeo: '' @ e)
      | ReadTimeout \<Rightarrow> Some ''skopeo copy timed out after 300s''
      | WaitTimeout \<Rightarrow> Some ''skopeo copy timed out after 300s''
      | process.Exited code out err \<Rightarrow>
          if code = Some 0 then None
          else Some (''skopeo exited '' @ debug_code code @ '': '' @ trim err))"

definition skopeo_copy :: "tools \<Rightarrow> registry_target \<Rightarrow> image_format \<Rightarrow> string \<Rightarrow> string \<Rightarrow> string option \<Rightarrow>
    tool_cmd list \<Rightarrow> string option \<times> tool_cmd list" where
  "skopeo_copy tk tg fmt archive dest creds trace =
     (let cmd = SkopeoCopy fmt archive dest (tg_insecure tg) creds
      in (skopeo_result (tl_run tk trace cmd), trace @ [cmd]))"

fun push_each_tag :: "tools \<Rightarrow> registry_target \<Rightarrow> image_format \<Rightarrow> string \<Rightarrow> string \<Rightarrow> string option \<Rightarrow> string list \<Rightarrow>
    string list \<Rightarrow> tool_cmd list \<Rightarrow> effect_outcome \<times> tool_cmd list" where
  "push_each_tag tk tg fmt archive base creds pushed [] trace =
     (outcome_success (''pushed '' @ join_text '', '' pushed @ '' to '' @ tg_target tg), trace)"
| "push_each_tag tk tg fmt archive base creds pushed (tag # tags) trace =
     (let dest = base @ '':'' @ tag;
          (res, trace') = skopeo_copy tk tg fmt archive dest creds trace
      in case res of
           Some detail \<Rightarrow>
             (outcome_failure (''pushing '' @ redact_dest dest @ '' to '' @ tg_target tg @ '': '' @ detail), trace')
         | None \<Rightarrow> push_each_tag tk tg fmt archive base creds (pushed @ [redact_dest dest]) tags trace')"

definition registry_push_run :: "tools \<Rightarrow> registry_target \<Rightarrow> output_context \<Rightarrow> tool_cmd list \<Rightarrow>
    effect_outcome \<times> tool_cmd list" where
  "registry_push_run tk tg ctx trace =
     (case oc_image_format ctx of
        None \<Rightarrow> (outcome_skipped ''not a container image'', trace)
      | Some fmt \<Rightarrow>
          (case output_primary ctx of
             None \<Rightarrow> (outcome_failure ''build produced no output path to push'', trace)
           | Some archive \<Rightarrow>
               (let img = image_segment (oc_attr_path ctx);
                    base = dest_base tg (resolve_namespace tg (oc_repo_slug ctx)) img
                in case read_creds tk tg trace of
                     Inl e \<Rightarrow> (outcome_failure e, trace)
                   | Inr creds \<Rightarrow> push_each_tag tk tg fmt archive base creds [] (push_tags ctx) trace)))"

section \<open>The SBOM\<close>

definition cyclonedx_media_type :: string where
  "cyclonedx_media_type = ''application/vnd.cyclonedx+json''"

definition runtime_roots :: "json \<Rightarrow> string list" where
  "runtime_roots meta =
     (case json_get ''sbom-runtime-roots'' meta of
        Some (JsonArray vs) \<Rightarrow> List.map_filter json_as_str vs
      | _ \<Rightarrow> [])"

text \<open>The declared roots come from the repository: only plain store paths reach the command line. In
  the message the offending root is quoted; of the characters \<open>Debug\<close> escapes, quotes and backslashes
  are written out here.\<close>

definition debug_quote :: "string \<Rightarrow> string" where
  "debug_quote s = CHR 0x22 # concat (map (\<lambda>c. if c = CHR 0x22 \<or> c = CHR 0x5C then [CHR 0x5C, c] else [c]) s) @ [CHR 0x22]"

definition closure_from_roots :: "tools \<Rightarrow> string list \<Rightarrow> tool_cmd list \<Rightarrow>
    (string + string list) \<times> tool_cmd list" where
  "closure_from_roots tk roots trace =
     (case List.find (\<lambda>r. \<not> starts_with ''/nix/store/'' r) roots of
        Some r \<Rightarrow> (Inl (''sbom-runtime-roots entry is not a /nix/store path: '' @ debug_quote r), trace)
      | None \<Rightarrow>
          (let (res, trace') = run_capture tk (NixRequisites roots) ''nix-store --query --requisites'' 120 trace
           in (map_sum id (\<lambda>out. remdups_adj (sort (filter (\<lambda>l. l \<noteq> []) (map trim (lines out))))) res, trace')))"

definition store_path_basename :: "string \<Rightarrow> string" where
  "store_path_basename path = last (split_on CHR ''/'' path)"

definition starts_with_digit :: "string \<Rightarrow> bool" where
  "starts_with_digit seg = (case chars seg of [] \<Rightarrow> False | c # _ \<Rightarrow> is_ascii_digit c)"

definition parse_name_version :: "string \<Rightarrow> string \<times> string option" where
  "parse_name_version basename =
     (let rest = (case split_once CHR ''-'' basename of Some (_, r) \<Rightarrow> r | None \<Rightarrow> basename);
          segments = split_on CHR ''-'' rest;
          idx = length (takeWhile (\<lambda>seg. \<not> starts_with_digit seg) segments)
      in if idx < length segments \<and> 0 < idx
         then (join_with CHR ''-'' (take idx segments), Some (join_with CHR ''-'' (drop idx segments)))
         else (rest, None))"

definition cyclonedx_component :: "string \<Rightarrow> json" where
  "cyclonedx_component path =
     (let base = store_path_basename path;
          (name, version) = parse_name_version base;
          purl = (case version of Some v \<Rightarrow> ''pkg:nix/'' @ name @ ''@'' @ v | None \<Rightarrow> ''pkg:nix/'' @ name)
      in JsonObject ([(''type'', JsonString ''library''), (''bom-ref'', JsonString base),
           (''name'', JsonString name), (''purl'', JsonString purl),
           (''properties'', JsonArray [JsonObject [(''name'', JsonString ''nix:store_path''),
              (''value'', JsonString path)]])]
         @ (case version of Some v \<Rightarrow> [(''version'', JsonString v)] | None \<Rightarrow> [])))"

definition build_cyclonedx :: "string \<Rightarrow> string list \<Rightarrow> json" where
  "build_cyclonedx image_name paths =
     JsonObject [(''bomFormat'', JsonString ''CycloneDX''), (''specVersion'', JsonString ''1.5''),
       (''version'', JsonNumber ''1''),
       (''metadata'', JsonObject [
          (''tools'', JsonArray [JsonObject [(''vendor'', JsonString ''applicative.systems''),
             (''name'', JsonString ''argunix'')]]),
          (''component'', JsonObject [(''type'', JsonString ''container''),
             (''bom-ref'', JsonString image_name), (''name'', JsonString image_name)])]),
       (''components'', JsonArray (map cyclonedx_component paths))]"

definition sbom_store_paths :: "tools \<Rightarrow> string list \<Rightarrow> string list \<Rightarrow> tool_cmd list \<Rightarrow>
    (string + string list) \<times> tool_cmd list" where
  "sbom_store_paths tk output_paths roots trace =
     (if roots = [] then
        ((case output_paths of
            [] \<Rightarrow> Inl ''build produced no image archive to read''
          | archive # _ \<Rightarrow> map_sum (\<lambda>e. ''reading image contents: '' @ e) id (tl_scan tk archive)), trace)
      else (let (res, trace') = closure_from_roots tk roots trace
            in (map_sum (\<lambda>e. ''resolving sbom roots: '' @ e) id res, trace')))"

definition generate_sbom :: "tools \<Rightarrow> string \<Rightarrow> string list \<Rightarrow> string list \<Rightarrow> tool_cmd list \<Rightarrow>
    (string + (string \<times> nat)) \<times> tool_cmd list" where
  "generate_sbom tk attr_path output_paths roots trace =
     (let (res, trace') = sbom_store_paths tk output_paths roots trace
      in (case res of
            Inl e \<Rightarrow> Inl e
          | Inr paths \<Rightarrow>
              if paths = [] then Inl ''no /nix/store paths found for the image''
              else map_sum (\<lambda>e. ''serializing SBOM: '' @ e) (\<lambda>b. (b, length paths))
                     (tl_json tk (build_cyclonedx (image_segment attr_path) paths)), trace'))"

definition run_oras_attach :: "tools \<Rightarrow> string \<Rightarrow> string \<Rightarrow> bool \<Rightarrow> string option \<Rightarrow> tool_cmd list \<Rightarrow>
    (string + unit) \<times> tool_cmd list" where
  "run_oras_attach tk name reference insecure creds trace =
     (case split_login creds of
        Inl e \<Rightarrow> (Inl e, trace)
      | Inr login \<Rightarrow>
          (let (res, trace') = run_capture tk (OrasAttach cyclonedx_media_type insecure login reference name)
                 ''oras attach'' 300 trace
           in (map_sum id (\<lambda>_. ()) res, trace')))"

definition attach_cyclonedx_referrer :: "tools \<Rightarrow> string \<Rightarrow> string \<Rightarrow> bool \<Rightarrow> string option \<Rightarrow>
    tool_cmd list \<Rightarrow> (string + unit) \<times> tool_cmd list" where
  "attach_cyclonedx_referrer tk reference name_hint insecure creds trace =
     (let staged = path_join (tl_temp_dir tk) (name_hint @ ''.cdx.json'') in
      case tl_write tk staged of
        Inl e \<Rightarrow> (Inl (''writing SBOM to '' @ staged @ '': '' @ e), trace)
      | Inr _ \<Rightarrow> run_oras_attach tk (last (split_on CHR ''/'' staged)) reference insecure creds trace)"

definition sbom_reference :: "registry_target \<Rightarrow> output_context \<Rightarrow> string" where
  "sbom_reference tg ctx =
     trim_end_slash (tg_registry_url tg) @ ''/''
     @ trim_slashes (replace_all ''{slug}'' (oc_repo_slug ctx) (tg_namespace tg)) @ ''/''
     @ image_segment (oc_attr_path ctx) @ '':sha-'' @ short_sha (oc_sha ctx)"

definition sbom_attach_run :: "tools \<Rightarrow> registry_target \<Rightarrow> output_context \<Rightarrow> tool_cmd list \<Rightarrow>
    effect_outcome \<times> tool_cmd list" where
  "sbom_attach_run tk tg ctx trace =
     (if oc_image_format ctx = None then (outcome_skipped ''not a container image'', trace)
      else let reference = sbom_reference tg ctx;
               (gen, trace1) = generate_sbom tk (oc_attr_path ctx) (oc_output_paths ctx)
                 (oc_sbom_runtime_roots ctx) trace
           in case gen of
                Inl e \<Rightarrow> (outcome_failure e, trace1)
              | Inr (sbom, n_components) \<Rightarrow>
                  (case read_creds tk tg trace1 of
                     Inl e \<Rightarrow> (outcome_failure e, trace1)
                   | Inr creds \<Rightarrow>
                       (let hint = ''argunix-sbom-'' @ image_segment (oc_attr_path ctx) @ ''-'' @ short_sha (oc_sha ctx);
                            (res, trace2) = attach_cyclonedx_referrer tk reference hint (tg_insecure tg) creds trace1
                        in case res of
                             Inr _ \<Rightarrow> (outcome_success (''attached SBOM ('' @ show_nat n_components
                               @ '' components) to '' @ reference), trace2)
                           | Inl detail \<Rightarrow> (outcome_failure (''attaching SBOM to '' @ reference @ '': '' @ detail), trace2))))"

section \<open>Running effects\<close>

datatype effect = RegistryPush registry_target | SbomAttach registry_target

fun effect_kind :: "effect \<Rightarrow> string" where
  "effect_kind (RegistryPush tg) = ''registry-push''"
| "effect_kind (SbomAttach tg) = ''sbom-attach''"

fun effect_target :: "effect \<Rightarrow> string" where
  "effect_target (RegistryPush tg) = tg_target tg"
| "effect_target (SbomAttach tg) = tg_target tg"

fun effect_severity :: "effect \<Rightarrow> severity" where
  "effect_severity (RegistryPush tg) = Advisory"
| "effect_severity (SbomAttach tg) = Advisory"

fun effect_run :: "tools \<Rightarrow> effect \<Rightarrow> output_context \<Rightarrow> tool_cmd list \<Rightarrow> effect_outcome \<times> tool_cmd list" where
  "effect_run tk (RegistryPush tg) ctx trace = registry_push_run tk tg ctx trace"
| "effect_run tk (SbomAttach tg) ctx trace = sbom_attach_run tk tg ctx trace"

definition target_of_config :: "string \<Rightarrow> registry_config \<Rightarrow> registry_target" where
  "target_of_config name reg =
     \<lparr>tg_target = name, tg_registry_url = gr_url reg, tg_namespace = gr_namespace reg,
      tg_auth_path = gr_auth_path reg, tg_insecure = gr_insecure reg\<rparr>"

definition registry_push_effects :: "config \<Rightarrow> repo_config \<Rightarrow> effect list" where
  "registry_push_effects cfg repo =
     (let tgs = List.map_filter (\<lambda>name. map_option (target_of_config name) (hm_get (cf_registries cfg) name))
                  (rc_push_to_registries repo)
      in map RegistryPush tgs @ map SbomAttach tgs)"

record effect_report =
  ep_kind :: string
  ep_target :: string
  ep_severity :: severity
  ep_status :: effect_status
  ep_detail :: string

text \<open>The database, the commands run, and the number of statements issued.\<close>

record effect_state =
  es_store :: store
  es_log :: "tool_cmd list"
  es_calls :: nat

definition try_create_run :: "tools \<Rightarrow> job_id \<Rightarrow> string \<Rightarrow> string \<Rightarrow> effect_state \<Rightarrow> int option \<times> effect_state" where
  "try_create_run tk j kind target s =
     (let s1 = s\<lparr>es_calls := Suc (es_calls s)\<rparr> in
      if tl_db_fails tk (es_calls s) then (None, s1)
      else case create_effect_run j kind target (tl_clock tk (es_calls s)) (es_store s) of
             Inl e \<Rightarrow> (None, s1)
           | Inr (n, st) \<Rightarrow> (Some n, s1\<lparr>es_store := st\<rparr>))"

definition try_finish_run :: "tools \<Rightarrow> int option \<Rightarrow> string \<Rightarrow> string \<Rightarrow> effect_state \<Rightarrow> effect_state" where
  "try_finish_run tk run_id status detail s =
     (case run_id of
        None \<Rightarrow> s
      | Some n \<Rightarrow>
          (let s1 = s\<lparr>es_calls := Suc (es_calls s)\<rparr> in
           if tl_db_fails tk (es_calls s) then s1
           else s1\<lparr>es_store := finish_effect_run n status (Some detail) (tl_clock tk (es_calls s)) (es_store s)\<rparr>))"

definition run_effect :: "tools \<Rightarrow> job_id \<Rightarrow> output_context \<Rightarrow> effect \<Rightarrow> effect_state \<Rightarrow>
    effect_report \<times> effect_state" where
  "run_effect tk j ctx e s =
     (let (run_id, s1) = try_create_run tk j (effect_kind e) (effect_target e) s;
          (outcome, trace) = effect_run tk e ctx (es_log s1);
          s2 = try_finish_run tk run_id (effect_as_str (eo_status outcome)) (eo_detail outcome) (s1\<lparr>es_log := trace\<rparr>)
      in (\<lparr>ep_kind = effect_kind e, ep_target = effect_target e, ep_severity = effect_severity e,
           ep_status = eo_status outcome, ep_detail = eo_detail outcome\<rparr>, s2))"

fun run_effects :: "tools \<Rightarrow> job_id \<Rightarrow> effect list \<Rightarrow> output_context \<Rightarrow> effect_state \<Rightarrow>
    effect_report list \<times> effect_state" where
  "run_effects tk j [] ctx s = ([], s)"
| "run_effects tk j (e # es) ctx s =
     (let (report, s1) = run_effect tk j ctx e s; (reps, s2) = run_effects tk j es ctx s1
      in (report # reps, s2))"

section \<open>The binary caches\<close>

record push_cache =
  pc_url :: string
  pc_signing_key_path :: string

definition with_secret_key :: "string \<Rightarrow> string \<Rightarrow> string" where
  "with_secret_key url key =
     url @ (if CHR ''?'' \<in> set url then ''&'' else ''?'') @ ''secret-key='' @ key"

definition push_error :: "string \<Rightarrow> nat \<Rightarrow> process \<Rightarrow> string option" where
  "push_error url limit p =
     (let cmd = ''`nix copy --to '' @ url @ ''`'' in
      case p of
        SpawnFailed e \<Rightarrow> Some (''spawning '' @ cmd @ '': '' @ e)
      | ReadFailed e \<Rightarrow> Some (''waiting for '' @ cmd @ '': '' @ e)
      | WaitFailed e \<Rightarrow> Some (''waiting for '' @ cmd @ '': '' @ e)
      | ReadTimeout \<Rightarrow> Some (cmd @ '' timed out after '' @ show_nat limit @ ''s'')
      | WaitTimeout \<Rightarrow> Some (cmd @ '' timed out after '' @ show_nat limit @ ''s'')
      | process.Exited code out err \<Rightarrow>
          if code = Some 0 then None else Some (cmd @ '' exited '' @ debug_code code @ '': '' @ err))"

definition push_one_to_cache :: "tools \<Rightarrow> string list \<Rightarrow> push_cache \<Rightarrow> nat \<Rightarrow> tool_cmd list \<Rightarrow>
    string option \<times> tool_cmd list" where
  "push_one_to_cache tk output_paths cache limit trace =
     (if output_paths = [] then (None, trace)
      else let cmd = NixCopy (with_secret_key (pc_url cache) (pc_signing_key_path cache)) output_paths
           in (push_error (pc_url cache) limit (tl_run tk trace cmd), trace @ [cmd]))"

definition push_cache_effect :: "tools \<Rightarrow> job_id \<Rightarrow> string list \<Rightarrow> nat \<Rightarrow> push_cache \<Rightarrow> effect_state \<Rightarrow> effect_state" where
  "push_cache_effect tk j output_paths limit cache s =
     (let (run_id, s1) = try_create_run tk j ''cache-push'' (pc_url cache) s;
          (res, trace) = push_one_to_cache tk output_paths cache limit (es_log s1);
          (status, detail) = (case res of
             None \<Rightarrow> (''success'', ''pushed output closure to '' @ pc_url cache)
           | Some e \<Rightarrow> (''failure'', e))
      in try_finish_run tk run_id status detail (s1\<lparr>es_log := trace\<rparr>))"

definition run_cache_push_effects :: "tools \<Rightarrow> job_id \<Rightarrow> string list \<Rightarrow> push_cache list \<Rightarrow> nat \<Rightarrow>
    effect_state \<Rightarrow> effect_state" where
  "run_cache_push_effects tk j output_paths caches limit s =
     fold (push_cache_effect tk j output_paths limit) caches s"

text \<open>\<open>elapsed\<close> is the time the pushes took, in milliseconds.\<close>

definition db_write :: "tools \<Rightarrow> (store \<Rightarrow> store_error + store) \<Rightarrow> effect_state \<Rightarrow> effect_state" where
  "db_write tk f s =
     (let s1 = s\<lparr>es_calls := Suc (es_calls s)\<rparr> in
      if tl_db_fails tk (es_calls s) then s1
      else case f (es_store s) of Inl e \<Rightarrow> s1 | Inr st \<Rightarrow> s1\<lparr>es_store := st\<rparr>)"

definition cache_push_and_record :: "tools \<Rightarrow> job_id \<Rightarrow> string list \<Rightarrow> push_cache list \<Rightarrow> nat \<Rightarrow> nat \<Rightarrow>
    effect_state \<Rightarrow> effect_state" where
  "cache_push_and_record tk j output_paths caches limit elapsed s =
     db_write tk (\<lambda>st. Inr (record_cache_push_ms j elapsed st))
       (run_cache_push_effects tk j output_paths caches limit s)"

section \<open>After a successful build\<close>

definition record_image_artifacts :: "tools \<Rightarrow> job_id \<Rightarrow> string \<Rightarrow> string list \<Rightarrow> string list \<Rightarrow> effect_state \<Rightarrow>
    effect_state" where
  "record_image_artifacts tk j attr_path output_paths roots s =
     (let s1 = (case output_paths of
                  [] \<Rightarrow> s
                | archive # _ \<Rightarrow>
                    (case tl_stat tk archive of
                       Inl e \<Rightarrow> s
                     | Inr len \<Rightarrow> db_write tk (\<lambda>st. Inr (record_image_size j len st)) s));
          (gen, trace) = generate_sbom tk attr_path output_paths roots (es_log s1);
          s2 = s1\<lparr>es_log := trace\<rparr>
      in case gen of
           Inl e \<Rightarrow> s2
         | Inr (content, comps) \<Rightarrow>
             db_write tk (upsert_sbom j ''cyclonedx'' content (comps mod 2 ^ 32) (tl_clock tk (es_calls s2))) s2)"

fun effect_check_label :: "string \<Rightarrow> string" where
  "effect_check_label kind =
     (if kind = ''registry-push'' then ''registry'' else if kind = ''sbom-attach'' then ''sbom'' else kind)"

text \<open>The checks of the \<open>Reported\<close> effects. The separator is a middle dot.\<close>

definition report_post :: "string \<Rightarrow> repo_record \<Rightarrow> eval_record \<Rightarrow> string \<Rightarrow> effect_report \<Rightarrow> check_post option" where
  "report_post external_url repo ev attr_path r =
     (if ep_severity r \<noteq> Reported then None
      else case (case ep_status r of EffectSuccess \<Rightarrow> Some CheckSuccess | EffectFailure \<Rightarrow> Some CheckFailure
                  | EffectSkipped \<Rightarrow> None) of
             None \<Rightarrow> None
           | Some state \<Rightarrow> Some \<lparr>cp_slug = rr_slug repo, cp_sha = er_sha ev,
               cp_context = ''argunix: '' @ effect_check_label (ep_kind r) @ '' '' @ [CHR 0xC2, CHR 0xB7] @ '' '' @ ep_target r,
               cp_state = state, cp_description = Some (summarise_for_check (ep_detail r) 140),
               cp_target_url = Some (job_target_url external_url (rr_forge repo) (rr_slug repo) (er_id ev) attr_path)\<rparr>)"

definition job_output_context :: "repo_record \<Rightarrow> eval_record \<Rightarrow> job_spec \<Rightarrow> string list \<Rightarrow> output_context" where
  "job_output_context repo ev spec output_paths =
     \<lparr>oc_forge = rr_forge repo, oc_repo_slug = slug_str (rr_slug repo), oc_attr_path = js_attr_path spec,
      oc_system = (case js_system spec of Some v \<Rightarrow> v | None \<Rightarrow> ''unknown''), oc_git_ref = er_git_ref ev,
      oc_default_branch = rr_default_branch repo, oc_sha = sha_str (er_sha ev),
      oc_image_format = js_image_format spec, oc_output_paths = output_paths,
      oc_sbom_runtime_roots = runtime_roots (js_meta spec)\<rparr>"

text \<open>The detached task. \<open>has_provider\<close> says whether the forge has a provider.\<close>

definition post_build_effects :: "tools \<Rightarrow> string \<Rightarrow> bool \<Rightarrow> repo_record \<Rightarrow> eval_record \<Rightarrow> job_spec \<Rightarrow> job_id \<Rightarrow>
    push_cache list \<Rightarrow> effect list \<Rightarrow> bool \<Rightarrow> bool \<Rightarrow> nat \<Rightarrow> string list \<Rightarrow> effect_state \<Rightarrow>
    check_post list \<times> effect_state" where
  "post_build_effects tk external_url has_provider repo ev spec j caches effects collapsed
     is_multiarch_member elapsed output_paths s =
     (let is_img = js_image_format spec \<noteq> None in
      if output_paths = [] \<or> (caches = [] \<and> effects = [] \<and> \<not> is_img) then ([], s)
      else
        let reg_effects = filter (\<lambda>e. \<not> (is_multiarch_member \<and> effect_kind e \<in> {''registry-push'', ''sbom-attach''})) effects;
            ctx = job_output_context repo ev spec output_paths;
            s1 = (if is_img then record_image_artifacts tk j (js_attr_path spec) output_paths
                                   (runtime_roots (js_meta spec)) s else s);
            s2 = (if caches \<noteq> [] then cache_push_and_record tk j output_paths caches 300 elapsed s1 else s1)
        in if reg_effects = [] then ([], s2)
           else let (reps, s3) = run_effects tk j reg_effects ctx s2
                in (if collapsed \<or> \<not> has_provider then []
                    else List.map_filter (report_post external_url repo ev (js_attr_path spec)) reps, s3))"

section \<open>What the effects leave alone\<close>

text \<open>The database without the two columns of a job that only the effects write, the effect rows and the
  SBOMs.\<close>

definition core_rows :: "store \<Rightarrow> store" where
  "core_rows st = st\<lparr>st_jobs := map (\<lambda>r. r\<lparr>j_image_size_bytes := None, j_cache_push_ms := None\<rparr>) (st_jobs st),
     st_effects := [], st_sboms := [], st_seq := (st_seq st)\<lparr>q_effects := 0, q_sboms := 0\<rparr>\<rparr>"

lemma core_rows_ops [simp]:
  "core_rows (finish_effect_run n status d t st) = core_rows st"
  "core_rows (record_cache_push_ms j ms st) = core_rows st"
  "core_rows (record_image_size j len st) = core_rows st"
  "create_effect_run j k g t st = Inr (n, st') \<Longrightarrow> core_rows st' = core_rows st"
  "upsert_sbom j f c m t st = Inr st' \<Longrightarrow> core_rows st' = core_rows st"
  by (auto simp: core_rows_def finish_effect_run_def record_cache_push_ms_def record_image_size_def
      create_effect_run_def upsert_sbom_def update_where_def Let_def split: if_splits)

lemma core_rows_job: "core_rows st' = core_rows st \<Longrightarrow> has_job i st' = has_job i st"
proof -
  have "has_job i st = has_job i (core_rows st)" for st
    by (simp add: has_job_def core_rows_def list_ex_iff)
  then show "core_rows st' = core_rows st \<Longrightarrow> has_job i st' = has_job i st" by metis
qed

text \<open>\<open>recorded j ks s s'\<close>: from \<open>s\<close> to \<open>s'\<close> exactly the runs \<open>ks\<close> of job \<open>j\<close> (kind and target) were added,
  in this order and all of them finished.\<close>

definition effects_fresh :: "store \<Rightarrow> bool" where
  "effects_fresh st = list_all (\<lambda>x. x_id x \<le> q_effects (st_seq st)) (st_effects st)"

definition finished_run :: "job_id \<Rightarrow> effect_row \<Rightarrow> bool" where
  "finished_run j x = (x_job_id x = job_get j \<and> x_status x \<in> {''success'', ''failure'', ''skipped''}
     \<and> x_detail x \<noteq> None \<and> x_finished_at x \<noteq> None)"

definition recorded :: "job_id \<Rightarrow> (string \<times> string) list \<Rightarrow> effect_state \<Rightarrow> effect_state \<Rightarrow> bool" where
  "recorded j ks s s' = (\<exists>rows. st_effects (es_store s') = st_effects (es_store s) @ rows
     \<and> map (\<lambda>x. (x_kind x, x_target x)) rows = ks \<and> list_all (finished_run j) rows
     \<and> effects_fresh (es_store s'))"

lemma recorded_trans:
  "recorded j ks s s1 \<Longrightarrow> recorded j ks' s1 s2 \<Longrightarrow> recorded j (ks @ ks') s s2"
  by (auto simp: recorded_def)

lemma recorded_refl [simp]: "recorded j [] s s \<longleftrightarrow> effects_fresh (es_store s)"
  by (auto simp: recorded_def)

lemma recorded_fresh: "recorded j ks s s' \<Longrightarrow> effects_fresh (es_store s')"
  by (auto simp: recorded_def)

lemma recorded_trace [simp]:
  "recorded j ks s (s'\<lparr>es_log := t\<rparr>) = recorded j ks s s'" "recorded j ks (s\<lparr>es_log := t\<rparr>) s' = recorded j ks s s'"
  by (simp_all add: recorded_def)

lemma core_rows_try [simp]:
  "try_create_run tk j k g s = (n, s') \<Longrightarrow> core_rows (es_store s') = core_rows (es_store s)"
  "core_rows (es_store (try_finish_run tk n status d s)) = core_rows (es_store s)"
  by (auto simp: try_create_run_def try_finish_run_def Let_def split: if_splits sum.splits option.splits)

lemma core_rows_write:
  "(\<And>st st'. f st = Inr st' \<Longrightarrow> core_rows st' = core_rows st) \<Longrightarrow>
   core_rows (es_store (db_write tk f s)) = core_rows (es_store s)"
  by (auto simp: db_write_def Let_def split: sum.splits)

lemma recorded_write:
  "(\<And>st st'. f st = Inr st' \<Longrightarrow> st_effects st' = st_effects st \<and> q_effects (st_seq st') = q_effects (st_seq st)) \<Longrightarrow>
   effects_fresh (es_store s) \<Longrightarrow> recorded j [] s (db_write tk f s)"
  by (auto simp: db_write_def recorded_def effects_fresh_def Let_def split: sum.splits)

lemma other_tables [simp]:
  "st_effects (record_cache_push_ms j ms st) = st_effects st" "st_seq (record_cache_push_ms j ms st) = st_seq st"
  "st_effects (record_image_size j len st) = st_effects st" "st_seq (record_image_size j len st) = st_seq st"
  "upsert_sbom j f c m t st = Inr st' \<Longrightarrow> st_effects st' = st_effects st \<and> q_effects (st_seq st') = q_effects (st_seq st)"
  by (auto simp: record_cache_push_ms_def record_image_size_def upsert_sbom_def Let_def split: if_splits)

text \<open>One tracked run, around any work in between.\<close>

lemma tracked_run:
  assumes create: "try_create_run tk j k g s = (n, s1)"
    and live: "\<forall>i. \<not> tl_db_fails tk i" and job: "has_job (job_get j) (es_store s)"
    and fresh: "effects_fresh (es_store s)" and status: "status \<in> {''success'', ''failure'', ''skipped''}"
  shows "recorded j [(k, g)] s (try_finish_run tk n status d (s1\<lparr>es_log := t\<rparr>))"
proof -
  let ?n = "q_effects (st_seq (es_store s)) + 1"
  have below: "x_id x < ?n" if "x \<in> set (st_effects (es_store s))" for x
    using fresh that by (simp add: effects_fresh_def list_all_iff)
  then have old: "update_where (\<lambda>x. x_id x = ?n) f (st_effects (es_store s)) = st_effects (es_store s)" for f
    by (force simp: update_where_def intro: map_idI)
  let ?row = "\<lparr>x_id = ?n, x_job_id = job_get j, x_kind = k, x_target = g, x_status = ''running'', x_detail = None,
    x_started_at = tl_clock tk (es_calls s), x_finished_at = None\<rparr>"
  have s1: "n = Some ?n" "st_effects (es_store s1) = st_effects (es_store s) @ [?row]"
    "q_effects (st_seq (es_store s1)) = ?n"
    using create live job by (auto simp: try_create_run_def create_effect_run_def Let_def)
  let ?done = "?row\<lparr>x_status := status, x_detail := Some d, x_finished_at := Some (tl_clock tk (es_calls s1))\<rparr>"
  have "st_effects (es_store (try_finish_run tk n status d (s1\<lparr>es_log := t\<rparr>))) = st_effects (es_store s) @ [?done]"
    using s1 live old by (simp add: try_finish_run_def finish_effect_run_def Let_def update_where_def)
  moreover have "st_seq (es_store (try_finish_run tk n status d (s1\<lparr>es_log := t\<rparr>))) = st_seq (es_store s1)"
    by (simp add: try_finish_run_def finish_effect_run_def Let_def split: option.split)
  moreover have "list_all (\<lambda>x. x_id x \<le> ?n) (st_effects (es_store s))"
    using below by (simp add: list_all_iff order_less_imp_le)
  moreover have "finished_run j ?done" using status by (simp add: finished_run_def)
  ultimately show ?thesis
    using s1(3) by (simp add: recorded_def effects_fresh_def)
qed

lemma effect_as_str_in: "effect_as_str st \<in> {''success'', ''failure'', ''skipped''}"
  by (cases st) auto

lemma run_effect_ok:
  assumes "run_effect tk j ctx e s = (report, s')"
  shows "core_rows (es_store s') = core_rows (es_store s)" "ep_severity report = Advisory"
    and "\<forall>i. \<not> tl_db_fails tk i \<Longrightarrow> has_job (job_get j) (es_store s) \<Longrightarrow> effects_fresh (es_store s) \<Longrightarrow>
      recorded j [(effect_kind e, effect_target e)] s s'"
proof -
  obtain n s1 where create: "try_create_run tk j (effect_kind e) (effect_target e) s = (n, s1)" by fastforce
  obtain out tr where run: "effect_run tk e ctx (es_log s1) = (out, tr)" by fastforce
  have s': "s' = try_finish_run tk n (effect_as_str (eo_status out)) (eo_detail out) (s1\<lparr>es_log := tr\<rparr>)"
    "ep_severity report = effect_severity e"
    using assms by (auto simp: run_effect_def create run)
  show "core_rows (es_store s') = core_rows (es_store s)" using core_rows_try(1) [OF create] s'(1) by simp
  show "ep_severity report = Advisory" using s'(2) by (cases e) auto
  show "recorded j [(effect_kind e, effect_target e)] s s'"
    if "\<forall>i. \<not> tl_db_fails tk i" "has_job (job_get j) (es_store s)" "effects_fresh (es_store s)"
    unfolding s'(1) by (rule tracked_run [OF create that effect_as_str_in])
qed

lemma run_effects_ok:
  assumes "run_effects tk j es ctx s = (reps, s')"
  shows "core_rows (es_store s') = core_rows (es_store s) \<and> (\<forall>r\<in>set reps. ep_severity r = Advisory)
    \<and> ((\<forall>i. \<not> tl_db_fails tk i) \<longrightarrow> has_job (job_get j) (es_store s) \<longrightarrow> effects_fresh (es_store s) \<longrightarrow>
      recorded j (map (\<lambda>e. (effect_kind e, effect_target e)) es) s s')"
  using assms
proof (induction es arbitrary: s reps)
  case (Cons e es)
  obtain r s1 where one: "run_effect tk j ctx e s = (r, s1)" by fastforce
  obtain rs where rest: "run_effects tk j es ctx s1 = (rs, s')" "reps = r # rs"
    using Cons.prems by (auto simp: one split: prod.splits)
  note one' = run_effect_ok [OF one] and rest' = Cons.IH [OF rest(1)]
  have "recorded j (map (\<lambda>e. (effect_kind e, effect_target e)) (e # es)) s s'"
    if "\<forall>i. \<not> tl_db_fails tk i" "has_job (job_get j) (es_store s)" "effects_fresh (es_store s)"
    using recorded_trans [OF one'(3) [OF that], of "map (\<lambda>e. (effect_kind e, effect_target e)) es" s']
      rest' that recorded_fresh [OF one'(3) [OF that]] core_rows_job [OF one'(1)] by simp
  then show ?case using one' rest' rest(2) by simp
qed simp

lemma push_cache_ok:
  shows "core_rows (es_store (push_cache_effect tk j paths limit cache s)) = core_rows (es_store s)"
    and "\<forall>i. \<not> tl_db_fails tk i \<Longrightarrow> has_job (job_get j) (es_store s) \<Longrightarrow> effects_fresh (es_store s) \<Longrightarrow>
      recorded j [(''cache-push'', pc_url cache)] s (push_cache_effect tk j paths limit cache s)"
proof -
  obtain n s1 where create: "try_create_run tk j ''cache-push'' (pc_url cache) s = (n, s1)" by fastforce
  obtain res tr where run: "push_one_to_cache tk paths cache limit (es_log s1) = (res, tr)" by fastforce
  obtain status d where eff: "push_cache_effect tk j paths limit cache s = try_finish_run tk n status d (s1\<lparr>es_log := tr\<rparr>)"
    "status \<in> {''success'', ''failure'', ''skipped''}"
    by (cases res) (auto simp: push_cache_effect_def create run)
  show "core_rows (es_store (push_cache_effect tk j paths limit cache s)) = core_rows (es_store s)"
    using core_rows_try(1) [OF create] eff(1) by simp
  show "recorded j [(''cache-push'', pc_url cache)] s (push_cache_effect tk j paths limit cache s)"
    if "\<forall>i. \<not> tl_db_fails tk i" "has_job (job_get j) (es_store s)" "effects_fresh (es_store s)"
    unfolding eff(1) by (rule tracked_run [OF create that eff(2)])
qed

lemma run_cache_push_ok:
  "core_rows (es_store (run_cache_push_effects tk j paths caches limit s)) = core_rows (es_store s)
   \<and> ((\<forall>i. \<not> tl_db_fails tk i) \<longrightarrow> has_job (job_get j) (es_store s) \<longrightarrow> effects_fresh (es_store s) \<longrightarrow>
     recorded j (map (\<lambda>c. (''cache-push'', pc_url c)) caches) s (run_cache_push_effects tk j paths caches limit s))"
proof (induction caches arbitrary: s)
  case (Cons c caches)
  let ?s1 = "push_cache_effect tk j paths limit c s"
  let ?s2 = "run_cache_push_effects tk j paths caches limit ?s1"
  have "recorded j (map (\<lambda>c. (''cache-push'', pc_url c)) (c # caches)) s ?s2"
    if "\<forall>i. \<not> tl_db_fails tk i" "has_job (job_get j) (es_store s)" "effects_fresh (es_store s)"
    using recorded_trans [OF push_cache_ok(2) [OF that, where paths = paths and limit = limit and cache = c], of "map (\<lambda>c. (''cache-push'', pc_url c)) caches" ?s2]
      Cons.IH [of ?s1] that recorded_fresh [OF push_cache_ok(2) [OF that]] core_rows_job [OF push_cache_ok(1)] by simp
  moreover have "core_rows (es_store ?s2) = core_rows (es_store s)"
    using Cons.IH [of ?s1] push_cache_ok(1) by simp
  ultimately show ?case by (simp add: run_cache_push_effects_def)
qed (simp add: run_cache_push_effects_def)

lemma cache_push_and_record_ok:
  "core_rows (es_store (cache_push_and_record tk j paths caches limit ms s)) = core_rows (es_store s)
   \<and> ((\<forall>i. \<not> tl_db_fails tk i) \<longrightarrow> has_job (job_get j) (es_store s) \<longrightarrow> effects_fresh (es_store s) \<longrightarrow>
     recorded j (map (\<lambda>c. (''cache-push'', pc_url c)) caches) s (cache_push_and_record tk j paths caches limit ms s))"
proof -
  let ?s1 = "run_cache_push_effects tk j paths caches limit s"
  let ?f = "\<lambda>st. Inr (record_cache_push_ms j ms st)"
  have "recorded j [] ?s1 (db_write tk ?f ?s1)" if "effects_fresh (es_store ?s1)"
    using that by (intro recorded_write) auto
  moreover have "core_rows (es_store (db_write tk ?f ?s1)) = core_rows (es_store ?s1)"
    by (rule core_rows_write) auto
  ultimately show ?thesis
    unfolding cache_push_and_record_def
    using run_cache_push_ok [of tk j paths caches limit s] recorded_fresh recorded_trans by fastforce
qed

lemma record_image_artifacts_ok:
  "core_rows (es_store (record_image_artifacts tk j attr paths roots s)) = core_rows (es_store s)
   \<and> (effects_fresh (es_store s) \<longrightarrow> recorded j [] s (record_image_artifacts tk j attr paths roots s))"
proof -
  define s1 where "s1 = (case paths of [] \<Rightarrow> s | archive # _ \<Rightarrow> (case tl_stat tk archive of Inl e \<Rightarrow> s
    | Inr len \<Rightarrow> db_write tk (\<lambda>st. Inr (record_image_size j len st)) s))"
  obtain gen tr where gen: "generate_sbom tk attr paths roots (es_log s1) = (gen, tr)" by fastforce
  have size: "core_rows (es_store s1) = core_rows (es_store s)"
    "effects_fresh (es_store s) \<Longrightarrow> recorded j [] s s1"
    unfolding s1_def by (auto split: list.split sum.split intro!: core_rows_write recorded_write)
  have upsert: "core_rows (es_store (db_write tk (upsert_sbom j f c m t) s2)) = core_rows (es_store s2)"
    "effects_fresh (es_store s2) \<Longrightarrow> recorded j [] s2 (db_write tk (upsert_sbom j f c m t) s2)" for f c m t s2
    by (rule core_rows_write, erule core_rows_ops) (rule recorded_write, erule other_tables)
  let ?after = "record_image_artifacts tk j attr paths roots s"
  have split: "?after = s1\<lparr>es_log := tr\<rparr> \<or> (\<exists>c m t. ?after = db_write tk (upsert_sbom j ''cyclonedx'' c m t) (s1\<lparr>es_log := tr\<rparr>))"
    by (cases gen) (auto simp: record_image_artifacts_def gen Let_def s1_def [symmetric])
  have "recorded j [] (s1\<lparr>es_log := tr\<rparr>) ?after \<and> core_rows (es_store ?after) = core_rows (es_store s1)"
    if "effects_fresh (es_store s1)"
    using split upsert [where ?s2.0 = "s1\<lparr>es_log := tr\<rparr>"] that by auto
  moreover have "core_rows (es_store ?after) = core_rows (es_store s1)"
    using split upsert(1) [where ?s2.0 = "s1\<lparr>es_log := tr\<rparr>"] by auto
  ultimately show ?thesis
    using size recorded_fresh [OF size(2)] recorded_trans [OF size(2), of "[]" ?after] by simp
qed

lemma no_reported_effect: "\<forall>r\<in>set reps. ep_severity r = Advisory \<Longrightarrow>
    List.map_filter (report_post external_url repo ev attr) reps = []"
  by (induction reps) (auto simp: report_post_def List.map_filter_simps)

lemma store_ok_fresh: "store_ok S st \<Longrightarrow> effects_fresh st"
  by (auto simp: store_ok_def effects_ok_def rows_ok_def effects_fresh_def list_all_iff)

lemma filter_effects: "filter (\<lambda>e. \<not> (member \<and> effect_kind e \<in> {''registry-push'', ''sbom-attach''})) es = (if member then [] else es)"
proof -
  have "effect_kind e \<in> {''registry-push'', ''sbom-attach''}" for e by (cases e) auto
  then show ?thesis by simp
qed

text \<open>C21. The work after a successful build never changes a verdict, and it is accounted for. Whatever
  the tools answer and however many database statements fail, the task posts no forge check and
  changes nothing in the database but the image size and the push time of jobs, SBOMs and effect rows.
  When the statements succeed, exactly one row per binary cache and then, unless the job is one
  slice of a multi-arch image, one row per push and SBOM effect is added in this order, and every one
  of them has ended.\<close>

theorem effects_are_advisory_and_recorded:
  assumes run: "post_build_effects tk url has_provider repo ev spec j caches effects collapsed member ms paths s = (posts, s')"
  shows "posts = [] \<and> core_rows (es_store s') = core_rows (es_store s)
    \<and> ((\<forall>i. \<not> tl_db_fails tk i) \<and> store_ok S (es_store s) \<and> has_job (job_get j) (es_store s) \<and> paths \<noteq> []
      \<longrightarrow> recorded j (map (\<lambda>c. (''cache-push'', pc_url c)) caches
            @ (if member then [] else map (\<lambda>e. (effect_kind e, effect_target e)) effects)) s s')"
proof (cases "paths = [] \<or> (caches = [] \<and> effects = [] \<and> js_image_format spec = None)")
  case True
  then show ?thesis using run store_ok_fresh by (auto simp: post_build_effects_def)
next
  case False
  define s1 where "s1 = (if js_image_format spec \<noteq> None then record_image_artifacts tk j (js_attr_path spec) paths
     (runtime_roots (js_meta spec)) s else s)"
  define s2 where "s2 = (if caches \<noteq> [] then cache_push_and_record tk j paths caches 300 ms s1 else s1)"
  define es where "es = (if member then [] else effects)"
  obtain reps where reps: "run_effects tk j es (job_output_context repo ev spec paths) s2 = (reps, s')"
    "posts = (if es = [] \<or> collapsed \<or> \<not> has_provider then [] else List.map_filter (report_post url repo ev (js_attr_path spec)) reps)"
  proof -
    have "post_build_effects tk url has_provider repo ev spec j caches effects collapsed member ms paths s =
      (if es = [] then ([], s2)
       else let (reps, s3) = run_effects tk j es (job_output_context repo ev spec paths) s2
            in (if collapsed \<or> \<not> has_provider then [] else List.map_filter (report_post url repo ev (js_attr_path spec)) reps, s3))"
      unfolding post_build_effects_def Let_def filter_effects es_def s1_def s2_def using False by simp
    with run that show thesis by (cases "es = []") (auto split: prod.splits)
  qed
  have image: "core_rows (es_store s1) = core_rows (es_store s) \<and> (effects_fresh (es_store s) \<longrightarrow> recorded j [] s s1)"
    unfolding s1_def using record_image_artifacts_ok by simp
  have cache: "core_rows (es_store s2) = core_rows (es_store s1)
      \<and> ((\<forall>i. \<not> tl_db_fails tk i) \<longrightarrow> has_job (job_get j) (es_store s1) \<longrightarrow> effects_fresh (es_store s1) \<longrightarrow>
          recorded j (map (\<lambda>c. (''cache-push'', pc_url c)) caches) s1 s2)"
    unfolding s2_def using cache_push_and_record_ok by simp
  note push = run_effects_ok [OF reps(1)]
  have "posts = []" using reps(2) push no_reported_effect by auto
  moreover have "core_rows (es_store s') = core_rows (es_store s)" using image cache push by simp
  moreover have "recorded j ([] @ map (\<lambda>c. (''cache-push'', pc_url c)) caches @ map (\<lambda>e. (effect_kind e, effect_target e)) es) s s'"
    if live: "\<forall>i. \<not> tl_db_fails tk i" and ok: "store_ok S (es_store s)" and job: "has_job (job_get j) (es_store s)"
  proof (intro recorded_trans)
    show r1: "recorded j [] s s1" using image store_ok_fresh [OF ok] by simp
    have job1: "has_job (job_get j) (es_store s1)" using core_rows_job image job by blast
    show r2: "recorded j (map (\<lambda>c. (''cache-push'', pc_url c)) caches) s1 s2"
      using cache live job1 recorded_fresh [OF r1] by simp
    have "has_job (job_get j) (es_store s2)" using core_rows_job cache job1 by blast
    then show "recorded j (map (\<lambda>e. (effect_kind e, effect_target e)) es) s2 s'"
      using push live recorded_fresh [OF r2] by simp
  qed
  ultimately show ?thesis by (auto simp: es_def)
qed

section \<open>The theorem at a concrete job\<close>

text \<open>An image job with one cache and one registry, whose tools all fail.\<close>

definition failing_tools :: tools where
  "failing_tools = \<lparr>tl_run = (\<lambda>_ _. process.Exited (Some 1) [] ''denied''), tl_read = (\<lambda>_ _. Inl ''gone''),
     tl_stat = (\<lambda>_. Inr 7), tl_write = (\<lambda>_. Inr ()), tl_scan = (\<lambda>_. Inl ''bad tar''), tl_json = (\<lambda>_. Inr ''{}''),
     tl_temp_dir = ''/tmp'', tl_db_fails = (\<lambda>_. False), tl_clock = (\<lambda>n. n)\<rparr>"

definition sample_target :: registry_target where
  "sample_target = \<lparr>tg_target = ''ghcr'', tg_registry_url = ''ghcr.io'', tg_namespace = ''{slug}'',
     tg_auth_path = None, tg_insecure = False\<rparr>"

definition image_spec :: "string \<Rightarrow> string \<Rightarrow> image_format \<Rightarrow> job_spec" where
  "image_spec output system fmt = (sample_spec (output @ ''.'' @ system @ ''.app''))
     \<lparr>js_system := Some system, js_image_format := Some fmt\<rparr>"

definition effect_start :: effect_state where
  "effect_start = \<lparr>es_store = sample_store sample_serde, es_log = [], es_calls = 0\<rparr>"

definition effect_sample :: "check_post list \<times> effect_state" where
  "effect_sample = post_build_effects failing_tools ''https://ci'' True (px_repo sample_ctx) (px_eval sample_ctx)
     (image_spec ''packages'' ''x86_64-linux'' Docker) (JobId 1) [\<lparr>pc_url = ''s3://c'', pc_signing_key_path = ''/k''\<rparr>]
     [RegistryPush sample_target, SbomAttach sample_target] False False 3 [''/nix/store/o''] effect_start"

theorem effects_are_advisory_and_recorded_witness:
  "recorded (JobId 1) [(''cache-push'', ''s3://c''), (''registry-push'', ''ghcr''), (''sbom-attach'', ''ghcr'')] effect_start
     (snd effect_sample)"
proof -
  have "store_ok sample_serde (es_store effect_start)"
    using fresh_store_ok [OF sample_serde_ok sample_ops_valid] by (simp add: sample_run_eq effect_start_def)
  moreover have "has_job (job_get (JobId 1)) (es_store effect_start)"
    by (simp add: effect_start_def has_job_def list_ex_iff sample_store_def store_new_def sample_new_eval_def
        sample_new_job_def sample_new_builder_def store_defs find_repo_def has_repo_def has_eval_def find_builder_def)
  moreover have "\<forall>i. \<not> tl_db_fails failing_tools i" by (simp add: failing_tools_def)
  moreover have "effect_target (RegistryPush sample_target) = ''ghcr''" "effect_target (SbomAttach sample_target) = ''ghcr''"
    by (simp_all add: sample_target_def)
  moreover have run: "effect_sample = (fst effect_sample, snd effect_sample)" by simp
  ultimately show ?thesis
    using effects_are_advisory_and_recorded [OF run [unfolded effect_sample_def], of sample_serde]
    by (simp add: effect_sample_def [symmetric])
qed

section \<open>Boundary behaviour of tags and roots\<close>

text \<open>A root that does not name a store path never reaches the command line, so an attribute of the
  repository cannot smuggle an option into \<open>nix-store\<close>.\<close>

lemma roots_are_store_paths:
  assumes "closure_from_roots tk roots tr = (res, tr')" and "NixRequisites args \<in> set tr'" and "NixRequisites args \<notin> set tr"
  shows "args = roots \<and> list_all (starts_with ''/nix/store/'') args"
  using assms by (auto simp: closure_from_roots_def run_capture_def list_all_iff find_None_iff split: option.splits)

text \<open>A branch that is called \<open>latest\<close> moves the tag \<open>latest\<close> although it is not the default branch.\<close>

lemma branch_named_latest_moves_latest:
  "push_tags ((job_output_context (px_repo sample_ctx) (px_eval sample_ctx) (image_spec ''packages'' ''x86_64-linux'' Docker) [])
     \<lparr>oc_git_ref := ''latest'', oc_default_branch := Some ''main''\<rparr>) = [''latest'', ''sha-000000000000'']"
  by (simp add: sample_ctx_def) code_simp

end
