(* ===== verification/Multiarch.thy ===== *)
theory Multiarch
  imports Effects "HOL-Library.Sublist"
begin

text \<open>
  Images built for several systems: the grouping and the fan-in of \<open>argunix-daemon/src/multiarch.rs\<close>
  and the assembly of an index on a registry (\<open>argunix-effects/src/multiarch.rs\<close>). The theorems show
  that every image job is handled by its own push or by exactly one group, never by both, and that no
  reference on a registry has two writers within an evaluation.
\<close>

section \<open>Groups of image jobs\<close>

text \<open>A \<open>HashMap\<close> of specs is a list in some order of iteration. The \<open>BTreeMap\<close> of groups is filled in that
  order and walked by name.\<close>

definition add_image :: "job_id \<times> job_spec \<Rightarrow> (string, (job_id \<times> job_spec) list) hashmap \<Rightarrow>
    (string, (job_id \<times> job_spec) list) hashmap" where
  "add_image x m =
     (if js_image_format (snd x) \<noteq> None then
        let name = image_segment (js_attr_path (snd x))
        in hm_modify name (\<lambda>v. v @ [x]) (hm_entry name [] m)
      else m)"

definition images_by_name :: "(job_id, job_spec) hashmap \<Rightarrow> (string \<times> (job_id \<times> job_spec) list) list" where
  "images_by_name specs = sort_key fst (fold add_image specs [])"

definition suppressed_push_job_ids :: "(job_id, job_spec) hashmap \<Rightarrow> job_id list" where
  "suppressed_push_job_ids specs =
     concat (filter (\<lambda>ids. 2 \<le> length ids) (map (\<lambda>(name, members). map fst members) (images_by_name specs)))"

record pending_slice =
  ps_job_id :: job_id
  ps_system :: string
  ps_archive :: string
  ps_attr_path :: string
  ps_sbom_runtime_roots :: "string list"

datatype image_group = MultiArch (group_name: string) "pending_slice list" "string list"
  | Clash (group_name: string) job_id string

definition slice_system :: "job_spec \<Rightarrow> string" where
  "slice_system spec = (case js_system spec of Some v \<Rightarrow> v | None \<Rightarrow> ''unknown'')"

definition built_archive :: "(job_id \<Rightarrow> job_record option) \<Rightarrow> job_id \<Rightarrow> string option" where
  "built_archive rec j =
     (case rec j of
        Some r \<Rightarrow> if jr_status r \<in> {JSuccess, JCached} then jr_output_path r else None
      | None \<Rightarrow> None)"

definition slice_of :: "(job_id \<Rightarrow> job_record option) \<Rightarrow> job_id \<times> job_spec \<Rightarrow> pending_slice option" where
  "slice_of rec x =
     map_option (\<lambda>archive. \<lparr>ps_job_id = fst x, ps_system = slice_system (snd x), ps_archive = archive,
        ps_attr_path = js_attr_path (snd x), ps_sbom_runtime_roots = runtime_roots (js_meta (snd x))\<rparr>)
       (built_archive rec (fst x))"

definition is_oci :: "job_id \<times> job_spec \<Rightarrow> bool" where
  "is_oci x = (js_image_format (snd x) = Some Oci)"

definition clash_detail :: "nat \<Rightarrow> nat \<Rightarrow> string" where
  "clash_detail n oci = show_nat n @ '' image jobs share this name across systems, '' @ show_nat oci @
     '' of them `oci` '' @ [CHR 0xE2, CHR 0x80, CHR 0x94] @
     '' a complete multi-arch `oci` image needs a single system output, or expose per-arch `docker` outputs so argunix assembles the index''"

definition classify_group :: "(job_id \<Rightarrow> job_record option) \<Rightarrow> string \<times> (job_id \<times> job_spec) list \<Rightarrow>
    image_group option" where
  "classify_group rec g =
     (let (name, members) = g; oci = length (filter is_oci members) in
      if length members < 2 then None
      else if 1 \<le> oci then
        Some (Clash name (JobId (Min (set (map (job_get \<circ> fst) members)))) (clash_detail (length members) oci))
      else Some (MultiArch name (List.map_filter (slice_of rec) members)
             (map (slice_system \<circ> snd) (filter (\<lambda>x. slice_of rec x = None) members))))"

definition classify :: "(job_id, job_spec) hashmap \<Rightarrow> job_record list \<Rightarrow> image_group list" where
  "classify specs records =
     (let rec = map_of (rev (map (\<lambda>r. (jr_id r, r)) records))
      in List.map_filter (classify_group rec) (images_by_name specs))"

definition multiarch_targets :: "config \<Rightarrow> string \<Rightarrow> string \<Rightarrow> registry_target list" where
  "multiarch_targets cfg forge slug =
     (case List.find (\<lambda>r. rc_forge r = forge \<and> slug_str (rc_slug r) = slug) (cf_repos cfg) of
        None \<Rightarrow> []
      | Some repo \<Rightarrow>
          List.map_filter (\<lambda>name. map_option (target_of_config name) (hm_get (cf_registries cfg) name))
            (rc_push_to_registries repo))"

text \<open>The effects of the jobs of an evaluation, as the worker resolves them.\<close>

definition eval_effects :: "config \<Rightarrow> repo_record \<Rightarrow> effect list" where
  "eval_effects cfg repo =
     (case List.find (\<lambda>r. rc_forge r = rr_forge repo \<and> rc_slug r = rr_slug repo) (cf_repos cfg) of
        None \<Rightarrow> []
      | Some r \<Rightarrow> registry_push_effects cfg r)"

section \<open>Assembling an index\<close>

definition oci_arch :: "string \<Rightarrow> string option" where
  "oci_arch system =
     (if system \<in> {''x86_64-linux'', ''x86_64-darwin''} then Some ''amd64''
      else if system \<in> {''aarch64-linux'', ''aarch64-darwin''} then Some ''arm64''
      else if system = ''armv7l-linux'' then Some ''arm''
      else if system = ''i686-linux'' then Some ''386''
      else if system = ''riscv64-linux'' then Some ''riscv64''
      else None)"

definition branch_of :: "string \<Rightarrow> string option" where
  "branch_of git_ref =
     (case strip_prefix ''refs/heads/'' git_ref of
        Some b \<Rightarrow> Some b
      | None \<Rightarrow> if git_ref = [] \<or> starts_with ''refs/'' git_ref then None else Some git_ref)"

definition image_tags :: "string \<Rightarrow> string \<Rightarrow> string option \<Rightarrow> string list" where
  "image_tags git_ref short default_branch =
     (let tags = (case branch_of git_ref of
            None \<Rightarrow> []
          | Some b \<Rightarrow> sanitize_tag b # (if default_branch = Some b then [''latest''] else []));
          sha_tag = ''sha-'' @ short
      in if sha_tag \<notin> set tags then tags @ [sha_tag] else tags)"

record arch_slice =
  sl_system :: string
  sl_archive :: string
  sl_sbom :: "string option"

definition index_base :: "registry_target \<Rightarrow> string \<Rightarrow> string \<Rightarrow> string" where
  "index_base tg repo_slug img =
     trim_end_slash (tg_registry_url tg) @ ''/''
     @ trim_slashes (replace_all ''{slug}'' repo_slug (tg_namespace tg)) @ ''/'' @ img"

definition push_slice :: "tools \<Rightarrow> registry_target \<Rightarrow> string \<Rightarrow> string \<Rightarrow> string \<Rightarrow> string option \<Rightarrow>
    tool_cmd list \<Rightarrow> (string + string) \<times> tool_cmd list" where
  "push_slice tk tg base archive arch_tag creds trace =
     (let digestfile = path_join (tl_temp_dir tk) (''argunix-ma-'' @ arch_tag @ ''.digest'');
          (res, trace') = run_capture tk (SkopeoSlice digestfile (tg_insecure tg) creds archive
            (''docker://'' @ base @ '':'' @ arch_tag)) ''skopeo copy'' 600 trace
      in (case res of
            Inl e \<Rightarrow> Inl e
          | Inr _ \<Rightarrow>
              (case tl_read tk trace' digestfile of
                 Inl e \<Rightarrow> Inl (''reading skopeo digestfile: '' @ e)
               | Inr s \<Rightarrow> if trim s = [] then Inl ''skopeo produced an empty digest'' else Inr (trim s)), trace'))"

definition create_index :: "tools \<Rightarrow> registry_target \<Rightarrow> string \<Rightarrow> string \<Rightarrow> (string \<times> string) list \<Rightarrow> string option \<Rightarrow>
    tool_cmd list \<Rightarrow> (string + unit) \<times> tool_cmd list" where
  "create_index tk tg base tag entries creds trace =
     (case split_login creds of
        Inl e \<Rightarrow> (Inl e, trace)
      | Inr login \<Rightarrow>
          (let (res, trace') = run_capture tk (OrasIndex (tg_insecure tg) login (base @ '':'' @ tag)
                 (map (\<lambda>(_, digest). base @ ''@'' @ digest) entries)) ''oras manifest index create'' 120 trace
           in (map_sum id (\<lambda>_. ()) res, trace')))"

text \<open>Step 1 pushes the slices; the result is the entries of the index and the number of SBOMs.\<close>

definition attach_slice_sbom :: "tools \<Rightarrow> registry_target \<Rightarrow> string \<Rightarrow> string \<Rightarrow> string \<Rightarrow> string \<Rightarrow> string \<Rightarrow>
    arch_slice \<Rightarrow> string option \<Rightarrow> tool_cmd list \<Rightarrow> nat \<times> tool_cmd list" where
  "attach_slice_sbom tk tg base img short arch digest sl creds trace =
     (case sl_sbom sl of
        None \<Rightarrow> (0, trace)
      | Some sbom \<Rightarrow>
          (let (res, trace') = attach_cyclonedx_referrer tk (base @ ''@'' @ digest)
                 (''argunix-sbom-'' @ img @ ''-'' @ short @ ''-'' @ arch) (tg_insecure tg) creds trace
           in (case res of Inr _ \<Rightarrow> 1 | Inl _ \<Rightarrow> 0, trace')))"

fun push_slices :: "tools \<Rightarrow> registry_target \<Rightarrow> string \<Rightarrow> string \<Rightarrow> string \<Rightarrow> string option \<Rightarrow> arch_slice list \<Rightarrow>
    (string \<times> string) list \<Rightarrow> nat \<Rightarrow> tool_cmd list \<Rightarrow> (string + ((string \<times> string) list \<times> nat)) \<times> tool_cmd list" where
  "push_slices tk tg base img short creds [] entries sboms trace = (Inr (entries, sboms), trace)"
| "push_slices tk tg base img short creds (sl # sls) entries sboms trace =
     (case oci_arch (sl_system sl) of
        None \<Rightarrow> push_slices tk tg base img short creds sls entries sboms trace
      | Some arch \<Rightarrow>
          (let (res, trace1) = push_slice tk tg base (sl_archive sl) (''sha-'' @ short @ ''-'' @ arch) creds trace
           in case res of
                Inl e \<Rightarrow> (Inl e, trace1)
              | Inr digest \<Rightarrow>
                  (let (n, trace2) = attach_slice_sbom tk tg base img short arch digest sl creds trace1
                   in push_slices tk tg base img short creds sls (entries @ [(arch, digest)]) (sboms + n) trace2)))"

fun create_indexes :: "tools \<Rightarrow> registry_target \<Rightarrow> string \<Rightarrow> (string \<times> string) list \<Rightarrow> string option \<Rightarrow> string list \<Rightarrow>
    tool_cmd list \<Rightarrow> (string + unit) \<times> tool_cmd list" where
  "create_indexes tk tg base entries creds [] trace = (Inr (), trace)"
| "create_indexes tk tg base entries creds (tag # tags) trace =
     (let (res, trace') = create_index tk tg base tag entries creds trace
      in case res of
           Inl e \<Rightarrow> (Inl e, trace')
         | Inr _ \<Rightarrow> create_indexes tk tg base entries creds tags trace')"

definition assemble_summary :: "string \<Rightarrow> (string \<times> string) list \<Rightarrow> nat \<Rightarrow> string list \<Rightarrow> string" where
  "assemble_summary base entries sboms tags =
     ''assembled '' @ show_nat (length entries) @ ''-arch index ('' @ join_text ''+'' (map fst entries)
     @ (if 0 < sboms then '', '' @ show_nat sboms @ '' per-arch SBOM'' @ (if sboms = 1 then [] else ''s'') else [])
     @ '') '' @ [CHR 0xE2, CHR 0x86, CHR 0x92] @ '' '' @ base @ '':'' @ join_text '', '' tags"

definition assemble :: "tools \<Rightarrow> registry_target \<Rightarrow> string \<Rightarrow> string \<Rightarrow> string \<Rightarrow> arch_slice list \<Rightarrow> string list \<Rightarrow>
    tool_cmd list \<Rightarrow> (string + string) \<times> tool_cmd list" where
  "assemble tk tg repo_slug img short slices tags trace =
     (let base = index_base tg repo_slug img in
      case read_creds tk tg trace of
        Inl e \<Rightarrow> (Inl e, trace)
      | Inr creds \<Rightarrow>
          (let (res, trace1) = push_slices tk tg base img short creds slices [] 0 trace
           in case res of
                Inl e \<Rightarrow> (Inl e, trace1)
              | Inr (entries, sboms) \<Rightarrow>
                  if entries = [] then (Inl ''no arch slices could be pushed'', trace1)
                  else (let (res', trace2) = create_indexes tk tg base entries creds tags trace1
                        in (map_sum id (\<lambda>_. assemble_summary base entries sboms tags) res', trace2))))"

section \<open>The fan-in\<close>

fun slice_sboms :: "tools \<Rightarrow> pending_slice list \<Rightarrow> tool_cmd list \<Rightarrow> arch_slice list \<times> tool_cmd list" where
  "slice_sboms tk [] trace = ([], trace)"
| "slice_sboms tk (ps # pss) trace =
     (let (gen, trace1) = generate_sbom tk (ps_attr_path ps) [ps_archive ps] (ps_sbom_runtime_roots ps) trace;
          (sls, trace2) = slice_sboms tk pss trace1
      in (\<lparr>sl_system = ps_system ps, sl_archive = ps_archive ps,
           sl_sbom = (case gen of Inr (bytes, _) \<Rightarrow> Some bytes | Inl _ \<Rightarrow> None)\<rparr> # sls, trace2))"

fun create_runs :: "tools \<Rightarrow> string \<Rightarrow> job_id list \<Rightarrow> effect_state \<Rightarrow> int option list \<times> effect_state" where
  "create_runs tk target [] s = ([], s)"
| "create_runs tk target (j # js) s =
     (let (n, s1) = try_create_run tk j ''registry-index'' target s; (ns, s2) = create_runs tk target js s1
      in (n # ns, s2))"

definition finish_runs :: "tools \<Rightarrow> int option list \<Rightarrow> string \<Rightarrow> string \<Rightarrow> effect_state \<Rightarrow> effect_state" where
  "finish_runs tk ns status detail s = fold (\<lambda>n. try_finish_run tk n status detail) ns s"

definition fan_in_target :: "tools \<Rightarrow> string \<Rightarrow> string \<Rightarrow> string list \<Rightarrow> string \<Rightarrow> pending_slice list \<Rightarrow> arch_slice list \<Rightarrow>
    string list \<Rightarrow> registry_target \<Rightarrow> effect_state \<Rightarrow> effect_state" where
  "fan_in_target tk repo_slug short tags name slices arch_slices missing tg s =
     (let (ns, s1) = create_runs tk (tg_target tg) (map ps_job_id slices) s;
          (res, trace) = assemble tk tg repo_slug name short arch_slices tags (es_log s1);
          (status, detail) = (case res of
             Inr summary \<Rightarrow> (''success'', if missing = [] then summary
                else summary @ '' (missing arch: '' @ join_text '', '' missing @ '')'')
           | Inl e \<Rightarrow> (''failure'', e))
      in finish_runs tk ns status detail (s1\<lparr>es_log := trace\<rparr>))"

fun fan_in_group :: "tools \<Rightarrow> string \<Rightarrow> string \<Rightarrow> string list \<Rightarrow> registry_target list \<Rightarrow> image_group \<Rightarrow> effect_state \<Rightarrow>
    effect_state" where
  "fan_in_group tk repo_slug short tags targets (MultiArch name slices missing) s =
     (if slices = [] then s
      else let (arch_slices, trace) = slice_sboms tk slices (es_log s)
           in fold (fan_in_target tk repo_slug short tags name slices arch_slices missing) targets
                (s\<lparr>es_log := trace\<rparr>))"
| "fan_in_group tk repo_slug short tags targets (Clash name anchor detail) s =
     (let (n, s1) = try_create_run tk anchor ''registry-index'' name s
      in try_finish_run tk n ''failure'' detail s1)"

text \<open>The jobs are those of one build phase, and the configuration is the one in force at this moment, which a reload may
  have changed since the phase began.\<close>

definition run_fan_in :: "tools \<Rightarrow> serde \<Rightarrow> eval_id \<Rightarrow> (job_id, job_spec) hashmap \<Rightarrow> config \<Rightarrow> string \<Rightarrow> string \<Rightarrow>
    string option \<Rightarrow> string \<Rightarrow> string \<Rightarrow> effect_state \<Rightarrow> effect_state" where
  "run_fan_in tk S e specs cfg repo_forge repo_slug default_branch git_ref sha s =
     (let s1 = s\<lparr>es_calls := Suc (es_calls s)\<rparr> in
      if tl_db_fails tk (es_calls s) then s1
      else case job_list_by_eval S e (es_store s) of
             Inl err \<Rightarrow> s1
           | Inr records \<Rightarrow>
               (let groups = classify specs records in
                if groups = [] then s1
                else fold (fan_in_group tk repo_slug (short_sha sha)
                       (image_tags git_ref (short_sha sha) default_branch)
                       (multiarch_targets cfg repo_forge repo_slug)) groups s1))"

section \<open>Every image job has one place\<close>

definition in_group :: "string \<Rightarrow> job_id \<times> job_spec \<Rightarrow> bool" where
  "in_group name x = (js_image_format (snd x) \<noteq> None \<and> image_segment (js_attr_path (snd x)) = name)"

lemma add_image_get:
  "map_of (add_image x m) name =
     (if in_group name x then Some ((case map_of m name of None \<Rightarrow> [] | Some v \<Rightarrow> v) @ [x]) else map_of m name)"
  by (auto simp: add_image_def in_group_def hm_entry_def hm_simps Let_def split: option.splits)

lemma fold_add_image:
  "map_of (fold add_image specs []) name =
     (let ms = filter (in_group name) specs in if ms = [] then None else Some ms)"
  by (induction specs rule: rev_induct) (auto simp: add_image_get Let_def)

lemma fold_add_image_ok: "hm_ok (fold add_image specs [])"
proof (induction specs rule: rev_induct)
  case (snoc x specs)
  then show ?case
    by (auto simp: add_image_def hm_entry_def hm_simps Let_def)
qed simp

lemma images_by_name_ok: "distinct (map fst (images_by_name specs))"
  using fold_add_image_ok by (simp add: images_by_name_def distinct_map)

lemma images_by_name_iff:
  "(name, members) \<in> set (images_by_name specs) \<longleftrightarrow> members = filter (in_group name) specs \<and> members \<noteq> []"
proof -
  have "(name, members) \<in> set (images_by_name specs) \<longleftrightarrow> map_of (fold add_image specs []) name = Some members"
    using fold_add_image_ok by (simp add: images_by_name_def)
  then show ?thesis by (auto simp: fold_add_image Let_def)
qed

text \<open>The jobs that share the name of an image job.\<close>

definition namesakes :: "(job_id, job_spec) hashmap \<Rightarrow> string \<Rightarrow> (job_id \<times> job_spec) list" where
  "namesakes specs name = filter (in_group name) specs"

lemma namesakes_two:
  assumes "hm_ok specs"
  shows "2 \<le> length (namesakes specs name) \<and> x \<in> set (namesakes specs name) \<longleftrightarrow>
    x \<in> set (namesakes specs name) \<and> (\<exists>y\<in>set (namesakes specs name). fst y \<noteq> fst x)"
proof -
  let ?ms = "namesakes specs name"
  have d: "distinct (map fst ?ms)" using assms by (simp add: namesakes_def distinct_map_filter)
  have "\<exists>y\<in>set ?ms. fst y \<noteq> fst x" if two: "2 \<le> length ?ms" and x: "x \<in> set ?ms"
  proof (rule ccontr)
    assume "\<not> ?thesis"
    then have "fst ` set ?ms \<subseteq> {fst x}" by auto
    then have "card (fst ` set ?ms) \<le> 1" using card_mono [of "{fst x}"] by fastforce
    moreover have "card (fst ` set ?ms) = length ?ms" using distinct_card [OF d] by simp
    ultimately show False using two by simp
  qed
  moreover have "2 \<le> length ?ms" if "x \<in> set ?ms" "y \<in> set ?ms" "fst y \<noteq> fst x" for y
  proof (rule ccontr)
    assume "\<not> 2 \<le> length ?ms"
    then have "length ?ms \<le> Suc 0" by linarith
    then show False using that by (cases ?ms) auto
  qed
  ultimately show ?thesis by blast
qed

lemma suppressed_iff:
  "j \<in> set (suppressed_push_job_ids specs) \<longleftrightarrow>
     (\<exists>name. 2 \<le> length (namesakes specs name) \<and> j \<in> fst ` set (namesakes specs name))"
proof
  assume "j \<in> set (suppressed_push_job_ids specs)"
  then obtain name members where "(name, members) \<in> set (images_by_name specs)" "2 \<le> length members" "j \<in> fst ` set members"
    by (force simp: suppressed_push_job_ids_def)
  then show "\<exists>name. 2 \<le> length (namesakes specs name) \<and> j \<in> fst ` set (namesakes specs name)"
    by (auto simp: images_by_name_iff namesakes_def)
next
  assume "\<exists>name. 2 \<le> length (namesakes specs name) \<and> j \<in> fst ` set (namesakes specs name)"
  then obtain name where name: "2 \<le> length (namesakes specs name)" "j \<in> fst ` set (namesakes specs name)" by blast
  then have "(name, namesakes specs name) \<in> set (images_by_name specs)"
    by (auto simp: images_by_name_iff namesakes_def)
  then show "j \<in> set (suppressed_push_job_ids specs)"
    using name unfolding suppressed_push_job_ids_def by force
qed

lemma classify_iff:
  "g \<in> set (classify specs records) \<longleftrightarrow>
     (\<exists>name. classify_group (map_of (rev (map (\<lambda>r. (jr_id r, r)) records))) (name, namesakes specs name) = Some g)"
proof -
  have "classify_group rec (name, namesakes specs name) = Some g \<Longrightarrow> (name, namesakes specs name) \<in> set (images_by_name specs)" for rec name
    by (auto simp: classify_group_def images_by_name_iff namesakes_def split: if_splits)
  then show ?thesis
    by (force simp: classify_def Let_def List.map_filter_def images_by_name_iff namesakes_def)
qed

lemma classify_group_name: "classify_group rec (name, members) = Some g \<Longrightarrow> group_name g = name"
  by (auto simp: classify_group_def Let_def split: if_splits)

lemma classify_group_none: "classify_group rec (name, members) = None \<longleftrightarrow> length members < 2"
  by (simp add: classify_group_def Let_def)

lemma classify_distinct: "distinct (map group_name (classify specs records))"
proof -
  have "map group_name (List.map_filter (classify_group rec) gs) = map fst (filter (\<lambda>g. classify_group rec g \<noteq> None) gs)" for rec gs
    by (induction gs) (auto simp: List.map_filter_simps classify_group_name split: option.splits)
  then show ?thesis using images_by_name_ok by (simp add: classify_def Let_def distinct_map_filter)
qed

lemma slices_exact:
  "map ps_job_id (List.map_filter (slice_of rec) xs) = map fst (filter (\<lambda>x. built_archive rec (fst x) \<noteq> None) xs)"
  "\<forall>sl\<in>set (List.map_filter (slice_of rec) xs). built_archive rec (ps_job_id sl) = Some (ps_archive sl)"
  by (induction xs) (auto simp: List.map_filter_simps slice_of_def split: option.splits)

text \<open>What one group says of its members.\<close>

definition group_ok :: "(job_id \<Rightarrow> job_record option) \<Rightarrow> (job_id \<times> job_spec) list \<Rightarrow> image_group \<Rightarrow> bool" where
  "group_ok rec members g =
     (case g of
        Clash name anchor detail \<Rightarrow> (\<exists>x\<in>set members. is_oci x) \<and> anchor \<in> fst ` set members
          \<and> (\<forall>x\<in>set members. job_get anchor \<le> job_get (fst x))
      | MultiArch name slices missing \<Rightarrow> (\<forall>x\<in>set members. js_image_format (snd x) = Some Docker)
          \<and> map ps_job_id slices = map fst (filter (\<lambda>x. built_archive rec (fst x) \<noteq> None) members)
          \<and> (\<forall>sl\<in>set slices. built_archive rec (ps_job_id sl) = Some (ps_archive sl))
          \<and> missing = map (slice_system \<circ> snd) (filter (\<lambda>x. built_archive rec (fst x) = None) members))"

lemma not_oci_docker: "in_group name x \<Longrightarrow> \<not> is_oci x \<Longrightarrow> js_image_format (snd x) = Some Docker"
  by (cases "js_image_format (snd x)") (auto simp: in_group_def is_oci_def intro: image_format.exhaust)

lemma least_anchor:
  assumes "xs \<noteq> []"
  shows "JobId (Min (set (map (job_get \<circ> fst) xs))) \<in> fst ` set xs"
    and "x \<in> set xs \<Longrightarrow> Min (set (map (job_get \<circ> fst) xs)) \<le> job_get (fst x)"
proof -
  have "Min (set (map (job_get \<circ> fst) xs)) \<in> set (map (job_get \<circ> fst) xs)"
    using assms by (intro Min_in) auto
  then obtain y where "y \<in> set xs" "Min (set (map (job_get \<circ> fst) xs)) = job_get (fst y)" by auto
  then show "JobId (Min (set (map (job_get \<circ> fst) xs))) \<in> fst ` set xs" by simp
  show "x \<in> set xs \<Longrightarrow> Min (set (map (job_get \<circ> fst) xs)) \<le> job_get (fst x)" by (rule Min_le) auto
qed

lemma group_exact:
  assumes "classify_group rec (name, namesakes specs name) = Some g"
  shows "group_ok rec (namesakes specs name) g"
proof (cases "filter is_oci (namesakes specs name) = []")
  case True
  then have "\<forall>x\<in>set (namesakes specs name). in_group name x \<and> \<not> is_oci x"
    by (simp add: namesakes_def filter_empty_conv)
  then have "\<forall>x\<in>set (namesakes specs name). js_image_format (snd x) = Some Docker"
    using not_oci_docker by blast
  then show ?thesis
    using assms True slices_exact
    by (auto simp: classify_group_def group_ok_def slice_of_def split: if_splits)
next
  case False
  then have "\<exists>x\<in>set (namesakes specs name). is_oci x" by (auto simp: filter_empty_conv)
  moreover have "namesakes specs name \<noteq> []" using False by auto
  moreover obtain d where "g = Clash name (JobId (Min (set (map (job_get \<circ> fst) (namesakes specs name))))) d"
    using assms False by (auto simp: classify_group_def Let_def Suc_le_eq simp del: set_map split: if_splits)
  ultimately show ?thesis
    using least_anchor [of "namesakes specs name"] by (simp add: group_ok_def del: set_map)
qed

lemma classify_member:
  "g \<in> set (classify specs records) \<longleftrightarrow>
     classify_group (map_of (rev (map (\<lambda>r. (jr_id r, r)) records))) (group_name g, namesakes specs (group_name g)) = Some g"
  using classify_group_name by (fastforce simp: classify_iff)

lemma suppressed_members:
  "set (suppressed_push_job_ids specs) = (\<Union>g\<in>set (classify specs records). fst ` set (namesakes specs (group_name g)))"
proof (intro equalityI subsetI)
  fix j assume "j \<in> set (suppressed_push_job_ids specs)"
  then obtain name where name: "2 \<le> length (namesakes specs name)" "j \<in> fst ` set (namesakes specs name)"
    by (auto simp: suppressed_iff)
  then obtain g where g: "classify_group (map_of (rev (map (\<lambda>r. (jr_id r, r)) records))) (name, namesakes specs name) = Some g"
    using classify_group_none not_less by (metis not_None_eq)
  then show "j \<in> (\<Union>g\<in>set (classify specs records). fst ` set (namesakes specs (group_name g)))"
    using name(2) classify_group_name [OF g] by (auto simp: classify_member intro!: bexI [of _ g])
next
  fix j assume "j \<in> (\<Union>g\<in>set (classify specs records). fst ` set (namesakes specs (group_name g)))"
  then obtain g where g: "g \<in> set (classify specs records)" "j \<in> fst ` set (namesakes specs (group_name g))" by auto
  then have "2 \<le> length (namesakes specs (group_name g))"
    unfolding classify_member using classify_group_none not_less by (metis option.distinct(1))
  then show "j \<in> set (suppressed_push_job_ids specs)" using g(2) suppressed_iff by blast
qed

text \<open>C20. Every image job of a build phase has exactly one place. The jobs whose own push is withheld are
  exactly those that share their image name with another image job. The groups of the fan-in have
  different names and together hold exactly these jobs. A group with an \<open>oci\<close> image is refused, with its least
  job id as anchor; every other group consists of \<open>docker\<close> images, its slices are exactly the members
  whose job row is built and has an output, with that output as archive, and the systems of all other
  members are reported as missing. This holds for every order in which the hash map is walked.\<close>

theorem multiarch_groups_are_exact:
  assumes "hm_ok specs" and rec: "rec = map_of (rev (map (\<lambda>r. (jr_id r, r)) records))"
  shows "(\<forall>j. j \<in> set (suppressed_push_job_ids specs) \<longleftrightarrow>
       (\<exists>name. \<exists>x\<in>set (namesakes specs name). \<exists>y\<in>set (namesakes specs name). fst x = j \<and> fst y \<noteq> j))
    \<and> distinct (map group_name (classify specs records))
    \<and> set (suppressed_push_job_ids specs) = (\<Union>g\<in>set (classify specs records). fst ` set (namesakes specs (group_name g)))
    \<and> (\<forall>g\<in>set (classify specs records). group_ok rec (namesakes specs (group_name g)) g)"
proof (intro conjI allI ballI)
  show "j \<in> set (suppressed_push_job_ids specs) \<longleftrightarrow>
       (\<exists>name. \<exists>x\<in>set (namesakes specs name). \<exists>y\<in>set (namesakes specs name). fst x = j \<and> fst y \<noteq> j)" for j
    using namesakes_two [OF assms(1)] by (auto simp: suppressed_iff image_iff) (metis fst_conv)+
  show "distinct (map group_name (classify specs records))" by (rule classify_distinct)
  show "set (suppressed_push_job_ids specs) = (\<Union>g\<in>set (classify specs records). fst ` set (namesakes specs (group_name g)))"
    unfolding rec by (rule suppressed_members)
  show "group_ok rec (namesakes specs (group_name g)) g"
    if g: "g \<in> set (classify specs records)" for g
    using g unfolding classify_member rec by (rule group_exact)
qed

section \<open>One writer for every reference\<close>

text \<open>\<open>writes R tr tr'\<close>: the commands issued from \<open>tr\<close> to \<open>tr'\<close> write no reference outside \<open>R\<close>.\<close>

definition writes :: "string set \<Rightarrow> tool_cmd list \<Rightarrow> tool_cmd list \<Rightarrow> bool" where
  "writes R tr tr' = (\<exists>cs. tr' = tr @ cs \<and> (\<forall>c\<in>set cs. \<forall>r. written_ref c = Some r \<longrightarrow> r \<in> R))"

lemma writes_refl [simp, intro]: "writes R tr tr"
  by (simp add: writes_def)

lemma writes_trans [trans]: "writes R tr tr1 \<Longrightarrow> writes R tr1 tr2 \<Longrightarrow> writes R tr tr2"
  by (force simp: writes_def)

lemma writes_mono: "writes R tr tr' \<Longrightarrow> R \<subseteq> R' \<Longrightarrow> writes R' tr tr'"
  by (force simp: writes_def)

lemma writes_cmd: "writes R tr (tr @ [c]) \<longleftrightarrow> (\<forall>r. written_ref c = Some r \<longrightarrow> r \<in> R)"
  by (simp add: writes_def)

lemma writes_capture: "run_capture tk c what limit tr = (res, tr') \<Longrightarrow> written_ref c = None \<Longrightarrow> writes R tr tr'"
  by (auto simp: run_capture_def writes_cmd)

lemma writes_generate_sbom:
  assumes "generate_sbom tk attr paths roots tr = (res, tr')"
  shows "writes R tr tr'"
  using assms by (auto simp: generate_sbom_def sbom_store_paths_def closure_from_roots_def run_capture_def Let_def
      writes_cmd split: if_splits option.splits prod.splits)

lemma writes_attach:
  assumes "attach_cyclonedx_referrer tk reference hint insecure creds tr = (res, tr')"
  shows "writes R tr tr'"
  using assms by (auto simp: attach_cyclonedx_referrer_def run_oras_attach_def run_capture_def Let_def
      writes_cmd split: sum.splits prod.splits)

lemma writes_sbom_attach:
  assumes "sbom_attach_run tk tg ctx tr = (res, tr')"
  shows "writes R tr tr'"
proof -
  obtain gen tr1 where gen: "generate_sbom tk (oc_attr_path ctx) (oc_output_paths ctx) (oc_sbom_runtime_roots ctx) tr = (gen, tr1)"
    by fastforce
  have "writes R tr tr1" by (rule writes_generate_sbom [OF gen])
  moreover have "tr' = tr \<or> writes R tr1 tr'"
    using assms gen by (auto simp: sbom_attach_run_def Let_def split: if_splits sum.splits prod.splits intro: writes_attach)
  ultimately show ?thesis using writes_trans by blast
qed

definition image_refs :: "registry_target list \<Rightarrow> string \<Rightarrow> string \<Rightarrow> string set \<Rightarrow> string set" where
  "image_refs tgs slug name tags = {index_base tg slug name @ '':'' @ tag | tg tag. tg \<in> set tgs \<and> tag \<in> tags}"

lemma image_refs_append:
  "image_refs tgs' slug name T \<subseteq> image_refs (tgs @ tgs') slug name T"
  by (auto simp: image_refs_def)

lemma image_refsI: "tg \<in> set tgs \<Longrightarrow> tag \<in> T \<Longrightarrow> index_base tg slug name @ CHR '':'' # tag \<in> image_refs tgs slug name T"
  by (auto simp: image_refs_def)

definition job_refs :: "registry_target list \<Rightarrow> output_context \<Rightarrow> string set" where
  "job_refs tgs ctx = (if oc_image_format ctx = None then {} else
     image_refs tgs (oc_repo_slug ctx) (image_segment (oc_attr_path ctx)) (set (push_tags ctx)))"

lemma redact_base: "redact_dest (dest_base tg (resolve_namespace tg slug) name @ rest) = index_base tg slug name @ rest"
proof -
  have "strip_prefix ''docker://'' (''docker://'' @ s) = Some s" for s by (rule strip_prefix_append)
  then show ?thesis by (simp add: redact_dest_def dest_base_def index_base_def resolve_namespace_def)
qed

lemma writes_push_tags:
  assumes "push_each_tag tk tg fmt archive (dest_base tg (resolve_namespace tg slug) name) creds pushed tags tr = (res, tr')"
    and "tg \<in> set tgs" and "set tags \<subseteq> T"
  shows "writes (image_refs tgs slug name T) tr tr'"
  using assms(1,3)
proof (induction tags arbitrary: pushed tr)
  case (Cons tag tags)
  let ?c = "SkopeoCopy fmt archive (dest_base tg (resolve_namespace tg slug) name @ '':'' @ tag) (tg_insecure tg) creds"
  have "writes (image_refs tgs slug name T) tr (tr @ [?c])"
    using Cons.prems(2) assms(2) by (auto simp: writes_cmd redact_base image_refs_def)
  moreover have "tr' = tr @ [?c] \<or> writes (image_refs tgs slug name T) (tr @ [?c]) tr'"
    using Cons.prems Cons.IH by (auto simp: skopeo_copy_def Let_def split: option.splits)
  ultimately show ?case using writes_trans by blast
qed simp

lemma writes_registry_push:
  assumes "registry_push_run tk tg ctx tr = (res, tr')" and "tg \<in> set tgs"
  shows "writes (job_refs tgs ctx) tr tr'"
  using assms by (auto simp: registry_push_run_def job_refs_def Let_def split: option.splits sum.splits intro: writes_push_tags)

lemma tracking_log [simp]:
  "es_log (snd (try_create_run tk j k g s)) = es_log s" "es_log (try_finish_run tk n status d s) = es_log s"
  "es_log (db_write tk f s) = es_log s"
  by (auto simp: try_create_run_def try_finish_run_def db_write_def Let_def split: sum.splits option.splits)

lemma create_log: "try_create_run tk j k g s = (n, s1) \<Longrightarrow> es_log s1 = es_log s"
  using tracking_log(1) [of tk j k g s] by simp

lemma writes_run_effects:
  assumes "run_effects tk j es ctx s = (reps, s')"
    and "\<forall>tg. RegistryPush tg \<in> set es \<longrightarrow> tg \<in> set tgs"
  shows "writes (job_refs tgs ctx) (es_log s) (es_log s')"
    (is "writes ?R _ _")
  using assms
proof (induction es arbitrary: s reps)
  case (Cons e es)
  obtain r s1 where one: "run_effect tk j ctx e s = (r, s1)" by fastforce
  obtain rs where rest: "run_effects tk j es ctx s1 = (rs, s')"
    using Cons.prems by (auto simp: one split: prod.splits)
  obtain n s0 where create: "try_create_run tk j (effect_kind e) (effect_target e) s = (n, s0)" by fastforce
  obtain out tr where run: "effect_run tk e ctx (es_log s) = (out, tr)" by fastforce
  have "es_log s1 = tr" using one run create_log [OF create] by (auto simp: run_effect_def create)
  moreover have "writes ?R (es_log s) tr"
    using run Cons.prems(2) by (cases e) (auto intro: writes_registry_push writes_sbom_attach)
  ultimately show ?case using writes_trans Cons.IH [OF rest] Cons.prems(2) by auto
qed simp

lemma writes_caches:
  "writes R (es_log s) (es_log (cache_push_and_record tk j paths caches limit ms s))"
proof -
  have one: "writes R (es_log s) (es_log (push_cache_effect tk j paths limit c s))" for c s
    by (auto simp: push_cache_effect_def push_one_to_cache_def Let_def writes_cmd create_log
        split: prod.splits option.splits if_splits)
  have "writes R (es_log s) (es_log (run_cache_push_effects tk j paths caches limit s))"
    unfolding run_cache_push_effects_def
    by (induction caches arbitrary: s) (auto intro: writes_trans [OF one])
  then show ?thesis by (simp add: cache_push_and_record_def)
qed

lemma writes_artifacts: "writes R (es_log s) (es_log (record_image_artifacts tk j attr paths roots s))"
proof -
  let ?s1 = "case paths of [] \<Rightarrow> s | archive # _ \<Rightarrow> (case tl_stat tk archive of Inl e \<Rightarrow> s
    | Inr len \<Rightarrow> db_write tk (\<lambda>st. Inr (record_image_size j len st)) s)"
  obtain gen tr where gen: "generate_sbom tk attr paths roots (es_log ?s1) = (gen, tr)" by fastforce
  have "es_log ?s1 = es_log s" by (simp split: list.split sum.split)
  moreover have "es_log (record_image_artifacts tk j attr paths roots s) = tr"
    using gen by (simp add: record_image_artifacts_def Let_def split: sum.split)
  ultimately show ?thesis using writes_generate_sbom [OF gen] by simp
qed

lemma writes_post_build:
  assumes run: "post_build_effects tk url prov repo ev spec j caches es collapsed member ms paths s = (posts, s')"
    and tgs: "\<forall>tg. RegistryPush tg \<in> set es \<longrightarrow> tg \<in> set tgs"
  shows "writes (if member then {} else job_refs tgs (job_output_context repo ev spec paths)) (es_log s) (es_log s')"
    (is "writes ?R _ _")
proof (cases "paths = [] \<or> (caches = [] \<and> es = [] \<and> js_image_format spec = None)")
  case True
  then show ?thesis using run by (auto simp: post_build_effects_def)
next
  case False
  define s1 where "s1 = (if js_image_format spec \<noteq> None then record_image_artifacts tk j (js_attr_path spec) paths
     (runtime_roots (js_meta spec)) s else s)"
  define s2 where "s2 = (if caches \<noteq> [] then cache_push_and_record tk j paths caches 300 ms s1 else s1)"
  define es' where "es' = (if member then [] else es)"
  obtain reps where run': "run_effects tk j es' (job_output_context repo ev spec paths) s2 = (reps, s')"
  proof -
    have "snd (post_build_effects tk url prov repo ev spec j caches es collapsed member ms paths s) =
      (if es' = [] then s2 else snd (run_effects tk j es' (job_output_context repo ev spec paths) s2))"
      unfolding post_build_effects_def Let_def filter_effects es'_def s1_def s2_def
      using False by (simp split: prod.split)
    with run that show thesis by (cases "es' = []") (auto simp: prod_eq_iff)
  qed
  have "writes ?R (es_log s) (es_log s1)" unfolding s1_def by (simp add: writes_artifacts)
  also have "writes ?R (es_log s1) (es_log s2)" unfolding s2_def by (simp add: writes_caches)
  also have "writes ?R (es_log s2) (es_log s')"
    using writes_run_effects [OF run', of tgs] run' tgs by (cases member) (auto simp: es'_def)
  finally show ?thesis .
qed

text \<open>The tags of a slice and of the index.\<close>

definition arch_tags :: "string \<Rightarrow> string set" where
  "arch_tags short = {''sha-'' @ short @ ''-'' @ arch | system arch. oci_arch system = Some arch}"

lemma redact_docker: "redact_dest (''docker://'' @ x) = x"
  unfolding redact_dest_def strip_prefix_append by simp

lemma writes_push_slice:
  "push_slice tk tg base archive tag creds tr = (r, tr') \<Longrightarrow> writes {base @ '':'' @ tag} tr tr'"
  using redact_docker [of "base @ '':'' @ tag"] by (auto simp: push_slice_def run_capture_def Let_def writes_cmd)

lemma writes_push_slices:
  assumes "push_slices tk tg (index_base tg slug name) name short creds sls entries n tr = (res, tr')"
    and tg: "tg \<in> set tgs" and T: "arch_tags short \<subseteq> T"
  shows "writes (image_refs tgs slug name T) tr tr'"
  using assms(1)
proof (induction sls arbitrary: entries n tr)
  case (Cons sl sls)
  let ?R = "image_refs tgs slug name T"
  show ?case
  proof (cases "oci_arch (sl_system sl)")
    case (Some arch)
    let ?tag = "''sha-'' @ short @ ''-'' @ arch"
    obtain r tr1 where push: "push_slice tk tg (index_base tg slug name) (sl_archive sl) ?tag creds tr = (r, tr1)" by fastforce
    have "?tag \<in> T" using Some T by (auto simp: arch_tags_def)
    then have one: "writes ?R tr tr1"
      using tg by (intro writes_mono [OF writes_push_slice [OF push]]) (auto simp: image_refs_def)
    have "tr' = tr1 \<or> writes ?R tr1 tr'"
    proof (cases r)
      case (Inr digest)
      obtain m tr2 where att: "attach_slice_sbom tk tg (index_base tg slug name) name short arch digest sl creds tr1 = (m, tr2)" by fastforce
      have "writes ?R tr1 tr2"
        using att by (auto simp: attach_slice_sbom_def Let_def split: option.splits prod.splits intro: writes_attach)
      moreover have "writes ?R tr2 tr'"
        using Cons.prems Cons.IH Some push Inr att by simp
      ultimately show ?thesis using writes_trans by blast
    qed (use Cons.prems Some push in simp)
    with one show ?thesis using writes_trans by blast
  qed (use Cons in simp)
qed simp

lemma writes_create_indexes:
  assumes "create_indexes tk tg (index_base tg slug name) entries creds tags tr = (res, tr')"
    and tg: "tg \<in> set tgs" and "set tags \<subseteq> T"
  shows "writes (image_refs tgs slug name T) tr tr'"
  using assms(1,3)
proof (induction tags arbitrary: tr)
  case (Cons tag tags)
  let ?R = "image_refs tgs slug name T"
  obtain r tr1 where one: "create_index tk tg (index_base tg slug name) tag entries creds tr = (r, tr1)" by fastforce
  have "writes ?R tr tr1"
    using one tg Cons.prems(2) by (auto simp: create_index_def run_capture_def Let_def writes_cmd intro: image_refsI split: sum.splits)
  moreover have "tr' = tr1 \<or> writes ?R tr1 tr'"
    using Cons.prems Cons.IH by (auto simp: one split: sum.splits)
  ultimately show ?case using writes_trans by blast
qed simp

lemma writes_assemble:
  assumes run: "assemble tk tg slug name short sls tags tr = (res, tr')" and tg: "tg \<in> set tgs"
  shows "writes (image_refs tgs slug name (arch_tags short \<union> set tags)) tr tr'" (is "writes ?R _ _")
proof (cases "read_creds tk tg tr")
  case (Inr creds)
  obtain r tr1 where push: "push_slices tk tg (index_base tg slug name) name short creds sls [] 0 tr = (r, tr1)" by fastforce
  have "writes ?R tr tr1" by (rule writes_push_slices [OF push tg]) simp
  moreover have "tr' = tr1 \<or> writes ?R tr1 tr'"
    using run Inr push tg by (auto simp: assemble_def Let_def split: sum.splits if_splits prod.splits intro: writes_create_indexes)
  ultimately show ?thesis using writes_trans by blast
qed (use run in \<open>simp add: assemble_def\<close>)

lemma writes_slice_sboms: "slice_sboms tk pss tr = (sls, tr') \<Longrightarrow> writes R tr tr'"
proof (induction pss arbitrary: tr sls)
  case (Cons ps pss)
  obtain gen tr1 where gen: "generate_sbom tk (ps_attr_path ps) [ps_archive ps] (ps_sbom_runtime_roots ps) tr = (gen, tr1)" by fastforce
  obtain sls' where "slice_sboms tk pss tr1 = (sls', tr')"
    using Cons.prems by (auto simp: gen split: prod.splits)
  then show ?case using writes_trans [OF writes_generate_sbom [OF gen]] Cons.IH by blast
qed simp

lemma create_runs_log: "create_runs tk target js s = (ns, s') \<Longrightarrow> es_log s' = es_log s"
  by (induction js arbitrary: s ns) (auto simp: create_log split: prod.splits)

lemma finish_runs_log [simp]: "es_log (finish_runs tk ns status d s) = es_log s"
  unfolding finish_runs_def by (induction ns arbitrary: s) auto

lemma writes_fan_in_target:
  assumes "tg \<in> set tgs"
  shows "writes (image_refs tgs slug name (arch_tags short \<union> set tags)) (es_log s)
    (es_log (fan_in_target tk slug short tags name slices sls missing tg s))"
proof -
  obtain ns s1 where create: "create_runs tk (tg_target tg) (map ps_job_id slices) s = (ns, s1)" by fastforce
  obtain res tr where run: "assemble tk tg slug name short sls tags (es_log s1) = (res, tr)" by fastforce
  have "es_log (fan_in_target tk slug short tags name slices sls missing tg s) = tr"
    by (simp add: fan_in_target_def create run split: sum.split)
  then show ?thesis using writes_assemble [OF run assms] create_runs_log [OF create] by simp
qed

lemma writes_fan_in_group:
  "writes (image_refs tgs slug (group_name g) (arch_tags short \<union> set tags)) (es_log s)
     (es_log (fan_in_group tk slug short tags tgs g s))"
proof (cases g)
  case (MultiArch name slices missing)
  obtain sls tr where sboms: "slice_sboms tk slices (es_log s) = (sls, tr)" by fastforce
  have "writes (image_refs tgs slug name (arch_tags short \<union> set tags)) (es_log s)
      (es_log (fold (fan_in_target tk slug short tags name slices sls missing) tgs' s))" if "set tgs' \<subseteq> set tgs" for tgs' s
    using that by (induction tgs' arbitrary: s) (auto intro: writes_trans [OF writes_fan_in_target])
  from this [of tgs "s\<lparr>es_log := tr\<rparr>"] show ?thesis
    using MultiArch writes_trans [OF writes_slice_sboms [OF sboms]] by (simp add: sboms)
next
  case (Clash name anchor detail)
  then show ?thesis by (auto simp: create_log split: prod.splits)
qed

lemma writes_fan_in:
  assumes fan: "run_fan_in tk S e specs cfg forge slug dflt git_ref sha s = s'"
  shows "\<exists>records. writes (\<Union>g\<in>set (classify specs records). image_refs (multiarch_targets cfg forge slug) slug (group_name g)
      (arch_tags (short_sha sha) \<union> set (image_tags git_ref (short_sha sha) dflt))) (es_log s) (es_log s')"
proof -
  let ?tgs = "multiarch_targets cfg forge slug" and ?tags = "image_tags git_ref (short_sha sha) dflt"
  let ?R = "\<lambda>gs. \<Union>g\<in>set gs. image_refs ?tgs slug (group_name g) (arch_tags (short_sha sha) \<union> set ?tags)"
  have walk: "writes (?R gs) (es_log s) (es_log (fold (fan_in_group tk slug (short_sha sha) ?tags ?tgs) gs' s))"
    if "set gs' \<subseteq> set gs" for gs gs' s
    using that
  proof (induction gs' arbitrary: s)
    case (Cons g gs')
    have "writes (?R gs) (es_log s) (es_log (fan_in_group tk slug (short_sha sha) ?tags ?tgs g s))"
      using Cons.prems by (intro writes_mono [OF writes_fan_in_group]) auto
    then show ?case using Cons writes_trans by auto
  qed simp
  show ?thesis
  proof (cases "job_list_by_eval S e (es_store s)")
    case (Inr records)
    have "writes (?R (classify specs records)) (es_log s) (es_log s')"
      using fan Inr walk [of "classify specs records" "classify specs records" "s\<lparr>es_calls := Suc (es_calls s)\<rparr>"]
      by (auto simp: run_fan_in_def Let_def split: if_splits)
    then show ?thesis by blast
  qed (use fan in \<open>auto simp: run_fan_in_def Let_def\<close>)
qed

section \<open>References of different images\<close>

text \<open>Where a target keeps the images of a repository. Two targets are apart when neither location lies
  properly inside the other.\<close>

definition location :: "registry_target \<Rightarrow> string \<Rightarrow> string" where
  "location tg slug = index_base tg slug []"

definition locations_apart :: "registry_target list \<Rightarrow> string \<Rightarrow> bool" where
  "locations_apart tgs slug = list_all (\<lambda>tg. list_all (\<lambda>tg'.
     prefix (location tg slug) (location tg' slug) \<longrightarrow> location tg slug = location tg' slug) tgs) tgs"

lemma base_location: "index_base tg slug name = location tg slug @ name"
  by (simp add: location_def index_base_def)

lemma first_split:
  "x \<notin> set xs \<Longrightarrow> x \<notin> set ys \<Longrightarrow> xs @ x # as = ys @ x # bs \<Longrightarrow> as = bs"
proof (induction xs arbitrary: ys)
  case (Cons a xs)
  then show ?case by (cases ys) auto
qed (auto simp: Cons_eq_append_conv)

lemma colon_split:
  assumes "a @ CHR '':'' # t = b @ CHR '':'' # u" and "CHR '':'' \<notin> set t" and "CHR '':'' \<notin> set u"
  shows "a = b"
  using first_split [of "CHR '':''" "rev t" "rev u" "rev a" "rev b"] arg_cong [OF assms(1), of rev] assms(2,3) by simp

lemma image_refs_disjoint:
  assumes "locations_apart tgs slug" and "name \<noteq> name'"
    and "\<forall>t\<in>T. CHR '':'' \<notin> set t" and "\<forall>t\<in>T'. CHR '':'' \<notin> set t"
  shows "image_refs tgs slug name T \<inter> image_refs tgs slug name' T' = {}"
proof (rule ccontr)
  assume "\<not> ?thesis"
  then obtain tg tg' t t' where tg: "tg \<in> set tgs" "tg' \<in> set tgs" and t: "t \<in> T" "t' \<in> T'"
    and eq: "index_base tg slug name @ CHR '':'' # t = index_base tg' slug name' @ CHR '':'' # t'"
    by (fastforce simp: image_refs_def)
  have bases: "location tg slug @ name = location tg' slug @ name'"
    using colon_split [OF eq] assms(3,4) t by (simp add: base_location)
  then have "prefix (location tg slug) (location tg' slug) \<or> prefix (location tg' slug) (location tg slug)"
    by (metis prefixI prefix_same_cases)
  then have "location tg slug = location tg' slug"
    using assms(1) tg unfolding locations_apart_def list_all_iff by metis
  with bases assms(2) show False by simp
qed

lemma sanitize_no_colon: "CHR '':'' \<notin> set (sanitize_tag raw)"
proof -
  have "CHR '':'' \<notin> set (tag_char p)" for p
  proof (cases "list_all (\<lambda>c. is_ascii_alphanumeric c \<or> c = 95 \<or> c = 46 \<or> c = 45) (chars p)")
    case True
    then have "\<forall>v\<in>set (chars p). v < 128"
      by (auto simp: list_all_iff is_ascii_alphanumeric_def is_ascii_digit_def)
    then have "chars p = map byte p" by (simp only: chars_ascii_iff chars_ascii)
    then have "\<forall>c\<in>set p. byte c \<noteq> (58::nat)"
      using True by (auto simp: list_all_iff is_ascii_alphanumeric_def is_ascii_digit_def)
    then show ?thesis using True by (auto simp: tag_char_def)
  qed (simp add: tag_char_def)
  then have "CHR '':'' \<notin> set (concat (map tag_char (spans raw)))" by auto
  then show ?thesis by (auto simp: sanitize_tag_def Let_def dest: in_set_takeD)
qed

lemma short_sha_subset: "set (short_sha sha) \<subseteq> set sha"
  by (auto simp: short_sha_def str_prefix_def dest: in_set_takeD split: if_splits)

lemma sha_no_colon: "sha_new raw = Inr sha \<Longrightarrow> CHR '':'' \<notin> set (sha_str sha)"
  using sha_new_canonical [of raw sha] by (auto simp: list_all_iff is_ascii_hexdigit_def is_ascii_digit_def)

lemma oci_arch_in: "oci_arch system \<in> {Some ''amd64'', Some ''arm64'', Some ''arm'', Some ''386'', Some ''riscv64'', None}"
  unfolding oci_arch_def by (simp only: insert_iff simp_thms split: if_split)

lemma oci_arch_no_colon: "oci_arch system = Some arch \<Longrightarrow> CHR '':'' \<notin> set arch"
  using oci_arch_in [of system] by auto

lemma tags_no_colon:
  assumes "CHR '':'' \<notin> set sha"
  shows "oc_sha ctx = sha \<Longrightarrow> tag \<in> set (push_tags ctx) \<Longrightarrow> CHR '':'' \<notin> set tag"
    and "tag \<in> arch_tags (short_sha sha) \<union> set (image_tags git_ref (short_sha sha) dflt) \<Longrightarrow> CHR '':'' \<notin> set tag"
proof -
  have short: "CHR '':'' \<notin> set (short_sha sha)" using short_sha_subset assms by blast
  show "oc_sha ctx = sha \<Longrightarrow> tag \<in> set (push_tags ctx) \<Longrightarrow> CHR '':'' \<notin> set tag"
    using short sanitize_no_colon by (auto simp: push_tags_def Let_def split: if_splits option.splits)
  show "tag \<in> arch_tags (short_sha sha) \<union> set (image_tags git_ref (short_sha sha) dflt) \<Longrightarrow> CHR '':'' \<notin> set tag"
  proof (elim UnE)
    assume "tag \<in> arch_tags (short_sha sha)"
    then obtain system arch where "oci_arch system = Some arch" "tag = ''sha-'' @ short_sha sha @ ''-'' @ arch"
      by (auto simp: arch_tags_def)
    then show ?thesis using short oci_arch_no_colon [of system arch] by simp
  next
    assume "tag \<in> set (image_tags git_ref (short_sha sha) dflt)"
    then show ?thesis
      using short sanitize_no_colon by (auto simp: image_tags_def Let_def split: if_splits option.splits)
  qed
qed

lemma find_slug: "List.find (\<lambda>r. rc_forge r = f \<and> slug_str (rc_slug r) = slug_str sl) rs =
    List.find (\<lambda>r. rc_forge r = f \<and> rc_slug r = sl) rs"
  using slug.expand by (metis (mono_tags))

lemma eval_effects_targets:
  "RegistryPush tg \<in> set (eval_effects cfg repo) \<Longrightarrow> tg \<in> set (multiarch_targets cfg (rr_forge repo) (slug_str (rr_slug repo)))"
  by (auto simp: eval_effects_def multiarch_targets_def registry_push_effects_def find_slug Let_def split: option.splits)

text \<open>The references that are written between two states.\<close>

definition new_refs :: "effect_state \<Rightarrow> effect_state \<Rightarrow> string set" where
  "new_refs s s' = set (List.map_filter written_ref (drop (length (es_log s)) (es_log s')))"

lemma writes_new_refs: "writes R (es_log s) (es_log s') \<Longrightarrow> new_refs s s' \<subseteq> R"
  by (auto simp: writes_def new_refs_def List.map_filter_def)

lemma own_push_name:
  assumes "(j, spec) \<in> set specs" and "j \<notin> set (suppressed_push_job_ids specs)" and "js_image_format spec \<noteq> None"
    and "(j', spec') \<in> set specs" and "j' \<noteq> j" and "js_image_format spec' \<noteq> None" and "hm_ok specs"
  shows "image_segment (js_attr_path spec) \<noteq> image_segment (js_attr_path spec')"
proof
  assume "image_segment (js_attr_path spec) = image_segment (js_attr_path spec')"
  then have here: "(j, spec) \<in> set (namesakes specs (image_segment (js_attr_path spec)))"
    and "(j', spec') \<in> set (namesakes specs (image_segment (js_attr_path spec)))"
    using assms by (auto simp: namesakes_def in_group_def)
  then have "2 \<le> length (namesakes specs (image_segment (js_attr_path spec)))"
    using namesakes_two [OF assms(7), of "image_segment (js_attr_path spec)" "(j, spec)"] assms(5) by (metis fst_conv)
  then have "j \<in> set (suppressed_push_job_ids specs)"
    using suppressed_iff here by (metis fst_conv image_eqI)
  with assms(2) show False by simp
qed

lemma own_push_not_grouped:
  assumes "(j, spec) \<in> set specs" and "j \<notin> set (suppressed_push_job_ids specs)" and "js_image_format spec \<noteq> None"
    and g: "g \<in> set (classify specs records)"
  shows "image_segment (js_attr_path spec) \<noteq> group_name g"
proof
  assume "image_segment (js_attr_path spec) = group_name g"
  then have "(j, spec) \<in> set (namesakes specs (group_name g))"
    using assms by (auto simp: namesakes_def in_group_def)
  then have "j \<in> set (suppressed_push_job_ids specs)"
    using g unfolding suppressed_members [of specs records] by force
  with assms(2) show False by simp
qed

definition own_tags :: "repo_record \<Rightarrow> eval_record \<Rightarrow> job_spec \<Rightarrow> string list \<Rightarrow> string set" where
  "own_tags repo ev spec paths = set (push_tags (job_output_context repo ev spec paths))"

lemma own_refs:
  assumes "post_build_effects tk url prov repo ev spec j caches (eval_effects cfg repo) collapsed member ms paths s = (posts, s')"
  shows "new_refs s s' \<subseteq> (if member \<or> js_image_format spec = None then {} else
     image_refs (multiarch_targets cfg (rr_forge repo) (slug_str (rr_slug repo)) @ rest) (slug_str (rr_slug repo))
       (image_segment (js_attr_path spec)) (own_tags repo ev spec paths))"
proof -
  let ?tgs = "multiarch_targets cfg (rr_forge repo) (slug_str (rr_slug repo)) @ rest"
  have "new_refs s s' \<subseteq> (if member then {} else job_refs ?tgs (job_output_context repo ev spec paths))"
    using writes_new_refs [OF writes_post_build [OF assms, of ?tgs]] eval_effects_targets by auto
  then show ?thesis by (auto simp: job_refs_def own_tags_def job_output_context_def split: if_splits)
qed

text \<open>C19. No reference on a registry has two writers within one build phase. Take the jobs \<open>specs\<close> of a build phase,
  the configuration \<open>cfg\<close> with which it started and the configuration \<open>cfg'\<close> in force when its fan-in runs
  (it may have been reloaded), and let none of the registries of the repository in either lie inside another.
  Whatever the tools answer and whatever the database does,
  the tasks that follow the builds of two different jobs never write the same image reference,
  and no job writes a reference that the multi-arch fan-in writes, so that neither can replace the
  other's image, tag by tag. The bound to one phase is needed: a phase resumed after a crash holds only the
  jobs that were still queued, see \<open>resumed_sibling_is_alone\<close> below.\<close>

theorem image_references_have_one_writer:
  assumes specs: "hm_ok specs" "(j, spec) \<in> set specs" "(j', spec') \<in> set specs" "j \<noteq> j'"
    and sha: "sha_new raw = Inr (er_sha ev)"
    and apart: "locations_apart (multiarch_targets cfg (rr_forge repo) (slug_str (rr_slug repo))
       @ multiarch_targets cfg' (rr_forge repo) (slug_str (rr_slug repo))) (slug_str (rr_slug repo))"
    and job: "post_build_effects tk url prov repo ev spec j caches (eval_effects cfg repo) collapsed
       (j \<in> set (suppressed_push_job_ids specs)) ms paths s = (posts, s1)"
    and job': "post_build_effects tk' url' prov' repo ev spec' j' caches' (eval_effects cfg repo) collapsed'
       (j' \<in> set (suppressed_push_job_ids specs)) ms' paths' s' = (posts', s1')"
    and fan: "run_fan_in tk'' S e specs cfg' (rr_forge repo) (slug_str (rr_slug repo)) (rr_default_branch repo)
       (er_git_ref ev) (sha_str (er_sha ev)) s'' = s2''"
  shows "new_refs s s1 \<inter> new_refs s' s1' = {} \<and> new_refs s s1 \<inter> new_refs s'' s2'' = {}"
proof -
  let ?slug = "slug_str (rr_slug repo)"
  let ?tgs = "multiarch_targets cfg (rr_forge repo) ?slug @ multiarch_targets cfg' (rr_forge repo) ?slug"
  let ?T = "arch_tags (short_sha (sha_str (er_sha ev))) \<union>
    set (image_tags (er_git_ref ev) (short_sha (sha_str (er_sha ev))) (rr_default_branch repo))"
  have colon: "CHR '':'' \<notin> set (sha_str (er_sha ev))" by (rule sha_no_colon [OF sha])
  have tag: "\<forall>t\<in>own_tags repo ev spec paths. CHR '':'' \<notin> set t" for spec paths
    unfolding own_tags_def by (intro ballI tags_no_colon(1) [OF colon]) (simp_all add: job_output_context_def)
  have fan_tag: "\<forall>t\<in>?T. CHR '':'' \<notin> set t" using tags_no_colon(2) [OF colon] by blast
  note refs = own_refs [OF job, of "multiarch_targets cfg' (rr_forge repo) ?slug"]
    and refs' = own_refs [OF job', of "multiarch_targets cfg' (rr_forge repo) ?slug"]
  obtain records where fan_refs: "new_refs s'' s2'' \<subseteq> (\<Union>g\<in>set (classify specs records). image_refs ?tgs ?slug (group_name g) ?T)"
    using writes_fan_in [OF fan] writes_new_refs image_refs_append by (meson SUP_mono' order_trans)
  show ?thesis
  proof (cases "j \<in> set (suppressed_push_job_ids specs) \<or> js_image_format spec = None")
    case True
    then show ?thesis using refs by auto
  next
    case False
    have "new_refs s s1 \<inter> new_refs s' s1' = {}"
    proof (cases "j' \<in> set (suppressed_push_job_ids specs) \<or> js_image_format spec' = None")
      case True
      then show ?thesis using refs' by auto
    next
      case here: False
      have "image_segment (js_attr_path spec) \<noteq> image_segment (js_attr_path spec')"
        using False here specs own_push_name [of j spec specs j' spec'] by auto
      from image_refs_disjoint [OF apart this tag tag] show ?thesis
        using refs refs' False here by (simp, blast)
    qed
    moreover have "image_refs ?tgs ?slug (image_segment (js_attr_path spec)) (own_tags repo ev spec paths)
        \<inter> image_refs ?tgs ?slug (group_name g) ?T = {}" if "g \<in> set (classify specs records)" for g
      using own_push_not_grouped [OF specs(2) _ _ that] False image_refs_disjoint [OF apart _ tag fan_tag] by blast
    then have "new_refs s s1 \<inter> new_refs s'' s2'' = {}" using refs fan_refs False by (simp, blast)
    ultimately show ?thesis by blast
  qed
qed

section \<open>The theorems at a concrete evaluation\<close>

text \<open>An image for two systems, of which one was built, and a third image of its own name.\<close>

definition image_specs :: "(job_id, job_spec) hashmap" where
  "image_specs = [(JobId 2, image_spec ''packages'' ''aarch64-linux'' Docker),
     (JobId 3, (image_spec ''packages'' ''x86_64-linux'' Oci)\<lparr>js_attr_path := ''packages.x86_64-linux.tool''\<rparr>),
     (JobId 1, image_spec ''packages'' ''x86_64-linux'' Docker)]"

definition built_record :: "job_id \<Rightarrow> job_status \<Rightarrow> job_record" where
  "built_record j status = \<lparr>jr_id = j, jr_eval_id = EvalId 1, jr_attr_path = ''x'', jr_drv_path = None,
     jr_system = ''x86_64-linux'', jr_started_at = None, jr_finished_at = None, jr_status = status, jr_log_path = None,
     jr_output_path = Some ''/nix/store/tar'', jr_builder_id = None, jr_interrupt_count = 0, jr_failure_reason = None,
     jr_phase_metrics = no_metrics, jr_main_program = None, jr_outputs = [], jr_image_size_bytes = None\<rparr>"

lemma image_specs_ok: "hm_ok image_specs"
  by (simp add: image_specs_def)

lemma sample_namesakes: "map fst (namesakes image_specs ''app'') = [JobId 2, JobId 1]"
  "map fst (namesakes image_specs ''tool'') = [JobId 3]"
  by code_simp+

definition image_records :: "job_record list" where
  "image_records = [built_record (JobId 1) JCached, built_record (JobId 2) JFailure]"

theorem multiarch_groups_are_exact_witness:
  "JobId 1 \<in> set (suppressed_push_job_ids image_specs) \<and> JobId 3 \<notin> set (suppressed_push_job_ids image_specs)
   \<and> list_all (\<lambda>g. group_ok (map_of (rev (map (\<lambda>r. (jr_id r, r)) image_records))) (namesakes image_specs (group_name g)) g)
        (classify image_specs image_records)"
proof -
  note exact = multiarch_groups_are_exact [OF image_specs_ok refl, of image_records]
  have "fst ` set (namesakes image_specs ''app'') = {JobId 2, JobId 1}"
    using arg_cong [OF sample_namesakes(1), of set] by simp
  then have app: "JobId 1 \<in> fst ` set (namesakes image_specs ''app'')" "JobId 2 \<in> fst ` set (namesakes image_specs ''app'')"
    by (simp_all only: insert_iff simp_thms)
  obtain x where x: "JobId 1 = fst x" "x \<in> set (namesakes image_specs ''app'')" using app(1) by (rule imageE)
  obtain y where y: "JobId 2 = fst y" "y \<in> set (namesakes image_specs ''app'')" using app(2) by (rule imageE)
  have "JobId 1 \<in> set (suppressed_push_job_ids image_specs)"
  proof -
    have "fst y \<noteq> JobId 1" by (simp flip: y(1))
    then show ?thesis using conjunct1 [OF exact] x(1) [symmetric] x(2) y(2) by blast
  qed
  moreover have "JobId 3 \<notin> set (suppressed_push_job_ids image_specs)" by code_simp
  ultimately show ?thesis using exact unfolding list_all_iff by blast
qed

definition image_repo :: repo_config where
  "image_repo = \<lparr>rc_slug = Slug ''a/b'', rc_forge = ''github'', rc_watched_branches = [''main''], rc_build_prs = False,
     rc_pr_allowlist = [], rc_clone = \<lparr>cl_method = Https, cl_ssh_key_path = None, cl_persistent = False\<rparr>,
     rc_eval = \<lparr>eo_memory_max = None, eo_timeout_seconds = None, eo_non_flake_max_depth = None, eo_allow_network = None\<rparr>,
     rc_collapsed_check_threshold = None, rc_weight = 1, rc_max_age_days = None, rc_push_to_registries = [''ghcr'']\<rparr>"

definition image_config :: config where
  "image_config = sample_config\<lparr>cf_repos := [image_repo],
     cf_registries := [(''ghcr'', \<lparr>gr_url = ''ghcr.io'', gr_namespace = ''{slug}'', gr_auth_path = None, gr_insecure = False\<rparr>)]\<rparr>"

lemma image_config_targets:
  "multiarch_targets image_config ''github'' ''a/b'' = [sample_target]"
  "eval_effects image_config (px_repo sample_ctx) = [RegistryPush sample_target, SbomAttach sample_target]"
  by (simp_all add: multiarch_targets_def eval_effects_def registry_push_effects_def image_config_def image_repo_def
      target_of_config_def sample_target_def sample_ctx_def List.map_filter_simps)

text \<open>The configuration after a reload that moved the repository to another registry.\<close>

definition reloaded_config :: config where
  "reloaded_config = image_config\<lparr>
     cf_registries := [(''ghcr'', \<lparr>gr_url = ''quay.io'', gr_namespace = ''{slug}'', gr_auth_path = None, gr_insecure = False\<rparr>)]\<rparr>"

lemma reloaded_targets: "multiarch_targets reloaded_config ''github'' ''a/b'' = [sample_target\<lparr>tg_registry_url := ''quay.io''\<rparr>]"
  by (simp add: multiarch_targets_def reloaded_config_def image_config_def image_repo_def
      target_of_config_def sample_target_def List.map_filter_simps)

definition working_tools :: tools where
  "working_tools = failing_tools\<lparr>tl_run := (\<lambda>_ _. process.Exited (Some 0) [] []), tl_read := (\<lambda>_ _. Inr ''sha256:0'')\<rparr>"

definition image_start :: effect_state where
  "image_start = \<lparr>es_store = store_new, es_log = [], es_calls = 0\<rparr>"

definition image_task :: "job_id \<Rightarrow> check_post list \<times> effect_state" where
  "image_task j = post_build_effects working_tools ''https://ci'' True (px_repo sample_ctx) (px_eval sample_ctx)
     (the (hm_get image_specs j)) j [] (eval_effects image_config (px_repo sample_ctx)) False
     (j \<in> set (suppressed_push_job_ids image_specs)) 0 [''/nix/store/tar''] image_start"

definition image_fan_in :: effect_state where
  "image_fan_in = run_fan_in working_tools sample_serde (EvalId 1) image_specs reloaded_config ''github'' ''a/b''
     (rr_default_branch (px_repo sample_ctx)) ''main'' (sha_str sample_sha) image_start"

lemma run_effect_log: "es_log (snd (run_effect tk j ctx e s)) = snd (effect_run tk e ctx (es_log s))"
  by (simp add: run_effect_def create_log split: prod.split)

lemma artifacts_log: "es_log (record_image_artifacts tk j attr paths roots s) = snd (generate_sbom tk attr paths roots (es_log s))"
  by (auto simp: record_image_artifacts_def Let_def split: prod.split sum.split list.split)

lemma image_task_tool: "''ghcr.io/a/b/tool:main'' \<in> new_refs image_start (snd (image_task (JobId 3)))"
proof -
  let ?spec = "the (hm_get image_specs (JobId 3))" and ?paths = "[''/nix/store/tar'']"
  let ?ctx = "job_output_context (px_repo sample_ctx) (px_eval sample_ctx) ?spec ?paths"
  have gen: "snd (generate_sbom working_tools (js_attr_path ?spec) ?paths (runtime_roots (js_meta ?spec)) []) = []"
    by code_simp
  have "snd (sbom_attach_run working_tools sample_target ?ctx (snd (registry_push_run working_tools sample_target ?ctx []))) =
      snd (registry_push_run working_tools sample_target ?ctx [])"
    by code_simp
  moreover have "List.map_filter written_ref (snd (registry_push_run working_tools sample_target ?ctx [])) =
      [''ghcr.io/a/b/tool:main'', ''ghcr.io/a/b/tool:sha-000000000000'']"
    by code_simp
  moreover have "JobId 3 \<notin> set (suppressed_push_job_ids image_specs)" by code_simp
  moreover have "js_image_format ?spec \<noteq> None" by code_simp
  ultimately show ?thesis
    using gen by (simp add: image_task_def image_config_targets post_build_effects_def new_refs_def image_start_def Let_def
        run_effect_log artifacts_log case_prod_beta)
qed

theorem image_references_have_one_writer_witness:
  "''ghcr.io/a/b/tool:main'' \<in> new_refs image_start (snd (image_task (JobId 3)))
     - (new_refs image_start (snd (image_task (JobId 1))) \<union> new_refs image_start image_fan_in)"
proof -
  let ?repo = "px_repo sample_ctx"
  have sha: "sha_new (replicate 40 CHR ''0'') = Inr (er_sha (px_eval sample_ctx))"
    by code_simp
  have repo: "rr_forge ?repo = ''github''" "slug_str (rr_slug ?repo) = ''a/b''" "er_git_ref (px_eval sample_ctx) = ''main''"
    "er_sha (px_eval sample_ctx) = sample_sha"
    by (simp_all add: sample_ctx_def)
  have apart: "locations_apart (multiarch_targets image_config (rr_forge ?repo) (slug_str (rr_slug ?repo))
      @ multiarch_targets reloaded_config (rr_forge ?repo) (slug_str (rr_slug ?repo))) (slug_str (rr_slug ?repo))"
    unfolding repo image_config_targets reloaded_targets by code_simp
  have task: "image_task j = (fst (image_task j), snd (image_task j))" for j by simp
  have ids: "(JobId 3, the (hm_get image_specs (JobId 3))) \<in> set image_specs"
    "(JobId 1, the (hm_get image_specs (JobId 1))) \<in> set image_specs" "JobId 3 \<noteq> JobId 1"
    by (simp_all add: image_specs_def)
  have fan: "run_fan_in working_tools sample_serde (EvalId 1) image_specs reloaded_config (rr_forge ?repo)
      (slug_str (rr_slug ?repo)) (rr_default_branch ?repo) (er_git_ref (px_eval sample_ctx))
      (sha_str (er_sha (px_eval sample_ctx))) image_start = image_fan_in"
    by (simp add: image_fan_in_def repo)
  show ?thesis
    using image_references_have_one_writer [OF image_specs_ok ids sha apart
        task [of "JobId 3", unfolded image_task_def] task [of "JobId 1", unfolded image_task_def] fan] image_task_tool
    unfolding image_task_def by blast
qed

section \<open>Boundary behaviour\<close>

text \<open>The fan-in publishes an index under the same tags as a push, up to a repeated \<open>latest\<close>.\<close>

lemma index_tags_are_push_tags:
  "set (image_tags (oc_git_ref ctx) (short_sha (oc_sha ctx)) (oc_default_branch ctx)) = set (push_tags ctx)"
proof -
  have "output_branch ctx = branch_of (oc_git_ref ctx)" by (simp add: output_branch_def branch_of_def)
  then show ?thesis
    by (cases "branch_of (oc_git_ref ctx)"; cases "oc_default_branch ctx")
      (auto simp: image_tags_def push_tags_def is_default_branch_def Let_def)
qed

lemma index_tags_repeat_latest:
  "image_tags ''latest'' ''0'' (Some ''latest'') = [''latest'', ''latest'', ''sha-0'']"
  by code_simp

text \<open>A phase that is resumed holds only the jobs that were still queued. When one of two siblings was finished by
  then, the other is alone: it is no longer withheld, pushes the tags of the index itself, and no index is assembled.\<close>

lemma resumed_sibling_is_alone:
  "list_all (\<lambda>j. j \<in> set (suppressed_push_job_ids image_specs)) [JobId 1, JobId 2]
   \<and> suppressed_push_job_ids (filter (\<lambda>(j, _). j = JobId 2) image_specs) = []
   \<and> classify (filter (\<lambda>(j, _). j = JobId 2) image_specs) [built_record (JobId 1) JSuccess, built_record (JobId 2) JSuccess] = []"
  by code_simp

text \<open>Two images of one system with the same name form a group, and both slices go to the same tag.\<close>

lemma same_system_forms_a_group:
  "map (case_image_group (\<lambda>name slices missing. map ps_system slices) (\<lambda>_ _ _. []))
     (classify [(JobId 1, image_spec ''packages'' ''x86_64-linux'' Docker), (JobId 2, image_spec ''dockerImages'' ''x86_64-linux'' Docker)]
        [built_record (JobId 1) JSuccess, built_record (JobId 2) JSuccess]) = [[''x86_64-linux'', ''x86_64-linux'']]"
  by code_simp

end
