(* ===== verification/Spec2Isabelle.thy ===== *)
theory Spec2Isabelle
  imports Dag_Props Registry_Props Store_Samples Retention Webhook Worker_Props Worker_Resume Build_One Startup Multiarch
begin

text \<open>
  argunix is a continuous-integration server for Nix flakes, written in Rust. A forge sends a webhook; the
  server checks it, writes an evaluation row and queues it; the worker clones and evaluates the flake, writes one
  job row per attribute, and builds the jobs on a pool of connected builders; statuses go back to the
  forge; a background task prunes old evaluations. This development models that path from the signed request
  to the final check, with the scheduler, the registry of builders and the database it rests on.

  \<^bold>\<open>Parts and theories\<close> (source files are relative to \<open>src/\<close>)

  \<^item> Shared vocabulary. \<open>Prelude\<close>: Rust's \<open>HashMap\<close> as an association list whose keys are distinct, so that
    iteration order is explicit (\<open>hm_get\<close>, \<open>hm_insert\<close>, \<open>hm_modify\<close>, sums over entries), and the collections \<open>hm_simps\<close>
    and \<open>status_simps\<close>. \<open>Domain\<close>, \<open>Names\<close>: \<open>argunix-domain\<close>: ids, statuses and their texts, the validated names.
    \<open>Text\<close>: the parts of \<open>str\<close> and \<open>Path\<close> the program uses. \<open>F64\<close>: binary64 addition and reciprocal with
    rounding, as far as the virtual clock of the scheduler needs them.
  \<^item> Scheduler, \<open>argunix-sched\<close>. \<open>Wfq\<close>: \<open>wfq.rs\<close>. \<open>Sched\<close>: the trait \<open>ScheduleStrategy\<close> as a record of functions,
    histories of calls, the locale \<open>lawful_strategy\<close> (what a client may rely on), and the loop of
    \<open>argunix-daemon/src/dispatch_driver.rs\<close>, proved once in the locale. \<open>Flat\<close>: \<open>flat.rs\<close>, with its interpretation.
    \<open>Dag\<close>, \<open>Dag_Inv\<close>, \<open>Dag_Ops\<close>, \<open>Dag_Methods\<close>, \<open>Dag_Props\<close>: \<open>dag.rs\<close>, the invariant of the step graph, each method on
    it, the interpretation and the theorems over histories. \<open>Dag_Account\<close>: what a complete run does to each job.
  \<^item> Builder registry, \<open>argunix-builders/src/registry.rs\<close>. \<open>Registry\<close>: connections, candidate selection with the
    native tier, lifecycle channels, phases, statistics. \<open>Registry_Props\<close>: reachable states and the theorems.
  \<^item> Persistence, \<open>argunix-store\<close>. \<open>Store\<close>: tables, constraints and row decoding; \<open>Store_Ops\<close>: one definition per method
    of the eight traits; \<open>Store_Inv\<close>: database integrity over all calls; \<open>Store_Props\<close>: the locales \<open>verdict_table\<close> (a row,
    once final, keeps its verdict; interpreted for evaluations, jobs, builder keys and revocations) and \<open>status_cell\<close>
    (what a write of a status does; interpreted for the worker's writes), and the theorems; \<open>Store_Samples\<close>: a
    concrete codec in place of \<open>serde_json\<close>.
  \<^item> Evaluator, \<open>argunix-eval\<close>: theory \<open>Evaluator\<close>. Configuration, \<open>argunix-config\<close>: theory \<open>Config\<close>. Retention,
    \<open>argunix-daemon/src/gc.rs\<close>: theory \<open>Retention\<close>.
  \<^item> Webhook intake, \<open>argunix-forge\<close> (types) and \<open>argunix-web\<close> (\<open>webhook.rs\<close>, \<open>policy.rs\<close>, \<open>coalesce.rs\<close>, \<open>pause.rs\<close>,
    \<open>cancel.rs\<close>): theory \<open>Webhook\<close>.
  \<^item> Worker, \<open>argunix-daemon/src/worker.rs\<close>. \<open>Process\<close>: \<open>spawn\<close> and \<open>process\<close>, from the channel to the start of the
    build phase. \<open>Worker\<close>, \<open>Worker_Props\<close>: job rows, checks, and \<open>run_build_phase\<close> over a \<open>DagStrategy\<close>. \<open>Worker_Resume\<close>:
    reading the jobs back. \<open>Startup\<close>: the recovery of \<open>main.rs\<close>, with the deletion of repositories that are no
    longer configured. \<open>Build_One\<close>: the build of one job, its dispatch loop and waits. \<open>Pool\<close>: one attempt on one builder
    (\<open>dispatch_pool_build\<close>) with \<open>dispatcher.rs\<close>.
  \<^item> After a build. \<open>Effects\<close>: \<open>argunix-effects\<close>, \<open>argunix-daemon/src/effects.rs\<close> and \<open>argunix-build/src/push.rs\<close>: pushes to
    caches and registries and SBOMs, as commands to tools whose answers are a parameter. \<open>Multiarch\<close>: the fan-in of
    images built for several systems, \<open>argunix-daemon/src/multiarch.rs\<close> and \<open>argunix-effects/src/multiarch.rs\<close>.

  \<^bold>\<open>How the code is rendered\<close>

  Structs are records, enums datatypes, \<open>Result\<close> a sum with the error on the left, \<open>Option\<close> an option. A panic
  (\<open>unwrap\<close>, \<open>expect\<close>, an index) is the value \<open>None\<close> or a constructor of its own, so that its absence is a theorem.
  Counters that wrap keep their width (\<open>mod 2 ^ 32\<close>, \<open>mod 2 ^ 64\<close>), except the \<open>u64\<close> counters of the scheduler that only
  ever grow by one (the dispatch tokens of both strategies, the sequence number of the queue): they are unbounded, and agree
  with the code up to $2^{64}$ increments. Database integers are \<open>int\<close> with the clamps of the
  source. Async code is a function of a script: the list of what the outside does at each \<open>await\<close> (events, clock,
  cancel tokens, and functions for what other tasks write). A \<open>biased\<close> select takes its arms in order. Theorems
  quantify over all scripts; where the code needs others to behave, the condition is a named hypothesis (\<open>rely\<close>,
  \<open>keeps_eval\<close>, \<open>leaves_build\<close>, \<open>quiet_turn\<close>). Code outside the repository is a parameter: \<open>serde_json\<close> (\<open>serde\<close>,
  \<open>spec_codec\<close>, with round-trip laws), a forge (\<open>provider\<close>), processes and files (\<open>eval_world\<close>), the SSH transport, the
  earliest time of \<open>chrono\<close> (\<open>ge_time_floor\<close>).

  \<^bold>\<open>What is proved\<close>

  \<^item> Scheduling: a step runs only after its inputs succeeded, once, and a failure skips exactly what depends on it; no
    method panics; the driver drains both strategies; the queue serves the least virtual time independently of
    hash order, and no repository starves, in double arithmetic.
  \<^item> Registry: the candidate list is exact for every spill grace; no emulated builder within the grace period; a departing
    builder wakes its workers; a stale handler cannot drop its successor; the statistics ring is a window over what was
    pushed under the builder's name since it registered.
  \<^item> Database: every history of calls keeps all constraints and decodable rows; the first verdict is final;
    keys stay pinned; deletes are exact; records round-trip.
  \<^item> Intake: a webhook starts an evaluation only when it is signed and authorised; a push supersedes exactly the
    evaluations of its branch; the coalescing pool refines a specification that remembers everything.
  \<^item> Worker: no evaluation is left behind before its build phase; the build phase ends and gives each job one
    verdict and the commit the right check; a build's verdict is the one in its row; a connection that breaks before a
    cancel or a timeout is never a failed build; an attempt leaves no trace; a restart hands on every unfinished evaluation
    whose repository is still configured and deletes the others, and resuming restores the specs.
  \<^item> After a build: effects change no verdict, post no check and leave one ended row each; every image job is pushed by
    itself or by exactly one group, and no image reference has two writers within a build phase.
  \<^item> Evaluation, configuration, retention: evaluation is all or an error; the closure search ends and is exact; a loaded
    configuration has no dangling name; retention deletes only what has ended, and a tick panics exactly on an age that
    \<open>chrono\<close> cannot subtract and otherwise ends and enforces its limits.

  Lemmas also record what the code does against its comments, for example \<open>cancel_before_first_build_is_green\<close>,
  \<open>cancelled_drain_ignores_deadline\<close>, \<open>cancelled_attempt_is_an_error\<close>, \<open>dag_gate_needs_topological_order\<close>,
  \<open>dag_cancel_drops_running_alias\<close>, \<open>stranded_evaluation_is_sent_twice\<close>, \<open>branch_named_latest_moves_latest\<close>, \<open>same_system_forms_a_group\<close>,
  \<open>resumed_sibling_is_alone\<close>, \<open>late_heartbeat_outlives_builder\<close>, \<open>slot_of_old_connection_frees_new_one\<close> and \<open>builder_remove_blocked_by_jobs\<close>.

  \<^bold>\<open>Bounds and fuel\<close>

  Loops over data (cascade, promotion, closure search, size pass) are total functions with a measure. Loops that wait
  on the outside recurse on their script, and a script that is too short gives a pending result; the liveness
  theorems say how long is long enough: one productive turn per job plus one for the build phase, one
  completion per unstarted step for the driver.

  \<^bold>\<open>Not modelled\<close>

  The \<open>agentflow\<close> crates (a separate prototype that the server does not use); the HTML pages, badges and static files of
  \<open>argunix-web\<close>; the command line, the control socket and the start-up wiring of \<open>main.rs\<close> besides its recovery; the SSH server, host keys and
  the byte streams of closure transfers; the builder agent, which drives local \<open>nix\<close> processes; the HTTP clients and payload
  parsers of the forge providers; the image registry server (\<open>argunix-registry\<close>) and the walk through the layers of an
  image archive; the rendering of build logs (\<open>argunix-nom\<close>), the log files and live-log taps. Outside
  retention, the effects and the recovery at start-up, database calls fail in the model only for constraint violations and undecodable rows.
\<close>

end
